(* ===== verification/Prelude.thy ===== *)
theory Prelude
  imports Main "HOL-Library.Word"
begin

unbundle bit_operations_syntax

text \<open>
  Shared vocabulary of the MiniC-OS development: the fixed-width integer types of
  \<^verbatim>\<open>src/types.h\<close>, byte buffers with bounds-checked windows, NUL-terminated C strings,
  little-endian and big-endian fields of packed structs, and the first-fit scan over
  a fixed slot table that most kernel tables use.

  Convention: an operation of the model returns \<open>None\<close> exactly where the C code would read
  or write outside an array it was given; every error value of the code itself is an ordinary
  result.
\<close>

section \<open>Fixed-width integers\<close>

type_synonym u8 = "8 word"
type_synonym u16 = "16 word"
type_synonym u32 = "32 word"
type_synonym u64 = "64 word"

named_theorems kernel_bounds \<comment> \<open>table lengths and capacities kept by the operations\<close>
named_theorems kernel_frame \<comment> \<open>what an operation leaves unchanged\<close>

lemma unat_less_u8 [simp]: "unat (x :: u8) < 256"
  using unsigned_less [of x] by simp

lemma unat_less_u32 [simp]: "unat (x :: u32) < 4294967296"
  using unsigned_less [of x] by simp

lemma unat_less_u64 [simp]: "unat (x :: u64) < 18446744073709551616"
  using unsigned_less [of x] by simp

lemma unat_ucast_mod: "unat (ucast (x :: 'a::len word) :: 'b::len word) = unat x mod 2 ^ LENGTH('b)"
  by (simp add: unsigned_ucast_eq take_bit_eq_mod)

lemma unat_ucast_small:
  "unat (x :: 'a::len word) < 2 ^ LENGTH('b) \<Longrightarrow> unat (ucast x :: 'b::len word) = unat x"
  by (simp add: unat_ucast_mod)

lemma unat_u32_u64 [simp]: "unat (ucast (x :: u32) :: u64) = unat x"
  by (rule unat_ucast_small) (rule less_trans [OF unat_less_u32], simp)

lemma bit_u8_u32: "bit (ucast (x :: u8) :: u32) i \<longleftrightarrow> i < 8 \<and> bit x i"
  using bit_imp_le_length [of x i] by (auto simp: bit_simps)

lemma unat_u8_u32 [simp]: "unat (ucast (x :: u8) :: u32) = unat x"
  by (rule unat_ucast_small) (rule less_trans [OF unat_less_u8], simp)

lemma u64_eq_iff: "a = b \<longleftrightarrow> (\<forall>n < 64. bit a n = bit (b :: u64) n)"
  by (auto intro: bit_word_eqI)

lemma unat_plus_one: "x < y \<Longrightarrow> unat (x + 1) = Suc (unat (x :: 'a::len word))"
proof -
  assume "x < y"
  then have "unat x < unat y" by (simp add: word_less_nat_alt)
  moreover have "unat y < 2 ^ LENGTH('a)" by (rule unsigned_less)
  ultimately have "Suc (unat x) < 2 ^ LENGTH('a)" by linarith
  then show ?thesis by (simp add: unat_word_ariths)
qed

lemma plus_one_le: "x < y \<Longrightarrow> x + 1 \<le> (y :: 'a::len word)"
  by (simp add: word_le_nat_alt word_less_nat_alt unat_plus_one)

section \<open>First-fit scan\<close>

text \<open>
  \<^verbatim>\<open>while (i < SLOTS) { if (P(table[i])) return i; i = i + 1; }\<close>: the least index whose
  entry satisfies the predicate.
\<close>

fun first_index :: "('a \<Rightarrow> bool) \<Rightarrow> 'a list \<Rightarrow> nat option" where
  "first_index P [] = None"
| "first_index P (x # xs) = (if P x then Some 0 else map_option Suc (first_index P xs))"

lemma first_index_None: "first_index P xs = None \<longleftrightarrow> (\<forall>x \<in> set xs. \<not> P x)"
  by (induction xs) auto

lemma first_index_SomeD:
  "first_index P xs = Some i \<Longrightarrow> i < length xs \<and> P (xs ! i) \<and> (\<forall>j < i. \<not> P (xs ! j))"
proof (induction xs arbitrary: i)
  case (Cons x xs)
  show ?case
  proof (cases "P x")
    case True
    with Cons.prems show ?thesis by simp
  next
    case False
    with Cons.prems obtain k where k: "first_index P xs = Some k" and i: "i = Suc k"
      by auto
    from Cons.IH [OF k] False show ?thesis
      by (auto simp: i less_Suc_eq_0_disj)
  qed
qed simp

lemma first_index_SomeI:
  "i < length xs \<Longrightarrow> P (xs ! i) \<Longrightarrow> (\<And>j. j < i \<Longrightarrow> \<not> P (xs ! j)) \<Longrightarrow> first_index P xs = Some i"
proof (induction xs arbitrary: i)
  case (Cons x xs)
  show ?case
  proof (cases i)
    case 0
    with Cons.prems show ?thesis by simp
  next
    case (Suc k)
    from Cons.prems(3) [of 0] Suc have "\<not> P x" by simp
    moreover have "first_index P xs = Some k"
    proof (rule Cons.IH)
      show "k < length xs" using Cons.prems(1) Suc by simp
      show "P (xs ! k)" using Cons.prems(2) Suc by simp
      show "\<not> P (xs ! j)" if "j < k" for j
        using Cons.prems(3) [of "Suc j"] that Suc by simp
    qed
    ultimately show ?thesis using Suc by simp
  qed
qed simp

lemma first_index_Some_ex: "first_index P xs = Some i \<Longrightarrow> \<exists>x \<in> set xs. P x"
  using first_index_SomeD [of P xs i] nth_mem [of i xs] by metis

lemma first_index_exists: "x \<in> set xs \<Longrightarrow> P x \<Longrightarrow> \<exists>i. first_index P xs = Some i"
  using first_index_None [of P xs] by (cases "first_index P xs") auto

lemma first_index_unique:
  assumes "i < length xs" "P (xs ! i)" and "\<And>j. j < length xs \<Longrightarrow> P (xs ! j) \<Longrightarrow> j = i"
  shows "first_index P xs = Some i"
proof (rule first_index_SomeI)
  show "\<not> P (xs ! j)" if "j < i" for j
    using assms(1) assms(3) [of j] that by (metis less_imp_not_eq less_trans)
qed (fact assms)+

lemma first_index_cong: "(\<And>x. x \<in> set xs \<Longrightarrow> P x = Q x) \<Longrightarrow> first_index P xs = first_index Q xs"
  by (induction xs) auto

lemma first_index_map: "first_index P (map f xs) = first_index (\<lambda>x. P (f x)) xs"
  by (induction xs) simp_all

text \<open>The C functions return the index as an \<^verbatim>\<open>int\<close>, with \<open>-1\<close> for "no such slot".\<close>

definition slot_result :: "nat option \<Rightarrow> int" where
  "slot_result r = (case r of None \<Rightarrow> -1 | Some i \<Rightarrow> int i)"

lemma slot_result_simps [simp]:
  "slot_result None = -1" "slot_result (Some i) = int i"
  by (simp_all add: slot_result_def)

lemma slot_result_neg [simp]: "slot_result r < 0 \<longleftrightarrow> r = None"
  by (cases r) auto

lemma length_filter_update:
  assumes "i < length xs" and "\<not> P (xs ! i)" and "P y"
  shows "length (filter P (xs[i := y])) = Suc (length (filter P xs))"
proof -
  from assms(1) have xs: "xs = take i xs @ xs ! i # drop (Suc i) xs"
    by (rule id_take_nth_drop)
  have "filter P (xs[i := y]) = filter P (take i xs) @ filter P [y] @ filter P (drop (Suc i) xs)"
    using assms(1) by (simp add: upd_conv_take_nth_drop)
  moreover have "filter P xs = filter P (take i xs) @ filter P [xs ! i] @ filter P (drop (Suc i) xs)"
    by (subst xs) simp
  ultimately show ?thesis using assms(2,3) by simp
qed

lemma length_filter_update_drop:
  assumes "i < length xs" and "P (xs ! i)" and "\<not> P y"
  shows "Suc (length (filter P (xs[i := y]))) = length (filter P xs)"
proof -
  from assms(1) have xs: "xs = take i xs @ xs ! i # drop (Suc i) xs"
    by (rule id_take_nth_drop)
  have "filter P (xs[i := y]) = filter P (take i xs) @ filter P [y] @ filter P (drop (Suc i) xs)"
    using assms(1) by (simp add: upd_conv_take_nth_drop)
  moreover have "filter P xs = filter P (take i xs) @ filter P [xs ! i] @ filter P (drop (Suc i) xs)"
    by (subst xs) simp
  ultimately show ?thesis using assms(2,3) by simp
qed

section \<open>Counted loops\<close>

text \<open>
  \<^verbatim>\<open>while (i < n) { body(i); i = i + 1; }\<close> over an explicit index list: \<open>loopM\<close> runs every
  iteration, \<open>loopE\<close> leaves the loop with the result \<open>False\<close> of the first body that returns it.
\<close>

fun loopM :: "('i \<Rightarrow> 's \<Rightarrow> 's option) \<Rightarrow> 'i list \<Rightarrow> 's \<Rightarrow> 's option" where
  "loopM f [] s = Some s"
| "loopM f (i # js) s = Option.bind (f i s) (loopM f js)"

fun loopE :: "('i \<Rightarrow> 's \<Rightarrow> ('s \<times> bool) option) \<Rightarrow> 'i list \<Rightarrow> 's \<Rightarrow> ('s \<times> bool) option" where
  "loopE f [] s = Some (s, True)"
| "loopE f (i # js) s =
     Option.bind (f i s) (\<lambda>(s', ok). if ok then loopE f js s' else Some (s', False))"

lemma loopM_inv:
  assumes "P s" and "\<And>i s. i \<in> set js \<Longrightarrow> P s \<Longrightarrow> \<exists>s'. f i s = Some s' \<and> P s'"
  shows "\<exists>s'. loopM f js s = Some s' \<and> P s'"
  using assms
proof (induction js arbitrary: s)
  case (Cons i js)
  from Cons.prems(2) [of i s] Cons.prems(1) obtain s1 where "f i s = Some s1" "P s1" by auto
  with Cons.IH [of s1] Cons.prems(2) show ?case by auto
qed simp

lemma loopE_inv:
  assumes "P s" and "\<And>i s. i \<in> set js \<Longrightarrow> P s \<Longrightarrow> \<exists>s' ok. f i s = Some (s', ok) \<and> P s'"
  shows "\<exists>s' ok. loopE f js s = Some (s', ok) \<and> P s'"
  using assms
proof (induction js arbitrary: s)
  case (Cons i js)
  from Cons.prems(2) [of i s] Cons.prems(1) obtain s1 ok where "f i s = Some (s1, ok)" "P s1" by auto
  with Cons.IH [of s1] Cons.prems(2) show ?case by (cases ok) auto
qed auto

section \<open>Slot tables\<close>

text \<open>
  The allocation contract of the fixed tables (kernel objects, handles, pipes, events,
  mutexes, timers, copy-on-write entries, \<open>\<dots>\<close>): scan for the first entry that is not in
  use, initialise it in place, return its index, or \<open>-1\<close> with the table unchanged. Every table
  of the kernel interprets this locale on its own allocator.
\<close>

locale slot_table =
  fixes used :: "'s \<Rightarrow> bool"
    and init :: "'a \<Rightarrow> 's \<Rightarrow> 's"
    and alloc :: "'a \<Rightarrow> 's list \<Rightarrow> 's list \<times> int"
  assumes alloc_scan: "alloc a ss =
      (case first_index (\<lambda>s. \<not> used s) ss of
         None \<Rightarrow> (ss, -1)
       | Some i \<Rightarrow> (ss[i := init a (ss ! i)], int i))"
    and used_init: "used (init a s)"
begin

lemma alloc_full_iff: "snd (alloc a ss) = -1 \<longleftrightarrow> (\<forall>s \<in> set ss. used s)"
  by (auto simp: alloc_scan first_index_None dest: first_index_Some_ex split: option.splits)

lemma alloc_full: "(\<forall>s \<in> set ss. used s) \<Longrightarrow> alloc a ss = (ss, -1)"
  using first_index_None [of "\<lambda>s. \<not> used s" ss] by (simp add: alloc_scan)

lemma alloc_length: "length (fst (alloc a ss)) = length ss"
  by (simp add: alloc_scan split: option.splits)

lemma alloc_range: "snd (alloc a ss) \<noteq> -1 \<Longrightarrow>
    0 \<le> snd (alloc a ss) \<and> snd (alloc a ss) < int (length ss)"
  by (auto simp: alloc_scan dest: first_index_SomeD first_index_Some_ex split: option.splits)

lemma alloc_fresh:
  assumes "alloc a ss = (ss', int i)"
  shows "i < length ss" "\<not> used (ss ! i)" "ss' = ss[i := init a (ss ! i)]" "used (ss' ! i)"
proof -
  from assms obtain k where k: "first_index (\<lambda>s. \<not> used s) ss = Some k"
    and "int k = int i" and ss': "ss' = ss[k := init a (ss ! k)]"
    by (auto simp: alloc_scan split: option.splits)
  then have ki: "k = i" by simp
  from first_index_SomeD [OF k] show "i < length ss" "\<not> used (ss ! i)" by (simp_all add: ki)
  then show "ss' = ss[i := init a (ss ! i)]" "used (ss' ! i)"
    by (simp_all add: ss' ki used_init)
qed

lemma alloc_others:
  assumes "alloc a ss = (ss', r)" and "int j \<noteq> r"
  shows "ss' ! j = ss ! j"
  using assms by (auto simp: alloc_scan split: option.splits)

lemma alloc_count:
  assumes "alloc a ss = (ss', r)" and "r \<noteq> -1"
  shows "length (filter used ss') = Suc (length (filter used ss))"
proof -
  from assms obtain k where k: "first_index (\<lambda>s. \<not> used s) ss = Some k"
    and ss': "ss' = ss[k := init a (ss ! k)]"
    by (auto simp: alloc_scan split: option.splits)
  from first_index_SomeD [OF k] show ?thesis
    by (simp add: ss' length_filter_update used_init)
qed

text \<open>Two successive allocations never hand out the same slot.\<close>

lemma alloc_twice_distinct:
  assumes "alloc a ss = (ss', r)" "r \<noteq> -1" and "alloc b ss' = (ss'', r')" "r' \<noteq> -1"
  shows "r \<noteq> r'"
proof
  assume "r = r'"
  from alloc_range [of a ss] assms(1,2) obtain i where i: "r = int i"
    by (metis fst_conv nat_0_le snd_conv)
  have "used (ss' ! i)" using alloc_fresh(4) assms(1) i by blast
  moreover have "\<not> used (ss' ! i)"
    using alloc_fresh(2) assms(3) \<open>r = r'\<close> i by blast
  ultimately show False by simp
qed

end

section \<open>Tables indexed by a C int\<close>

text \<open>
  \<^verbatim>\<open>table[i]\<close> for an index of type \<^verbatim>\<open>int\<close> that the code has not checked: \<open>None\<close> outside the
  table.
\<close>

definition slot_at :: "'a list \<Rightarrow> int \<Rightarrow> 'a option" where
  "slot_at xs i = (if 0 \<le> i \<and> i < int (length xs) then Some (xs ! nat i) else None)"

definition slot_put :: "'a list \<Rightarrow> int \<Rightarrow> 'a \<Rightarrow> 'a list option" where
  "slot_put xs i v = (if 0 \<le> i \<and> i < int (length xs) then Some (xs[nat i := v]) else None)"

lemma slot_at_int [simp]: "slot_at xs (int i) = (if i < length xs then Some (xs ! i) else None)"
  by (simp add: slot_at_def)

lemma slot_put_int [simp]: "slot_put xs (int i) v = (if i < length xs then Some (xs[i := v]) else None)"
  by (simp add: slot_put_def)

lemma slot_at_SomeD: "slot_at xs i = Some x \<Longrightarrow> \<exists>k. i = int k \<and> k < length xs \<and> x = xs ! k"
  by (auto simp: slot_at_def split: if_splits intro!: exI [of _ "nat i"])

lemma slot_put_SomeD: "slot_put xs i v = Some ys \<Longrightarrow> \<exists>k. i = int k \<and> k < length xs \<and> ys = xs[k := v]"
  by (auto simp: slot_put_def split: if_splits intro!: exI [of _ "nat i"])

lemma slot_put_length [kernel_bounds]: "slot_put xs i v = Some ys \<Longrightarrow> length ys = length xs"
  by (auto dest: slot_put_SomeD)

section \<open>Byte buffers\<close>

definition get_bytes :: "nat \<Rightarrow> nat \<Rightarrow> 'a list \<Rightarrow> 'a list" where
  "get_bytes off n buf = take n (drop off buf)"

definition put_bytes :: "nat \<Rightarrow> 'a list \<Rightarrow> 'a list \<Rightarrow> 'a list" where
  "put_bytes off bs buf = take off buf @ bs @ drop (off + length bs) buf"

lemma length_get_bytes [simp]: "off + n \<le> length buf \<Longrightarrow> length (get_bytes off n buf) = n"
  by (simp add: get_bytes_def)

lemma length_put_bytes [simp]:
  "off + length bs \<le> length buf \<Longrightarrow> length (put_bytes off bs buf) = length buf"
  by (simp add: put_bytes_def)

lemma get_put_same [simp]:
  "off + length bs \<le> length buf \<Longrightarrow> n = length bs \<Longrightarrow> get_bytes off n (put_bytes off bs buf) = bs"
  by (simp add: get_bytes_def put_bytes_def)

lemma nth_put_bytes:
  assumes "off + length bs \<le> length buf" and "k < length buf"
  shows "put_bytes off bs buf ! k =
    (if off \<le> k \<and> k < off + length bs then bs ! (k - off) else buf ! k)"
  using assms by (auto simp: put_bytes_def nth_append)

lemma get_bytes_nthI:
  assumes "off + n \<le> length a" "off + n \<le> length b"
    and "\<And>k. off \<le> k \<Longrightarrow> k < off + n \<Longrightarrow> a ! k = b ! k"
  shows "get_bytes off n a = get_bytes off n b"
  using assms by (intro nth_equalityI) (auto simp: get_bytes_def)

lemma get_put_disjoint:
  assumes "off + length bs \<le> length buf" and "off' + n \<le> length buf"
    and "off' + n \<le> off \<or> off + length bs \<le> off'"
  shows "get_bytes off' n (put_bytes off bs buf) = get_bytes off' n buf"
  using assms by (intro get_bytes_nthI) (auto simp: nth_put_bytes)

lemma put_bytes_empty [simp]: "put_bytes off [] buf = buf"
  by (simp add: put_bytes_def)

lemma put_bytes_Cons:
  "i < length buf \<Longrightarrow> put_bytes (Suc i) bs (buf[i := b]) = put_bytes i (b # bs) buf"
  by (simp add: put_bytes_def take_Suc_conv_app_nth)

section \<open>C strings\<close>

text \<open>
  A \<^verbatim>\<open>const char*\<close> is the list of bytes from the pointer to the end of its object; the string
  it denotes ends before the first NUL. A comparison such as \<^verbatim>\<open>c >= '0' && c <= '9'\<close> has the
  same truth value on unsigned bytes as on the signed \<^verbatim>\<open>char\<close> of the target, since every such
  range lies below 128.
\<close>

definition cstr :: "u8 list \<Rightarrow> u8 list" where
  "cstr buf = takeWhile (\<lambda>c. c \<noteq> 0) buf"

definition terminated :: "u8 list \<Rightarrow> bool" where
  "terminated buf \<longleftrightarrow> 0 \<in> set buf"

lemma terminated_simps [simp]:
  "\<not> terminated []" "terminated (c # s) \<longleftrightarrow> c = 0 \<or> terminated s"
  by (auto simp: terminated_def)

lemma cstr_simps [simp]:
  "cstr [] = []" "cstr (c # s) = (if c = 0 then [] else c # cstr s)"
  by (simp_all add: cstr_def)

lemma cstr_nonzero: "c \<in> set (cstr s) \<Longrightarrow> c \<noteq> 0"
  by (induction s) (auto split: if_splits)

lemma cstr_append_zero: "0 \<notin> set s \<Longrightarrow> cstr (s @ 0 # t) = s"
  by (induction s) auto

lemma terminated_append [simp]: "terminated (s @ t) \<longleftrightarrow> terminated s \<or> terminated t"
  by (auto simp: terminated_def)

lemma terminated_split: "terminated s \<Longrightarrow> \<exists>t. s = cstr s @ 0 # t"
  by (induction s) auto

lemma cstr_idem [simp]: "0 \<notin> set s \<Longrightarrow> cstr s = s"
  by (induction s) auto

lemma cstr_zeros [simp]: "cstr (replicate n 0) = []"
  by (cases n) simp_all

lemma zero_notin_cstr [simp]: "0 \<notin> set (cstr s)"
  using cstr_nonzero by blast

text \<open>
  \<^verbatim>\<open>while (j < m && src[j] != 0) { dst[j] = src[j]; j = j + 1; } dst[j] = 0;\<close>: the bounded string
  copy that fills the fixed-size name and path fields.
\<close>

fun copy_cstr :: "nat \<Rightarrow> u8 list \<Rightarrow> nat \<Rightarrow> u8 list \<Rightarrow> u8 list option" where
  "copy_cstr 0 src j dst = (if j < length dst then Some (dst[j := 0]) else None)"
| "copy_cstr (Suc m) [] j dst = None"
| "copy_cstr (Suc m) (c # src) j dst =
     (if j < length dst
      then if c = 0 then Some (dst[j := 0]) else copy_cstr m src (Suc j) (dst[j := c])
      else None)"

lemma copy_cstr_eq:
  assumes "terminated src" and "j + m < length dst"
  shows "copy_cstr m src j dst = Some (put_bytes j (take m (cstr src) @ [0]) dst)"
  using assms
proof (induction m src j dst rule: copy_cstr.induct)
  case (1 src j dst)
  then show ?case by (simp add: put_bytes_def upd_conv_take_nth_drop)
next
  case (3 m c src j dst)
  then show ?case
    by (cases "c = 0") (simp_all add: put_bytes_Cons put_bytes_def upd_conv_take_nth_drop add.commute)
qed simp

lemma copy_cstr_length: "copy_cstr m src j dst = Some dst' \<Longrightarrow> length dst' = length dst"
  by (induction m src j dst rule: copy_cstr.induct) (auto split: if_splits)

lemma cstr_put_prefix [simp]:
  "0 \<notin> set s \<Longrightarrow> cstr (put_bytes 0 (s @ [0]) buf) = s"
  by (simp add: put_bytes_def cstr_append_zero)

section \<open>Fields of packed structs\<close>

definition le32_decode :: "u8 list \<Rightarrow> u32" where
  "le32_decode bs = ucast (bs ! 0) OR push_bit 8 (ucast (bs ! 1))
     OR push_bit 16 (ucast (bs ! 2)) OR push_bit 24 (ucast (bs ! 3))"

definition le32_encode :: "u32 \<Rightarrow> u8 list" where
  "le32_encode w = [ucast w, ucast (drop_bit 8 w), ucast (drop_bit 16 w), ucast (drop_bit 24 w)]"

lemma length_le32_encode [simp]: "length (le32_encode w) = 4"
  by (simp add: le32_encode_def)

lemma le32_decode_encode [simp]: "le32_decode (le32_encode w) = w"
proof (rule bit_word_eqI)
  fix n
  assume "n < LENGTH(32)"
  then consider "n < 8" | "8 \<le> n \<and> n < 16" | "16 \<le> n \<and> n < 24" | "24 \<le> n \<and> n < 32"
    by fastforce
  then show "bit (le32_decode (le32_encode w)) n = bit w n"
    by cases (auto simp: le32_decode_def le32_encode_def bit_simps)
qed

end
