(* ===== verification/Strings_Lib.thy ===== *)
theory Strings_Lib
  imports Prelude
begin

text \<open>
  Model of \<^verbatim>\<open>src/kernel/lib/strings.c\<close>: comparison, length, number formatting and parsing,
  IPv4 and IPv6 literals, byte search. A pointer walk \<open>s[i], i = i + 1\<close> is recursion on the
  buffer's suffix; running off the end of the buffer is \<open>None\<close>. The console routines
  \<^verbatim>\<open>print_hex\<close> and \<^verbatim>\<open>print_decimal\<close> are modelled by the text they hand to
  \<^verbatim>\<open>vga_print\<close> and \<^verbatim>\<open>serial_print\<close>.
\<close>

section \<open>Comparison and length\<close>

fun streq :: "u8 list \<Rightarrow> u8 list \<Rightarrow> bool option" where
  "streq (x # a) (y # b) =
     (if x \<noteq> 0 \<and> y \<noteq> 0 then (if x \<noteq> y then Some False else streq a b) else Some (x = y))"
| "streq _ _ = None"

fun strlen :: "u8 list \<Rightarrow> nat option" where
  "strlen [] = None"
| "strlen (c # s) = (if c \<noteq> 0 then map_option Suc (strlen s) else Some 0)"

fun starts_with :: "u8 list \<Rightarrow> u8 list \<Rightarrow> bool option" where
  "starts_with s [] = None"
| "starts_with s (p # ps) =
     (if p = 0 then Some True
      else case s of [] \<Rightarrow> None | c # s' \<Rightarrow> if c \<noteq> p then Some False else starts_with s' ps)"

section \<open>Numbers\<close>

definition is_digit :: "u8 \<Rightarrow> bool" where
  "is_digit c \<longleftrightarrow> 48 \<le> c \<and> c \<le> 57"

definition hex_digit :: "u8 \<Rightarrow> u64 option" where
  "hex_digit c =
     (if 48 \<le> c \<and> c \<le> 57 then Some (ucast (c - 48))
      else if 97 \<le> c \<and> c \<le> 102 then Some (ucast (c - 97) + 10)
      else None)"

fun parse_hex_loop :: "u64 \<Rightarrow> u8 list \<Rightarrow> u64 option" where
  "parse_hex_loop val [] = None"
| "parse_hex_loop val (c # s) =
     (if c = 0 then Some val
      else case hex_digit c of
             Some digit \<Rightarrow> parse_hex_loop (val * 16 + digit) s
           | None \<Rightarrow> parse_hex_loop val s)"

definition parse_hex :: "u8 list \<Rightarrow> u64 option" where
  "parse_hex s =
     (case s of
        [] \<Rightarrow> None
      | c0 # s1 \<Rightarrow>
          if c0 = 48 then
            (case s1 of
               [] \<Rightarrow> None
             | c1 # s2 \<Rightarrow> if c1 = 120 then parse_hex_loop 0 s2 else parse_hex_loop 0 s)
          else parse_hex_loop 0 s)"

definition hex_digits :: "u8 list" where
  "hex_digits = [48, 49, 50, 51, 52, 53, 54, 55, 56, 57, 97, 98, 99, 100, 101, 102]"

text \<open>
  The local buffer is filled from its end: after an iteration the list holds
  \<open>buf[i + 1 ..]\<close>, and the first argument counts the slots \<open>0 .. i\<close> that are left.
\<close>

fun hex_loop :: "nat \<Rightarrow> u64 \<Rightarrow> u8 list \<Rightarrow> u8 list" where
  "hex_loop 0 val tail = tail"
| "hex_loop (Suc i) val tail =
     (if val > 0 then hex_loop i (val div 16) (hex_digits ! unat (val mod 16) # tail) else tail)"

fun dec_loop :: "nat \<Rightarrow> u64 \<Rightarrow> u8 list \<Rightarrow> u8 list" where
  "dec_loop 0 val tail = tail"
| "dec_loop (Suc i) val tail =
     (if val > 0 then dec_loop i (val div 10) ((48 + ucast (val mod 10)) # tail) else tail)"

definition write_bytes :: "nat \<Rightarrow> u8 list \<Rightarrow> u8 list \<Rightarrow> u8 list option" where
  "write_bytes off bs out =
     (if off + length bs \<le> length out then Some (put_bytes off bs out) else None)"

definition format_hex :: "u64 \<Rightarrow> u8 list \<Rightarrow> (u8 list \<times> nat) option" where
  "format_hex val out =
     (let text = (if val = 0 then [hex_digits ! 0] else hex_loop 16 val [])
      in map_option (\<lambda>out'. (out', length text)) (write_bytes 0 text out))"

definition print_hex :: "u64 \<Rightarrow> u8 list" where
  "print_hex val = (if val = 0 then [hex_digits ! 0] else hex_loop 16 val [])"

definition format_decimal :: "u64 \<Rightarrow> u8 list \<Rightarrow> (u8 list \<times> nat) option" where
  "format_decimal val out =
     (let text = (if val = 0 then [48] else dec_loop 20 val [])
      in map_option (\<lambda>out'. (out', length text)) (write_bytes 0 text out))"

definition print_decimal :: "u64 \<Rightarrow> u8 list" where
  "print_decimal val = (if val = 0 then [48] else dec_loop 20 val [])"

fun parse_decimal_loop :: "u32 \<Rightarrow> u8 list \<Rightarrow> u32 option" where
  "parse_decimal_loop val [] = None"
| "parse_decimal_loop val (c # s) =
     (if is_digit c then parse_decimal_loop (val * 10 + ucast (c - 48)) s else Some val)"

definition parse_decimal_u32 :: "u8 list \<Rightarrow> u32 option" where
  "parse_decimal_u32 s = parse_decimal_loop 0 s"

section \<open>Path concatenation\<close>

fun copy_chars :: "u8 list \<Rightarrow> nat \<Rightarrow> u8 list \<Rightarrow> (u8 list \<times> nat) option" where
  "copy_chars [] i out = None"
| "copy_chars (c # s) i out =
     (if c = 0 then Some (out, i)
      else if i < length out then copy_chars s (Suc i) (out[i := c]) else None)"

definition join_path :: "u8 list \<Rightarrow> u8 list \<Rightarrow> u8 list \<Rightarrow> u8 list option" where
  "join_path out base name =
     (case copy_chars base 0 out of
        None \<Rightarrow> None
      | Some (out1, i) \<Rightarrow>
          if i < length out1 then
            (case copy_chars name (Suc i) (out1[i := 47]) of
               None \<Rightarrow> None
             | Some (out2, j) \<Rightarrow> if j < length out2 then Some (out2[j := 0]) else None)
          else None)"

section \<open>Address literals\<close>

fun parse_ip_loop :: "u8 list \<Rightarrow> nat \<Rightarrow> int \<Rightarrow> nat \<Rightarrow> u8 list \<Rightarrow> (bool \<times> u8 list) option" where
  "parse_ip_loop [] octet val digits out = None"
| "parse_ip_loop (c # s) octet val digits out =
     (if is_digit c then
        (let val' = val * 10 + uint (c - 48); digits' = digits + 1
         in if digits' > 3 \<or> val' > 255 then Some (False, out)
            else parse_ip_loop s octet val' digits' out)
      else if c = 46 \<or> c = 0 then
        (if digits = 0 \<or> octet \<ge> 4 then Some (False, out)
         else if octet < length out then
           (let out' = out[octet := word_of_int val]
            in if c = 0 then Some (octet + 1 = 4, out')
               else parse_ip_loop s (octet + 1) 0 0 out')
         else None)
      else Some (False, out))"

definition parse_ip :: "u8 list \<Rightarrow> u8 list \<Rightarrow> (bool \<times> u8 list) option" where
  "parse_ip s out = parse_ip_loop s 0 0 0 out"

text \<open>
  The scan of \<^verbatim>\<open>parse_ip6\<close> ends by returning false (\<open>Reject\<close>), by leaving the loop with the
  groups and the position of \<open>::\<close> (\<open>Done\<close>), or by touching memory outside \<open>s\<close> or
  \<open>groups[8]\<close> (\<open>Fault\<close>). \<open>groups\<close> holds the first \<open>group_count\<close> entries of the array.
\<close>

datatype ip6_scan = Fault | Reject | Done "u16 list" "nat option"

definition is_hex :: "u8 \<Rightarrow> bool" where
  "is_hex c \<longleftrightarrow> 48 \<le> c \<and> c \<le> 57 \<or> 97 \<le> c \<and> c \<le> 102 \<or> 65 \<le> c \<and> c \<le> 70"

definition hex_value :: "u8 \<Rightarrow> int" where
  "hex_value c =
     (if 48 \<le> c \<and> c \<le> 57 then uint c - 48
      else if 97 \<le> c \<and> c \<le> 102 then uint c - 97 + 10
      else uint c - 65 + 10)"

fun parse_ip6_loop ::
  "u8 list \<Rightarrow> u16 list \<Rightarrow> nat option \<Rightarrow> int \<Rightarrow> nat \<Rightarrow> bool \<Rightarrow> ip6_scan" where
  "parse_ip6_loop [] groups compress_at val digits have_value = Fault"
| "parse_ip6_loop (c # s) groups compress_at val digits have_value =
     (if is_hex c then
        (if digits + 1 > 4 \<or> length groups \<ge> 8 then Reject
         else parse_ip6_loop s groups compress_at (val * 16 + hex_value c) (digits + 1) True)
      else if c = 58 then
        (case s of
           [] \<Rightarrow> Fault
         | c' # s' \<Rightarrow>
             if c' = 58 then
               (if compress_at \<noteq> None then Reject
                else if have_value then
                  (if length groups \<ge> 8 then Fault
                   else parse_ip6_loop s' (groups @ [word_of_int val])
                          (Some (length groups + 1)) 0 0 False)
                else parse_ip6_loop s' groups (Some (length groups)) val digits have_value)
             else if \<not> have_value then Reject
             else if length groups \<ge> 8 then Fault
             else parse_ip6_loop s (groups @ [word_of_int val]) compress_at 0 0 False)
      else if c = 0 then
        (if have_value then
           (if length groups \<ge> 8 then Reject else Done (groups @ [word_of_int val]) compress_at)
         else Done groups compress_at)
      else Reject)"

fun emit_groups :: "nat \<Rightarrow> u16 list \<Rightarrow> u8 list \<Rightarrow> u8 list option" where
  "emit_groups idx [] out = Some out"
| "emit_groups idx (g # gs) out =
     (if idx * 2 + 1 < length out
      then emit_groups (idx + 1) gs
             (out[idx * 2 := ucast (drop_bit 8 g), idx * 2 + 1 := ucast (g AND 255)])
      else None)"

definition parse_ip6 :: "u8 list \<Rightarrow> u8 list \<Rightarrow> (bool \<times> u8 list) option" where
  "parse_ip6 s out =
     (case parse_ip6_loop s [] None 0 0 False of
        Fault \<Rightarrow> None
      | Reject \<Rightarrow> Some (False, out)
      | Done groups compress_at \<Rightarrow>
          (case compress_at of
             None \<Rightarrow>
               if length groups \<noteq> 8 then Some (False, out)
               else map_option (\<lambda>out'. (True, out')) (emit_groups 0 groups out)
           | Some at \<Rightarrow>
               if length groups \<ge> 8 then Some (False, out)
               else
                 (let zeros_needed = 8 - length groups;
                      all_groups = take at groups @ replicate zeros_needed 0 @ drop at groups
                  in map_option (\<lambda>out'. (length all_groups = 8, out'))
                       (emit_groups 0 all_groups out))))"

section \<open>Byte search and case-insensitive comparison\<close>

fun match_at :: "u8 list \<Rightarrow> u8 list \<Rightarrow> bool option" where
  "match_at h [] = Some True"
| "match_at [] (n # ns) = None"
| "match_at (x # h) (n # ns) = (if x = n then match_at h ns else Some False)"

fun find_loop :: "nat \<Rightarrow> int \<Rightarrow> u8 list \<Rightarrow> u8 list \<Rightarrow> int option" where
  "find_loop 0 i h needle = Some (-1)"
| "find_loop (Suc k) i h needle =
     (case match_at h needle of
        None \<Rightarrow> None
      | Some True \<Rightarrow> Some i
      | Some False \<Rightarrow> find_loop k (i + 1) (tl h) needle)"

definition find_bytes :: "u8 list \<Rightarrow> int \<Rightarrow> u8 list \<Rightarrow> int option" where
  "find_bytes haystack haystack_len needle =
     (case strlen needle of
        None \<Rightarrow> None
      | Some needle_len \<Rightarrow>
          if needle_len = 0 \<or> int needle_len > haystack_len then Some (-1)
          else find_loop (nat (haystack_len - int needle_len) + 1) 0 haystack
                 (take needle_len needle))"

definition to_lower_ascii :: "u8 \<Rightarrow> u8" where
  "to_lower_ascii c = (if 65 \<le> c \<and> c \<le> 90 then c - 65 + 97 else c)"

fun streq_ci_n :: "u8 list \<Rightarrow> u8 list \<Rightarrow> nat \<Rightarrow> bool option" where
  "streq_ci_n a [] len = None"
| "streq_ci_n a (y # b) 0 = Some (y = 0)"
| "streq_ci_n a (y # b) (Suc len) =
     (if y = 0 then Some False
      else case a of
             [] \<Rightarrow> None
           | x # a' \<Rightarrow>
               if to_lower_ascii x \<noteq> to_lower_ascii y then Some False else streq_ci_n a' b len)"

section \<open>Properties\<close>

subsection \<open>Comparison and length\<close>

lemma streq_cstr: "terminated a \<Longrightarrow> terminated b \<Longrightarrow> streq a b = Some (cstr a = cstr b)"
  by (induction a b rule: streq.induct) auto

lemma strlen_cstr: "terminated s \<Longrightarrow> strlen s = Some (length (cstr s))"
  by (induction s) auto

lemma starts_with_cstr:
  "terminated s \<Longrightarrow> terminated p \<Longrightarrow>
    starts_with s p = Some (take (length (cstr p)) (cstr s) = cstr p)"
proof (induction s p rule: starts_with.induct)
  case (2 s p ps)
  then show ?case by (cases s) auto
qed simp

subsection \<open>Hexadecimal and decimal text\<close>

lemma hex_digits_nth:
  assumes "n < 16"
  shows "hex_digit (hex_digits ! n) = Some (of_nat n)" and "hex_digits ! n \<noteq> 0"
    and "hex_digits ! n \<noteq> 120"
proof -
  have "n \<in> set [0, 1, 2, 3, 4, 5, 6, 7, 8, 9, 10, 11, 12, 13, 14, 15]"
    using assms by simp arith
  then show "hex_digit (hex_digits ! n) = Some (of_nat n)" "hex_digits ! n \<noteq> 0"
    "hex_digits ! n \<noteq> 120"
    by (auto simp: hex_digits_def hex_digit_def)
qed

lemma unat_mod16: "unat (v mod 16 :: u64) < 16"
  by (simp add: unat_mod)

lemma hex_digit_mod16: "hex_digit (hex_digits ! unat (v mod 16 :: u64)) = Some (v mod 16)"
  by (simp add: hex_digits_nth [OF unat_mod16])

lemma parse_hex_loop_hex_loop:
  "unat v < 16 ^ n \<Longrightarrow> parse_hex_loop 0 (hex_loop n v t @ r) = parse_hex_loop v (t @ r)"
proof (induction n arbitrary: v t)
  case 0
  then show ?case by (simp add: unat_eq_zero)
next
  case (Suc n)
  show ?case
  proof (cases "v > 0")
    case True
    have "unat (v div 16) < 16 ^ n"
      using Suc.prems by (simp add: unat_div less_mult_imp_div_less mult.commute)
    from Suc.IH [OF this] True show ?thesis
      by (simp add: hex_digits_nth(2) [OF unat_mod16] hex_digit_mod16 div_mult_mod_eq)
  next
    case False
    then show ?thesis by (simp add: word_gt_0)
  qed
qed

lemma hex_loop_set: "set (hex_loop n v t) \<subseteq> set hex_digits \<union> set t"
proof (induction n arbitrary: v t)
  case (Suc n)
  have "hex_digits ! unat (v mod 16) \<in> set hex_digits"
    by (rule nth_mem) (use unat_mod16 [of v] in \<open>simp add: hex_digits_def\<close>)
  with Suc.IH [of "v div 16" "hex_digits ! unat (v mod 16) # t"] show ?case by auto
qed simp

lemma hex_loop_length: "length (hex_loop n v t) \<le> n + length t"
proof (induction n arbitrary: v t)
  case (Suc n)
  from Suc.IH [of "v div 16" "hex_digits ! unat (v mod 16) # t"] show ?case by simp
qed simp

lemma parse_hex_no_prefix:
  assumes "\<And>c. c \<in> set s \<Longrightarrow> c \<noteq> 120"
  shows "parse_hex (s @ 0 # r) = parse_hex_loop 0 (s @ 0 # r)"
proof (cases s)
  case Nil
  then show ?thesis by (simp add: parse_hex_def)
next
  case (Cons c s')
  with assms show ?thesis by (cases s') (auto simp: parse_hex_def)
qed

lemma parse_hex_print_hex: "parse_hex (print_hex v @ 0 # r) = Some v"
proof (cases "v = 0")
  case True
  then show ?thesis
    by (simp add: print_hex_def parse_hex_def hex_digits_def hex_digit_def)
next
  case False
  have nox: "c \<noteq> 120" if "c \<in> set (hex_loop 16 v [])" for c
    using hex_loop_set [of 16 v "[]"] that by (auto simp: hex_digits_def)
  have "unat v < 16 ^ 16" using unat_less_u64 [of v] by simp
  from parse_hex_loop_hex_loop [OF this, of "[]"] False show ?thesis
    by (simp add: print_hex_def parse_hex_no_prefix [OF nox])
qed

lemma print_hex_length: "length (print_hex v) \<le> 16"
  using hex_loop_length [of 16 v "[]"] by (simp add: print_hex_def)

lemma format_hex_print_hex:
  "16 \<le> length out \<Longrightarrow>
    format_hex v out = Some (put_bytes 0 (print_hex v) out, length (print_hex v))"
  using print_hex_length [of v]
  by (simp add: format_hex_def print_hex_def write_bytes_def Let_def)

lemma unat_mod10: "unat (v mod 10 :: u64) < 10"
  by (simp add: unat_mod)

lemma unat_dec_char: "unat (48 + ucast (v mod 10 :: u64) :: u8) = 48 + unat (v mod 10)"
  using unat_mod10 [of v] by (simp add: unat_word_ariths unat_ucast_small)

lemma is_digit_mod10: "is_digit (48 + ucast (v mod 10 :: u64))"
  using unat_mod10 [of v] by (simp add: is_digit_def word_le_nat_alt unat_dec_char)

lemma ucast_dec_step:
  "ucast (v div 10) * 10 + ucast (ucast (v mod 10 :: u64) :: u8) = (ucast v :: u32)"
proof -
  have "unat (ucast (ucast (v mod 10) :: u8) :: u32) = unat (ucast (v mod 10) :: u32)"
    using unat_mod10 [of v] by (simp add: unat_ucast_small)
  then have "ucast (ucast (v mod 10 :: u64) :: u8) = (ucast (v mod 10) :: u32)"
    by (simp add: word_unat_eq_iff)
  moreover have "(ucast (v div 10) * 10 + ucast (v mod 10) :: u32) = ucast (v div 10 * 10 + v mod 10)"
    by (rule word_unat_eq_iff [THEN iffD2])
       (simp add: unat_word_ariths unat_ucast_mod mod_simps mod_mod_cancel)
  ultimately show ?thesis by (simp add: div_mult_mod_eq)
qed

lemma parse_decimal_loop_dec_loop:
  "unat v < 10 ^ n \<Longrightarrow>
    parse_decimal_loop 0 (dec_loop n v t @ r) = parse_decimal_loop (ucast v) (t @ r)"
proof (induction n arbitrary: v t)
  case 0
  then show ?case by (simp add: unat_eq_zero)
next
  case (Suc n)
  show ?case
  proof (cases "v > 0")
    case True
    have "unat (v div 10) < 10 ^ n"
      using Suc.prems by (simp add: unat_div less_mult_imp_div_less mult.commute)
    from Suc.IH [OF this] True show ?thesis
      by (simp add: is_digit_mod10 ucast_dec_step)
  next
    case False
    then show ?thesis by (simp add: word_gt_0)
  qed
qed

lemma parse_decimal_print_decimal:
  assumes "\<not> is_digit c"
  shows "parse_decimal_u32 (print_decimal v @ c # r) = Some (ucast v)"
proof (cases "v = 0")
  case True
  have "is_digit 48" by (simp add: is_digit_def)
  with True assms show ?thesis
    by (simp add: print_decimal_def parse_decimal_u32_def)
next
  case False
  have "unat v < 10 ^ 20" by (rule less_trans [OF unat_less_u64]) simp
  from parse_decimal_loop_dec_loop [OF this, of "[]"] False assms show ?thesis
    by (simp add: print_decimal_def parse_decimal_u32_def)
qed

subsection \<open>Path concatenation\<close>

lemma copy_chars_cstr:
  assumes "terminated s" and "i + length (cstr s) \<le> length out"
  shows "copy_chars s i out = Some (put_bytes i (cstr s) out, i + length (cstr s))"
  using assms
proof (induction s arbitrary: i out)
  case (Cons c s)
  show ?case
  proof (cases "c = 0")
    case False
    with Cons.prems have "i < length out" by simp
    with False Cons.prems Cons.IH [of "Suc i" "out[i := c]"] show ?thesis
      by (simp add: put_bytes_Cons)
  qed simp
qed simp

lemma join_path_cstr:
  assumes "terminated base" "terminated name"
    and "length (cstr base) + length (cstr name) + 2 \<le> length out"
  shows "\<exists>out'. join_path out base name = Some out' \<and> terminated out' \<and>
    cstr out' = cstr base @ 47 # cstr name \<and> length out' = length out"
proof -
  let ?b = "cstr base" and ?n = "cstr name"
  let ?o1 = "put_bytes 0 ?b out"
  let ?o2 = "put_bytes (Suc (length ?b)) ?n (?o1[length ?b := 47])"
  let ?out = "?o2[Suc (length ?b + length ?n) := 0]"
  have 1: "copy_chars base 0 out = Some (?o1, length ?b)"
    using assms by (simp add: copy_chars_cstr)
  have 2: "copy_chars name (Suc (length ?b)) (?o1[length ?b := 47]) =
      Some (?o2, Suc (length ?b + length ?n))"
    using assms by (simp add: copy_chars_cstr)
  have jp: "join_path out base name = Some ?out"
    using assms by (simp add: join_path_def 1 2)
  have "?out = ?b @ 47 # ?n @ 0 # drop (length ?b + length ?n + 2) out"
    using assms(3)
    by (simp add: put_bytes_def list_update_append drop_update_cancel
        Cons_nth_drop_Suc [symmetric] add.commute split: nat.splits)
  then have "?out = (?b @ 47 # ?n) @ 0 # drop (length ?b + length ?n + 2) out"
    by simp
  moreover have "0 \<notin> set (?b @ 47 # ?n)" by simp
  ultimately have "cstr ?out = ?b @ 47 # ?n" and "terminated ?out"
    using cstr_append_zero by (metis, simp)
  with jp assms(3) show ?thesis by auto
qed

subsection \<open>IPv4 literals\<close>

text \<open>
  The reference reading of a dotted quad: split at the dots, and every field is one to three
  digits with a value of at most 255.
\<close>

fun split_dots :: "u8 list \<Rightarrow> u8 list list" where
  "split_dots [] = [[]]"
| "split_dots (c # s) =
     (if c = 46 then [] # split_dots s
      else case split_dots s of [] \<Rightarrow> [[c]] | f # fs \<Rightarrow> (c # f) # fs)"

definition dec_val :: "u8 list \<Rightarrow> int" where
  "dec_val ds = foldl (\<lambda>v c. v * 10 + uint (c - 48)) 0 ds"

definition octet_text :: "u8 list \<Rightarrow> bool" where
  "octet_text f \<longleftrightarrow> f \<noteq> [] \<and> length f \<le> 3 \<and> list_all is_digit f \<and> dec_val f \<le> 255"

lemma dec_val_snoc [simp]: "dec_val (p @ [c]) = dec_val p * 10 + uint (c - 48)"
  by (simp add: dec_val_def)

lemma dec_val_Nil [simp]: "dec_val [] = 0"
  by (simp add: dec_val_def)

lemma dec_val_nonneg: "0 \<le> dec_val p"
  by (induction p rule: rev_induct) (simp_all add: dec_val_def)

lemma dec_val_append_ge: "dec_val p \<le> dec_val (p @ q)"
proof (induction q rule: rev_induct)
  case (snoc c q)
  have "dec_val (p @ q) \<le> dec_val (p @ q @ [c])"
    using dec_val_nonneg [of "p @ q"] dec_val_snoc [of "p @ q" c] by simp
  with snoc show ?case by simp
qed simp

lemma split_dots_nonempty: "split_dots s \<noteq> []"
  by (induction s) (auto split: list.splits)

lemma is_digit_not_dot: "is_digit c \<Longrightarrow> c \<noteq> 46" "is_digit c \<Longrightarrow> c \<noteq> 0"
  by (auto simp: is_digit_def)

lemma split_dots_digits:
  "list_all is_digit p \<Longrightarrow>
    split_dots (p @ s) = (p @ hd (split_dots s)) # tl (split_dots s)"
proof (induction p)
  case (Cons c p)
  then show ?case by (simp add: is_digit_not_dot)
qed (simp add: split_dots_nonempty)

lemma octet_text_prefix:
  assumes "octet_text (p @ q)"
  shows "length p \<le> 3" "dec_val p \<le> 255" "list_all is_digit q"
  using assms dec_val_append_ge [of p q] by (auto simp: octet_text_def)

text \<open>
  The loop invariant: \<open>p\<close> are the digits read since the last dot.
\<close>

lemma parse_ip_loop_spec:
  assumes "terminated s" "list_all is_digit p" "length p \<le> 3" "dec_val p \<le> 255"
    and "octet \<le> 4" "4 \<le> length out"
  shows "\<exists>ok out'. parse_ip_loop s octet (dec_val p) (length p) out = Some (ok, out') \<and>
    (ok \<longleftrightarrow> octet + length (split_dots (p @ cstr s)) = 4 \<and>
            list_all octet_text (split_dots (p @ cstr s))) \<and>
    (ok \<longrightarrow> out' = put_bytes octet
       (map (\<lambda>f. word_of_int (dec_val f)) (split_dots (p @ cstr s))) out)"
  using assms
proof (induction s arbitrary: octet p out)
  case Nil
  then show ?case by simp
next
  case (Cons c s)
  consider (digit) "is_digit c" | (nul) "c = 0" | (dot) "c = 46"
    | (other) "\<not> is_digit c" "c \<noteq> 46" "c \<noteq> 0" by blast
  then show ?case
  proof cases
    case digit
    let ?p = "p @ [c]"
    have fields: "p @ cstr (c # s) = ?p @ cstr s"
      using is_digit_not_dot(2) [OF digit] by simp
    show ?thesis
    proof (cases "length ?p > 3 \<or> dec_val ?p > 255")
      case True
      have bad: "\<not> octet_text (p @ c # hd (split_dots (cstr s)))"
        using octet_text_prefix(1,2) [of ?p "hd (split_dots (cstr s))"] True by force
      have "split_dots (p @ cstr (c # s)) = (p @ c # hd (split_dots (cstr s))) # tl (split_dots (cstr s))"
        using split_dots_digits [of ?p "cstr s"] Cons.prems(2) digit is_digit_not_dot(2) by simp
      with bad True digit show ?thesis by auto
    next
      case False
      have "terminated s" using Cons.prems(1) digit is_digit_not_dot(2) by auto
      with Cons.IH [of ?p octet out] Cons.prems False digit show ?thesis
        by (simp add: fields del: append_assoc cstr_simps)
    qed
  next
    case nul
    then have nd: "\<not> is_digit c" by (simp add: is_digit_def)
    have fields: "split_dots (p @ cstr (c # s)) = [p]"
      using split_dots_digits [OF Cons.prems(2), of "[]"] nul by simp
    show ?thesis
      unfolding fields using nd nul Cons.prems
      by (auto simp: octet_text_def put_bytes_def upd_conv_take_nth_drop)
  next
    case dot
    then have nd: "\<not> is_digit c" by (simp add: is_digit_def)
    have fields: "split_dots (p @ cstr (c # s)) = p # split_dots (cstr s)"
      using split_dots_digits [OF Cons.prems(2), of "cstr (c # s)"] dot by simp
    show ?thesis
    proof (cases "p = [] \<or> octet = 4")
      case True
      then show ?thesis
        unfolding fields using nd dot Cons.prems(5) by (auto simp: octet_text_def)
    next
      case False
      let ?out = "out[octet := word_of_int (dec_val p)]"
      have step: "parse_ip_loop (c # s) octet (dec_val p) (length p) out =
          parse_ip_loop s (octet + 1) (dec_val []) (length []) ?out"
        using False nd dot Cons.prems(5,6) by simp
      have oct: "octet_text p" using False Cons.prems by (simp add: octet_text_def)
      have "terminated s" using Cons.prems(1) dot by simp
      with Cons.IH [of "[]" "octet + 1" ?out] False Cons.prems(5,6) obtain ok out' where
          run: "parse_ip_loop s (octet + 1) (dec_val []) (length []) ?out = Some (ok, out')"
        and ok: "ok \<longleftrightarrow> octet + 1 + length (split_dots (cstr s)) = 4 \<and>
            list_all octet_text (split_dots (cstr s))"
        and res: "ok \<longrightarrow> out' = put_bytes (octet + 1)
            (map (\<lambda>f. word_of_int (dec_val f)) (split_dots (cstr s))) ?out"
        by auto
      have "octet < length out" using False Cons.prems(5,6) by simp
      with trans [OF step run] oct ok res show ?thesis
        unfolding fields by (simp add: put_bytes_Cons del: parse_ip_loop.simps)
    qed
  next
    case other
    then have fields: "split_dots (p @ cstr (c # s)) =
        (p @ c # hd (split_dots (cstr s))) # tl (split_dots (cstr s))"
      using split_dots_digits [OF Cons.prems(2), of "cstr (c # s)"] split_dots_nonempty [of "cstr s"]
      by (simp split: list.splits)
    have "\<not> octet_text (p @ c # hd (split_dots (cstr s)))"
      using other(1) by (simp add: octet_text_def)
    with other show ?thesis unfolding fields by auto
  qed
qed

subsection \<open>IPv6 literals\<close>

lemma emit_groups_put:
  "2 * (idx + length gs) \<le> length out \<Longrightarrow>
    emit_groups idx gs out =
      Some (put_bytes (2 * idx) (concat (map (\<lambda>g. [ucast (drop_bit 8 g), ucast (g AND 255)]) gs)) out)"
proof (induction gs arbitrary: idx out)
  case (Cons g gs)
  let ?out = "out[idx * 2 := ucast (drop_bit 8 g), idx * 2 + 1 := ucast (g AND 255)]"
  from Cons.prems Cons.IH [of "idx + 1" ?out] show ?case
    by (simp add: mult.commute [of idx] put_bytes_Cons [symmetric])
qed simp

lemma emit_groups_length: "emit_groups idx gs out = Some out' \<Longrightarrow> length out' = length out"
  by (induction gs arbitrary: idx out) (auto split: if_splits)

lemma colon_not_hex: "\<not> is_hex 58"
  by (simp add: is_hex_def)

text \<open>Every access of the scan stays inside \<open>groups[8]\<close> on a terminated string.\<close>

lemma parse_ip6_loop_safe:
  "terminated s \<Longrightarrow> length groups \<le> 8 \<Longrightarrow> (have_value \<longrightarrow> length groups < 8) \<Longrightarrow>
   (\<forall>at. compress_at = Some at \<longrightarrow> at \<le> length groups) \<Longrightarrow>
   (case parse_ip6_loop s groups compress_at v n have_value of
      Fault \<Rightarrow> False
    | Reject \<Rightarrow> True
    | Done gs ca \<Rightarrow> length gs \<le> 8 \<and> (\<forall>at. ca = Some at \<longrightarrow> at \<le> length gs))"
proof (induction s groups compress_at v n have_value rule: parse_ip6_loop.induct)
  case (1 groups compress_at v n have_value)
  then show ?case by simp
next
  case (2 c s groups compress_at v n have_value)
  show ?case
  proof (cases "is_hex c")
    case True
    then have "c \<noteq> 0" by (auto simp: is_hex_def)
    with True 2 show ?thesis by (auto simp: not_le)
  next
    case nh: False
    show ?thesis
    proof (cases "c = 58")
      case True
      with 2(5) obtain c' s' where s: "s = c' # s'" by (cases s) auto
      show ?thesis
      proof (cases "c' = 58")
        case c58: True
        with 2(5) s True have "terminated s'" by simp
        with 2(2,3) [OF nh True s c58] 2(6-8) nh True c58 show ?thesis
          by (auto simp: s)
      next
        case False
        have "\<forall>at. compress_at = Some at \<longrightarrow> at \<le> Suc (length groups)"
          using 2(8) by auto
        moreover have "parse_ip6_loop (c # s) groups compress_at v n have_value =
            (if \<not> have_value then Reject else if length groups \<ge> 8 then Fault
             else parse_ip6_loop s (groups @ [word_of_int v]) compress_at 0 0 False)"
          by (subst parse_ip6_loop.simps) (simp add: colon_not_hex True s False del: parse_ip6_loop.simps)
        moreover have "terminated s" using 2(5) True by simp
        ultimately show ?thesis
          using 2(4) [OF nh True s False] 2(6,7) by (auto simp del: parse_ip6_loop.simps)
      qed
    next
      case False
      with nh 2(5-8) show ?thesis by auto
    qed
  qed
qed

lemma parse_ip6_total:
  assumes "terminated s" "16 \<le> length out"
  shows "\<exists>ok out'. parse_ip6 s out = Some (ok, out') \<and> length out' = length out"
proof -
  have safe: "case parse_ip6_loop s [] None 0 0 False of
      Fault \<Rightarrow> False
    | Reject \<Rightarrow> True
    | Done gs ca \<Rightarrow> length gs \<le> 8 \<and> (\<forall>at. ca = Some at \<longrightarrow> at \<le> length gs)"
    by (rule parse_ip6_loop_safe) (use assms in auto)
  show ?thesis
  proof (cases "parse_ip6_loop s [] None 0 0 False")
    case (Done gs ca)
    with safe have "length gs \<le> 8" "\<forall>at. ca = Some at \<longrightarrow> at \<le> length gs" by simp_all
    then have "\<exists>ok all_groups. parse_ip6 s out =
        map_option (\<lambda>out'. (ok, out')) (emit_groups 0 all_groups out) \<and> length all_groups \<le> 8"
      by (cases "length gs = 8"; cases ca)
         (force simp: parse_ip6_def Done Let_def
            intro: exI [of _ True] exI [of _ gs] exI [of _ False] exI [of _ "[]"])+
    then obtain ok all_groups where p: "parse_ip6 s out =
        map_option (\<lambda>out'. (ok, out')) (emit_groups 0 all_groups out)"
      and "length all_groups \<le> 8" by blast
    with assms(2) emit_groups_put [of 0 all_groups out] obtain out' where
      e: "emit_groups 0 all_groups out = Some out'" by force
    from emit_groups_length [OF e] show ?thesis by (simp add: p e)
  qed (use safe in \<open>auto simp: parse_ip6_def\<close>)
qed

text \<open>
  Literals in textual form: groups of one to four hexadecimal digits joined by colons.
\<close>

definition hex_text :: "u8 list \<Rightarrow> bool" where
  "hex_text t \<longleftrightarrow> t \<noteq> [] \<and> length t \<le> 4 \<and> list_all is_hex t"

definition hex_num :: "u8 list \<Rightarrow> int" where
  "hex_num t = foldl (\<lambda>v c. v * 16 + hex_value c) 0 t"

fun join_colon :: "u8 list list \<Rightarrow> u8 list" where
  "join_colon [] = []"
| "join_colon [t] = t"
| "join_colon (t # ts) = t @ 58 # join_colon ts"

definition group_bytes :: "u16 list \<Rightarrow> u8 list" where
  "group_bytes gs = concat (map (\<lambda>g. [ucast (drop_bit 8 g), ucast (g AND 255)]) gs)"

definition text_groups :: "u8 list list \<Rightarrow> u16 list" where
  "text_groups ts = map (\<lambda>t. word_of_int (hex_num t)) ts"

lemma length_text_groups [simp]: "length (text_groups ts) = length ts"
  by (simp add: text_groups_def)

lemma parse_ip6_loop_hex:
  "list_all is_hex t \<Longrightarrow> n + length t \<le> 4 \<Longrightarrow> length groups < 8 \<Longrightarrow>
    parse_ip6_loop (t @ r) groups ca v n hv =
      parse_ip6_loop r groups ca (foldl (\<lambda>v c. v * 16 + hex_value c) v t) (n + length t)
        (hv \<or> t \<noteq> [])"
proof (induction t arbitrary: v n hv)
  case (Cons c t)
  then show ?case
    by (simp add: parse_ip6_loop.simps(2) [of c] del: parse_ip6_loop.simps)
qed simp

lemma parse_ip6_loop_text:
  "hex_text t \<Longrightarrow> length groups < 8 \<Longrightarrow>
    parse_ip6_loop (t @ r) groups ca 0 0 False = parse_ip6_loop r groups ca (hex_num t) (length t) True"
  using parse_ip6_loop_hex [of t 0 groups r ca 0 False]
  by (simp add: hex_text_def hex_num_def del: parse_ip6_loop.simps)

lemma parse_ip6_loop_colon:
  "c \<noteq> 58 \<Longrightarrow> length groups < 8 \<Longrightarrow>
    parse_ip6_loop (58 # c # r) groups ca v n True =
      parse_ip6_loop (c # r) (groups @ [word_of_int v]) ca 0 0 False"
  by (subst parse_ip6_loop.simps) (simp add: colon_not_hex del: parse_ip6_loop.simps)

lemma join_colon_hd:
  "list_all hex_text ts \<Longrightarrow> ts \<noteq> [] \<Longrightarrow> \<exists>c s. join_colon ts = c # s \<and> is_hex c"
proof (cases ts rule: join_colon.cases)
  case (2 t)
  assume "list_all hex_text ts"
  with 2 show ?thesis by (cases t) (auto simp: hex_text_def)
next
  case (3 t u us)
  assume "list_all hex_text ts"
  with 3 show ?thesis by (cases t) (auto simp: hex_text_def)
qed simp_all

lemma parse_ip6_loop_join:
  "list_all hex_text ts \<Longrightarrow> ts \<noteq> [] \<Longrightarrow> length groups + length ts \<le> 8 \<Longrightarrow>
    parse_ip6_loop (join_colon ts @ r) groups ca 0 0 False =
      parse_ip6_loop r (groups @ text_groups (butlast ts)) ca (hex_num (last ts)) (length (last ts)) True"
proof (induction ts arbitrary: groups rule: join_colon.induct)
  case (2 t)
  then show ?case
    by (simp add: parse_ip6_loop_text text_groups_def del: parse_ip6_loop.simps)
next
  case (3 t u us)
  from 3(2) join_colon_hd [of "u # us"] obtain c s where
    cs: "join_colon (u # us) = c # s" and "is_hex c" by auto
  then have c58: "c \<noteq> 58" using colon_not_hex by auto
  from 3(2,4) have t: "hex_text t" and room: "length groups < 8" by auto
  have "parse_ip6_loop (join_colon (t # u # us) @ r) groups ca 0 0 False =
      parse_ip6_loop (58 # join_colon (u # us) @ r) groups ca (hex_num t) (length t) True"
    using parse_ip6_loop_text [OF t room] by (simp del: parse_ip6_loop.simps)
  also have "\<dots> = parse_ip6_loop (join_colon (u # us) @ r) (groups @ [word_of_int (hex_num t)]) ca 0 0 False"
    unfolding cs using parse_ip6_loop_colon [OF c58 room] by (simp del: parse_ip6_loop.simps)
  also have "\<dots> = parse_ip6_loop r ((groups @ [word_of_int (hex_num t)]) @ text_groups (butlast (u # us)))
      ca (hex_num (last (u # us))) (length (last (u # us))) True"
    using 3(2,4) by (intro "3.IH") auto
  finally show ?case by (simp add: text_groups_def del: parse_ip6_loop.simps)
qed simp

lemma text_groups_butlast:
  "ts \<noteq> [] \<Longrightarrow> text_groups (butlast ts) @ [word_of_int (hex_num (last ts))] = text_groups ts"
  by (induction ts) (auto simp: text_groups_def)

lemma parse_ip6_loop_end:
  assumes "list_all hex_text ts" "length groups + length ts \<le> 8"
  shows "parse_ip6_loop (join_colon ts @ 0 # r) groups ca 0 0 False = Done (groups @ text_groups ts) ca"
proof (cases "ts = []")
  case True
  then show ?thesis by (simp add: is_hex_def text_groups_def)
next
  case False
  have "length groups + (length ts - 1) < 8" using assms(2) False by (cases ts) auto
  then show ?thesis
    unfolding parse_ip6_loop_join [OF assms(1) False assms(2)]
    using text_groups_butlast [OF False] by (simp add: is_hex_def)
qed

lemma parse_ip6_loop_double_colon:
  assumes "list_all hex_text ts" "length ts \<le> 7"
  shows "parse_ip6_loop (join_colon ts @ 58 # 58 # r) [] None 0 0 False =
    parse_ip6_loop r (text_groups ts) (Some (length ts)) 0 0 False"
proof (cases "ts = []")
  case True
  then show ?thesis
    by (simp add: parse_ip6_loop.simps(2) [of 58] colon_not_hex text_groups_def del: parse_ip6_loop.simps)
next
  case False
  have len: "length [] + length ts \<le> 8" "length ts - 1 < 8" "length ts - 1 + 1 = length ts"
    using assms(2) False by (auto simp: Suc_diff_le neq_Nil_conv)
  show ?thesis
    unfolding parse_ip6_loop_join [OF assms(1) False len(1)]
    using text_groups_butlast [OF False] len
    by (simp add: parse_ip6_loop.simps(2) [of 58] colon_not_hex del: parse_ip6_loop.simps)
qed

lemma parse_ip6_full_text:
  assumes "list_all hex_text ts" "length ts = 8" "16 \<le> length out"
  shows "parse_ip6 (join_colon ts @ 0 # r) out = Some (True, put_bytes 0 (group_bytes (text_groups ts)) out)"
  using assms parse_ip6_loop_end [of ts "[]" r None] emit_groups_put [of 0 "text_groups ts" out]
  by (simp add: parse_ip6_def group_bytes_def del: parse_ip6_loop.simps)

lemma parse_ip6_compressed_text:
  assumes "list_all hex_text pre" "list_all hex_text post" "length pre + length post \<le> 7"
    and "16 \<le> length out"
  shows "parse_ip6 (join_colon pre @ 58 # 58 # join_colon post @ 0 # r) out =
    Some (True, put_bytes 0 (group_bytes
      (text_groups pre @ replicate (8 - length pre - length post) 0 @ text_groups post)) out)"
proof -
  let ?gs = "text_groups pre @ replicate (8 - length pre - length post) 0 @ text_groups post"
  have "parse_ip6_loop (join_colon pre @ 58 # 58 # join_colon post @ 0 # r) [] None 0 0 False =
      Done (text_groups pre @ text_groups post) (Some (length pre))"
    using assms(3) parse_ip6_loop_double_colon [OF assms(1)]
      parse_ip6_loop_end [OF assms(2), of "text_groups pre"] by simp
  moreover have "emit_groups 0 ?gs out = Some (put_bytes 0 (group_bytes ?gs) out)"
    unfolding group_bytes_def using assms(3,4) emit_groups_put [of 0 ?gs out] by simp
  ultimately show ?thesis
    using assms(3) by (simp add: parse_ip6_def Let_def)
qed

text \<open>A single trailing colon after the eighth group is accepted as well.\<close>

lemma parse_ip6_trailing_colon:
  assumes "list_all hex_text ts" "length ts = 8" "16 \<le> length out"
  shows "parse_ip6 (join_colon ts @ 58 # 0 # r) out =
    Some (True, put_bytes 0 (group_bytes (text_groups ts)) out)"
proof -
  have ne: "ts \<noteq> []" and room: "length (text_groups (butlast ts)) < 8" using assms(2) by auto
  have "parse_ip6_loop (join_colon ts @ 58 # 0 # r) [] None 0 0 False = Done (text_groups ts) None"
    using parse_ip6_loop_join [OF assms(1) ne, of "[]" "58 # 0 # r" None]
      parse_ip6_loop_colon [of 0 "text_groups (butlast ts)"] text_groups_butlast [OF ne] assms(2)
    by (simp add: is_hex_def del: parse_ip6_loop.simps) (simp add: is_hex_def)
  then show ?thesis
    using assms emit_groups_put [of 0 "text_groups ts" out]
    by (simp add: parse_ip6_def group_bytes_def)
qed

subsection \<open>Byte search and case-insensitive comparison\<close>

lemma match_at_take: "length n \<le> length h \<Longrightarrow> match_at h n = Some (take (length n) h = n)"
  by (induction h n rule: match_at.induct) auto

lemma find_loop_first_index:
  "k = 0 \<or> k - 1 + length n \<le> length h \<Longrightarrow>
    find_loop k i h n =
      Some (case first_index (\<lambda>j. get_bytes j (length n) h = n) [0..<k] of
              None \<Rightarrow> -1 | Some j \<Rightarrow> i + int j)"
proof (induction k arbitrary: i h)
  case (Suc k)
  have up: "[0..<Suc k] = 0 # map Suc [0..<k]"
    by (simp add: map_Suc_upt upt_conv_Cons del: upt_Suc)
  have m: "match_at h n = Some (get_bytes 0 (length n) h = n)"
    using Suc.prems match_at_take [of n h] by (simp add: get_bytes_def)
  have shift: "get_bytes (Suc j) (length n) h = get_bytes j (length n) (tl h)" for j
    by (cases h) (simp_all add: get_bytes_def)
  show ?case
  proof (cases "get_bytes 0 (length n) h = n")
    case True
    then show ?thesis by (simp add: m up del: upt_Suc)
  next
    case False
    have "k = 0 \<or> k - 1 + length n \<le> length (tl h)" using Suc.prems by auto
    from Suc.IH [OF this, of "i + 1"] False show ?thesis
      by (simp add: m up first_index_map shift split: option.splits del: upt_Suc)
  qed
qed simp

lemma find_bytes_first:
  assumes "terminated needle" "len \<le> length haystack"
  shows "find_bytes haystack (int len) needle =
    Some (if cstr needle = [] then -1
          else slot_result (first_index
                 (\<lambda>j. get_bytes j (length (cstr needle)) haystack = cstr needle)
                 [0..<Suc len - length (cstr needle)]))"
proof -
  let ?n = "cstr needle"
  have tk: "take (length ?n) needle = ?n"
    using terminated_split [OF assms(1)] by (metis append_eq_conv_conj)
  show ?thesis
  proof (cases "?n = [] \<or> length ?n > len")
    case True
    then show ?thesis
      by (auto simp: find_bytes_def strlen_cstr [OF assms(1)] simp del: upt_Suc)
  next
    case False
    then have pos: "Suc (nat (int len - int (length ?n))) = Suc len - length ?n" by auto
    have "Suc len - length ?n = 0 \<or> Suc len - length ?n - 1 + length ?n \<le> length haystack"
      using False assms(2) by auto
    from find_loop_first_index [OF this, of 0] False show ?thesis
      by (simp add: find_bytes_def strlen_cstr [OF assms(1)] pos tk slot_result_def
          split: option.splits del: upt_Suc find_loop.simps)
  qed
qed

lemma streq_ci_n_map:
  "terminated b \<Longrightarrow> len \<le> length a \<Longrightarrow>
    streq_ci_n a b len = Some (map to_lower_ascii (take len a) = map to_lower_ascii (cstr b))"
proof (induction a b len rule: streq_ci_n.induct)
  case (3 a y b len)
  then show ?case by (cases a) auto
qed auto

section \<open>Claims\<close>

text \<open>
  Formatting a 64-bit value in hexadecimal never needs more than the 16 bytes of the local
  buffer, and parsing the written digits gives the value back.
\<close>

theorem format_hex_roundtrip:
  assumes "16 \<le> length out"
  shows "\<exists>out' n. format_hex v out = Some (out', n) \<and> n \<le> 16 \<and> length out' = length out \<and>
    parse_hex (take n out' @ 0 # r) = Some v"
proof -
  have "length (print_hex v) \<le> length out" using print_hex_length [of v] assms by simp
  then have "take (length (print_hex v)) (put_bytes 0 (print_hex v) out) = print_hex v"
    by (simp add: put_bytes_def)
  with assms print_hex_length [of v] show ?thesis
    by (simp add: format_hex_print_hex parse_hex_print_hex)
qed

theorem format_hex_roundtrip_witness:
  "\<exists>out' n. format_hex 0xBEEF (replicate 16 0) = Some (out', n) \<and> n \<le> 16 \<and>
     length out' = length (replicate 16 (0 :: u8)) \<and> parse_hex (take n out' @ 0 # []) = Some 0xBEEF"
  by (rule format_hex_roundtrip) simp

text \<open>
  Formatting a 64-bit value in decimal fits the 20-byte local buffer, and reading the text
  back with the 32-bit parser gives the value modulo \<open>2 ^ 32\<close>: the parser wraps, it does not
  saturate or fail.
\<close>

theorem decimal_roundtrip_wraps:
  assumes "\<not> is_digit c"
  shows "parse_decimal_u32 (print_decimal v @ c # r) = Some (ucast v)"
  using assms by (rule parse_decimal_print_decimal)

theorem decimal_roundtrip_wraps_witness:
  "parse_decimal_u32 (print_decimal 0x100000007 @ 32 # []) = Some (ucast (0x100000007 :: u64)) \<and>
   (ucast (0x100000007 :: u64) :: u32) = 7"
  using decimal_roundtrip_wraps [of 32 "0x100000007" "[]"] by (simp add: is_digit_def)

text \<open>
  \<^verbatim>\<open>parse_ip\<close> on a terminated string always returns without leaving its buffers, succeeds
  exactly on four dot-separated fields of one to three digits with values up to 255, and then
  has stored those values.
\<close>

theorem parse_ip_dotted_quad:
  assumes "terminated s" "4 \<le> length out"
  shows "\<exists>ok out'. parse_ip s out = Some (ok, out') \<and>
    (ok \<longleftrightarrow> length (split_dots (cstr s)) = 4 \<and> list_all octet_text (split_dots (cstr s))) \<and>
    (ok \<longrightarrow> out' = put_bytes 0 (map (\<lambda>f. word_of_int (dec_val f)) (split_dots (cstr s))) out)"
  using parse_ip_loop_spec [OF assms(1), of "[]" 0 out] assms(2) by (simp add: parse_ip_def)

theorem parse_ip_dotted_quad_witness:
  "\<exists>ok out'. parse_ip [49, 48, 46, 48, 46, 50, 46, 49, 53, 0] [0, 0, 0, 0] = Some (ok, out') \<and>
    ok \<and> out' = [10, 0, 2, 15]"
  using parse_ip_dotted_quad [of "[49, 48, 46, 48, 46, 50, 46, 49, 53, 0]" "[0, 0, 0, 0]"]
  by (auto simp: octet_text_def is_digit_def dec_val_def put_bytes_def)

text \<open>
  \<^verbatim>\<open>parse_ip6\<close> on a terminated string never indexes outside \<open>groups[8]\<close> or the
  16-byte output, whatever the text is.
\<close>

theorem parse_ip6_memory_safe:
  assumes "terminated s" "16 \<le> length out"
  shows "\<exists>ok out'. parse_ip6 s out = Some (ok, out') \<and> length out' = length out"
  using assms by (rule parse_ip6_total)

theorem parse_ip6_memory_safe_witness:
  "\<exists>ok out'. parse_ip6 [58, 58, 58, 49, 0] (replicate 16 0) = Some (ok, out') \<and>
     length out' = length (replicate 16 (0 :: u8))"
  by (rule parse_ip6_memory_safe) simp_all

text \<open>
  A literal with one \<open>::\<close> and at most seven written groups parses to the written groups
  with the missing ones filled by zeros in between, each group stored big-endian.
\<close>

theorem parse_ip6_compressed:
  assumes "list_all hex_text pre" "list_all hex_text post" "length pre + length post \<le> 7"
    and "16 \<le> length out"
  shows "parse_ip6 (join_colon pre @ 58 # 58 # join_colon post @ 0 # r) out =
    Some (True, put_bytes 0 (group_bytes
      (text_groups pre @ replicate (8 - length pre - length post) 0 @ text_groups post)) out)"
  using assms by (rule parse_ip6_compressed_text)

theorem parse_ip6_compressed_witness:
  "parse_ip6 (join_colon [[102, 101, 56, 48]] @ 58 # 58 # join_colon [[49]] @ 0 # []) (replicate 16 7) =
    Some (True, [0xFE, 0x80, 0, 0, 0, 0, 0, 0, 0, 0, 0, 0, 0, 0, 0, 1])"
proof -
  have six: "replicate 6 (0 :: u16) = [0, 0, 0, 0, 0, 0]" by (simp add: eval_nat_numeral)
  have "list_all hex_text [[102, 101, 56, 48]]" "list_all hex_text [[49]]"
    by (simp_all add: hex_text_def is_hex_def)
  from parse_ip6_compressed [OF this, of "replicate 16 7" "[]"] show ?thesis
    by (simp add: six hex_value_def text_groups_def hex_num_def group_bytes_def put_bytes_def)
qed

text \<open>
  \<^verbatim>\<open>find_bytes\<close> returns the least offset at which the needle occurs inside the first
  \<open>haystack_len\<close> bytes, and \<open>-1\<close> when there is none or the needle is empty.
\<close>

theorem find_bytes_least:
  assumes "terminated needle" "len \<le> length haystack"
  shows "find_bytes haystack (int len) needle =
    Some (if cstr needle = [] then -1
          else slot_result (first_index
                 (\<lambda>j. get_bytes j (length (cstr needle)) haystack = cstr needle)
                 [0..<Suc len - length (cstr needle)]))"
  using assms by (rule find_bytes_first)

theorem find_bytes_least_witness:
  "find_bytes [1, 2, 13, 10, 13, 10] (int 6) [13, 10, 0] = Some 2"
  using find_bytes_least [of "[13, 10, 0]" 6 "[1, 2, 13, 10, 13, 10]"]
  by (simp add: get_bytes_def upt_rec)

end
