(* ===== verification/Frames.thy ===== *)
theory Frames
  imports Prelude
begin

text \<open>
  Model of the physical frame allocator \<^verbatim>\<open>src/kernel/mm/frames/frames.c\<close>: one bit per 4 KB
  frame over the identity-mapped first gigabyte, built from the boot loader's memory map. Every
  operation brackets its work with \<^verbatim>\<open>disable_interrupts\<close> and \<^verbatim>\<open>restore_interrupts\<close> on a
  single processor, so each is one atomic step here. \<open>None\<close> is an index outside
  \<^verbatim>\<open>g_frame_bitmap\<close>.
\<close>

section \<open>State and operations\<close>

record frames =
  frame_bitmap :: "u8 list"
  total_frames :: u32
  free_frame_count :: u32

definition frame_mask :: "u32 \<Rightarrow> u8" where
  "frame_mask frame = push_bit (unat (frame mod 8)) 1"

definition frame_set :: "frames \<Rightarrow> u32 \<Rightarrow> frames option" where
  "frame_set s frame =
     (let byte_index = unat (frame div 8); bm = frame_bitmap s
      in if byte_index < length bm
         then Some (s\<lparr>frame_bitmap := bm[byte_index := bm ! byte_index OR frame_mask frame]\<rparr>)
         else None)"

definition frame_test :: "frames \<Rightarrow> u32 \<Rightarrow> bool option" where
  "frame_test s frame =
     (let byte_index = unat (frame div 8); bm = frame_bitmap s
      in if byte_index < length bm
         then Some ((bm ! byte_index AND frame_mask frame) \<noteq> 0)
         else None)"

definition frame_clear :: "frames \<Rightarrow> u32 \<Rightarrow> frames option" where
  "frame_clear s frame =
     (let byte_index = unat (frame div 8); bm = frame_bitmap s
      in if byte_index < length bm
         then Some (s\<lparr>frame_bitmap := bm[byte_index := bm ! byte_index AND NOT (frame_mask frame)]\<rparr>)
         else None)"

text \<open>The shared tail of \<^verbatim>\<open>mark_range_free\<close> and \<^verbatim>\<open>free_frame\<close>: clear a set bit and count it.\<close>

definition release_frame :: "frames \<Rightarrow> u32 \<Rightarrow> frames option" where
  "release_frame s frame =
     (case frame_test s frame of
        None \<Rightarrow> None
      | Some used \<Rightarrow>
          if used then
            map_option (\<lambda>s'. s'\<lparr>free_frame_count := free_frame_count s' + 1\<rparr>) (frame_clear s frame)
          else Some s)"

function mark_loop :: "u64 \<Rightarrow> u64 \<Rightarrow> frames \<Rightarrow> frames option" where
  "mark_loop frame frame_end s =
     (if frame < frame_end then
        (case release_frame s (ucast frame) of
           None \<Rightarrow> None
         | Some s' \<Rightarrow> mark_loop (frame + 1) frame_end s')
      else Some s)"
  by pat_completeness auto
termination
  by (relation "measure (\<lambda>(frame, frame_end, s). unat frame_end - unat frame)")
     (auto simp: unat_plus_one word_less_nat_alt)

declare mark_loop.simps [simp del]

definition mark_range_free :: "u64 \<Rightarrow> u64 \<Rightarrow> u64 \<Rightarrow> frames \<Rightarrow> frames option" where
  "mark_range_free start end_addr kernel_end s =
     (let start' = (if start < kernel_end then kernel_end else start);
          end' = (if end_addr > 1073741824 then 1073741824 else end_addr)
      in mark_loop (start' div 4096) (end' div 4096) s)"

function alloc_scan :: "frames \<Rightarrow> u32 \<Rightarrow> (frames \<times> u64) option" where
  "alloc_scan s i =
     (if i < total_frames s then
        (case frame_test s i of
           None \<Rightarrow> None
         | Some used \<Rightarrow>
             if \<not> used then
               map_option (\<lambda>s'. (s'\<lparr>free_frame_count := free_frame_count s' - 1\<rparr>, ucast i * 4096))
                 (frame_set s i)
             else alloc_scan s (i + 1))
      else Some (s, 0))"
  by pat_completeness auto
termination
  by (relation "measure (\<lambda>(s, i). unat (total_frames s) - unat i)")
     (auto simp: unat_plus_one word_less_nat_alt)

declare alloc_scan.simps [simp del]

definition alloc_frame :: "frames \<Rightarrow> (frames \<times> u64) option" where
  "alloc_frame s = alloc_scan s 0"

definition free_frame :: "frames \<Rightarrow> u64 \<Rightarrow> frames option" where
  "free_frame s addr = release_frame s (ucast (addr div 4096))"

section \<open>Boot-time initialisation\<close>

text \<open>
  Physical memory as the boot loader left it; \<^verbatim>\<open>frames_init\<close> reads packed little-endian
  structs from it. \<open>boot_end\<close> is the linker symbol \<^verbatim>\<open>_kernel_end\<close>.
\<close>

type_synonym phys_mem = "u64 \<Rightarrow> u8"

definition read32 :: "phys_mem \<Rightarrow> u64 \<Rightarrow> u32" where
  "read32 m a = le32_decode (map (\<lambda>i. m (a + of_nat i)) [0, 1, 2, 3])"

definition read64 :: "phys_mem \<Rightarrow> u64 \<Rightarrow> u64" where
  "read64 m a = ucast (read32 m a) OR push_bit 32 (ucast (read32 m (a + 4)))"

text \<open>Multiboot 1: \<^verbatim>\<open>mmap_entry\<close> is \<open>{u32 size; u64 addr; u64 len; u32 type}\<close>, packed.\<close>

definition entry_step :: "phys_mem \<Rightarrow> u64 \<Rightarrow> u64 \<Rightarrow> u64 \<Rightarrow> u64 \<Rightarrow> frames \<Rightarrow> frames option" where
  "entry_step m addr_at len_at type_at boot_end s =
     (if read32 m type_at = 1
      then mark_range_free (read64 m addr_at) (read64 m addr_at + read64 m len_at) boot_end s
      else Some s)"

partial_function (option) mb1_loop :: "phys_mem \<Rightarrow> u64 \<Rightarrow> u64 \<Rightarrow> u64 \<Rightarrow> frames \<Rightarrow> frames option" where
  "mb1_loop m entry_addr mmap_end boot_end s =
     (if entry_addr < mmap_end then
        Option.bind (entry_step m (entry_addr + 4) (entry_addr + 12) (entry_addr + 20) boot_end s)
          (\<lambda>s'. mb1_loop m (entry_addr + ucast (read32 m entry_addr) + 4) mmap_end boot_end s')
      else Some s)"

text \<open>Multiboot 2: entries \<open>{u64 addr; u64 len; u32 type; u32 zero}\<close>, \<open>entry_size\<close> apart.\<close>

partial_function (option) mb2_entries ::
  "phys_mem \<Rightarrow> u32 \<Rightarrow> u64 \<Rightarrow> u64 \<Rightarrow> u64 \<Rightarrow> frames \<Rightarrow> frames option" where
  "mb2_entries m entry_size entry_addr entries_end boot_end s =
     (if entry_addr < entries_end then
        Option.bind (entry_step m entry_addr (entry_addr + 8) (entry_addr + 16) boot_end s)
          (\<lambda>s'. mb2_entries m entry_size (entry_addr + ucast entry_size) entries_end boot_end s')
      else Some s)"

definition multiboot2_next_tag :: "phys_mem \<Rightarrow> u64 \<Rightarrow> u64" where
  "multiboot2_next_tag m tag = tag + ucast ((read32 m (tag + 4) + 7) AND NOT 7)"

partial_function (option) mb2_tags :: "phys_mem \<Rightarrow> u64 \<Rightarrow> u64 \<Rightarrow> frames \<Rightarrow> frames option" where
  "mb2_tags m tag boot_end s =
     (if read32 m tag \<noteq> 0 then
        (if read32 m tag = 6 then
           mb2_entries m (read32 m (tag + 8)) (tag + 16) (tag + ucast (read32 m (tag + 4))) boot_end s
         else mb2_tags m (multiboot2_next_tag m tag) boot_end s)
      else Some s)"

definition frames_reset :: frames where
  "frames_reset = \<lparr>frame_bitmap = replicate 32768 255, total_frames = 262144, free_frame_count = 0\<rparr>"

definition frames_init :: "phys_mem \<Rightarrow> u32 \<Rightarrow> u32 \<Rightarrow> u64 \<Rightarrow> frames option" where
  "frames_init m magic info_ptr boot_end =
     (if magic = 0x36D76289 then
        mb2_tags m (ucast info_ptr + 8) boot_end frames_reset
      else
        (let info = ucast info_ptr;
             mmap_addr = ucast (read32 m (info + 48));
             mmap_end = mmap_addr + ucast (read32 m (info + 44))
         in mb1_loop m mmap_addr mmap_end boot_end frames_reset))"

section \<open>The bitmap as a set of frames\<close>

definition frame_bit :: "frames \<Rightarrow> nat \<Rightarrow> bool" where
  "frame_bit s k = bit (frame_bitmap s ! (k div 8)) (k mod 8)"

definition free_frames :: "frames \<Rightarrow> nat set" where
  "free_frames s = {k. k < unat (total_frames s) \<and> \<not> frame_bit s k}"

definition frames_inv :: "frames \<Rightarrow> bool" where
  "frames_inv s \<longleftrightarrow> length (frame_bitmap s) = 32768 \<and> total_frames s = 262144 \<and>
     unat (free_frame_count s) = card (free_frames s)"

lemma mask_test: "n < 8 \<Longrightarrow> (b AND push_bit n 1) \<noteq> 0 \<longleftrightarrow> bit (b :: u8) n"
  by (auto simp: bit_eq_iff [of _ 0] bit_simps)

lemma frame_mask_bit: "frame_mask frame = push_bit (unat frame mod 8) 1"
  by (simp add: frame_mask_def unat_mod)

lemma div_mod8_eq: "j div 8 = k div 8 \<and> j mod 8 = k mod 8 \<longleftrightarrow> j = (k :: nat)"
  by (metis div_mult_mod_eq)

lemma frame_test_bit:
  assumes "unat frame div 8 < length (frame_bitmap s)"
  shows "frame_test s frame = Some (frame_bit s (unat frame))"
  using assms mask_test [of "unat frame mod 8" "frame_bitmap s ! (unat frame div 8)"]
  by (simp add: frame_test_def frame_mask_bit frame_bit_def unat_div)

lemma frame_set_bit:
  assumes "unat frame div 8 < length (frame_bitmap s)"
  shows "\<exists>s'. frame_set s frame = Some s' \<and> total_frames s' = total_frames s \<and>
    free_frame_count s' = free_frame_count s \<and>
    length (frame_bitmap s') = length (frame_bitmap s) \<and>
    (\<forall>j. frame_bit s' j \<longleftrightarrow> frame_bit s j \<or> j = unat frame)"
proof -
  have "bit (b OR push_bit n 1) m \<longleftrightarrow> bit b m \<or> m = n" if "m < 8" "n < 8" for b :: u8 and m n
    using that by (auto simp: bit_simps)
  then show ?thesis
    using assms
    by (auto simp: frame_set_def frame_bit_def frame_mask_bit unat_div nth_list_update Let_def
        div_mod8_eq [of _ "unat frame", symmetric])
qed

lemma frame_clear_bit:
  assumes "unat frame div 8 < length (frame_bitmap s)"
  shows "\<exists>s'. frame_clear s frame = Some s' \<and> total_frames s' = total_frames s \<and>
    free_frame_count s' = free_frame_count s \<and>
    length (frame_bitmap s') = length (frame_bitmap s) \<and>
    (\<forall>j. frame_bit s' j \<longleftrightarrow> frame_bit s j \<and> j \<noteq> unat frame)"
proof -
  have "bit (b AND NOT (push_bit n 1)) m \<longleftrightarrow> bit b m \<and> m \<noteq> n" if "m < 8" "n < 8" for b :: u8 and m n
    using that by (auto simp: bit_simps)
  then show ?thesis
    using assms
    by (auto simp: frame_clear_def frame_bit_def frame_mask_bit unat_div nth_list_update Let_def
        div_mod8_eq [of _ "unat frame", symmetric])
qed

subsection \<open>Releasing a frame\<close>

lemma release_frame_used:
  assumes "unat frame div 8 < length (frame_bitmap s)" and "frame_bit s (unat frame)"
  shows "\<exists>s'. release_frame s frame = Some s' \<and> total_frames s' = total_frames s \<and>
    length (frame_bitmap s') = length (frame_bitmap s) \<and>
    free_frame_count s' = free_frame_count s + 1 \<and>
    (\<forall>j. frame_bit s' j \<longleftrightarrow> frame_bit s j \<and> j \<noteq> unat frame)"
  using frame_clear_bit [OF assms(1)] assms(2)
  by (auto simp: release_frame_def frame_test_bit [OF assms(1)] frame_bit_def)

lemma release_frame_free:
  assumes "unat frame div 8 < length (frame_bitmap s)" and "\<not> frame_bit s (unat frame)"
  shows "release_frame s frame = Some s"
  using assms by (simp add: release_frame_def frame_test_bit)

lemma free_frames_finite [simp]: "finite (free_frames s)"
  by (simp add: free_frames_def)

lemma card_free_frames: "frames_inv s \<Longrightarrow> card (free_frames s) \<le> 262144"
  using card_mono [of "{..<262144}" "free_frames s"]
  by (auto simp: frames_inv_def free_frames_def)

text \<open>Releasing any in-range frame keeps the counter exact and adds that frame to the free set.\<close>

lemma release_frame_inv:
  assumes inv: "frames_inv s" and k: "unat frame < 262144"
  shows "\<exists>s'. release_frame s frame = Some s' \<and> frames_inv s' \<and>
    free_frames s' = insert (unat frame) (free_frames s)"
proof (cases "frame_bit s (unat frame)")
  case True
  have idx: "unat frame div 8 < length (frame_bitmap s)"
    using inv k by (simp add: frames_inv_def)
  from release_frame_used [OF idx True] obtain s' where
      r: "release_frame s frame = Some s'" and t: "total_frames s' = total_frames s"
    and l: "length (frame_bitmap s') = length (frame_bitmap s)"
    and c: "free_frame_count s' = free_frame_count s + 1"
    and b: "\<And>j. frame_bit s' j \<longleftrightarrow> frame_bit s j \<and> j \<noteq> unat frame"
    by blast
  have fs: "free_frames s' = insert (unat frame) (free_frames s)"
    using inv k by (auto simp: free_frames_def t b frames_inv_def)
  have new: "unat frame \<notin> free_frames s" using True by (simp add: free_frames_def)
  have "unat (free_frame_count s + 1) = Suc (unat (free_frame_count s))"
    using card_free_frames [OF inv] inv by (simp add: frames_inv_def unat_word_ariths)
  with inv new have "frames_inv s'"
    by (simp add: frames_inv_def t l c fs)
  with r fs show ?thesis by blast
next
  case False
  have idx: "unat frame div 8 < length (frame_bitmap s)"
    using inv k by (simp add: frames_inv_def)
  have "insert (unat frame) (free_frames s) = free_frames s"
    using False inv k by (auto simp: free_frames_def frames_inv_def)
  with release_frame_free [OF idx False] inv show ?thesis by simp
qed

lemma frames_reset_inv: "frames_inv frames_reset" and frames_reset_free: "free_frames frames_reset = {}"
proof -
  have b: "frame_bit frames_reset k" if "k < 262144" for k
  proof -
    have "k div 8 < 32768" using that by simp
    moreover have "bit (255 :: u8) n" if "n < 8" for n
    proof -
      have "n \<in> set [0, 1, 2, 3, 4, 5, 6, 7]" using that by simp arith
      then show ?thesis by auto
    qed
    ultimately show ?thesis
      by (simp add: frame_bit_def frames_reset_def)
  qed
  then show "free_frames frames_reset = {}"
    by (auto simp: free_frames_def frames_reset_def)
  then show "frames_inv frames_reset"
    by (simp add: frames_inv_def frames_reset_def)
qed

subsection \<open>Marking a range\<close>

lemma mark_loop_inv:
  "frames_inv s \<Longrightarrow> unat frame_end \<le> 262144 \<Longrightarrow>
    \<exists>s'. mark_loop frame frame_end s = Some s' \<and> frames_inv s' \<and>
      free_frames s' = free_frames s \<union> {unat frame..<unat frame_end}"
proof (induction frame frame_end s rule: mark_loop.induct)
  case (1 frame frame_end s)
  show ?case
  proof (cases "frame < frame_end")
    case True
    then have lt: "unat frame < unat frame_end" by (simp add: word_less_nat_alt)
    have u: "unat (ucast frame :: u32) = unat frame"
      using lt "1.prems"(2) by (simp add: unat_ucast_small)
    from release_frame_inv [OF "1.prems"(1), of "ucast frame"] u lt "1.prems"(2)
    obtain s1 where s1: "release_frame s (ucast frame) = Some s1" "frames_inv s1"
        "free_frames s1 = insert (unat frame) (free_frames s)" by auto
    from "1.IH" [OF True s1(1) s1(2) "1.prems"(2)] obtain s' where
        s': "mark_loop (frame + 1) frame_end s1 = Some s'" "frames_inv s'"
        "free_frames s' = free_frames s1 \<union> {unat (frame + 1)..<unat frame_end}" by blast
    have "mark_loop frame frame_end s = Some s'"
      by (subst mark_loop.simps) (simp add: True s1 s')
    moreover have "free_frames s' = free_frames s \<union> {unat frame..<unat frame_end}"
      using lt by (auto simp: s' s1 unat_plus_one [OF True])
    ultimately show ?thesis using s'(2) by blast
  next
    case False
    then have "mark_loop frame frame_end s = Some s" by (subst mark_loop.simps) simp
    with False "1.prems"(1) show ?thesis by (simp add: word_less_nat_alt)
  qed
qed

definition range_frames :: "u64 \<Rightarrow> u64 \<Rightarrow> u64 \<Rightarrow> nat set" where
  "range_frames start end_addr kernel_end =
     {max (unat start) (unat kernel_end) div 4096..<min (unat end_addr) 1073741824 div 4096}"

lemma mark_range_free_inv:
  assumes "frames_inv s"
  shows "\<exists>s'. mark_range_free start end_addr kernel_end s = Some s' \<and> frames_inv s' \<and>
    free_frames s' = free_frames s \<union> range_frames start end_addr kernel_end"
proof -
  let ?start = "if start < kernel_end then kernel_end else start"
  let ?stop = "if end_addr > 1073741824 then 1073741824 else end_addr"
  have e: "unat (?stop div 4096) = min (unat end_addr) 1073741824 div 4096"
    by (simp add: unat_div word_less_nat_alt min_def)
  have b: "unat (?start div 4096) = max (unat start) (unat kernel_end) div 4096"
    by (simp add: unat_div word_less_nat_alt max_def)
  have "unat (?stop div 4096) \<le> 262144" unfolding e by simp
  from mark_loop_inv [OF assms this, of "?start div 4096"] show ?thesis
    by (simp add: mark_range_free_def Let_def range_frames_def e b)
qed

subsection \<open>Allocation\<close>

definition frame_addr :: "nat \<Rightarrow> u64" where
  "frame_addr k = of_nat k * 4096"

lemma unat_frame_addr: "k < 262144 \<Longrightarrow> unat (frame_addr k) = k * 4096"
  by (simp add: frame_addr_def unat_word_ariths unat_of_nat)

lemma frame_addr_ucast: "unat (i :: u32) = k \<Longrightarrow> ucast i * 4096 = frame_addr k"
  by (auto simp: frame_addr_def)

lemma frame_addr_index: "k < 262144 \<Longrightarrow> unat (ucast (frame_addr k div 4096) :: u32) = k"
  by (simp add: unat_ucast_small unat_div unat_frame_addr)

lemma alloc_scan_inv:
  "frames_inv s \<Longrightarrow> unat i \<le> 262144 \<Longrightarrow>
    (free_frames s \<inter> {unat i..} = {} \<and> alloc_scan s i = Some (s, 0)) \<or>
    (\<exists>k s'. k \<in> free_frames s \<and> unat i \<le> k \<and> (\<forall>j \<in> free_frames s. unat i \<le> j \<longrightarrow> k \<le> j) \<and>
       alloc_scan s i = Some (s', frame_addr k) \<and> frames_inv s' \<and> free_frames s' = free_frames s - {k})"
proof (induction s i rule: alloc_scan.induct)
  case (1 s i)
  show ?case
  proof (cases "i < total_frames s")
    case False
    then have "free_frames s \<inter> {unat i..} = {}"
      by (auto simp: free_frames_def word_less_nat_alt)
    moreover have "alloc_scan s i = Some (s, 0)" using False by (subst alloc_scan.simps) simp
    ultimately show ?thesis by blast
  next
    case True
    then have lt: "unat i < 262144" using "1.prems"(1) by (simp add: word_less_nat_alt frames_inv_def)
    have idx: "unat i div 8 < length (frame_bitmap s)"
      using "1.prems"(1) lt by (simp add: frames_inv_def)
    show ?thesis
    proof (cases "frame_bit s (unat i)")
      case used: True
      have t: "frame_test s i = Some True" using frame_test_bit [OF idx] used by simp
      have u: "unat (i + 1) = Suc (unat i)" by (rule unat_plus_one [OF True])
      have eq: "alloc_scan s i = alloc_scan s (i + 1)"
        by (subst alloc_scan.simps) (simp add: True t)
      have skip: "unat i \<notin> free_frames s" using used by (simp add: free_frames_def)
      have geq: "unat i \<le> j \<longleftrightarrow> Suc (unat i) \<le> j" if "j \<in> free_frames s" for j
        using that skip by (metis Suc_leI le_neq_implies_less Suc_leD)
      have int: "free_frames s \<inter> {Suc (unat i)..} = free_frames s \<inter> {unat i..}"
        using geq by auto
      from "1.IH" [OF True t] lt show ?thesis
        unfolding eq u int using geq "1.prems"(1) by simp (meson Suc_leD)
    next
      case free: False
      from frame_set_bit [OF idx] obtain s' where
          s': "frame_set s i = Some s'" "total_frames s' = total_frames s"
            "free_frame_count s' = free_frame_count s"
            "length (frame_bitmap s') = length (frame_bitmap s)"
        and b: "\<And>j. frame_bit s' j \<longleftrightarrow> frame_bit s j \<or> j = unat i" by blast
      let ?s = "s'\<lparr>free_frame_count := free_frame_count s - 1\<rparr>"
      have run: "alloc_scan s i = Some (?s, frame_addr (unat i))"
        by (subst alloc_scan.simps)
           (simp add: True frame_test_bit [OF idx] free s' frame_addr_ucast)
      have mem: "unat i \<in> free_frames s"
        using free True by (simp add: free_frames_def word_less_nat_alt)
      have "frame_bit ?s j \<longleftrightarrow> frame_bit s' j" for j by (simp add: frame_bit_def)
      then have fs: "free_frames ?s = free_frames s - {unat i}"
        by (auto simp: free_frames_def s' b)
      have "card (free_frames s) > 0" using mem by (auto simp: card_gt_0_iff)
      then have "unat (free_frame_count s - 1) = card (free_frames s) - 1"
        using "1.prems"(1) by (simp add: frames_inv_def unat_sub_if' word_le_nat_alt)
      with "1.prems"(1) mem have "frames_inv ?s"
        by (simp add: frames_inv_def s' fs)
      with run mem fs show ?thesis by (intro disjI2 exI [of _ "unat i"]) auto
    qed
  qed
qed

section \<open>The allocator as an interface\<close>

text \<open>
  What the heap, the page tables and the process loader rely on. \<open>avail\<close> is the set of
  addresses the provider can still hand out; \<open>0\<close> is the NULL result and never one of them.
\<close>

locale frame_provider =
  fixes alloc :: "'s \<Rightarrow> ('s \<times> u64) option"
    and free :: "'s \<Rightarrow> u64 \<Rightarrow> 's option"
    and avail :: "'s \<Rightarrow> u64 set"
    and inv :: "'s \<Rightarrow> bool"
  assumes alloc_avail: "inv s \<Longrightarrow> avail s \<noteq> {} \<Longrightarrow>
      \<exists>s' a. alloc s = Some (s', a) \<and> a \<in> avail s \<and> inv s' \<and> avail s' = avail s - {a}"
    and alloc_exhausted: "inv s \<Longrightarrow> avail s = {} \<Longrightarrow> alloc s = Some (s, 0)"
    and avail_aligned: "inv s \<Longrightarrow> a \<in> avail s \<Longrightarrow> a mod 4096 = 0 \<and> a \<noteq> 0 \<and> a < 0x40000000"
    and free_avail: "inv s \<Longrightarrow> a mod 4096 = 0 \<Longrightarrow> a \<noteq> 0 \<Longrightarrow> a < 0x40000000 \<Longrightarrow>
      \<exists>s'. free s a = Some s' \<and> inv s' \<and> avail s' = insert a (avail s)"
begin

lemma alloc_frame_some:
  assumes "inv s" "alloc s = Some (s', a)" "a \<noteq> 0"
  shows "a \<in> avail s" "inv s'" "avail s' = avail s - {a}"
proof -
  have "avail s \<noteq> {}" using assms alloc_exhausted by auto
  from alloc_avail [OF assms(1) this] assms(2)
  show "a \<in> avail s" "inv s'" "avail s' = avail s - {a}" by auto
qed

lemma alloc_total: "inv s \<Longrightarrow> \<exists>s' a. alloc s = Some (s', a) \<and> inv s'"
  by (cases "avail s = {}") (auto dest: alloc_avail alloc_exhausted)

lemma alloc_null_iff:
  assumes "inv s" "alloc s = Some (s', a)"
  shows "a = 0 \<longleftrightarrow> avail s = {}"
proof
  assume "a = 0"
  show "avail s = {}"
  proof (rule ccontr)
    assume "avail s \<noteq> {}"
    from alloc_avail [OF assms(1) this] assms(2) have "a \<in> avail s" by auto
    with avail_aligned [OF assms(1)] \<open>a = 0\<close> show False by blast
  qed
qed (use assms alloc_exhausted in auto)

text \<open>A frame handed out is not handed out again before it is freed.\<close>

lemma alloc_distinct:
  assumes "inv s" "alloc s = Some (s1, a)" "a \<noteq> 0" "alloc s1 = Some (s2, b)" "b \<noteq> 0"
  shows "a \<noteq> b"
proof -
  from alloc_frame_some [OF assms(1-3)] have "inv s1" "avail s1 = avail s - {a}" by auto
  with alloc_frame_some [of s1 s2 b] assms(4,5) show ?thesis by auto
qed

text \<open>Returning the frame just taken restores the set of available frames.\<close>

lemma alloc_free:
  assumes "inv s" "alloc s = Some (s1, a)" "a \<noteq> 0"
  shows "\<exists>s2. free s1 a = Some s2 \<and> inv s2 \<and> avail s2 = avail s"
proof -
  note a = alloc_frame_some [OF assms]
  from avail_aligned [OF assms(1) a(1)] free_avail [OF a(2), of a] a(1,3) show ?thesis
    by (simp add: insert_absorb)
qed

end

definition avail_frames :: "frames \<Rightarrow> u64 set" where
  "avail_frames s = frame_addr ` free_frames s"

definition frames_ok :: "frames \<Rightarrow> bool" where
  "frames_ok s \<longleftrightarrow> frames_inv s \<and> 0 \<notin> free_frames s"

lemma free_frames_bound: "frames_inv s \<Longrightarrow> k \<in> free_frames s \<Longrightarrow> k < 262144"
  by (simp add: free_frames_def frames_inv_def)

lemma frame_addr_inject: "j < 262144 \<Longrightarrow> k < 262144 \<Longrightarrow> frame_addr j = frame_addr k \<longleftrightarrow> j = k"
  by (metis mult_cancel2 unat_frame_addr zero_neq_numeral)

lemma frame_addr_props:
  assumes "k < 262144"
  shows "frame_addr k mod 4096 = 0" "frame_addr k < 0x40000000" "frame_addr k = 0 \<longleftrightarrow> k = 0"
proof -
  show "frame_addr k mod 4096 = 0"
    by (rule word_unat_eq_iff [THEN iffD2]) (simp add: unat_mod unat_frame_addr [OF assms])
  show "frame_addr k < 0x40000000"
    using assms by (simp add: word_less_nat_alt unat_frame_addr)
  show "frame_addr k = 0 \<longleftrightarrow> k = 0"
    using frame_addr_inject [OF assms, of 0] by (simp add: frame_addr_def)
qed

lemma frame_addr_surj:
  assumes "a mod 4096 = 0" "a < 0x40000000"
  shows "a = frame_addr (unat a div 4096)" "unat a div 4096 < 262144"
proof -
  show lt: "unat a div 4096 < 262144"
    using assms(2) by (simp add: word_less_nat_alt)
  have "unat a mod 4096 = 0"
    using arg_cong [OF assms(1), of unat] by (simp add: unat_mod)
  then have "unat a = unat a div 4096 * 4096"
    by (metis add.right_neutral div_mult_mod_eq)
  then show "a = frame_addr (unat a div 4096)"
    using unat_frame_addr [OF lt] by (metis word_unat_eq_iff)
qed

lemma free_frame_ok:
  assumes "frames_ok s" "a mod 4096 = 0" "a \<noteq> 0" "a < 0x40000000"
  shows "\<exists>s'. free_frame s a = Some s' \<and> frames_ok s' \<and> avail_frames s' = insert a (avail_frames s)"
proof -
  let ?k = "unat a div 4096"
  note k = frame_addr_surj [OF assms(2,4)]
  have k0: "?k \<noteq> 0" using k assms(3) frame_addr_props(3) [OF k(2)] by metis
  have u: "unat (ucast (a div 4096) :: u32) = ?k"
    using frame_addr_index [OF k(2)] unfolding k(1) [symmetric] .
  from release_frame_inv [of s "ucast (a div 4096)"] assms(1) u k(2) obtain s' where
      "release_frame s (ucast (a div 4096)) = Some s'" "frames_inv s'"
      "free_frames s' = insert ?k (free_frames s)"
    by (auto simp: frames_ok_def)
  moreover from this assms(1) k0 have "0 \<notin> free_frames s'" by (simp add: frames_ok_def)
  ultimately show ?thesis
    by (simp add: free_frame_def frames_ok_def avail_frames_def k(1) [symmetric])
qed

lemma alloc_frame_ok:
  assumes "frames_ok s"
  shows "(free_frames s = {} \<and> alloc_frame s = Some (s, 0)) \<or>
    (\<exists>k s'. k \<in> free_frames s \<and> (\<forall>j \<in> free_frames s. k \<le> j) \<and>
       alloc_frame s = Some (s', frame_addr k) \<and> frames_ok s' \<and>
       free_frames s' = free_frames s - {k} \<and> avail_frames s' = avail_frames s - {frame_addr k})"
proof -
  have inv: "frames_inv s" using assms by (simp add: frames_ok_def)
  have diff: "frame_addr ` (free_frames s - {k}) = frame_addr ` free_frames s - {frame_addr k}"
    if "k \<in> free_frames s" for k
    using that free_frames_bound [OF inv] frame_addr_inject by fastforce
  from alloc_scan_inv [OF inv, of 0, simplified] show ?thesis
  proof (elim disjE exE conjE)
    fix k s'
    assume k: "k \<in> free_frames s" and min: "\<forall>j\<in>free_frames s. k \<le> j"
      and run: "alloc_scan s 0 = Some (s', frame_addr k)" and inv': "frames_inv s'"
      and fs: "free_frames s' = free_frames s - {k}"
    have "frames_ok s'" using inv' fs assms by (simp add: frames_ok_def)
    moreover have "avail_frames s' = avail_frames s - {frame_addr k}"
      by (simp add: avail_frames_def fs diff [OF k])
    ultimately show ?thesis using k min run fs by (auto simp: alloc_frame_def)
  qed (simp_all add: alloc_frame_def)
qed

interpretation fp: frame_provider alloc_frame free_frame avail_frames frames_ok
proof
  fix s a
  assume ok: "frames_ok s"
  then have inv: "frames_inv s" by (simp add: frames_ok_def)
  show "\<exists>s' a. alloc_frame s = Some (s', a) \<and> a \<in> avail_frames s \<and> frames_ok s' \<and>
      avail_frames s' = avail_frames s - {a}" if "avail_frames s \<noteq> {}"
    using alloc_frame_ok [OF ok] that by (auto simp: avail_frames_def)
  show "alloc_frame s = Some (s, 0)" if "avail_frames s = {}"
    using alloc_frame_ok [OF ok] that by (auto simp: avail_frames_def)
  show "a mod 4096 = 0 \<and> a \<noteq> 0 \<and> a < 0x40000000" if a: "a \<in> avail_frames s"
  proof -
    from a obtain k where k: "k \<in> free_frames s" "a = frame_addr k"
      by (auto simp: avail_frames_def)
    moreover have "k \<noteq> 0" using k ok by (metis frames_ok_def)
    ultimately show ?thesis
      using frame_addr_props [OF free_frames_bound [OF inv k(1)]] by auto
  qed
  show "\<exists>s'. free_frame s a = Some s' \<and> frames_ok s' \<and> avail_frames s' = insert a (avail_frames s)"
    if "a mod 4096 = 0" "a \<noteq> 0" "a < 0x40000000"
    using free_frame_ok [OF ok that] .
qed

section \<open>The boot memory map\<close>

text \<open>The frames one memory map entry contributes: none unless its type is 1 (available RAM).\<close>

definition entry_frames :: "u64 \<Rightarrow> u64 \<times> u64 \<times> u32 \<Rightarrow> nat set" where
  "entry_frames boot_end e =
     (case e of (base, len, ty) \<Rightarrow> if ty = 1 then range_frames base (base + len) boot_end else {})"

text \<open>The Multiboot 1 entries found from address \<open>a\<close> on, each \<open>size + 4\<close> bytes after the last.\<close>

fun mb1_layout :: "phys_mem \<Rightarrow> u64 \<Rightarrow> u64 \<Rightarrow> (u64 \<times> u64 \<times> u32) list \<Rightarrow> bool" where
  "mb1_layout m a mmap_end [] \<longleftrightarrow> \<not> a < mmap_end"
| "mb1_layout m a mmap_end (e # es) \<longleftrightarrow> a < mmap_end \<and>
     e = (read64 m (a + 4), read64 m (a + 12), read32 m (a + 20)) \<and>
     mb1_layout m (a + ucast (read32 m a) + 4) mmap_end es"

fun mb2_layout :: "phys_mem \<Rightarrow> u32 \<Rightarrow> u64 \<Rightarrow> u64 \<Rightarrow> (u64 \<times> u64 \<times> u32) list \<Rightarrow> bool" where
  "mb2_layout m entry_size a entries_end [] \<longleftrightarrow> \<not> a < entries_end"
| "mb2_layout m entry_size a entries_end (e # es) \<longleftrightarrow> a < entries_end \<and>
     e = (read64 m a, read64 m (a + 8), read32 m (a + 16)) \<and>
     mb2_layout m entry_size (a + ucast entry_size) entries_end es"

lemma entry_step_inv:
  assumes "frames_inv s"
  shows "\<exists>s'. entry_step m pa pl pt boot_end s = Some s' \<and> frames_inv s' \<and>
    free_frames s' = free_frames s \<union> entry_frames boot_end (read64 m pa, read64 m pl, read32 m pt)"
  using mark_range_free_inv [OF assms] assms by (simp add: entry_step_def entry_frames_def)

lemma unat_step:
  fixes a :: u64
  assumes "unat a + n < 18446744073709551616" "unat d = n"
  shows "unat (a + d) = unat a + n"
  using assms by (simp add: unat_word_ariths)

lemma mb1_loop_total:
  assumes "unat mmap_end < 17179869184" "frames_inv s"
  shows "\<exists>es s'. mb1_layout m a mmap_end es \<and> mb1_loop m a mmap_end boot_end s = Some s' \<and>
    frames_inv s' \<and> free_frames s' = free_frames s \<union> (\<Union>e \<in> set es. entry_frames boot_end e)"
  using assms(2)
proof (induction "unat mmap_end - unat a" arbitrary: a s rule: less_induct)
  case less
  show ?case
  proof (cases "a < mmap_end")
    case False
    then have "mb1_loop m a mmap_end boot_end s = Some s"
      by (subst mb1_loop.simps) simp
    with False less.prems show ?thesis by (intro exI [of _ "[]"]) simp
  next
    case True
    let ?n = "a + ucast (read32 m a) + 4"
    have lt: "unat a < unat mmap_end" using True by (simp add: word_less_nat_alt)
    have bound: "unat a + unat (read32 m a) + 4 < 18446744073709551616"
      using lt assms(1) unat_less_u32 [of "read32 m a"] by linarith
    then have "unat a + unat (read32 m a) < 18446744073709551616" by simp
    then have "unat (a + ucast (read32 m a)) = unat a + unat (read32 m a)"
      by (intro unat_step) (simp_all add: unat_ucast_mod)
    then have step: "unat ?n = unat a + unat (read32 m a) + 4"
      using bound unat_step [of "a + ucast (read32 m a)" 4 4] by simp
    from entry_step_inv [OF less.prems, of m "a + 4" "a + 12" "a + 20" boot_end]
    obtain s1 where s1: "entry_step m (a + 4) (a + 12) (a + 20) boot_end s = Some s1"
        "frames_inv s1" "free_frames s1 = free_frames s \<union>
           entry_frames boot_end (read64 m (a + 4), read64 m (a + 12), read32 m (a + 20))" by auto
    have "unat mmap_end - unat ?n < unat mmap_end - unat a" using step lt by simp
    from less.hyps [OF this s1(2)] obtain es s' where
        es: "mb1_layout m ?n mmap_end es" and s': "mb1_loop m ?n mmap_end boot_end s1 = Some s'"
        "frames_inv s'" "free_frames s' = free_frames s1 \<union> (\<Union>e \<in> set es. entry_frames boot_end e)"
      by blast
    have "mb1_loop m a mmap_end boot_end s = Some s'"
      by (subst mb1_loop.simps) (simp add: True s1 s')
    with True es s' s1(3) show ?thesis
      by (intro exI [of _ "(read64 m (a + 4), read64 m (a + 12), read32 m (a + 20)) # es"])
         (auto simp: Un_assoc)
  qed
qed

lemma mb2_entries_total:
  assumes "unat entries_end < 9223372036854775808" "entry_size \<noteq> 0" "frames_inv s"
  shows "\<exists>es s'. mb2_layout m entry_size a entries_end es \<and>
    mb2_entries m entry_size a entries_end boot_end s = Some s' \<and>
    frames_inv s' \<and> free_frames s' = free_frames s \<union> (\<Union>e \<in> set es. entry_frames boot_end e)"
  using assms(3)
proof (induction "unat entries_end - unat a" arbitrary: a s rule: less_induct)
  case less
  show ?case
  proof (cases "a < entries_end")
    case False
    then have "mb2_entries m entry_size a entries_end boot_end s = Some s"
      by (subst mb2_entries.simps) simp
    with False less.prems show ?thesis by (intro exI [of _ "[]"]) simp
  next
    case True
    let ?n = "a + ucast entry_size"
    have lt: "unat a < unat entries_end" using True by (simp add: word_less_nat_alt)
    have "unat entry_size > 0" using assms(2) by (simp add: unat_gt_0)
    moreover have "unat a + unat entry_size < 18446744073709551616"
      using lt assms(1) unat_less_u32 [of entry_size] by linarith
    then have "unat ?n = unat a + unat entry_size"
      by (intro unat_step) (simp_all add: unat_ucast_mod)
    ultimately have m: "unat entries_end - unat ?n < unat entries_end - unat a"
      using lt by simp
    from entry_step_inv [OF less.prems, of m "a" "a + 8" "a + 16" boot_end]
    obtain s1 where s1: "entry_step m a (a + 8) (a + 16) boot_end s = Some s1"
        "frames_inv s1" "free_frames s1 = free_frames s \<union>
           entry_frames boot_end (read64 m a, read64 m (a + 8), read32 m (a + 16))" by auto
    from less.hyps [OF m s1(2)] obtain es s' where
        es: "mb2_layout m entry_size ?n entries_end es"
        and s': "mb2_entries m entry_size ?n entries_end boot_end s1 = Some s'"
        "frames_inv s'" "free_frames s' = free_frames s1 \<union> (\<Union>e \<in> set es. entry_frames boot_end e)"
      by blast
    have "mb2_entries m entry_size a entries_end boot_end s = Some s'"
      by (subst mb2_entries.simps) (simp add: True s1 s')
    with True es s' s1(3) show ?thesis
      by (intro exI [of _ "(read64 m a, read64 m (a + 8), read32 m (a + 16)) # es"])
         (auto simp: Un_assoc)
  qed
qed

text \<open>The tag walk reaches the memory map (or the end tag) after \<open>n\<close> earlier tags.\<close>

fun mb2_mmap_at :: "phys_mem \<Rightarrow> u64 \<Rightarrow> nat \<Rightarrow> u64 option" where
  "mb2_mmap_at m tag 0 = (if read32 m tag = 6 then Some tag else None)"
| "mb2_mmap_at m tag (Suc n) =
     (if read32 m tag = 0 \<or> read32 m tag = 6 then None else mb2_mmap_at m (multiboot2_next_tag m tag) n)"

lemma mb2_tags_mmap:
  "mb2_mmap_at m tag n = Some t \<Longrightarrow> mb2_tags m tag boot_end s =
    mb2_entries m (read32 m (t + 8)) (t + 16) (t + ucast (read32 m (t + 4))) boot_end s"
proof (induction n arbitrary: tag)
  case 0
  then show ?case by (subst mb2_tags.simps) (simp split: if_splits)
next
  case (Suc n)
  then show ?case by (subst mb2_tags.simps) (simp split: if_splits)
qed

lemma entry_frames_above:
  "k \<in> entry_frames boot_end e \<Longrightarrow> unat boot_end div 4096 \<le> k \<and> k < 262144"
proof -
  assume "k \<in> entry_frames boot_end e"
  then obtain a b where k: "max a (unat boot_end) div 4096 \<le> k" "k < min b 1073741824 div 4096"
    by (auto simp: entry_frames_def range_frames_def split: prod.splits if_splits)
  have "unat boot_end div 4096 \<le> max a (unat boot_end) div 4096" by (rule div_le_mono) simp
  moreover have "min b 1073741824 div 4096 \<le> 262144"
    using div_le_mono [of "min b 1073741824" 1073741824 4096] by simp
  ultimately show ?thesis using k by linarith
qed

section \<open>Properties\<close>

text \<open>
  C20. Booting through Multiboot 1, \<^verbatim>\<open>frames_init\<close> returns whatever bytes the memory map
  holds: the walk over its variable-sized entries ends, no bitmap access is out of bounds, the
  free-frame counter equals the number of clear bits, and exactly the frames of the type-1
  entries that lie above the kernel image and below 1 GB are free.
\<close>

theorem frames_init_multiboot1:
  assumes "magic \<noteq> 0x36D76289"
  shows "\<exists>es s. mb1_layout m (ucast (read32 m (ucast info_ptr + 48)))
      (ucast (read32 m (ucast info_ptr + 48)) + ucast (read32 m (ucast info_ptr + 44))) es \<and>
    frames_init m magic info_ptr boot_end = Some s \<and> frames_inv s \<and>
    free_frames s = (\<Union>e \<in> set es. entry_frames boot_end e) \<and>
    (\<forall>k \<in> free_frames s. unat boot_end div 4096 \<le> k \<and> k < 262144)"
proof -
  let ?a = "ucast (read32 m (ucast info_ptr + 48)) :: u64"
  let ?l = "ucast (read32 m (ucast info_ptr + 44)) :: u64"
  have "unat (?a + ?l) \<le> unat ?a + unat ?l" by (simp add: unat_word_ariths)
  also have "\<dots> < 17179869184"
    unfolding unat_u32_u64 using unat_less_u32 [of "read32 m (ucast info_ptr + 48)"]
      unat_less_u32 [of "read32 m (ucast info_ptr + 44)"] by linarith
  finally have "unat (?a + ?l) < 17179869184" .
  from mb1_loop_total [OF this frames_reset_inv, of m ?a boot_end] obtain es s where
      es: "mb1_layout m ?a (?a + ?l) es" and run: "mb1_loop m ?a (?a + ?l) boot_end frames_reset = Some s"
        "frames_inv s" "free_frames s = (\<Union>e \<in> set es. entry_frames boot_end e)"
    unfolding frames_reset_free by auto
  have "frames_init m magic info_ptr boot_end = Some s"
    using assms run(1) by (simp add: frames_init_def Let_def)
  moreover have "\<forall>k \<in> free_frames s. unat boot_end div 4096 \<le> k \<and> k < 262144"
    unfolding run(3) using entry_frames_above by blast
  ultimately show ?thesis using es run(2,3) by blast
qed

theorem frames_init_multiboot1_witness:
  "(0x2BADB002 :: u32) \<noteq> 0x36D76289 \<and>
   (\<exists>s. frames_init (\<lambda>a. if a = 44 then 24 else 1) 0x2BADB002 0 0x200000 = Some s \<and> frames_inv s)"
  using frames_init_multiboot1
    [where magic = "0x2BADB002" and m = "\<lambda>a. if a = 44 then 24 else 1" and info_ptr = 0
      and boot_end = "0x200000"] by auto

text \<open>
  Booting through Multiboot 2, once the tag walk meets a memory map tag whose entry size is
  not zero, \<^verbatim>\<open>frames_init\<close> returns with the counter exact and exactly the frames of that
  tag's type-1 entries above the kernel image free.
\<close>

theorem frames_init_multiboot2:
  assumes "mb2_mmap_at m (ucast info_ptr + 8) n = Some t" "read32 m (t + 8) \<noteq> 0"
    and "unat (t + ucast (read32 m (t + 4))) < 9223372036854775808"
  shows "\<exists>es s. mb2_layout m (read32 m (t + 8)) (t + 16) (t + ucast (read32 m (t + 4))) es \<and>
    frames_init m 0x36D76289 info_ptr boot_end = Some s \<and> frames_inv s \<and>
    free_frames s = (\<Union>e \<in> set es. entry_frames boot_end e)"
proof -
  from mb2_entries_total [OF assms(3,2) frames_reset_inv, of m "t + 16" boot_end] obtain es s where
      es: "mb2_layout m (read32 m (t + 8)) (t + 16) (t + ucast (read32 m (t + 4))) es" and
      run: "mb2_entries m (read32 m (t + 8)) (t + 16) (t + ucast (read32 m (t + 4))) boot_end
          frames_reset = Some s"
        "frames_inv s" "free_frames s = (\<Union>e \<in> set es. entry_frames boot_end e)"
    unfolding frames_reset_free by auto
  have "frames_init m 0x36D76289 info_ptr boot_end = Some s"
    using mb2_tags_mmap [OF assms(1)] run(1) by (simp add: frames_init_def)
  then show ?thesis using es run(2,3) by blast
qed

text \<open>A one-entry map at address 8: tag 6 of size 40, entry size 24, one megabyte from 1 MB up.\<close>

definition sample_mb2 :: phys_mem where
  "sample_mb2 a = (if a = 8 then 6 else if a = 12 then 40 else if a = 16 then 24
     else if a = 26 then 16 else if a = 34 then 16 else if a = 40 then 1 else 0)"

theorem frames_init_multiboot2_witness:
  "\<exists>es s. mb2_layout sample_mb2 24 24 48 es \<and>
     frames_init sample_mb2 0x36D76289 0 0x180000 = Some s \<and>
     free_frames s = (\<Union>e \<in> set es. entry_frames 0x180000 e) \<and> es \<noteq> []"
proof -
  have r: "read32 sample_mb2 8 = 6" "read32 sample_mb2 16 = 24" "read32 sample_mb2 12 = 40"
    by (simp_all add: read32_def sample_mb2_def le32_decode_def)
  have "mb2_mmap_at sample_mb2 (ucast (0 :: u32) + 8) 0 = Some 8" by (simp add: r)
  from frames_init_multiboot2 [OF this, of "0x180000"]
  obtain es s where e: "mb2_layout sample_mb2 24 24 48 es"
      "frames_init sample_mb2 0x36D76289 0 0x180000 = Some s"
      "free_frames s = (\<Union>e \<in> set es. entry_frames 0x180000 e)"
    by (auto simp: r)
  moreover have "es \<noteq> []" using e(1) by (cases es) auto
  ultimately show ?thesis by blast
qed

text \<open>
  C1. On an allocator whose frame 0 is reserved, \<^verbatim>\<open>alloc_frame\<close> hands out the lowest free
  frame, marks it used and keeps the counter exact, and returns NULL exactly when no frame is
  free; in particular NULL is never the address of a real frame. Freeing the frame again
  restores the set of available frames.
\<close>

theorem alloc_frame_first_fit:
  assumes "frames_ok s"
  shows "\<exists>s' a. alloc_frame s = Some (s', a) \<and> frames_ok s' \<and>
    (a = 0 \<longleftrightarrow> free_frames s = {}) \<and>
    (a \<noteq> 0 \<longrightarrow> unat a div 4096 = Min (free_frames s) \<and> unat a mod 4096 = 0 \<and>
       free_frames s' = free_frames s - {unat a div 4096} \<and>
       free_frame_count s' = free_frame_count s - 1 \<and>
       (\<exists>s''. free_frame s' a = Some s'' \<and> frames_ok s'' \<and> avail_frames s'' = avail_frames s))"
proof (cases "free_frames s = {}")
  case True
  then show ?thesis using alloc_frame_ok [OF assms] assms by auto
next
  case False
  from alloc_frame_ok [OF assms] False obtain k s' where
      k: "k \<in> free_frames s" "\<forall>j \<in> free_frames s. k \<le> j" and
      run: "alloc_frame s = Some (s', frame_addr k)" "frames_ok s'"
        "free_frames s' = free_frames s - {k}" by blast
  have inv: "frames_inv s" "frames_inv s'" "0 \<notin> free_frames s"
    using assms run(2) by (simp_all add: frames_ok_def)
  have lt: "k < 262144" by (rule free_frames_bound [OF inv(1) k(1)])
  have nz: "frame_addr k \<noteq> 0" using frame_addr_props(3) [OF lt] k(1) inv(3) by metis
  have min: "k = Min (free_frames s)" using k by (intro Min_eqI [symmetric]) auto
  have "card (free_frames s) > 0" using k(1) by (auto simp: card_gt_0_iff)
  then have "unat (free_frame_count s') = unat (free_frame_count s) - 1"
    "unat (free_frame_count s) > 0"
    using inv k(1) run(3) by (simp_all add: frames_inv_def)
  then have "free_frame_count s' = free_frame_count s - 1"
    by (simp add: word_unat_eq_iff unat_sub_if' word_le_nat_alt)
  with fp.alloc_free [OF assms run(1) nz] run nz False show ?thesis
    by (simp add: unat_frame_addr [OF lt] min [symmetric])
qed

theorem alloc_frame_first_fit_witness:
  "\<exists>s s'. frames_ok s \<and> free_frames s = {5} \<and> alloc_frame s = Some (s', 0x5000) \<and>
     free_frames s' = {}"
proof -
  from release_frame_inv [OF frames_reset_inv, of 5] obtain s where
      s: "frames_inv s" "free_frames s = {5}" by (auto simp: frames_reset_free)
  then have ok: "frames_ok s" by (simp add: frames_ok_def)
  from alloc_frame_first_fit [OF ok] s(2) obtain s' a where
      a: "alloc_frame s = Some (s', a)" "unat a div 4096 = 5" "unat a mod 4096 = 0"
        "free_frames s' = {}" by auto
  then have "unat a = unat (0x5000 :: u64)" using div_mult_mod_eq [of "unat a" 4096] by simp
  then have "a = 0x5000" by (simp only: word_unat_eq_iff)
  with a ok s(2) show ?thesis by blast
qed

end
