(* ===== verification/Cow.thy ===== *)
theory Cow
  imports Prelude
begin

text \<open>
  Model of \<^verbatim>\<open>src/kernel/mm/cow/cow.c\<close>: the table of copy-on-write frames with their share
  counts. A frame that is not in the table has exactly one owner. The share count is a C
  \<^verbatim>\<open>int\<close>; it is a mathematical integer here, since a count never exceeds the number of address
  spaces mapping the frame.
\<close>

section \<open>State and operations\<close>

record cow_entry =
  cow_used :: bool
  cow_frame :: u64
  cow_refcount :: int

type_synonym cow_table = "cow_entry list"

definition COW_SLOTS :: nat where "COW_SLOTS = 64"

definition cow_find_slot :: "cow_table \<Rightarrow> u64 \<Rightarrow> nat option" where
  "cow_find_slot t frame = first_index (\<lambda>e. cow_used e \<and> cow_frame e = frame) t"

text \<open>The second half of \<^verbatim>\<open>cow_track\<close>: claim the first unused entry.\<close>

definition cow_entry_init :: "u64 \<Rightarrow> cow_entry \<Rightarrow> cow_entry" where
  "cow_entry_init frame e = e\<lparr>cow_used := True, cow_frame := frame, cow_refcount := 2\<rparr>"

definition cow_claim :: "u64 \<Rightarrow> cow_table \<Rightarrow> cow_table \<times> int" where
  "cow_claim frame t =
     (case first_index (\<lambda>e. \<not> cow_used e) t of
        None \<Rightarrow> (t, -1)
      | Some i \<Rightarrow> (t[i := cow_entry_init frame (t ! i)], int i))"

definition cow_track :: "cow_table \<Rightarrow> u64 \<Rightarrow> cow_table \<times> bool" where
  "cow_track t frame =
     (case cow_find_slot t frame of
        Some slot \<Rightarrow> (t[slot := (t ! slot)\<lparr>cow_refcount := cow_refcount (t ! slot) + 1\<rparr>], True)
      | None \<Rightarrow> (case cow_claim frame t of (t', slot) \<Rightarrow> (t', slot \<noteq> -1)))"

definition cow_is_shared :: "cow_table \<Rightarrow> u64 \<Rightarrow> bool" where
  "cow_is_shared t frame \<longleftrightarrow> cow_find_slot t frame \<noteq> None"

definition cow_should_free :: "cow_table \<Rightarrow> u64 \<Rightarrow> cow_table \<times> bool" where
  "cow_should_free t frame =
     (case cow_find_slot t frame of
        None \<Rightarrow> (t, True)
      | Some slot \<Rightarrow>
          let e = (t ! slot)\<lparr>cow_refcount := cow_refcount (t ! slot) - 1\<rparr>
          in if cow_refcount e \<le> 0 then (t[slot := e\<lparr>cow_used := False\<rparr>], True)
             else (t[slot := e], False))"

interpretation cowt: slot_table cow_used cow_entry_init cow_claim
  by unfold_locales (simp_all add: cow_claim_def cow_entry_init_def)

section \<open>The table as a share count per frame\<close>

text \<open>Distinct entries track distinct frames and a tracked frame has at least one owner.\<close>

definition cow_inv :: "cow_table \<Rightarrow> bool" where
  "cow_inv t \<longleftrightarrow> length t = COW_SLOTS \<and>
     (\<forall>i < length t. cow_used (t ! i) \<longrightarrow> 1 \<le> cow_refcount (t ! i)) \<and>
     (\<forall>i < length t. \<forall>j < length t. cow_used (t ! i) \<longrightarrow> cow_used (t ! j) \<longrightarrow>
        cow_frame (t ! i) = cow_frame (t ! j) \<longrightarrow> i = j)"

text \<open>The abstract value: how many owners a frame has.\<close>

definition cow_owners :: "cow_table \<Rightarrow> u64 \<Rightarrow> int" where
  "cow_owners t frame =
     (case cow_find_slot t frame of None \<Rightarrow> 1 | Some slot \<Rightarrow> cow_refcount (t ! slot))"

lemma cow_find_slot_eq:
  assumes "cow_inv t"
  shows "cow_find_slot t frame = Some i \<longleftrightarrow>
    i < length t \<and> cow_used (t ! i) \<and> cow_frame (t ! i) = frame"
proof
  assume "cow_find_slot t frame = Some i"
  then show "i < length t \<and> cow_used (t ! i) \<and> cow_frame (t ! i) = frame"
    unfolding cow_find_slot_def by (auto dest: first_index_SomeD)
next
  assume i: "i < length t \<and> cow_used (t ! i) \<and> cow_frame (t ! i) = frame"
  with assms show "cow_find_slot t frame = Some i"
    unfolding cow_find_slot_def by (intro first_index_unique) (auto simp: cow_inv_def)
qed

lemma cow_find_slot_None:
  "cow_find_slot t frame = None \<longleftrightarrow>
    (\<forall>i < length t. cow_used (t ! i) \<longrightarrow> cow_frame (t ! i) \<noteq> frame)"
  by (auto simp: cow_find_slot_def first_index_None all_set_conv_all_nth)

lemma cow_owners_tracked:
  "cow_inv t \<Longrightarrow> i < length t \<Longrightarrow> cow_used (t ! i) \<Longrightarrow> cow_owners t (cow_frame (t ! i)) = cow_refcount (t ! i)"
  using cow_find_slot_eq [of t "cow_frame (t ! i)" i] by (simp add: cow_owners_def)

lemma cow_owners_untracked:
  "(\<And>i. i < length t \<Longrightarrow> cow_used (t ! i) \<Longrightarrow> cow_frame (t ! i) \<noteq> frame) \<Longrightarrow> cow_owners t frame = 1"
  using cow_find_slot_None [of t frame] by (simp add: cow_owners_def)

lemma cow_owners_pos: "cow_inv t \<Longrightarrow> 1 \<le> cow_owners t frame"
  using cow_find_slot_eq [of t frame]
  by (auto simp: cow_owners_def cow_inv_def split: option.splits)

text \<open>Updating one entry: the owners of every other frame are unaffected.\<close>

lemma cow_owners_update:
  assumes inv: "cow_inv t" "cow_inv (t[i := e])" and i: "i < length t"
    and g: "g \<noteq> cow_frame e" "cow_used (t ! i) \<longrightarrow> g \<noteq> cow_frame (t ! i)"
  shows "cow_owners (t[i := e]) g = cow_owners t g"
proof (cases "cow_find_slot t g")
  case None
  then have "cow_find_slot (t[i := e]) g = None"
    using g i by (auto simp: cow_find_slot_None nth_list_update)
  with None show ?thesis by (simp add: cow_owners_def)
next
  case (Some k)
  then have k: "k < length t" "cow_used (t ! k)" "cow_frame (t ! k) = g"
    using cow_find_slot_eq [OF inv(1)] by auto
  with g have "k \<noteq> i" by auto
  with k have "cow_find_slot (t[i := e]) g = Some k"
    by (simp add: cow_find_slot_eq [OF inv(2)])
  with Some \<open>k \<noteq> i\<close> show ?thesis by (simp add: cow_owners_def)
qed

lemma cow_inv_update:
  assumes "cow_inv t" "i < length t" "cow_used e \<longrightarrow> 1 \<le> cow_refcount e"
    and "cow_used e \<longrightarrow> (\<forall>j < length t. j \<noteq> i \<longrightarrow> cow_used (t ! j) \<longrightarrow> cow_frame (t ! j) \<noteq> cow_frame e)"
  shows "cow_inv (t[i := e])"
  using assms by (auto simp: cow_inv_def nth_list_update)

lemma cow_track_refines:
  assumes inv: "cow_inv t" and run: "cow_track t frame = (t', True)"
  shows "cow_inv t' \<and> cow_owners t' = (cow_owners t)(frame := cow_owners t frame + 1) \<and>
    cow_is_shared t' frame"
proof (cases "cow_find_slot t frame")
  case (Some slot)
  then have s: "slot < length t" "cow_used (t ! slot)" "cow_frame (t ! slot) = frame"
    using cow_find_slot_eq [OF inv] by auto
  let ?e = "(t ! slot)\<lparr>cow_refcount := cow_refcount (t ! slot) + 1\<rparr>"
  have t': "t' = t[slot := ?e]" using run Some by (simp add: cow_track_def)
  have inv': "cow_inv (t[slot := ?e])"
    using inv s by (intro cow_inv_update) (auto simp: cow_inv_def)
  have find: "cow_find_slot t' frame = Some slot"
    using s inv' by (simp add: t' cow_find_slot_eq)
  have "cow_owners t' g = ((cow_owners t)(frame := cow_owners t frame + 1)) g" for g
    using find Some s cow_owners_update [OF inv inv' s(1), of g]
    by (cases "g = frame") (auto simp: cow_owners_def t')
  with inv' find show ?thesis by (auto simp: t' cow_is_shared_def)
next
  case None
  with run obtain i where claim: "cow_claim frame t = (t', int i)"
    by (auto simp: cow_track_def cow_claim_def split: option.splits)
  note f = cowt.alloc_fresh [OF claim]
  have "\<forall>j < length t. cow_used (t ! j) \<longrightarrow> cow_frame (t ! j) \<noteq> frame"
    using None by (simp add: cow_find_slot_None)
  then have inv': "cow_inv (t[i := cow_entry_init frame (t ! i)])"
    using inv f(1) by (intro cow_inv_update) (auto simp: cow_entry_init_def)
  have find: "cow_find_slot t' frame = Some i"
    using f(1) inv' by (simp add: f(3) cow_find_slot_eq cow_entry_init_def)
  have "cow_owners t' g = ((cow_owners t)(frame := cow_owners t frame + 1)) g" for g
    using find None f cow_owners_update [OF inv inv' f(1), of g]
    by (cases "g = frame") (auto simp: cow_owners_def cow_entry_init_def)
  with inv' find show ?thesis by (auto simp: f(3) cow_is_shared_def)
qed

lemma cow_track_fails:
  "cow_track t frame = (t', False) \<Longrightarrow> t' = t \<and> (\<forall>e \<in> set t. cow_used e) \<and> \<not> cow_is_shared t frame"
  by (auto simp: cow_track_def cow_claim_def cow_is_shared_def first_index_None split: option.splits)

lemma cow_should_free_refines:
  assumes inv: "cow_inv t" and run: "cow_should_free t frame = (t', final)"
  shows "cow_inv t' \<and> final = (cow_owners t frame = 1) \<and>
    cow_owners t' = (cow_owners t)(frame := max 1 (cow_owners t frame - 1))"
proof (cases "cow_find_slot t frame")
  case None
  with assms show ?thesis by (auto simp: cow_should_free_def cow_owners_def fun_eq_iff)
next
  case (Some slot)
  then have s: "slot < length t" "cow_used (t ! slot)" "cow_frame (t ! slot) = frame"
    using cow_find_slot_eq [OF inv] by auto
  have pos: "1 \<le> cow_refcount (t ! slot)" using inv s by (simp add: cow_inv_def)
  have own: "cow_owners t frame = cow_refcount (t ! slot)" using Some by (simp add: cow_owners_def)
  have others: "\<forall>j < length t. j \<noteq> slot \<longrightarrow> cow_used (t ! j) \<longrightarrow> cow_frame (t ! j) \<noteq> frame"
    using inv s unfolding cow_inv_def by metis
  define e where "e = (t ! slot)\<lparr>cow_refcount := cow_refcount (t ! slot) - 1,
    cow_used := (cow_refcount (t ! slot) > 1)\<rparr>"
  have t': "t' = t[slot := e]" and final: "final = (cow_refcount (t ! slot) = 1)"
    using run Some pos s(2)
    by (auto simp: cow_should_free_def e_def Let_def split: if_splits intro!: arg_cong [where f = "list_update t slot"])
  have inv': "cow_inv (t[slot := e])"
    using inv s others by (intro cow_inv_update) (auto simp: e_def)
  have "cow_owners t' frame = max 1 (cow_owners t frame - 1)"
  proof (cases "cow_used e")
    case True
    then have "cow_find_slot t' frame = Some slot"
      using s inv' by (simp add: t' cow_find_slot_eq e_def)
    with True s own show ?thesis unfolding cow_owners_def [of t'] by (simp add: t' e_def)
  next
    case False
    then have "cow_find_slot t' frame = None"
      using others s(1) by (auto simp: t' cow_find_slot_None nth_list_update)
    with False pos own show ?thesis by (simp add: cow_owners_def [of t'] e_def)
  qed
  moreover have "cow_owners t' g = cow_owners t g" if "g \<noteq> frame" for g
    unfolding t' using that s by (intro cow_owners_update [OF inv inv' s(1)]) (auto simp: e_def)
  ultimately show ?thesis using inv' t' final own by (auto simp: fun_eq_iff)
qed

section \<open>Properties\<close>


definition cow_empty :: cow_table where
  "cow_empty = replicate COW_SLOTS \<lparr>cow_used = False, cow_frame = 0, cow_refcount = 0\<rparr>"


end
