(* ===== verification/Shm.thy ===== *)
theory Shm
  imports Frames
begin

text \<open>
  Model of the region table of \<^verbatim>\<open>src/proc/ipc/shared_memory/shared_memory.c\<close>: four regions of
  up to four frames. Mapping a region into an address space is in the paging theory.
\<close>

record shared_region =
  shm_used :: bool
  shm_page_count :: u32
  shm_frames :: "u64 list"

type_synonym shm_table = "shared_region list"

definition SHM_SLOTS :: nat where "SHM_SLOTS = 4"

definition SHM_MAX_PAGES :: u32 where "SHM_MAX_PAGES = 4"

definition shm_find_free_slot :: "shm_table \<Rightarrow> nat option" where
  "shm_find_free_slot t = first_index (\<lambda>r. \<not> shm_used r) t"

text \<open>The allocation loop fills \<^verbatim>\<open>frames[p]\<close> for \<open>p\<close> up to the page count; \<open>False\<close> is the
  exit on a NULL frame.\<close>

function shm_fill :: "u32 \<Rightarrow> u32 \<Rightarrow> nat \<Rightarrow> frames \<times> shm_table \<Rightarrow> ((frames \<times> shm_table) \<times> bool) option" where
  "shm_fill p page_count slot st =
     (if p < page_count then
        (case alloc_frame (fst st) of
           None \<Rightarrow> None
         | Some (fr, frame) \<Rightarrow>
             if frame = 0 then
               Some ((fr, (snd st)[slot := (snd st ! slot)\<lparr>shm_used := False\<rparr>]), False)
             else if unat p < length (shm_frames (snd st ! slot)) then
               shm_fill (p + 1) page_count slot
                 (fr, (snd st)[slot := (snd st ! slot)\<lparr>shm_frames :=
                    (shm_frames (snd st ! slot))[unat p := frame]\<rparr>])
             else None)
      else Some ((fst st, (snd st)[slot := (snd st ! slot)\<lparr>shm_page_count := page_count\<rparr>]), True))"
  by pat_completeness auto
termination
  by (relation "measure (\<lambda>(p, page_count, slot, st). unat page_count - unat p)")
     (auto simp: unat_plus_one word_less_nat_alt)

declare shm_fill.simps [simp del]

definition alloc_shared_memory :: "frames \<Rightarrow> shm_table \<Rightarrow> u32 \<Rightarrow> ((frames \<times> shm_table) \<times> int) option" where
  "alloc_shared_memory fr t nbytes =
     (let page_count = (nbytes + 4095) div 4096
      in if page_count = 0 \<or> page_count > SHM_MAX_PAGES then Some ((fr, t), -1)
         else case shm_find_free_slot t of
                None \<Rightarrow> Some ((fr, t), -1)
              | Some slot \<Rightarrow>
                  map_option (\<lambda>(st, ok). (st, if ok then int slot else -1))
                    (shm_fill 0 page_count slot (fr, t[slot := (t ! slot)\<lparr>shm_used := True\<rparr>])))"

text \<open>The doubly nested scan; \<open>None\<close> is a page count beyond the \<^verbatim>\<open>frames\<close> array.\<close>

definition region_owns :: "shared_region \<Rightarrow> u64 \<Rightarrow> bool option" where
  "region_owns r frame =
     (if unat (shm_page_count r) \<le> length (shm_frames r)
      then Some (frame \<in> set (take (unat (shm_page_count r)) (shm_frames r)))
      else if frame \<in> set (shm_frames r) then Some True else None)"

fun shared_memory_owns_frame :: "shm_table \<Rightarrow> u64 \<Rightarrow> bool option" where
  "shared_memory_owns_frame [] frame = Some False"
| "shared_memory_owns_frame (r # rs) frame =
     (if shm_used r then
        (case region_owns r frame of
           None \<Rightarrow> None
         | Some True \<Rightarrow> Some True
         | Some False \<Rightarrow> shared_memory_owns_frame rs frame)
      else shared_memory_owns_frame rs frame)"

section \<open>Ownership\<close>

definition region_frames :: "shared_region \<Rightarrow> u64 set" where
  "region_frames r = (if shm_used r then set (take (unat (shm_page_count r)) (shm_frames r)) else {})"

definition shm_inv :: "shm_table \<Rightarrow> bool" where
  "shm_inv t \<longleftrightarrow> length t = SHM_SLOTS \<and>
     (\<forall>r \<in> set t. length (shm_frames r) = 4 \<and> unat (shm_page_count r) \<le> 4)"

definition shm_owned :: "shm_table \<Rightarrow> u64 set" where
  "shm_owned t = (\<Union>r \<in> set t. region_frames r)"

lemma shared_memory_owns_frame_iff:
  "\<forall>r \<in> set t. length (shm_frames r) = 4 \<and> unat (shm_page_count r) \<le> 4 \<Longrightarrow>
    shared_memory_owns_frame t frame = Some (frame \<in> shm_owned t)"
  by (induction t) (auto simp: region_owns_def shm_owned_def region_frames_def split: bool.splits)

text \<open>
  The fill loop from page \<open>p\<close>: either the pool ran dry and the slot is given back, or the slot
  holds \<open>page_count - p\<close> further frames, all of them fresh. In both cases no other region
  changes.
\<close>

definition shm_filled ::
  "nat \<Rightarrow> u32 \<Rightarrow> nat \<Rightarrow> frames \<times> shm_table \<Rightarrow> frames \<times> shm_table \<Rightarrow> bool \<Rightarrow> bool" where
  "shm_filled p page_count slot st st' ok \<longleftrightarrow>
     frames_ok (fst st') \<and> avail_frames (fst st') \<subseteq> avail_frames (fst st) \<and>
     length (snd st') = length (snd st) \<and> (\<forall>j. j \<noteq> slot \<longrightarrow> snd st' ! j = snd st ! j) \<and>
     length (shm_frames (snd st' ! slot)) = 4 \<and>
     (ok \<longrightarrow> shm_used (snd st' ! slot) = shm_used (snd st ! slot) \<and>
        shm_page_count (snd st' ! slot) = page_count \<and>
        (\<forall>q < p. shm_frames (snd st' ! slot) ! q = shm_frames (snd st ! slot) ! q) \<and>
        (\<forall>q. p \<le> q \<longrightarrow> q < unat page_count \<longrightarrow>
           shm_frames (snd st' ! slot) ! q \<in> avail_frames (fst st) - avail_frames (fst st'))) \<and>
     (\<not> ok \<longrightarrow> \<not> shm_used (snd st' ! slot) \<and> avail_frames (fst st') = {} \<and>
        shm_page_count (snd st' ! slot) = shm_page_count (snd st ! slot))"

lemma shm_filled_step:
  assumes step: "shm_filled (Suc p) page_count slot (fr1, t[slot := r]) st' ok"
    and r: "r = (t ! slot)\<lparr>shm_frames := (shm_frames (t ! slot))[p := a]\<rparr>"
    and a: "a \<in> avail_frames fr" "avail_frames fr1 = avail_frames fr - {a}"
    and p: "p < 4" "slot < length t" "length (shm_frames (t ! slot)) = 4"
  shows "shm_filled p page_count slot (fr, t) st' ok"
proof -
  obtain fr' t' where st': "st' = (fr', t')" by (cases st')
  note f = step [unfolded shm_filled_def st' fst_conv snd_conv a(2)]
  have new: "t[slot := r] ! slot = r" "shm_used r = shm_used (t ! slot)"
    "shm_page_count r = shm_page_count (t ! slot)" "shm_frames r = (shm_frames (t ! slot))[p := a]"
    using p(2) by (simp_all add: r)
  have "shm_frames (t' ! slot) ! q \<in> avail_frames fr - avail_frames fr'"
    if "ok" "p \<le> q" "q < unat page_count" for q
  proof (cases "q = p")
    case True
    have "shm_frames (t' ! slot) ! p = a" using f that(1) p new by simp
    moreover have "a \<notin> avail_frames fr'" using f by blast
    ultimately show ?thesis using True a(1) by simp
  next
    case False
    then have "Suc p \<le> q" using that by simp
    then show ?thesis using f that by blast
  qed
  moreover have "\<forall>q < p. shm_frames (t' ! slot) ! q = shm_frames (t ! slot) ! q" if ok
    using f that new by simp
  moreover have "\<forall>j. j \<noteq> slot \<longrightarrow> t' ! j = t ! j" using f by simp
  ultimately show ?thesis
    unfolding shm_filled_def st' fst_conv snd_conv using f new by simp blast
qed

lemma shm_fill_spec:
  assumes "frames_ok (fst st)" "unat page_count \<le> 4" "slot < length (snd st)"
    and "length (shm_frames (snd st ! slot)) = 4"
  shows "\<exists>st' ok. shm_fill p page_count slot st = Some (st', ok) \<and>
    shm_filled (unat p) page_count slot st st' ok"
  using assms
proof (induction "unat page_count - unat p" arbitrary: p st)
  case 0
  obtain fr t where st: "st = (fr, t)" by (cases st)
  have "\<not> p < page_count" using 0(1) by (simp add: word_less_nat_alt)
  then have "shm_fill p page_count slot st =
      Some ((fr, t[slot := (t ! slot)\<lparr>shm_page_count := page_count\<rparr>]), True)"
    by (subst shm_fill.simps) (simp add: st)
  with 0 show ?case by (auto simp: st shm_filled_def)
next
  case (Suc n)
  obtain fr t where st: "st = (fr, t)" by (cases st)
  have lt: "p < page_count" using Suc(2) by (simp add: word_less_nat_alt)
  have p4: "unat p < 4" using lt Suc.prems(2) by (simp add: word_less_nat_alt)
  from fp.alloc_total [of fr] Suc.prems(1) obtain fr1 a where
      al: "alloc_frame fr = Some (fr1, a)" and ok1: "frames_ok fr1" by (auto simp: st)
  show ?case
  proof (cases "a = 0")
    case True
    with fp.alloc_null_iff [of fr] fp.alloc_exhausted [of fr] al Suc.prems(1)
    have "avail_frames fr = {}" "fr1 = fr" by (auto simp: st)
    moreover have "shm_fill p page_count slot st =
        Some ((fr1, t[slot := (t ! slot)\<lparr>shm_used := False\<rparr>]), False)"
      using lt al True by (subst shm_fill.simps) (simp add: st)
    ultimately show ?thesis using Suc.prems by (auto simp: st shm_filled_def)
  next
    case False
    define r where "r = (t ! slot)\<lparr>shm_frames := (shm_frames (t ! slot))[unat p := a]\<rparr>"
    have eq: "shm_fill p page_count slot st = shm_fill (p + 1) page_count slot (fr1, t[slot := r])"
      using lt al False p4 Suc.prems by (subst shm_fill.simps) (simp add: st r_def)
    have u: "unat (p + 1) = Suc (unat p)" by (rule unat_plus_one [OF lt])
    have "n = unat page_count - unat (p + 1)" using Suc(2) u by simp
    from Suc(1) [OF this, of "(fr1, t[slot := r])"] ok1 Suc.prems obtain st' ok where
        run: "shm_fill (p + 1) page_count slot (fr1, t[slot := r]) = Some (st', ok)"
        and f: "shm_filled (Suc (unat p)) page_count slot (fr1, t[slot := r]) st' ok"
      by (auto simp: st u r_def)
    have "shm_filled (unat p) page_count slot (fr, t) st' ok"
      using fp.alloc_frame_some [OF _ al False] Suc.prems p4
      by (intro shm_filled_step [OF f r_def]) (auto simp: st)
    with run eq show ?thesis by (simp add: st)
  qed
qed

text \<open>A successful allocation claims a slot nobody used and owns frames nobody could hand out.\<close>

lemma alloc_shared_memory_spec:
  assumes ok: "frames_ok fr" and inv: "shm_inv t"
  shows "\<exists>fr' t' r. alloc_shared_memory fr t nbytes = Some ((fr', t'), r) \<and> frames_ok fr' \<and>
    shm_inv t' \<and> avail_frames fr' \<subseteq> avail_frames fr \<and>
    (r = -1 \<longrightarrow> shm_owned t' = shm_owned t) \<and>
    (r \<noteq> -1 \<longrightarrow> (\<exists>slot. r = int slot \<and> slot < length t \<and> \<not> shm_used (t ! slot) \<and> shm_used (t' ! slot) \<and>
       shm_page_count (t' ! slot) = (nbytes + 4095) div 4096 \<and>
       region_frames (t' ! slot) \<subseteq> avail_frames fr - avail_frames fr' \<and>
       (\<forall>j. j \<noteq> slot \<longrightarrow> t' ! j = t ! j)))"
proof -
  let ?pc = "(nbytes + 4095) div 4096"
  show ?thesis
  proof (cases "?pc = 0 \<or> ?pc > SHM_MAX_PAGES \<or> shm_find_free_slot t = None")
    case True
    then have "alloc_shared_memory fr t nbytes = Some ((fr, t), -1)"
      unfolding alloc_shared_memory_def Let_def by (elim disjE) simp_all
    with assms show ?thesis by simp
  next
    case False
    then obtain slot where fs: "shm_find_free_slot t = Some slot" by auto
    from first_index_SomeD [OF fs [unfolded shm_find_free_slot_def]]
    have slot: "slot < length t" "\<not> shm_used (t ! slot)" by auto
    have "\<not> ?pc > SHM_MAX_PAGES" using False by blast
    then have pc: "unat ?pc \<le> 4"
      by (simp only: SHM_MAX_PAGES_def word_le_nat_alt not_less) simp
    have len: "length (shm_frames (t ! slot)) = 4" using inv slot(1) by (simp add: shm_inv_def)
    let ?t1 = "t[slot := (t ! slot)\<lparr>shm_used := True\<rparr>]"
    from shm_fill_spec [of "(fr, ?t1)" ?pc slot 0] ok pc slot len obtain fr' t' b where
        run: "shm_fill 0 ?pc slot (fr, ?t1) = Some ((fr', t'), b)"
        and f: "shm_filled 0 ?pc slot (fr, ?t1) (fr', t') b" by auto
    have eq: "alloc_shared_memory fr t nbytes = Some ((fr', t'), if b then int slot else -1)"
      using False fs run by (simp add: alloc_shared_memory_def Let_def)
    have len': "length t' = length t" and others: "\<And>j. j \<noteq> slot \<Longrightarrow> t' ! j = t ! j"
      using f by (auto simp: shm_filled_def)
    note g = f [unfolded shm_filled_def fst_conv snd_conv]
    have old: "?t1 ! slot = (t ! slot)\<lparr>shm_used := True\<rparr>" using slot(1) by simp
    have "unat (shm_page_count (t' ! slot)) \<le> 4"
      using g pc old slot(1) inv by (cases b) (simp_all add: shm_inv_def)
    moreover have "length (shm_frames (t' ! slot)) = 4" using g by simp
    ultimately have "length (shm_frames (t' ! j)) = 4 \<and> unat (shm_page_count (t' ! j)) \<le> 4"
      if "j < length t" for j
      using that inv others [of j] by (cases "j = slot") (auto simp: shm_inv_def)
    then have inv': "shm_inv t'"
      using inv len' by (simp add: shm_inv_def all_set_conv_all_nth)
    have base: "frames_ok fr'" "avail_frames fr' \<subseteq> avail_frames fr" using g by simp_all
    show ?thesis
    proof (cases b)
      case True
      have "region_frames (t' ! slot) \<subseteq> avail_frames fr - avail_frames fr'"
        using g True pc by (auto simp: region_frames_def set_conv_nth)
      moreover have "shm_used (t' ! slot)" "shm_page_count (t' ! slot) = ?pc"
        using g True old by simp_all
      ultimately show ?thesis using True eq base inv' slot others by auto
    next
      case False
      have "region_frames (t' ! j) = region_frames (t ! j)" if "j < length t" for j
        using that g False slot(2) others [of j] by (cases "j = slot") (simp_all add: region_frames_def)
      then have "shm_owned t' = shm_owned t"
        unfolding shm_owned_def set_conv_nth len' by (auto simp: image_def)
      with False eq base inv' show ?thesis by simp
    qed
  qed
qed

end
