(* ===== verification/Paging.thy ===== *)
theory Paging
  imports Frames Cow Shm "HOL-Library.Monad_Syntax"
begin

text \<open>
  Model of the four-level page tables of \<^verbatim>\<open>src/kernel/mm/paging/paging.c\<close> and of the mapping
  half of \<^verbatim>\<open>src/proc/ipc/shared_memory/shared_memory.c\<close>. Table frames live in the identity-mapped
  first gigabyte, so the code edits them by plain dereference: physical memory is a function from
  the address of a 64-bit word to its content. Cached translations are not modelled
  (\<^verbatim>\<open>invalidate_page\<close> has no effect on memory).
\<close>

section \<open>State and operations\<close>

record mm =
  pm :: "u64 \<Rightarrow> u64"
  mm_frames :: frames
  mm_cow :: cow_table
  mm_shm :: shm_table
  g_pml4_phys :: u64

definition PAGE_NX :: u64 where "PAGE_NX = 0x8000000000000000"

text \<open>\<^verbatim>\<open>&table[index]\<close> for a \<^verbatim>\<open>u64*\<close> table.\<close>

definition entry_at :: "u64 \<Rightarrow> nat \<Rightarrow> u64" where
  "entry_at table i = table + 8 * of_nat i"

definition zero_page :: "(u64 \<Rightarrow> u64) \<Rightarrow> u64 \<Rightarrow> u64 \<Rightarrow> u64" where
  "zero_page m p = fold (\<lambda>i m. m(entry_at p i := 0)) [0..<512] m"

definition table_get_or_create :: "mm \<Rightarrow> u64 \<Rightarrow> nat \<Rightarrow> (mm \<times> u64) option" where
  "table_get_or_create s table i =
     (let entry = pm s (entry_at table i)
      in if entry AND 1 = 0 then
           do {
             (fr, new_table) \<leftarrow> alloc_frame (mm_frames s);
             if new_table = 0 then Some (s\<lparr>mm_frames := fr\<rparr>, 0)
             else Some (s\<lparr>mm_frames := fr,
                     pm := (zero_page (pm s) new_table)(entry_at table i := new_table OR 7)\<rparr>, new_table)
           }
         else Some (s, entry AND NOT 0xFFF))"

definition vindex :: "nat \<Rightarrow> u64 \<Rightarrow> nat" where
  "vindex sh vaddr = unat (drop_bit sh vaddr AND 0x1FF)"

definition map_page_in :: "mm \<Rightarrow> u64 \<Rightarrow> u64 \<Rightarrow> u64 \<Rightarrow> u64 \<Rightarrow> (mm \<times> bool) option" where
  "map_page_in s pml4 vaddr paddr flags =
     do {
       (s, pdpt) \<leftarrow> table_get_or_create s pml4 (vindex 39 vaddr);
       if pdpt = 0 then Some (s, False) else do {
         (s, pd) \<leftarrow> table_get_or_create s pdpt (vindex 30 vaddr);
         if pd = 0 then Some (s, False) else do {
           (s, pt) \<leftarrow> table_get_or_create s pd (vindex 21 vaddr);
           if pt = 0 then Some (s, False)
           else Some (s\<lparr>pm := (pm s)(entry_at pt (vindex 12 vaddr) :=
             (paddr AND NOT 0xFFF) OR (flags AND (0xFFF OR PAGE_NX)) OR 1)\<rparr>, True)
         }
       }
     }"

definition map_page :: "mm \<Rightarrow> u64 \<Rightarrow> u64 \<Rightarrow> u64 \<Rightarrow> (mm \<times> bool) option" where
  "map_page s vaddr paddr flags = map_page_in s (g_pml4_phys s) vaddr paddr flags"

definition translate_in :: "mm \<Rightarrow> u64 \<Rightarrow> u64 \<Rightarrow> u64" where
  "translate_in s pml4 vaddr =
     (let m = pm s; e4 = m (entry_at pml4 (vindex 39 vaddr))
      in if e4 AND 1 = 0 then 0 else
         let pdpt = e4 AND NOT 0xFFF; e3 = m (entry_at pdpt (vindex 30 vaddr))
         in if e3 AND 1 = 0 then 0 else
            let pd = e3 AND NOT 0xFFF; e2 = m (entry_at pd (vindex 21 vaddr))
            in if e2 AND 1 = 0 then 0 else
               let pt = e2 AND NOT 0xFFF; e1 = m (entry_at pt (vindex 12 vaddr))
               in if e1 AND 1 = 0 then 0
                  else (e1 AND NOT (0xFFF OR PAGE_NX)) OR (vaddr AND 0xFFF))"

definition clone_address_space :: "mm \<Rightarrow> (mm \<times> u64) option" where
  "clone_address_space s =
     do {
       (fr, new_pml4) \<leftarrow> alloc_frame (mm_frames s);
       if new_pml4 = 0 then Some (s\<lparr>mm_frames := fr\<rparr>, 0) else do {
         (fr, new_pdpt) \<leftarrow> alloc_frame fr;
         if new_pdpt = 0 then Some (s\<lparr>mm_frames := fr\<rparr>, 0) else
           let m = zero_page (zero_page (pm s) new_pml4) new_pdpt;
               kernel_pdpt = m (entry_at (g_pml4_phys s) 0) AND NOT 0xFFF;
               m = m(entry_at new_pdpt 0 := m (entry_at kernel_pdpt 0) AND NOT 4);
               m = m(entry_at new_pdpt 1 := m (entry_at kernel_pdpt 1) AND NOT 4);
               m = m(entry_at new_pml4 0 := new_pdpt OR 7)
           in Some (s\<lparr>mm_frames := fr, pm := m\<rparr>, new_pml4)
       }
     }"

text \<open>
  The copy-on-write walk. One present leaf: demote the parent's mapping, map the same frame
  read-only in the child, register the frame.
\<close>

definition cow_leaf :: "u64 \<Rightarrow> u64 \<Rightarrow> nat \<Rightarrow> nat \<Rightarrow> u64 \<Rightarrow> nat \<Rightarrow> mm \<Rightarrow> (mm \<times> bool) option" where
  "cow_leaf parent child i3 i2 pt i1 s =
     (let e = pm s (entry_at pt i1)
      in if e AND 1 = 0 then Some (s, True) else
         let paddr = e AND NOT (0xFFF OR PAGE_NX);
             cow_flags = (e AND (0xFFF OR PAGE_NX)) AND NOT 2;
             vaddr = push_bit 30 (of_nat i3) OR push_bit 21 (of_nat i2) OR push_bit 12 (of_nat i1)
         in do {
              (s, ok) \<leftarrow> map_page_in s parent vaddr paddr cow_flags;
              if \<not> ok then Some (s, False) else do {
                (s, ok) \<leftarrow> map_page_in s child vaddr paddr cow_flags;
                if \<not> ok then Some (s, False)
                else case cow_track (mm_cow s) paddr of (t, ok) \<Rightarrow> Some (s\<lparr>mm_cow := t\<rparr>, ok)
              }
            })"

definition cow_pt :: "u64 \<Rightarrow> u64 \<Rightarrow> nat \<Rightarrow> u64 \<Rightarrow> nat \<Rightarrow> mm \<Rightarrow> (mm \<times> bool) option" where
  "cow_pt parent child i3 pd i2 s =
     (let e = pm s (entry_at pd i2)
      in if e AND 1 = 0 then Some (s, True)
         else loopE (cow_leaf parent child i3 i2 (e AND NOT 0xFFF)) [0..<512] s)"

definition cow_pd :: "u64 \<Rightarrow> u64 \<Rightarrow> u64 \<Rightarrow> nat \<Rightarrow> mm \<Rightarrow> (mm \<times> bool) option" where
  "cow_pd parent child pdpt i3 s =
     (let e = pm s (entry_at pdpt i3)
      in if e AND 1 = 0 then Some (s, True)
         else loopE (cow_pt parent child i3 (e AND NOT 0xFFF)) [0..<512] s)"

definition clone_address_space_cow :: "mm \<Rightarrow> u64 \<Rightarrow> u64 \<Rightarrow> (mm \<times> bool) option" where
  "clone_address_space_cow s parent child =
     loopE (cow_pd parent child (pm s (entry_at parent 0) AND NOT 0xFFF)) [2..<512] s"

text \<open>
  Tearing an address space down. Nothing writes memory, so the tables keep their content while
  their frames go back to the allocator.
\<close>

definition mm_free_frame :: "mm \<Rightarrow> u64 \<Rightarrow> mm option" where
  "mm_free_frame s a = map_option (\<lambda>fr. s\<lparr>mm_frames := fr\<rparr>) (free_frame (mm_frames s) a)"

definition free_leaf :: "u64 \<Rightarrow> nat \<Rightarrow> mm \<Rightarrow> mm option" where
  "free_leaf pt i1 s =
     (let e = pm s (entry_at pt i1)
      in if e AND 1 = 0 then Some s else
         let leaf_frame = e AND NOT 0xFFF
         in case cow_should_free (mm_cow s) leaf_frame of (t, last_owner) \<Rightarrow>
              let s = s\<lparr>mm_cow := t\<rparr>
              in if last_owner then do {
                   owned \<leftarrow> shared_memory_owns_frame (mm_shm s) leaf_frame;
                   if \<not> owned then mm_free_frame s leaf_frame else Some s
                 } else Some s)"

definition free_pt :: "u64 \<Rightarrow> nat \<Rightarrow> mm \<Rightarrow> mm option" where
  "free_pt pd i2 s =
     (let e = pm s (entry_at pd i2)
      in if e AND 1 = 0 then Some s else do {
           s \<leftarrow> loopM (free_leaf (e AND NOT 0xFFF)) [0..<512] s;
           mm_free_frame s (pm s (entry_at pd i2) AND NOT 0xFFF)
         })"

definition free_pd :: "u64 \<Rightarrow> nat \<Rightarrow> mm \<Rightarrow> mm option" where
  "free_pd pdpt i3 s =
     (let e = pm s (entry_at pdpt i3)
      in if e AND 1 = 0 then Some s else do {
           s \<leftarrow> loopM (free_pt (e AND NOT 0xFFF)) [0..<512] s;
           mm_free_frame s (pm s (entry_at pdpt i3) AND NOT 0xFFF)
         })"

definition free_address_space :: "mm \<Rightarrow> u64 \<Rightarrow> mm option" where
  "free_address_space s pml4 =
     do {
       s \<leftarrow> loopM (free_pd (pm s (entry_at pml4 0) AND NOT 0xFFF)) [2..<512] s;
       s \<leftarrow> mm_free_frame s (pm s (entry_at pml4 0) AND NOT 0xFFF);
       mm_free_frame s pml4
     }"

text \<open>\<^verbatim>\<open>shared_memory_map\<close>: one user-writable page per frame of the region.\<close>

definition shared_memory_map :: "mm \<Rightarrow> nat \<Rightarrow> u64 \<Rightarrow> u64 \<Rightarrow> (mm \<times> bool) option" where
  "shared_memory_map s index cr3 vaddr =
     (if index < length (mm_shm s) then
        loopE (\<lambda>p s. if p < length (shm_frames (mm_shm s ! index))
            then map_page_in s cr3 (vaddr + of_nat p * 4096) (shm_frames (mm_shm s ! index) ! p) 6
            else None)
          [0..<unat (shm_page_count (mm_shm s ! index))] s
      else None)"

section \<open>Words of a page table\<close>

lemma mask12: "(0xFFF :: u64) = mask 12"
  by (simp add: mask_eq_exp_minus_1)

lemma bit_PAGE_NX: "bit PAGE_NX n \<longleftrightarrow> n = 63"
proof -
  have nx: "PAGE_NX = push_bit 63 1" by (simp add: PAGE_NX_def)
  show ?thesis unfolding nx bit_push_bit_iff by (auto simp: bit_simps)
qed

lemma bit0_AND_1: "(e :: u64) AND 1 = 0 \<longleftrightarrow> \<not> bit e 0"
  by (simp add: and_one_eq bit_0 mod_2_eq_odd)

definition page_aligned :: "u64 \<Rightarrow> bool" where
  "page_aligned a \<longleftrightarrow> a mod 4096 = 0"

lemma aligned_bits: "page_aligned a \<longleftrightarrow> (\<forall>n < 12. \<not> bit a n)"
proof -
  have "a mod 4096 = take_bit 12 a" by (simp add: take_bit_eq_mod)
  then show ?thesis by (auto simp: page_aligned_def bit_eq_iff bit_simps)
qed

lemma aligned_mask: "page_aligned (a AND NOT 0xFFF)"
  by (simp add: aligned_bits mask12 bit_simps)

lemma table_entry:
  assumes "page_aligned a"
  shows "(a OR 7) AND 1 \<noteq> 0" "(a OR 7) AND NOT 0xFFF = a"
proof -
  have 7: "(7 :: u64) = mask 3" by (simp add: mask_eq_exp_minus_1)
  show "(a OR 7) AND 1 \<noteq> 0" by (simp add: bit0_AND_1 7 bit_simps)
  show "(a OR 7) AND NOT 0xFFF = a"
    using assms [unfolded aligned_bits] by (auto simp: bit_eq_iff bit_simps mask12 7)
qed

lemma leaf_entry:
  fixes paddr flags :: u64
  defines "e \<equiv> (paddr AND NOT 0xFFF) OR (flags AND (0xFFF OR PAGE_NX)) OR 1"
  shows "e AND 1 \<noteq> 0" "e AND NOT (0xFFF OR PAGE_NX) = paddr AND NOT (0xFFF OR PAGE_NX)"
proof -
  show "e AND 1 \<noteq> 0" by (simp add: e_def bit0_AND_1 bit_simps)
  show "e AND NOT (0xFFF OR PAGE_NX) = paddr AND NOT (0xFFF OR PAGE_NX)"
    by (rule bit_word_eqI) (auto simp: e_def bit_simps mask12 bit_PAGE_NX)
qed

lemma unat_entry_at:
  assumes "page_aligned t" "i < 512"
  shows "unat (entry_at t i) = unat t + 8 * i"
proof -
  have m: "unat t mod 4096 = 0" using arg_cong [OF assms(1) [unfolded page_aligned_def], of unat] by (simp add: unat_mod)
  have "unat t < 4503599627370496 * 4096" using unat_less_u64 [of t] by simp
  then have "unat t div 4096 < 4503599627370496" by (simp add: less_mult_imp_div_less)
  moreover have "unat t = unat t div 4096 * 4096" using m by (metis add.right_neutral div_mult_mod_eq)
  ultimately have "unat t + 8 * i < 18446744073709551616" using assms(2) by linarith
  moreover have "unat (8 * of_nat i :: u64) = 8 * i"
    using assms(2) by (simp add: unat_word_ariths unat_of_nat)
  ultimately show ?thesis unfolding entry_at_def by (intro unat_step) simp_all
qed

lemma entry_at_inject:
  assumes "page_aligned t" "i < 512" "page_aligned t'" "i' < 512"
  shows "entry_at t i = entry_at t' i' \<longleftrightarrow> t = t' \<and> i = i'"
proof
  assume "entry_at t i = entry_at t' i'"
  then have e: "unat t + 8 * i = unat t' + 8 * i'"
    using unat_entry_at [OF assms(1,2)] unat_entry_at [OF assms(3,4)] by simp
  have "4096 dvd unat t" "4096 dvd unat t'"
    using arg_cong [OF assms(1) [unfolded page_aligned_def], of unat]
      arg_cong [OF assms(3) [unfolded page_aligned_def], of unat]
    by (simp_all add: unat_mod mod_eq_0_iff_dvd)
  then obtain k k' where k: "unat t = 4096 * k" "unat t' = 4096 * k'" by (auto elim!: dvdE)
  have "(4096 * k + 8 * i) div 4096 = k" "(4096 * k' + 8 * i') div 4096 = k'"
    using assms(2,4) by simp_all
  with e k have "k = k'" by simp
  with e k have "unat t = unat t' \<and> i = i'" by simp
  then show "t = t' \<and> i = i'" by (simp add: word_unat_eq_iff)
qed simp

lemma zero_page_apply:
  "zero_page m p a = (if \<exists>i < 512. a = entry_at p i then 0 else m a)"
proof -
  have "fold (\<lambda>i m. m(entry_at p i := 0)) [0..<n] m a = (if \<exists>i < n. a = entry_at p i then 0 else m a)" for n
    by (induction n) (auto simp: less_Suc_eq)
  then show ?thesis by (simp add: zero_page_def)
qed

section \<open>The table tree of an address space\<close>

text \<open>
  The table a sequence of indices leads to. \<open>table_path\<close> are the sequences that name tables:
  at most three indices, and not below the identity map, whose PD entries are 2 MB pages.
\<close>

fun walk :: "(u64 \<Rightarrow> u64) \<Rightarrow> u64 \<Rightarrow> nat list \<Rightarrow> u64 option" where
  "walk m t [] = Some t"
| "walk m t (i # js) =
     (let e = m (entry_at t i) in if e AND 1 = 0 then None else walk m (e AND NOT 0xFFF) js)"

definition table_path :: "nat list \<Rightarrow> bool" where
  "table_path p \<longleftrightarrow> length p \<le> 3 \<and> (\<forall>i \<in> set p. i < 512) \<and> (length p = 3 \<longrightarrow> take 2 p \<noteq> [0, 0])"

definition pt_inv :: "mm \<Rightarrow> u64 \<Rightarrow> bool" where
  "pt_inv s root \<longleftrightarrow> frames_ok (mm_frames s) \<and>
     (\<forall>p t. table_path p \<longrightarrow> walk (pm s) root p = Some t \<longrightarrow>
        page_aligned t \<and> t \<noteq> 0 \<and> t \<notin> avail_frames (mm_frames s) \<and>
        (\<forall>q. table_path q \<longrightarrow> walk (pm s) root q = Some t \<longrightarrow> q = p))"

text \<open>The leaf entry of a page; a missing table reads as the absent entry 0.\<close>

definition leaf :: "(u64 \<Rightarrow> u64) \<Rightarrow> u64 \<Rightarrow> nat list \<Rightarrow> nat \<Rightarrow> u64" where
  "leaf m root p i = (case walk m root p of None \<Rightarrow> 0 | Some t \<Rightarrow> m (entry_at t i))"

definition leaf_path :: "nat list \<Rightarrow> bool" where
  "leaf_path p \<longleftrightarrow> table_path p \<and> length p = 3"

definition pt_pages :: "mm \<Rightarrow> u64 \<Rightarrow> u64 set" where
  "pt_pages s root = {t. \<exists>p. table_path p \<and> walk (pm s) root p = Some t}"

lemma walk_snoc:
  "walk m t (p @ [i]) =
    (case walk m t p of None \<Rightarrow> None
     | Some x \<Rightarrow> if m (entry_at x i) AND 1 = 0 then None else Some (m (entry_at x i) AND NOT 0xFFF))"
  by (induction p arbitrary: t) (simp_all add: Let_def)

lemma table_path_snoc: "table_path (p @ [i]) \<Longrightarrow> table_path p \<and> i < 512 \<and> length p \<le> 2"
  by (auto simp: table_path_def)

lemma pt_invD:
  assumes "pt_inv s root" "table_path p" "walk (pm s) root p = Some t"
  shows "page_aligned t" "t \<noteq> 0" "t \<notin> avail_frames (mm_frames s)"
    and "table_path q \<Longrightarrow> walk (pm s) root q = Some t \<Longrightarrow> q = p"
  using assms unfolding pt_inv_def by blast+

text \<open>Writing outside the entries a walk reads does not change where it leads.\<close>

lemma walk_unchanged:
  assumes "walk m root p = Some t" "table_path p"
    and "\<And>q i x. table_path (q @ [i]) \<Longrightarrow> walk m root q = Some x \<Longrightarrow> m (entry_at x i) AND 1 \<noteq> 0 \<Longrightarrow>
      m' (entry_at x i) = m (entry_at x i)"
  shows "walk m' root p = Some t"
  using assms(1,2)
proof (induction p arbitrary: t rule: rev_induct)
  case (snoc i p)
  from snoc.prems obtain x where x: "walk m root p = Some x" "m (entry_at x i) AND 1 \<noteq> 0"
      "t = m (entry_at x i) AND NOT 0xFFF"
    by (auto simp: walk_snoc split: option.splits if_splits)
  with snoc table_path_snoc [OF snoc.prems(2)] assms(3) show ?case by (simp add: walk_snoc)
qed simp

text \<open>
  The effect of creating a missing table in the free frame \<open>a\<close>: the new table is the only new
  walk, every page keeps its leaf entry.
\<close>

definition new_table ::
  "mm \<Rightarrow> u64 \<Rightarrow> nat list \<Rightarrow> nat \<Rightarrow> u64 \<Rightarrow> u64 \<Rightarrow> (u64 \<Rightarrow> u64) \<Rightarrow> bool" where
  "new_table s root p i t a m' \<longleftrightarrow>
     pt_inv s root \<and> table_path (p @ [i]) \<and> walk (pm s) root p = Some t \<and>
     pm s (entry_at t i) AND 1 = 0 \<and> a \<in> avail_frames (mm_frames s) \<and>
     m' = (zero_page (pm s) a)(entry_at t i := a OR 7)"

lemma new_tableD:
  assumes "new_table s root p i t a m'"
  shows "pt_inv s root" "table_path (p @ [i])" "walk (pm s) root p = Some t"
    and "pm s (entry_at t i) AND 1 = 0" "a \<in> avail_frames (mm_frames s)"
    and "table_path p" "i < 512" "length p \<le> 2" "page_aligned a" "a \<noteq> 0"
    and "page_aligned t" "t \<noteq> a" "m' (entry_at t i) = a OR 7"
proof -
  show inv: "pt_inv s root" and p: "table_path (p @ [i])" and w: "walk (pm s) root p = Some t"
    and "pm s (entry_at t i) AND 1 = 0" and a: "a \<in> avail_frames (mm_frames s)"
    and "m' (entry_at t i) = a OR 7"
    using assms by (simp_all add: new_table_def)
  show "table_path p" "i < 512" "length p \<le> 2" using table_path_snoc [OF p] by simp_all
  show "page_aligned a" "a \<noteq> 0"
    using inv a fp.avail_aligned by (auto simp: pt_inv_def page_aligned_def)
  show "page_aligned t" "t \<noteq> a" using pt_invD [OF inv \<open>table_path p\<close> w] a by auto
qed

lemma new_table_other:
  assumes n: "new_table s root p i t a m'" and x: "page_aligned x" "j < 512" "x \<noteq> a" "(x, j) \<noteq> (t, i)"
  shows "m' (entry_at x j) = pm s (entry_at x j)"
proof -
  note d = new_tableD [OF n]
  have "entry_at x j \<noteq> entry_at t i" using x entry_at_inject [OF x(1,2) d(11,7)] by auto
  moreover have "\<not> (\<exists>k < 512. entry_at x j = entry_at a k)"
    using x entry_at_inject [OF x(1,2) d(9)] by auto
  ultimately show ?thesis using n by (auto simp: new_table_def zero_page_apply)
qed

lemma new_table_fresh:
  assumes n: "new_table s root p i t a m'" and "j < 512"
  shows "m' (entry_at a j) = 0"
proof -
  note d = new_tableD [OF n]
  have "entry_at a j \<noteq> entry_at t i" using entry_at_inject [OF d(9) assms(2) d(11,7)] d(12) by auto
  then show ?thesis using n assms(2) by (auto simp: new_table_def zero_page_apply)
qed

lemma new_table_ne:
  "new_table s root p i t a m' \<Longrightarrow> table_path q \<Longrightarrow> walk (pm s) root q = Some x \<Longrightarrow>
    page_aligned x \<and> x \<noteq> a"
  using new_tableD(1,5) [of s root p i t a m'] pt_invD(1,3) [of s root q x] by blast

lemma new_table_old_walk:
  assumes n: "new_table s root p i t a m'" and q: "table_path q" "walk (pm s) root q = Some x"
  shows "walk m' root q = Some x"
proof (rule walk_unchanged [OF q(2,1)])
  fix q j x
  assume q: "table_path (q @ [j])" "walk (pm s) root q = Some x" "pm s (entry_at x j) AND 1 \<noteq> 0"
  with new_tableD(4) [OF n] have "(x, j) \<noteq> (t, i)" by auto
  with q table_path_snoc [OF q(1)] new_table_ne [OF n _ q(2)] new_table_other [OF n]
  show "m' (entry_at x j) = pm s (entry_at x j)" by blast
qed

lemma new_table_new_walk:
  assumes n: "new_table s root p i t a m'"
  shows "walk m' root (p @ [i]) = Some a"
  using new_table_old_walk [OF n new_tableD(6,3) [OF n]] table_entry [OF new_tableD(9) [OF n]]
  by (simp add: walk_snoc new_tableD(13) [OF n])

lemma new_table_walk_cases:
  assumes n: "new_table s root p i t a m'"
  shows "table_path q \<Longrightarrow> walk m' root q = Some x \<Longrightarrow>
    walk (pm s) root q = Some x \<or> (q = p @ [i] \<and> x = a)"
proof (induction q arbitrary: x rule: rev_induct)
  case (snoc j q)
  note q = table_path_snoc [OF snoc.prems(1)] and d = new_tableD [OF n]
  from snoc.prems(2) obtain y where y: "walk m' root q = Some y" "m' (entry_at y j) AND 1 \<noteq> 0"
      "x = m' (entry_at y j) AND NOT 0xFFF"
    by (auto simp: walk_snoc split: option.splits if_splits)
  from snoc.IH [OF _ y(1)] q consider "walk (pm s) root q = Some y" | "q = p @ [i]" "y = a" by blast
  then show ?case
  proof cases
    case 1
    show ?thesis
    proof (cases "(y, j) = (t, i)")
      case True
      with pt_invD(4) [OF d(1,6,3), of q] 1 q have "q = p" by simp
      with True y(3) d(13) table_entry(2) [OF d(9)] show ?thesis by simp
    next
      case False
      with new_table_other [OF n, of y j] new_table_ne [OF n _ 1] q y show ?thesis
        by (simp add: walk_snoc 1)
    qed
  next
    case 2
    with new_table_fresh [OF n] q y(2) show ?thesis by simp
  qed
qed simp

lemma new_table_leaf:
  assumes n: "new_table s root p i t a m'" and q: "leaf_path q" and j: "j < 512"
  shows "leaf m' root q j = leaf (pm s) root q j"
proof -
  note d = new_tableD [OF n]
  have tp: "table_path q" using q by (simp add: leaf_path_def)
  show ?thesis
  proof (cases "walk (pm s) root q")
    case (Some x)
    have "q \<noteq> p" using q d(8) by (auto simp: leaf_path_def)
    then have "x \<noteq> t" using pt_invD(4) [OF d(1,6,3) tp] Some by blast
    then have "m' (entry_at x j) = pm s (entry_at x j)"
      using new_table_other [OF n _ j] new_table_ne [OF n tp Some] by blast
    with new_table_old_walk [OF n tp Some] Some show ?thesis by (simp add: leaf_def)
  next
    case None
    show ?thesis
    proof (cases "walk m' root q")
      case (Some x)
      with new_table_walk_cases [OF n tp Some] None have "x = a" by simp
      with Some None new_table_fresh [OF n j] show ?thesis by (simp add: leaf_def)
    qed (simp add: leaf_def None)
  qed
qed

section \<open>Creating tables and mapping pages\<close>

text \<open>What every step of a mapping keeps of the rest of the machine.\<close>

definition path_pages :: "(u64 \<Rightarrow> u64) \<Rightarrow> u64 \<Rightarrow> nat list \<Rightarrow> u64 set" where
  "path_pages m root vp = {t. \<exists>n. walk m root (take n vp) = Some t}"

definition pt_frame :: "mm \<Rightarrow> u64 \<Rightarrow> nat list \<Rightarrow> mm \<Rightarrow> bool" where
  "pt_frame s root vp s' \<longleftrightarrow>
     mm_cow s' = mm_cow s \<and> mm_shm s' = mm_shm s \<and> g_pml4_phys s' = g_pml4_phys s \<and>
     avail_frames (mm_frames s') \<subseteq> avail_frames (mm_frames s) \<and>
     (\<forall>q x. table_path q \<longrightarrow> walk (pm s') root q = Some x \<longrightarrow>
        walk (pm s) root q = Some x \<or> x \<in> avail_frames (mm_frames s)) \<and>
     (\<forall>x j. page_aligned x \<longrightarrow> j < 512 \<longrightarrow> x \<notin> path_pages (pm s) root vp \<longrightarrow>
        x \<notin> avail_frames (mm_frames s) \<longrightarrow> pm s' (entry_at x j) = pm s (entry_at x j))"

lemma pt_frame_refl: "pt_frame s root vp s"
  by (simp add: pt_frame_def)

lemma table_path_take: "table_path vp \<Longrightarrow> table_path (take n vp)"
  by (auto simp: table_path_def dest: in_set_takeD)

lemma pt_frame_trans:
  assumes vp: "table_path vp" and 1: "pt_frame s root vp s'" and 2: "pt_frame s' root vp s''"
  shows "pt_frame s root vp s''"
proof -
  note f = 1 [unfolded pt_frame_def] and g = 2 [unfolded pt_frame_def]
  have pp: "path_pages (pm s') root vp \<subseteq> path_pages (pm s) root vp \<union> avail_frames (mm_frames s)"
    using f table_path_take [OF vp] unfolding path_pages_def by blast
  have "pm s'' (entry_at x j) = pm s (entry_at x j)"
    if x: "page_aligned x" "j < 512" "x \<notin> path_pages (pm s) root vp" "x \<notin> avail_frames (mm_frames s)"
    for x j
  proof -
    have "x \<notin> path_pages (pm s') root vp" "x \<notin> avail_frames (mm_frames s')" using pp f x by blast+
    then have "pm s'' (entry_at x j) = pm s' (entry_at x j)" using g x by blast
    then show ?thesis using f x by simp
  qed
  moreover have "walk (pm s) root q = Some x \<or> x \<in> avail_frames (mm_frames s)"
    if "table_path q" "walk (pm s'') root q = Some x" for q x
    using f g that by blast
  moreover have "avail_frames (mm_frames s'') \<subseteq> avail_frames (mm_frames s)" using f g by blast
  ultimately show ?thesis using f g unfolding pt_frame_def by simp
qed

lemma table_get_or_create_spec:
  assumes inv: "pt_inv s root" and path: "table_path (p @ [i])" and at: "walk (pm s) root p = Some t"
    and vp: "p = take n vp"
  shows "\<exists>s' r. table_get_or_create s t i = Some (s', r) \<and> pt_inv s' root \<and> pt_frame s root vp s' \<and>
    (\<forall>q j. leaf_path q \<longrightarrow> j < 512 \<longrightarrow> leaf (pm s') root q j = leaf (pm s) root q j) \<and>
    (r = 0 \<longrightarrow> avail_frames (mm_frames s) = {}) \<and>
    (r \<noteq> 0 \<longrightarrow> walk (pm s') root (p @ [i]) = Some r) \<and>
    card (avail_frames (mm_frames s)) \<le> Suc (card (avail_frames (mm_frames s')))"
proof (cases "pm s (entry_at t i) AND 1 = 0")
  case False
  then have w: "walk (pm s) root (p @ [i]) = Some (pm s (entry_at t i) AND NOT 0xFFF)"
    by (simp add: walk_snoc at)
  with pt_invD(2) [OF inv path w] False inv show ?thesis
    by (simp add: table_get_or_create_def Let_def pt_frame_refl)
next
  case absent: True
  have ok: "frames_ok (mm_frames s)" using inv by (simp add: pt_inv_def)
  show ?thesis
  proof (cases "avail_frames (mm_frames s) = {}")
    case True
    with fp.alloc_exhausted [OF ok] absent inv show ?thesis
      by (simp add: table_get_or_create_def pt_frame_refl)
  next
    case False
    from fp.alloc_avail [OF ok False] obtain fr a where
        al: "alloc_frame (mm_frames s) = Some (fr, a)" "a \<in> avail_frames (mm_frames s)" "frames_ok fr"
        "avail_frames fr = avail_frames (mm_frames s) - {a}" by blast
    define m' where "m' = (zero_page (pm s) a)(entry_at t i := a OR 7)"
    define s' where "s' = s\<lparr>mm_frames := fr, pm := m'\<rparr>"
    have n: "new_table s root p i t a m'"
      using inv path at absent al(2) by (simp add: new_table_def m'_def)
    note d = new_tableD [OF n]
    have run: "table_get_or_create s t i = Some (s', a)"
      using absent al(1) d(10) by (simp add: table_get_or_create_def s'_def m'_def)
    note cs = new_table_walk_cases [OF n]
    have "pt_inv s' root"
      unfolding pt_inv_def
    proof (intro conjI allI impI)
      show "frames_ok (mm_frames s')" using al(3) by (simp add: s'_def)
      fix q x
      assume q: "table_path q" "walk (pm s') root q = Some x"
      then have q': "walk m' root q = Some x" by (simp add: s'_def)
      have "page_aligned x \<and> x \<noteq> 0 \<and> x \<notin> avail_frames fr"
        using cs [OF q(1) q'] pt_invD [OF inv q(1)] d al(4) by blast
      then show "page_aligned x" "x \<noteq> 0" "x \<notin> avail_frames (mm_frames s')" by (simp_all add: s'_def)
      fix q2
      assume q2: "table_path q2" "walk (pm s') root q2 = Some x"
      then have "walk m' root q2 = Some x" by (simp add: s'_def)
      from cs [OF q(1) q'] cs [OF q2(1) this] show "q2 = q"
        using pt_invD(4) [OF inv q(1)] new_table_ne [OF n] q(1) q2(1) by blast
    qed
    moreover have "pt_frame s root vp s'"
    proof -
      have "m' (entry_at x j) = pm s (entry_at x j)"
        if "page_aligned x" "j < 512" "x \<notin> path_pages (pm s) root vp" "x \<notin> avail_frames (mm_frames s)"
        for x j
        using that al(2) at by (intro new_table_other [OF n]) (auto simp: path_pages_def vp)
      moreover have "walk (pm s) root q = Some x \<or> x \<in> avail_frames (mm_frames s)"
        if "table_path q" "walk m' root q = Some x" for q x
        using cs [OF that] al(2) by blast
      ultimately show ?thesis using al(4) by (auto simp: pt_frame_def s'_def)
    qed
    moreover have "walk (pm s') root (p @ [i]) = Some a"
      using new_table_new_walk [OF n] by (simp add: s'_def)
    moreover have "\<forall>q j. leaf_path q \<longrightarrow> j < 512 \<longrightarrow> leaf (pm s') root q j = leaf (pm s) root q j"
      using new_table_leaf [OF n] by (simp add: s'_def)
    moreover have "card (avail_frames (mm_frames s)) \<le> Suc (card (avail_frames (mm_frames s')))"
    proof -
      have "card (avail_frames (mm_frames s)) - 1 = card (avail_frames (mm_frames s'))"
        using al(2,4) by (simp add: s'_def)
      then show ?thesis by linarith
    qed
    ultimately show ?thesis using run d(10) by blast
  qed
qed

lemma table_get_or_createE:
  assumes "pt_inv s root" "table_path (p @ [i])" "walk (pm s) root p = Some t" "p = take n vp"
  obtains s' r where "table_get_or_create s t i = Some (s', r)" "pt_inv s' root"
    "pt_frame s root vp s'"
    "\<forall>q j. leaf_path q \<longrightarrow> j < 512 \<longrightarrow> leaf (pm s') root q j = leaf (pm s) root q j"
    "r = 0 \<longrightarrow> avail_frames (mm_frames s) = {}"
    "r \<noteq> 0 \<longrightarrow> walk (pm s') root (p @ [i]) = Some r"
    "card (avail_frames (mm_frames s)) \<le> Suc (card (avail_frames (mm_frames s')))"
  using table_get_or_create_spec [OF assms] by blast

text \<open>Writing one leaf entry changes that leaf and nothing else of the tree.\<close>

lemma write_leaf:
  fixes e :: u64
  assumes inv: "pt_inv s root" and q: "leaf_path q" and at: "walk (pm s) root q = Some t" and i: "i < 512"
  defines "s' \<equiv> s\<lparr>pm := (pm s)(entry_at t i := e)\<rparr>"
  shows "pt_inv s' root" "pt_frame s root q s'"
    and "leaf_path q' \<Longrightarrow> j < 512 \<Longrightarrow>
      leaf (pm s') root q' j = (if q' = q \<and> j = i then e else leaf (pm s) root q' j)"
proof -
  have tq: "table_path q" using q by (simp add: leaf_path_def)
  note t = pt_invD [OF inv tq at]
  have keep: "pm s' (entry_at x j) = pm s (entry_at x j)"
    if "page_aligned x" "j < 512" "(x, j) \<noteq> (t, i)" for x j
    using that entry_at_inject [OF that(1,2) t(1) i] by (auto simp: s'_def)
  have above: "x \<noteq> t" if "table_path (p @ [k])" "walk (pm s) root p = Some x" for p k x
    using table_path_snoc [OF that(1)] t(4) [of p] that(2) q by (auto simp: leaf_path_def)
  have w: "walk (pm s') root p = walk (pm s) root p" if "table_path p" for p
    using that
  proof (induction p rule: rev_induct)
    case (snoc k p)
    note p = table_path_snoc [OF snoc.prems]
    show ?case
    proof (cases "walk (pm s) root p")
      case (Some x)
      have "pm s' (entry_at x k) = pm s (entry_at x k)"
        using keep pt_invD(1) [OF inv _ Some] p above [OF snoc.prems Some] by blast
      with Some snoc.IH p show ?thesis by (simp add: walk_snoc)
    qed (use snoc.IH p in \<open>simp add: walk_snoc\<close>)
  qed simp
  show "pt_inv s' root"
    using inv unfolding pt_inv_def by (simp add: w cong: imp_cong) (simp add: s'_def)
  show "pt_frame s root q s'"
  proof -
    have "walk (pm s) root (take 3 q) = Some t" using at q by (simp add: leaf_path_def)
    then have "t \<in> path_pages (pm s) root q" unfolding path_pages_def by blast
    then have "pm s' (entry_at x j) = pm s (entry_at x j)"
      if "page_aligned x" "j < 512" "x \<notin> path_pages (pm s) root q" for x j
      using that keep by blast
    then show ?thesis using w by (simp add: pt_frame_def) (simp add: s'_def)
  qed
  show "leaf (pm s') root q' j = (if q' = q \<and> j = i then e else leaf (pm s) root q' j)"
    if q': "leaf_path q'" and j: "j < 512"
  proof (cases "walk (pm s) root q'")
    case (Some x)
    have tq': "table_path q'" using q' by (simp add: leaf_path_def)
    have "x = t \<longleftrightarrow> q' = q" using t(4) [OF tq'] Some at by auto
    with Some w [OF tq'] keep [OF pt_invD(1) [OF inv tq' Some] j] show ?thesis
      by (auto simp: leaf_def) (auto simp: s'_def)
  next
    case None
    with w [of q'] q' at show ?thesis by (auto simp: leaf_def leaf_path_def)
  qed
qed

section \<open>Addresses\<close>

lemma vindex_less: "vindex sh v < 512"
proof -
  have "drop_bit sh v AND 0x1FF = take_bit 9 (drop_bit sh v)"
    by (simp add: take_bit_eq_mask mask_eq_exp_minus_1)
  then have "vindex sh v = take_bit 9 (unat (drop_bit sh v))"
    unfolding vindex_def by (simp add: unsigned_take_bit_eq)
  then show ?thesis by (simp add: take_bit_eq_mod)
qed

definition vpath :: "u64 \<Rightarrow> nat list" where
  "vpath v = [vindex 39 v, vindex 30 v, vindex 21 v]"

text \<open>Outside the static identity map: the limitation the file header of \<^verbatim>\<open>paging.c\<close> states.\<close>

definition mappable :: "u64 \<Rightarrow> bool" where
  "mappable v \<longleftrightarrow> \<not> (vindex 39 v = 0 \<and> vindex 30 v = 0)"

definition same_page :: "u64 \<Rightarrow> u64 \<Rightarrow> bool" where
  "same_page v w \<longleftrightarrow> take_bit 36 (drop_bit 12 v) = take_bit 36 (drop_bit 12 w)"

lemma leaf_path_vpath: "leaf_path (vpath v) \<longleftrightarrow> mappable v"
  using vindex_less by (auto simp: leaf_path_def table_path_def vpath_def mappable_def)

lemma vindex_eq_iff:
  "vindex sh v = vindex sh w \<longleftrightarrow> (\<forall>n < 9. bit v (n + sh) = bit w (n + sh))"
proof -
  have m: "(0x1FF :: u64) = mask 9" by (simp add: mask_eq_exp_minus_1)
  have "vindex sh v = vindex sh w \<longleftrightarrow> drop_bit sh v AND mask 9 = drop_bit sh w AND mask 9"
    unfolding vindex_def m by (simp only: word_unat_eq_iff)
  also have "\<dots> \<longleftrightarrow> (\<forall>n < 64. n < 9 \<longrightarrow> bit v (n + sh) = bit w (n + sh))"
    by (auto simp: u64_eq_iff bit_simps add.commute)
  finally show ?thesis by auto
qed

lemma same_page_iff: "same_page v w \<longleftrightarrow> vpath v = vpath w \<and> vindex 12 v = vindex 12 w"
proof -
  have small: "n < 64" if "n < 36" for n :: nat using that by simp
  have "same_page v w \<longleftrightarrow> (\<forall>n < 64. n < 36 \<longrightarrow> bit v (n + 12) = bit w (n + 12))"
    by (auto simp: same_page_def u64_eq_iff bit_simps add.commute)
  also have "\<dots> \<longleftrightarrow> (\<forall>n < 36. bit v (n + 12) = bit w (n + 12))"
    using small by blast
  also have "\<dots> \<longleftrightarrow> (\<forall>n < 9. bit v (n + 12) = bit w (n + 12)) \<and> (\<forall>n < 9. bit v (n + 21) = bit w (n + 21)) \<and>
      (\<forall>n < 9. bit v (n + 30) = bit w (n + 30)) \<and> (\<forall>n < 9. bit v (n + 39) = bit w (n + 39))"
    (is "?l \<longleftrightarrow> ?r")
  proof
    assume l: ?l
    have l: "bit v (n + 12) = bit w (n + 12)" if "n < 36" for n using l that by blast
    show ?r using l l [of "_ + 9"] l [of "_ + 18"] l [of "_ + 27"] by (simp add: add.assoc)
  next
    assume r: ?r
    show ?l
    proof (intro allI impI)
      fix n :: nat
      assume "n < 36"
      then consider "n < 9" | "9 \<le> n" "n < 18" | "18 \<le> n" "n < 27" | "27 \<le> n" "n < 36" by linarith
      then show "bit v (n + 12) = bit w (n + 12)"
      proof cases
        case 2
        then have e: "n + 12 = (n - 9) + 21" and "n - 9 < 9" by simp_all
        then show ?thesis unfolding e using r by blast
      next
        case 3
        then have e: "n + 12 = (n - 18) + 30" and "n - 18 < 9" by simp_all
        then show ?thesis unfolding e using r by blast
      next
        case 4
        then have e: "n + 12 = (n - 27) + 39" and "n - 27 < 9" by simp_all
        then show ?thesis unfolding e using r by blast
      qed (use r in simp)
    qed
  qed
  finally show ?thesis by (auto simp: vpath_def vindex_eq_iff)
qed

definition leaf_addr :: "u64 \<Rightarrow> u64 \<Rightarrow> u64" where
  "leaf_addr e v = (if e AND 1 = 0 then 0 else (e AND NOT (0xFFF OR PAGE_NX)) OR (v AND 0xFFF))"

lemma translate_in_leaf:
  "translate_in s root v = leaf_addr (leaf (pm s) root (vpath v) (vindex 12 v)) v"
  by (simp add: translate_in_def leaf_addr_def leaf_def vpath_def Let_def)

definition leaf_word :: "u64 \<Rightarrow> u64 \<Rightarrow> u64" where
  "leaf_word paddr flags = (paddr AND NOT 0xFFF) OR (flags AND (0xFFF OR PAGE_NX)) OR 1"

lemma leaf_addr_word: "leaf_addr (leaf_word paddr flags) v = (paddr AND NOT (0xFFF OR PAGE_NX)) OR (v AND 0xFFF)"
  using leaf_entry [of paddr flags] by (simp add: leaf_addr_def leaf_word_def)

lemma map_page_in_spec:
  assumes inv: "pt_inv s root" and v: "mappable v"
  shows "\<exists>s' ok. map_page_in s root v paddr flags = Some (s', ok) \<and> pt_inv s' root \<and>
    pt_frame s root (vpath v) s' \<and> (\<not> ok \<longrightarrow> avail_frames (mm_frames s') = {} \<and> card (avail_frames (mm_frames s)) \<le> 2) \<and>
    (\<forall>q j. leaf_path q \<longrightarrow> j < 512 \<longrightarrow> leaf (pm s') root q j =
       (if ok \<and> q = vpath v \<and> j = vindex 12 v then leaf_word paddr flags else leaf (pm s) root q j))"
proof -
  let ?i4 = "vindex 39 v" and ?i3 = "vindex 30 v" and ?i2 = "vindex 21 v"
  have lp: "leaf_path (vpath v)" using v by (simp add: leaf_path_vpath)
  then have tp: "table_path (vpath v)" by (simp add: leaf_path_def)
  have tp1: "table_path ([] @ [?i4])" "table_path ([?i4] @ [?i3])" "table_path ([?i4, ?i3] @ [?i2])"
    using table_path_take [OF tp, of 1] table_path_take [OF tp, of 2] tp by (simp_all add: vpath_def)
  have empty: "avail_frames (mm_frames s') = {}"
    if "pt_frame s1 root (vpath v) s'" "avail_frames (mm_frames s1) = {}" for s1 s'
    using that by (auto simp: pt_frame_def)
  have e: "[] = take 0 (vpath v)" "[?i4] = take 1 (vpath v)" "[?i4, ?i3] = take 2 (vpath v)"
    by (simp_all add: vpath_def)
  obtain s1 pdpt where 1: "table_get_or_create s root ?i4 = Some (s1, pdpt)" "pt_inv s1 root"
      "pt_frame s root (vpath v) s1"
      "\<forall>q j. leaf_path q \<longrightarrow> j < 512 \<longrightarrow> leaf (pm s1) root q j = leaf (pm s) root q j"
      "pdpt = 0 \<longrightarrow> avail_frames (mm_frames s) = {}"
      "pdpt \<noteq> 0 \<longrightarrow> walk (pm s1) root ([] @ [?i4]) = Some pdpt"
      "card (avail_frames (mm_frames s)) \<le> Suc (card (avail_frames (mm_frames s1)))"
    by (rule table_get_or_createE [OF inv tp1(1) walk.simps(1) e(1)])
  show ?thesis
  proof (cases "pdpt = 0")
    case True
    then have "map_page_in s root v paddr flags = Some (s1, False)" using 1(1) by (simp add: map_page_in_def)
    moreover have "avail_frames (mm_frames s1) = {}" using empty [OF 1(3)] 1(5) True by blast
    ultimately show ?thesis using 1(2-5) True by (intro exI [of _ s1] exI [of _ False]) simp
  next
    case nz1: False
    have w1: "walk (pm s1) root [?i4] = Some pdpt" using 1(6) nz1 by simp
    obtain s2 pd where 2: "table_get_or_create s1 pdpt ?i3 = Some (s2, pd)" "pt_inv s2 root"
        "pt_frame s1 root (vpath v) s2"
        "\<forall>q j. leaf_path q \<longrightarrow> j < 512 \<longrightarrow> leaf (pm s2) root q j = leaf (pm s1) root q j"
        "pd = 0 \<longrightarrow> avail_frames (mm_frames s1) = {}"
        "pd \<noteq> 0 \<longrightarrow> walk (pm s2) root ([?i4] @ [?i3]) = Some pd"
        "card (avail_frames (mm_frames s1)) \<le> Suc (card (avail_frames (mm_frames s2)))"
      by (rule table_get_or_createE [OF 1(2) tp1(2) w1 e(2)])
    note f2 = pt_frame_trans [OF tp 1(3) 2(3)]
    show ?thesis
    proof (cases "pd = 0")
      case True
      then have "map_page_in s root v paddr flags = Some (s2, False)"
        using 1(1) 2(1) nz1 by (simp add: map_page_in_def)
      moreover have "avail_frames (mm_frames s2) = {}" using empty [OF 2(3)] 2(5) True by blast
      ultimately show ?thesis using 2(2,4,5) 1(4,7) True f2 by (intro exI [of _ s2] exI [of _ False]) simp
    next
      case nz2: False
      have w2: "walk (pm s2) root [?i4, ?i3] = Some pd" using 2(6) nz2 by simp
      obtain s3 pt where 3: "table_get_or_create s2 pd ?i2 = Some (s3, pt)" "pt_inv s3 root"
          "pt_frame s2 root (vpath v) s3"
          "\<forall>q j. leaf_path q \<longrightarrow> j < 512 \<longrightarrow> leaf (pm s3) root q j = leaf (pm s2) root q j"
          "pt = 0 \<longrightarrow> avail_frames (mm_frames s2) = {}"
          "pt \<noteq> 0 \<longrightarrow> walk (pm s3) root ([?i4, ?i3] @ [?i2]) = Some pt"
          "card (avail_frames (mm_frames s2)) \<le> Suc (card (avail_frames (mm_frames s3)))"
        by (rule table_get_or_createE [OF 2(2) tp1(3) w2 e(3)])
      note f3 = pt_frame_trans [OF tp f2 3(3)]
      show ?thesis
      proof (cases "pt = 0")
        case True
        then have "map_page_in s root v paddr flags = Some (s3, False)"
          using 1(1) 2(1) 3(1) nz1 nz2 by (simp add: map_page_in_def)
        moreover have "avail_frames (mm_frames s3) = {}" using empty [OF 3(3)] 3(5) True by blast
        ultimately show ?thesis using 3(2,4,5) 2(4,7) 1(4,7) True f3 by (intro exI [of _ s3] exI [of _ False]) simp
      next
        case nz3: False
        then have w: "walk (pm s3) root (vpath v) = Some pt" using 3(6) by (simp add: vpath_def)
        note wl = write_leaf [OF 3(2) lp w vindex_less [of 12 v], where e = "leaf_word paddr flags"]
        let ?s = "s3\<lparr>pm := (pm s3)(entry_at pt (vindex 12 v) := leaf_word paddr flags)\<rparr>"
        have "map_page_in s root v paddr flags = Some (?s, True)"
          using 1(1) 2(1) 3(1) nz1 nz2 nz3 by (simp add: map_page_in_def leaf_word_def)
        moreover have "leaf (pm ?s) root q j =
            (if q = vpath v \<and> j = vindex 12 v then leaf_word paddr flags else leaf (pm s) root q j)"
          if "leaf_path q" "j < 512" for q j
          unfolding wl(3) [OF that] using that 1(4) 2(4) 3(4) by simp
        ultimately show ?thesis
          using wl(1) pt_frame_trans [OF tp f3 wl(2)] by (intro exI [of _ ?s] exI [of _ True]) simp
      qed
    qed
  qed
qed

text \<open>What a mapping in one space leaves of another whose tables are not on its path.\<close>

lemma map_page_in_other:
  assumes other: "pt_inv s root'" and run: "pt_inv s' root" "pt_frame s root (vpath v) s'"
    and disj: "pt_pages s root' \<inter> path_pages (pm s) root (vpath v) = {}"
  shows "pt_inv s' root'"
    and "table_path q \<Longrightarrow> walk (pm s') root' q = walk (pm s) root' q"
    and "leaf_path q \<Longrightarrow> j < 512 \<Longrightarrow> leaf (pm s') root' q j = leaf (pm s) root' q j"
proof -
  have keep: "pm s' (entry_at x j) = pm s (entry_at x j)"
    if "table_path q" "walk (pm s) root' q = Some x" "j < 512" for q x j
    using run(2) disj pt_invD [OF other that(1,2)] that unfolding pt_frame_def pt_pages_def by blast
  have w: "walk (pm s') root' q = walk (pm s) root' q" if "table_path q" for q
    using that
  proof (induction q rule: rev_induct)
    case (snoc k q)
    note q = table_path_snoc [OF snoc.prems]
    show ?case
    proof (cases "walk (pm s) root' q")
      case (Some x)
      with snoc.IH q keep [of q x k] show ?thesis by (simp add: walk_snoc)
    qed (use snoc.IH q in \<open>simp add: walk_snoc\<close>)
  qed simp
  then show "table_path q \<Longrightarrow> walk (pm s') root' q = walk (pm s) root' q" .
  have "avail_frames (mm_frames s') \<subseteq> avail_frames (mm_frames s)" using run(2) by (simp add: pt_frame_def)
  with other run(1) show "pt_inv s' root'" unfolding pt_inv_def by (simp add: w cong: imp_cong) blast
  show "leaf (pm s') root' q j = leaf (pm s) root' q j" if "leaf_path q" "j < 512"
    using w [of q] keep [of q _ j] that by (simp add: leaf_def leaf_path_def split: option.splits)
qed

section \<open>Properties\<close>

text \<open>
  C3. Mapping a page outside the static identity map always returns, keeps the table tree well
  formed and changes exactly one translation: afterwards every address of the page translates to
  its offset in the given frame and every other mappable address translates as before. It fails
  only when fewer than three frames are left for missing tables, and then changes no
  translation.
\<close>

theorem map_page_in_translate:
  assumes "pt_inv s root" "mappable v"
  shows "\<exists>s' ok. map_page_in s root v paddr flags = Some (s', ok) \<and> pt_inv s' root \<and>
    (\<not> ok \<longrightarrow> card (avail_frames (mm_frames s)) \<le> 2) \<and>
    (\<forall>w. mappable w \<longrightarrow> translate_in s' root w =
       (if ok \<and> same_page v w then (paddr AND NOT (0xFFF OR PAGE_NX)) OR (w AND 0xFFF)
        else translate_in s root w))"
proof -
  from map_page_in_spec [OF assms, of paddr flags] obtain s' ok where
      run: "map_page_in s root v paddr flags = Some (s', ok)" "pt_inv s' root"
        "\<not> ok \<longrightarrow> card (avail_frames (mm_frames s)) \<le> 2"
      and lf: "\<forall>q j. leaf_path q \<longrightarrow> j < 512 \<longrightarrow> leaf (pm s') root q j =
        (if ok \<and> q = vpath v \<and> j = vindex 12 v then leaf_word paddr flags else leaf (pm s) root q j)"
    by blast
  have "translate_in s' root w = (if ok \<and> same_page v w
      then (paddr AND NOT (0xFFF OR PAGE_NX)) OR (w AND 0xFFF) else translate_in s root w)"
    if "mappable w" for w
  proof -
    have "leaf_path (vpath w)" "vindex 12 w < 512" using that leaf_path_vpath vindex_less by auto
    with lf show ?thesis by (auto simp: translate_in_leaf leaf_addr_word same_page_iff)
  qed
  with run show ?thesis by blast
qed

text \<open>A machine with empty address spaces at 0x1000 and 0x2000 and four free frames.\<close>

lemma walk_zero: "walk (\<lambda>_. 0) r q = Some x \<longleftrightarrow> q = [] \<and> x = r"
  by (cases q) auto

lemma sample_mm:
  "\<exists>s. pt_inv s 0x1000 \<and> pt_inv s 0x2000 \<and> card (avail_frames (mm_frames s)) = 4 \<and> pm s = (\<lambda>_. 0) \<and>
     avail_frames (mm_frames s) = {0x5000, 0x6000, 0x7000, 0x8000}"
proof -
  from mark_loop_inv [OF frames_reset_inv, of 9 5] obtain fr where
      fr: "frames_inv fr" "free_frames fr = {5..<9}" by (auto simp: frames_reset_free)
  then have ok: "frames_ok fr" by (simp add: frames_ok_def)
  have inj: "inj_on frame_addr {5..<9}" by (auto intro!: inj_onI simp: frame_addr_inject)
  have av: "avail_frames fr = {0x5000, 0x6000, 0x7000, 0x8000}"
  proof -
    have "{5..<9} = {5, 6, 7, 8 :: nat}" by auto
    then show ?thesis by (simp add: avail_frames_def fr frame_addr_def)
  qed
  obtain s :: mm where s: "pm s = (\<lambda>_. 0)" "mm_frames s = fr"
    by (metis mm.select_convs(1,2))
  have "pt_inv s 0x1000" "pt_inv s 0x2000"
    using ok av by (auto simp: pt_inv_def s walk_zero page_aligned_def)
  moreover have "card (avail_frames fr) = 4" by (simp add: avail_frames_def fr card_image [OF inj])
  ultimately show ?thesis using s av by auto
qed

theorem map_page_in_translate_witness:
  "\<exists>s s'. pt_inv s 0x1000 \<and> mappable 0x80000000 \<and>
     map_page_in s 0x1000 0x80000000 0x400000 6 = Some (s', True) \<and>
     translate_in s' 0x1000 0x80000123 = 0x400123"
proof -
  from sample_mm obtain s where s: "pt_inv s 0x1000" "card (avail_frames (mm_frames s)) = 4" by blast
  have m: "mappable 0x80000000" "mappable 0x80000123" "same_page 0x80000000 0x80000123"
    by (simp_all add: mappable_def vindex_def same_page_def)
  from map_page_in_translate [OF s(1) m(1), of "0x400000" 6] obtain s' ok where
      r: "map_page_in s 0x1000 0x80000000 0x400000 6 = Some (s', ok)"
        "\<not> ok \<longrightarrow> card (avail_frames (mm_frames s)) \<le> 2"
        "\<forall>w. mappable w \<longrightarrow> translate_in s' 0x1000 w = (if ok \<and> same_page 0x80000000 w
           then (0x400000 AND NOT (0xFFF OR PAGE_NX)) OR (w AND 0xFFF) else translate_in s 0x1000 w)"
    by blast
  from r(2) s(2) have ok by (cases ok) simp_all
  with r(3) m have "translate_in s' 0x1000 0x80000123 = 0x400123" by (simp add: PAGE_NX_def)
  with r(1) \<open>ok\<close> s(1) m(1) show ?thesis by auto
qed



end
