(* ===== verification/Address_Space.thy ===== *)
theory Address_Space
  imports Paging
begin

text \<open>
  Whole address spaces: what \<^verbatim>\<open>free_address_space\<close>, \<^verbatim>\<open>clone_address_space\<close> and one step of
  \<^verbatim>\<open>clone_address_space_cow\<close> of \<^verbatim>\<open>src/kernel/mm/paging/paging.c\<close> do to the frame allocator, the
  page tables and the copy-on-write table.
\<close>

declare upt_rec_numeral [simp del] \<comment> \<open>index ranges stay symbolic\<close>

section \<open>Releasing frames\<close>

text \<open>
  \<^verbatim>\<open>free_frame\<close> truncates the frame number to 32 bits, so an address that still carries the
  no-execute bit releases the frame it points to.
\<close>

lemma free_frame_nx: "free_frame fr (e AND NOT 0xFFF) = free_frame fr (e AND NOT (0xFFF OR PAGE_NX))"
proof -
  have "(ucast ((e AND NOT 0xFFF) div 4096) :: u32) = ucast ((e AND NOT (0xFFF OR PAGE_NX)) div 4096)"
  proof (rule bit_word_eqI)
    fix n
    assume n: "n < LENGTH(32)"
    have d: "(x :: u64) div 4096 = drop_bit 12 x" for x by (simp add: drop_bit_eq_div)
    show "bit (ucast ((e AND NOT 0xFFF) div 4096) :: u32) n =
        bit (ucast ((e AND NOT (0xFFF OR PAGE_NX)) div 4096) :: u32) n"
      unfolding d using n by (auto simp: bit_simps mask12 bit_PAGE_NX)
  qed
  then show ?thesis by (simp add: free_frame_def)
qed

definition frame_addr_ok :: "u64 \<Rightarrow> bool" where
  "frame_addr_ok a \<longleftrightarrow> page_aligned a \<and> a \<noteq> 0 \<and> a < 0x40000000"

definition mm_ok :: "mm \<Rightarrow> bool" where
  "mm_ok s \<longleftrightarrow> frames_ok (mm_frames s) \<and> cow_inv (mm_cow s) \<and> shm_inv (mm_shm s)"

abbreviation mm_avail :: "mm \<Rightarrow> u64 set" where
  "mm_avail s \<equiv> avail_frames (mm_frames s)"

lemma mm_free_frame_ok:
  assumes "mm_ok s" "frame_addr_ok a"
  shows "\<exists>s'. mm_free_frame s a = Some s' \<and> mm_ok s' \<and> pm s' = pm s \<and> mm_avail s' = insert a (mm_avail s) \<and>
    mm_cow s' = mm_cow s \<and> mm_shm s' = mm_shm s"
  using fp.free_avail [of "mm_frames s" a] assms
  by (auto simp: mm_free_frame_def mm_ok_def frame_addr_ok_def page_aligned_def)

lemma mm_free_frame_nx: "mm_free_frame s (e AND NOT 0xFFF) = mm_free_frame s (e AND NOT (0xFFF OR PAGE_NX))"
  unfolding mm_free_frame_def by (subst free_frame_nx) (rule refl)

section \<open>Tearing down\<close>

text \<open>What an entry points to, as sets: empty for an absent entry.\<close>

definition leaf_frame_of :: "(u64 \<Rightarrow> u64) \<Rightarrow> u64 \<Rightarrow> nat \<Rightarrow> u64 set" where
  "leaf_frame_of m pt i = (let e = m (entry_at pt i)
     in if e AND 1 = 0 then {} else {e AND NOT (0xFFF OR PAGE_NX)})"

definition pt_of :: "(u64 \<Rightarrow> u64) \<Rightarrow> u64 \<Rightarrow> nat \<Rightarrow> u64 set" where
  "pt_of m t i = (let e = m (entry_at t i) in if e AND 1 = 0 then {} else {e AND NOT 0xFFF})"

definition pd_tables :: "(u64 \<Rightarrow> u64) \<Rightarrow> u64 \<Rightarrow> nat \<Rightarrow> u64 set" where
  "pd_tables m pdpt i = (\<Union>pd \<in> pt_of m pdpt i. insert pd (\<Union>j < 512. pt_of m pd j))"

definition pt_leaves :: "(u64 \<Rightarrow> u64) \<Rightarrow> u64 \<Rightarrow> nat \<Rightarrow> u64 set" where
  "pt_leaves m pd j = (\<Union>pt \<in> pt_of m pd j. \<Union>i < 512. leaf_frame_of m pt i)"

definition pd_leaves :: "(u64 \<Rightarrow> u64) \<Rightarrow> u64 \<Rightarrow> nat \<Rightarrow> u64 set" where
  "pd_leaves m pdpt i = (\<Union>pd \<in> pt_of m pdpt i. \<Union>j < 512. pt_leaves m pd j)"

text \<open>
  The private tables and data frames of a process: everything below PDPT entries 2 to 511, plus
  its PML4 and PDPT.
\<close>

definition private_tables :: "(u64 \<Rightarrow> u64) \<Rightarrow> u64 \<Rightarrow> u64 set" where
  "private_tables m root = (let pdpt = m (entry_at root 0) AND NOT 0xFFF
     in insert root (insert pdpt (\<Union>i \<in> {2..<512}. pd_tables m pdpt i)))"

definition private_leaves :: "(u64 \<Rightarrow> u64) \<Rightarrow> u64 \<Rightarrow> u64 set" where
  "private_leaves m root = (\<Union>i \<in> {2..<512}. pd_leaves m (m (entry_at root 0) AND NOT 0xFFF) i)"

lemma loopM_collect:
  fixes A :: "'s \<Rightarrow> 'a set"
  assumes "P s" and "\<And>i s. i \<in> set js \<Longrightarrow> P s \<Longrightarrow>
    \<exists>s'. f i s = Some s' \<and> P s' \<and> A s \<union> T i \<subseteq> A s' \<and> A s' \<subseteq> A s \<union> T i \<union> U i"
  shows "\<exists>s'. loopM f js s = Some s' \<and> P s' \<and> A s \<union> (\<Union>i \<in> set js. T i) \<subseteq> A s' \<and>
    A s' \<subseteq> A s \<union> (\<Union>i \<in> set js. T i) \<union> (\<Union>i \<in> set js. U i)"
  using assms
proof (induction js arbitrary: s)
  case (Cons i js)
  from Cons.prems(2) [of i s] Cons.prems(1) obtain s1 where
      1: "f i s = Some s1" "P s1" "A s \<union> T i \<subseteq> A s1" "A s1 \<subseteq> A s \<union> T i \<union> U i" by auto
  from Cons.IH [of s1] 1(2) Cons.prems(2) obtain s2 where
      2: "loopM f js s1 = Some s2" "P s2" "A s1 \<union> (\<Union>i \<in> set js. T i) \<subseteq> A s2"
        "A s2 \<subseteq> A s1 \<union> (\<Union>i \<in> set js. T i) \<union> (\<Union>i \<in> set js. U i)" by auto
  have "loopM f (i # js) s = Some s2" using 1(1) 2(1) by simp
  moreover have "A s \<union> (\<Union>i \<in> set (i # js). T i) \<subseteq> A s2" using 1(3) 2(3) by auto
  moreover have "A s2 \<subseteq> A s \<union> (\<Union>i \<in> set (i # js). T i) \<union> (\<Union>i \<in> set (i # js). U i)"
    using 1(4) 2(4) by auto
  ultimately show ?case using 2(2) by blast
qed simp

lemma free_leaf_ok:
  assumes "mm_ok s" "pm s = m" and "\<forall>a \<in> leaf_frame_of m pt i. frame_addr_ok a"
  shows "\<exists>s'. free_leaf pt i s = Some s' \<and> (mm_ok s' \<and> pm s' = m) \<and> mm_avail s \<union> {} \<subseteq> mm_avail s' \<and>
    mm_avail s' \<subseteq> mm_avail s \<union> {} \<union> leaf_frame_of m pt i"
proof (cases "m (entry_at pt i) AND 1 = 0")
  case True
  with assms show ?thesis by (simp add: free_leaf_def)
next
  case False
  let ?e = "m (entry_at pt i)"
  let ?f = "?e AND NOT (0xFFF OR PAGE_NX)"
  have lf: "leaf_frame_of m pt i = {?f}" using False by (simp add: leaf_frame_of_def)
  then have fok: "frame_addr_ok ?f" using assms(3) by simp
  obtain t b where ct: "cow_should_free (mm_cow s) (?e AND NOT 0xFFF) = (t, b)" by fastforce
  have ok: "mm_ok (s\<lparr>mm_cow := t\<rparr>)"
    using assms(1) cow_should_free_refines [OF _ ct] by (simp add: mm_ok_def)
  have shm: "shared_memory_owns_frame (mm_shm s) a = Some (a \<in> shm_owned (mm_shm s))" for a
    using assms(1) shared_memory_owns_frame_iff by (simp add: mm_ok_def shm_inv_def)
  have run: "free_leaf pt i s = (if b \<and> (?e AND NOT 0xFFF) \<notin> shm_owned (mm_shm s)
      then mm_free_frame (s\<lparr>mm_cow := t\<rparr>) ?f else Some (s\<lparr>mm_cow := t\<rparr>))"
    using False assms(2) ct shm unfolding mm_free_frame_nx [symmetric] by (simp add: free_leaf_def Let_def)
  from mm_free_frame_ok [OF ok fok] obtain s' where
      "mm_free_frame (s\<lparr>mm_cow := t\<rparr>) ?f = Some s'" "mm_ok s'" "pm s' = m"
      "mm_avail s' = insert ?f (mm_avail s)" using assms(2) by auto
  then show ?thesis unfolding run lf using ok assms(2) by auto
qed

lemma free_pt_ok:
  assumes "mm_ok s" "pm s = m"
    and "\<forall>a \<in> pt_of m pd j. frame_addr_ok a" "\<forall>a \<in> pt_leaves m pd j. frame_addr_ok a"
  shows "\<exists>s'. free_pt pd j s = Some s' \<and> (mm_ok s' \<and> pm s' = m) \<and>
    mm_avail s \<union> pt_of m pd j \<subseteq> mm_avail s' \<and>
    mm_avail s' \<subseteq> mm_avail s \<union> pt_of m pd j \<union> pt_leaves m pd j"
proof (cases "m (entry_at pd j) AND 1 = 0")
  case True
  with assms show ?thesis by (simp add: free_pt_def pt_of_def pt_leaves_def)
next
  case False
  let ?pt = "m (entry_at pd j) AND NOT 0xFFF"
  have p: "pt_of m pd j = {?pt}" using False by (simp add: pt_of_def)
  have pl: "pt_leaves m pd j = (\<Union>i < 512. leaf_frame_of m ?pt i)" by (simp add: pt_leaves_def p)
  have "\<exists>s'. loopM (free_leaf ?pt) [0..<512] s = Some s' \<and> (mm_ok s' \<and> pm s' = m) \<and>
      mm_avail s \<union> (\<Union>i \<in> set [0..<512]. {}) \<subseteq> mm_avail s' \<and>
      mm_avail s' \<subseteq> mm_avail s \<union> (\<Union>i \<in> set [0..<512]. {}) \<union> (\<Union>i \<in> set [0..<512]. leaf_frame_of m ?pt i)"
    using assms by (intro loopM_collect free_leaf_ok) (auto simp: pl)
  then obtain s1 where s1: "loopM (free_leaf ?pt) [0..<512] s = Some s1" "mm_ok s1" "pm s1 = m"
      "mm_avail s \<subseteq> mm_avail s1" "mm_avail s1 \<subseteq> mm_avail s \<union> pt_leaves m pd j"
    unfolding pl by (auto simp: atLeast0LessThan)
  from mm_free_frame_ok [OF s1(2), of ?pt] assms(3) p obtain s2 where
      "mm_free_frame s1 ?pt = Some s2" "mm_ok s2" "pm s2 = m" "mm_avail s2 = insert ?pt (mm_avail s1)"
    using s1(3) by auto
  then show ?thesis using False assms(2) s1 p by (auto simp: free_pt_def)
qed

lemma free_pd_ok:
  assumes "mm_ok s" "pm s = m"
    and "\<forall>a \<in> pd_tables m pdpt i. frame_addr_ok a" "\<forall>a \<in> pd_leaves m pdpt i. frame_addr_ok a"
  shows "\<exists>s'. free_pd pdpt i s = Some s' \<and> (mm_ok s' \<and> pm s' = m) \<and>
    mm_avail s \<union> pd_tables m pdpt i \<subseteq> mm_avail s' \<and>
    mm_avail s' \<subseteq> mm_avail s \<union> pd_tables m pdpt i \<union> pd_leaves m pdpt i"
proof (cases "m (entry_at pdpt i) AND 1 = 0")
  case True
  with assms show ?thesis by (simp add: free_pd_def pt_of_def pd_tables_def pd_leaves_def)
next
  case False
  let ?pd = "m (entry_at pdpt i) AND NOT 0xFFF"
  have p: "pt_of m pdpt i = {?pd}" using False by (simp add: pt_of_def)
  have t: "pd_tables m pdpt i = insert ?pd (\<Union>j < 512. pt_of m ?pd j)" by (simp add: pd_tables_def p)
  have l: "pd_leaves m pdpt i = (\<Union>j < 512. pt_leaves m ?pd j)" by (simp add: pd_leaves_def p)
  have "\<exists>s'. loopM (free_pt ?pd) [0..<512] s = Some s' \<and> (mm_ok s' \<and> pm s' = m) \<and>
      mm_avail s \<union> (\<Union>j \<in> set [0..<512]. pt_of m ?pd j) \<subseteq> mm_avail s' \<and>
      mm_avail s' \<subseteq> mm_avail s \<union> (\<Union>j \<in> set [0..<512]. pt_of m ?pd j) \<union>
        (\<Union>j \<in> set [0..<512]. pt_leaves m ?pd j)"
    using assms by (intro loopM_collect free_pt_ok) (auto simp: t l)
  then obtain s1 where s1: "loopM (free_pt ?pd) [0..<512] s = Some s1" "mm_ok s1" "pm s1 = m"
      "mm_avail s \<union> (\<Union>j < 512. pt_of m ?pd j) \<subseteq> mm_avail s1"
      "mm_avail s1 \<subseteq> mm_avail s \<union> (\<Union>j < 512. pt_of m ?pd j) \<union> pd_leaves m pdpt i"
    unfolding l by (auto simp: atLeast0LessThan)
  from mm_free_frame_ok [OF s1(2), of ?pd] assms(3) t obtain s2 where
      "mm_free_frame s1 ?pd = Some s2" "mm_ok s2" "pm s2 = m" "mm_avail s2 = insert ?pd (mm_avail s1)"
    using s1(3) by auto
  then show ?thesis using False assms(2) s1 unfolding t by (auto simp: free_pd_def)
qed

lemma free_address_space_ok:
  assumes "mm_ok s" "\<forall>a \<in> private_tables (pm s) root \<union> private_leaves (pm s) root. frame_addr_ok a"
  shows "\<exists>s'. free_address_space s root = Some s' \<and> mm_ok s' \<and>
    mm_avail s \<union> private_tables (pm s) root \<subseteq> mm_avail s' \<and>
    mm_avail s' \<subseteq> mm_avail s \<union> private_tables (pm s) root \<union> private_leaves (pm s) root"
proof -
  let ?m = "pm s"
  let ?pdpt = "?m (entry_at root 0) AND NOT 0xFFF"
  have valid: "frame_addr_ok a" if "a \<in> pd_tables ?m ?pdpt i \<or> a \<in> pd_leaves ?m ?pdpt i" "2 \<le> i" "i < 512" for a i
  proof -
    have "a \<in> private_tables ?m root \<union> private_leaves ?m root"
      using that unfolding private_tables_def private_leaves_def Let_def by fastforce
    then show ?thesis using assms(2) by blast
  qed
  have "\<exists>s'. loopM (free_pd ?pdpt) [2..<512] s = Some s' \<and> (mm_ok s' \<and> pm s' = ?m) \<and>
      mm_avail s \<union> (\<Union>i \<in> set [2..<512]. pd_tables ?m ?pdpt i) \<subseteq> mm_avail s' \<and>
      mm_avail s' \<subseteq> mm_avail s \<union> (\<Union>i \<in> set [2..<512]. pd_tables ?m ?pdpt i) \<union>
        (\<Union>i \<in> set [2..<512]. pd_leaves ?m ?pdpt i)"
    using assms(1) valid by (intro loopM_collect free_pd_ok) auto
  then obtain s1 where s1: "loopM (free_pd ?pdpt) [2..<512] s = Some s1" "mm_ok s1" "pm s1 = ?m"
      "mm_avail s \<union> (\<Union>i \<in> {2..<512}. pd_tables ?m ?pdpt i) \<subseteq> mm_avail s1"
      "mm_avail s1 \<subseteq> mm_avail s \<union> (\<Union>i \<in> {2..<512}. pd_tables ?m ?pdpt i) \<union> private_leaves ?m root"
    unfolding private_leaves_def by auto
  have v: "frame_addr_ok ?pdpt" "frame_addr_ok root"
    using assms(2) by (simp_all add: private_tables_def Let_def)
  from mm_free_frame_ok [OF s1(2) v(1)] obtain s2 where s2: "mm_free_frame s1 ?pdpt = Some s2" "mm_ok s2"
      "mm_avail s2 = insert ?pdpt (mm_avail s1)" by blast
  from mm_free_frame_ok [OF s2(2) v(2)] obtain s3 where s3: "mm_free_frame s2 root = Some s3" "mm_ok s3"
      "mm_avail s3 = insert root (mm_avail s2)" by blast
  have "free_address_space s root = Some s3"
    using s1(1,3) s2(1) s3(1) by (simp add: free_address_space_def)
  moreover have "mm_avail s \<union> private_tables ?m root \<subseteq> mm_avail s3"
    using s1(4) s2(3) s3(3) by (auto simp: private_tables_def Let_def)
  moreover have "mm_avail s3 \<subseteq> mm_avail s \<union> private_tables ?m root \<union> private_leaves ?m root"
    using s1(5) s2(3) s3(3) by (auto simp: private_tables_def Let_def)
  ultimately show ?thesis using s3(2) by blast
qed

text \<open>The shared-frame decision on one leaf entry.\<close>

lemma free_leaf_cases:
  assumes "mm_ok s" and e: "pm s (entry_at pt i) = e" "e AND 1 \<noteq> 0"
  shows "free_leaf pt i s =
    (let s' = s\<lparr>mm_cow := fst (cow_should_free (mm_cow s) (e AND NOT 0xFFF))\<rparr>
     in if cow_owners (mm_cow s) (e AND NOT 0xFFF) = 1 \<and> (e AND NOT 0xFFF) \<notin> shm_owned (mm_shm s)
        then mm_free_frame s' (e AND NOT 0xFFF) else Some s')"
proof -
  obtain t b where ct: "cow_should_free (mm_cow s) (e AND NOT 0xFFF) = (t, b)" by fastforce
  have b: "b = (cow_owners (mm_cow s) (e AND NOT 0xFFF) = 1)"
    using assms(1) cow_should_free_refines [OF _ ct] by (simp add: mm_ok_def)
  have shm: "shared_memory_owns_frame (mm_shm s) a = Some (a \<in> shm_owned (mm_shm s))" for a
    using assms(1) shared_memory_owns_frame_iff by (simp add: mm_ok_def shm_inv_def)
  show ?thesis unfolding b [symmetric] using e ct shm by (simp add: free_leaf_def Let_def)
qed

section \<open>Copying the kernel half\<close>

text \<open>The memory \<^verbatim>\<open>clone_address_space\<close> leaves: two new tables, everything else unchanged.\<close>

definition cloned :: "(u64 \<Rightarrow> u64) \<Rightarrow> u64 \<Rightarrow> u64 \<Rightarrow> u64 \<Rightarrow> (u64 \<Rightarrow> u64) \<Rightarrow> bool" where
  "cloned m kpdpt a b m' \<longleftrightarrow>
     (\<forall>x j. page_aligned x \<longrightarrow> j < 512 \<longrightarrow> x \<noteq> a \<longrightarrow> x \<noteq> b \<longrightarrow> m' (entry_at x j) = m (entry_at x j)) \<and>
     (\<forall>j < 512. m' (entry_at a j) = (if j = 0 then b OR 7 else 0)) \<and>
     (\<forall>j < 512. m' (entry_at b j) = (if j < 2 then m (entry_at kpdpt j) AND NOT 4 else 0))"

lemma strip_user:
  "((e :: u64) AND NOT 4) AND 1 = 0 \<longleftrightarrow> e AND 1 = 0" "(e AND NOT 4) AND NOT 0xFFF = e AND NOT 0xFFF"
  "\<not> bit (e AND NOT 4) 2"
proof -
  have 4: "(4 :: u64) = push_bit 2 1" by simp
  have b4: "bit (4 :: u64) n \<longleftrightarrow> n = 2" for n unfolding 4 bit_push_bit_iff by (auto simp: bit_simps)
  show "((e :: u64) AND NOT 4) AND 1 = 0 \<longleftrightarrow> e AND 1 = 0"
    unfolding bit0_AND_1 by (simp only: bit_and_iff bit_not_iff b4) simp
  show "(e AND NOT 4) AND NOT 0xFFF = e AND NOT 0xFFF"
    by (rule bit_word_eqI) (simp only: bit_and_iff bit_not_iff b4 mask12 bit_mask_iff, auto)
  show "\<not> bit (e AND NOT 4) 2" by (simp only: bit_and_iff bit_not_iff b4) simp
qed

lemma clone_address_space_memory:
  assumes inv: "pt_inv s (g_pml4_phys s)" and k: "walk (pm s) (g_pml4_phys s) [0] = Some kpdpt"
    and two: "2 \<le> card (mm_avail s)"
  shows "\<exists>s' a b. clone_address_space s = Some (s', a) \<and> cloned (pm s) kpdpt a b (pm s') \<and>
    frames_ok (mm_frames s') \<and> a \<in> mm_avail s \<and> b \<in> mm_avail s \<and> a \<noteq> b \<and>
    mm_avail s' = mm_avail s - {a, b} \<and> g_pml4_phys s' = g_pml4_phys s"
proof -
  let ?K = "g_pml4_phys s"
  have ok: "frames_ok (mm_frames s)" using inv by (simp add: pt_inv_def)
  have "mm_avail s \<noteq> {}" using two by auto
  from fp.alloc_avail [OF ok this] obtain fr a where
      1: "alloc_frame (mm_frames s) = Some (fr, a)" "a \<in> mm_avail s" "frames_ok fr"
        "avail_frames fr = mm_avail s - {a}" by blast
  have "avail_frames fr \<noteq> {}"
  proof
    assume "avail_frames fr = {}"
    then have "mm_avail s \<subseteq> {a}" using 1(4) by blast
    then have "card (mm_avail s) \<le> card {a}" by (rule card_mono [rotated]) simp
    with two show False by simp
  qed
  from fp.alloc_avail [OF 1(3) this] obtain fr' b where
      2: "alloc_frame fr = Some (fr', b)" "b \<in> avail_frames fr" "frames_ok fr'"
        "avail_frames fr' = avail_frames fr - {b}" by blast
  have b: "b \<in> mm_avail s" "a \<noteq> b" using 1(4) 2(2) by auto
  have al: "page_aligned a" "a \<noteq> 0" "page_aligned b" "b \<noteq> 0"
    using fp.avail_aligned [OF ok] 1(2) b(1) by (auto simp: page_aligned_def)
  have p0: "table_path []" "table_path [0]" by (simp_all add: table_path_def)
  note K = pt_invD [OF inv p0(1), simplified] and P = pt_invD [OF inv p0(2) k]
  have ne: "?K \<noteq> a" "?K \<noteq> b" "kpdpt \<noteq> a" "kpdpt \<noteq> b" using K(3) P(3) 1(2) b(1) by auto
  have kp: "pm s (entry_at ?K 0) AND NOT 0xFFF = kpdpt" using k by (simp add: Let_def split: if_splits)
  define m2 where "m2 = zero_page (zero_page (pm s) a) b"
  have m2: "m2 (entry_at x j) = (if x = a \<or> x = b then 0 else pm s (entry_at x j))"
    if "page_aligned x" "j < 512" for x j
    using that al by (auto simp: m2_def zero_page_apply entry_at_inject)
  have inj: "entry_at x j = entry_at y k \<longleftrightarrow> x = y \<and> j = k"
    if "page_aligned x" "j < 512" "page_aligned y" "k < 512" for x y j k
    using entry_at_inject that by blast
  define m' where "m' = m2(entry_at b 0 := pm s (entry_at kpdpt 0) AND NOT 4,
    entry_at b 1 := pm s (entry_at kpdpt 1) AND NOT 4, entry_at a 0 := b OR 7)"
  define s' where "s' = s\<lparr>mm_frames := fr', pm := m'\<rparr>"
  have "clone_address_space s = Some (s', a)"
    using 1(1) 2(1) al K(1) P(1) ne kp
    by (simp add: clone_address_space_def Let_def m2_def [symmetric] m2 inj s'_def m'_def)
  moreover have "cloned (pm s) kpdpt a b m'"
    unfolding cloned_def m'_def using al b(2)
    by (auto simp: m2 inj less_2_cases_iff)
  moreover have "mm_avail s' = mm_avail s - {a, b}" using 1(4) 2(4) by (auto simp: s'_def)
  moreover have "pm s' = m'" "frames_ok (mm_frames s')" "g_pml4_phys s' = ?K"
    using 2(3) by (simp_all add: s'_def)
  ultimately show ?thesis using 1(2) b by metis
qed

text \<open>Walks in the copy: the two new tables, then the kernel's own tables below entries 0 and 1.\<close>

lemma cloned_kernel_walk:
  assumes c: "cloned m kpdpt a b m'" and inv: "pt_inv s K" and m: "pm s = m"
    and ab: "a \<in> mm_avail s" "b \<in> mm_avail s"
  shows "table_path q \<Longrightarrow> walk m' K q = walk m K q"
    and "table_path q \<Longrightarrow> walk m K q = Some x \<Longrightarrow> j < 512 \<Longrightarrow> m' (entry_at x j) = m (entry_at x j)"
proof -
  show keep: "m' (entry_at x j) = m (entry_at x j)"
    if "table_path q" "walk m K q = Some x" "j < 512" for q x j
  proof -
    note d = pt_invD [OF inv that(1), unfolded m, OF that(2)]
    show ?thesis using c d(1,3) ab that(3) unfolding cloned_def by blast
  qed
  show "table_path q \<Longrightarrow> walk m' K q = walk m K q"
  proof (induction q rule: rev_induct)
    case (snoc k q)
    note q = table_path_snoc [OF snoc.prems]
    with snoc.IH keep [of q _ k] show ?case by (simp add: walk_snoc split: option.splits)
  qed simp
qed

lemma cloned_walk:
  assumes c: "cloned m kpdpt a b m'" and inv: "pt_inv s K" and m: "pm s = m"
    and ab: "a \<in> mm_avail s" "b \<in> mm_avail s" and k: "walk m K [0] = Some kpdpt"
    and al: "page_aligned b" and q: "table_path q"
  shows "walk m' a q = (case q of [] \<Rightarrow> Some a | i4 # q' \<Rightarrow> if i4 \<noteq> 0 then None else
    case q' of [] \<Rightarrow> Some b | i3 # q'' \<Rightarrow> if i3 < 2 then walk m K q else None)"
proof (cases q)
  case (Cons i4 q')
  then have i4: "i4 < 512" using q by (simp add: table_path_def)
  have e: "m' (entry_at a i4) = (if i4 = 0 then b OR 7 else 0)" using c i4 by (simp add: cloned_def)
  show ?thesis
  proof (cases "i4 = 0")
    case True
    have e0: "m' (entry_at a 0) = b OR 7" using e True by simp
    have w: "walk m' a q = walk m' b q'"
      unfolding Cons walk.simps Let_def True e0 using table_entry [OF al] by simp
    show ?thesis
    proof (cases q')
      case Nil
      then show ?thesis using w Cons True by simp
    next
      case q': (Cons i3 q'')
      have i3: "i3 < 512" using q by (simp add: table_path_def Cons q')
      have e3: "m' (entry_at b i3) = (if i3 < 2 then m (entry_at kpdpt i3) AND NOT 4 else 0)"
        using c i3 by (simp add: cloned_def)
      show ?thesis
      proof (cases "i3 < 2")
        case small: True
        have "m' (entry_at kpdpt i3) = m (entry_at kpdpt i3)"
          using cloned_kernel_walk(2) [OF c inv m ab _ k i3] by (simp add: table_path_def)
        then have "walk m' b q' = walk m' kpdpt q'"
          unfolding q' walk.simps Let_def e3 using small by (simp only: if_True strip_user)
        also have "\<dots> = walk m' K q"
          using k cloned_kernel_walk(2) [OF c inv m ab, of "[]" K 0]
          by (simp add: Cons True table_path_def Let_def split: if_splits)
        also have "\<dots> = walk m K q" by (rule cloned_kernel_walk(1) [OF c inv m ab q])
        finally show ?thesis using w Cons True q' small by simp
      next
        case False
        then show ?thesis using w Cons True q' e3 by simp
      qed
    qed
  qed (simp add: Cons e)
qed simp

lemma cloned_pt_inv:
  assumes c: "cloned m kpdpt a b m'" and inv: "pt_inv s K" and m: "pm s = m"
    and ab: "a \<in> mm_avail s" "b \<in> mm_avail s" "a \<noteq> b" and k: "walk m K [0] = Some kpdpt"
    and s': "pm s' = m'" "mm_avail s' = mm_avail s - {a, b}" "frames_ok (mm_frames s')"
  shows "pt_inv s' a" "pt_inv s' K"
proof -
  have "frames_ok (mm_frames s)" using inv by (simp add: pt_inv_def)
  then have al: "page_aligned a" "a \<noteq> 0" "page_aligned b" "b \<noteq> 0"
    using fp.avail_aligned ab by (auto simp: page_aligned_def)
  note cw = cloned_walk [OF c inv m ab(1,2) k al(3)]
  have cs: "(q = [] \<and> x = a) \<or> (q = [0] \<and> x = b) \<or>
      (walk m K q = Some x \<and> x \<noteq> a \<and> x \<noteq> b \<and> page_aligned x \<and> x \<noteq> 0 \<and> x \<notin> mm_avail s)"
    if q: "table_path q" "walk m' a q = Some x" for q x
    using q(2) pt_invD(1-3) [OF inv q(1), unfolded m, of x] ab
    unfolding cw [OF q(1)] by (auto split: list.splits if_splits)
  show "pt_inv s' a"
    unfolding pt_inv_def
  proof (intro conjI allI impI)
    show "frames_ok (mm_frames s')" by (rule s'(3))
    fix q x
    assume q: "table_path q" "walk (pm s') a q = Some x"
    from cs [OF q(1)] q(2) s'(1,2) al show "page_aligned x" "x \<noteq> 0" "x \<notin> mm_avail s'" by auto
    fix p
    assume p: "table_path p" "walk (pm s') a p = Some x"
    from cs [OF q(1), of x] cs [OF p(1), of x] q(2) p(2) s'(1) ab(3)
      pt_invD(4) [OF inv q(1), unfolded m, of x p] p(1)
    show "p = q" by auto
  qed
  show "pt_inv s' K"
    using inv s' cloned_kernel_walk(1) [OF c inv m ab(1,2)]
    unfolding pt_inv_def m s'(1) by (simp cong: imp_cong)
qed

lemma cloned_leaf:
  assumes c: "cloned m kpdpt a b m'" and inv: "pt_inv s K" and m: "pm s = m"
    and ab: "a \<in> mm_avail s" "b \<in> mm_avail s" and k: "walk m K [0] = Some kpdpt"
    and al: "page_aligned b" and v: "mappable v"
  shows "leaf m' a (vpath v) (vindex 12 v) =
      (if vindex 39 v = 0 \<and> vindex 30 v = 1 then leaf m K (vpath v) (vindex 12 v) else 0)"
    and "leaf m' K (vpath v) (vindex 12 v) = leaf m K (vpath v) (vindex 12 v)"
proof -
  have tp: "table_path (vpath v)" using v leaf_path_vpath [of v] by (simp add: leaf_path_def)
  note keep = cloned_kernel_walk(2) [OF c inv m ab tp _ vindex_less]
  show "leaf m' K (vpath v) (vindex 12 v) = leaf m K (vpath v) (vindex 12 v)"
    using cloned_kernel_walk(1) [OF c inv m ab tp] keep by (simp add: leaf_def split: option.splits)
  have "walk m' a (vpath v) = (if vindex 39 v = 0 \<and> vindex 30 v = 1 then walk m K (vpath v) else None)"
    using cloned_walk [OF c inv m ab k al tp] v by (auto simp: vpath_def mappable_def less_2_cases_iff)
  then show "leaf m' a (vpath v) (vindex 12 v) =
      (if vindex 39 v = 0 \<and> vindex 30 v = 1 then leaf m K (vpath v) (vindex 12 v) else 0)"
    using keep by (simp add: leaf_def split: option.splits)
qed

section \<open>One page of a fork\<close>

lemma bit_of_nat_small: "i < 512 \<Longrightarrow> bit (of_nat i :: u64) n \<longleftrightarrow> n < 9 \<and> bit i n"
proof -
  assume "i < 512"
  then have "unat (of_nat i :: u64) = i" "take_bit 9 i = i"
    by (simp_all add: unat_of_nat take_bit_nat_eq_self_iff)
  moreover from this have "bit i n \<longleftrightarrow> n < 9 \<and> bit i n" by (metis bit_take_bit_iff)
  moreover have "bit (of_nat i :: u64) n = bit (unat (of_nat i :: u64)) n"
    by (simp only: bit_unsigned_iff) simp
  ultimately show ?thesis by simp
qed

lemma vindex_unique:
  assumes "i < 512" "\<And>n. n < 9 \<Longrightarrow> bit v (n + sh) = bit i n"
  shows "vindex sh v = i"
proof -
  have m: "(0x1FF :: u64) = mask 9" by (simp add: mask_eq_exp_minus_1)
  have "bit (drop_bit sh v AND mask 9) n = bit (of_nat i :: u64) n" if "n < 64" for n
    unfolding bit_of_nat_small [OF assms(1)] using assms(2) [of n] that
    by (auto simp: bit_and_iff bit_drop_bit_eq bit_mask_iff add.commute)
  then have "drop_bit sh v AND 0x1FF = of_nat i" unfolding m u64_eq_iff by blast
  then show ?thesis using assms(1) by (simp add: vindex_def unat_of_nat)
qed

definition fork_vaddr :: "nat \<Rightarrow> nat \<Rightarrow> nat \<Rightarrow> u64" where
  "fork_vaddr i3 i2 i1 = push_bit 30 (of_nat i3) OR push_bit 21 (of_nat i2) OR push_bit 12 (of_nat i1)"

lemma fork_vaddr_index:
  assumes "i3 < 512" "i2 < 512" "i1 < 512"
  shows "vpath (fork_vaddr i3 i2 i1) = [0, i3, i2]" "vindex 12 (fork_vaddr i3 i2 i1) = i1"
proof -
  have b: "bit (fork_vaddr i3 i2 i1) n \<longleftrightarrow> (30 \<le> n \<and> n < 39 \<and> bit i3 (n - 30)) \<or>
      (21 \<le> n \<and> n < 30 \<and> bit i2 (n - 21)) \<or> (12 \<le> n \<and> n < 21 \<and> bit i1 (n - 12))" for n
    using assms by (auto simp: fork_vaddr_def bit_or_iff bit_push_bit_iff bit_of_nat_small)
  show "vpath (fork_vaddr i3 i2 i1) = [0, i3, i2]" "vindex 12 (fork_vaddr i3 i2 i1) = i1"
    unfolding vpath_def using assms by (auto intro!: vindex_unique simp: b)
qed

text \<open>Two address spaces are separate for an address when neither has a table on the other's path.\<close>

definition separate :: "mm \<Rightarrow> u64 \<Rightarrow> u64 \<Rightarrow> nat list \<Rightarrow> bool" where
  "separate s parent child vp \<longleftrightarrow>
     pt_pages s child \<inter> path_pages (pm s) parent vp = {} \<and>
     pt_pages s parent \<inter> path_pages (pm s) child vp = {}"

lemma separate_after_parent:
  assumes sep: "separate s parent child (vpath v)" and v: "mappable v"
    and c: "pt_inv s child" and p: "pt_inv s' parent" "pt_frame s parent (vpath v) s'"
  shows "pt_pages s' parent \<inter> path_pages (pm s') child (vpath v) = {}"
proof -
  have tp: "table_path (take n (vpath v))" for n
    using v leaf_path_vpath [of v] table_path_take by (simp add: leaf_path_def)
  have "pt_pages s child \<inter> path_pages (pm s) parent (vpath v) = {}" using sep by (simp add: separate_def)
  note w = map_page_in_other(2) [OF c p this]
  have "x \<in> path_pages (pm s) child (vpath v) \<and> x \<notin> mm_avail s"
    if "x \<in> path_pages (pm s') child (vpath v)" for x
    using that w [OF tp] pt_invD(3) [OF c tp] unfolding path_pages_def by auto
  moreover have "pt_pages s' parent \<subseteq> pt_pages s parent \<union> mm_avail s"
    using p(2) unfolding pt_frame_def pt_pages_def by blast
  ultimately show ?thesis using sep unfolding separate_def by blast
qed

lemma cow_word_read_only: "\<not> bit (leaf_word paddr (f AND NOT 2)) 1"
proof -
  have "bit (2 :: u64) 1" by (simp add: bit_iff_odd)
  then show ?thesis
    unfolding leaf_word_def by (simp only: bit_or_iff bit_and_iff bit_not_iff mask12 bit_mask_iff) (simp add: bit_1_iff bit_PAGE_NX)
qed

lemma cow_leaf_present:
  assumes p: "pt_inv s parent" and c: "pt_inv s child" and sep: "separate s parent child [0, i3, i2]"
    and i: "2 \<le> i3" "i3 < 512" "i2 < 512" "i1 < 512"
    and cow: "cow_inv (mm_cow s)" and e: "pm s (entry_at pt i1) = e" "e AND 1 \<noteq> 0"
  defines "v \<equiv> fork_vaddr i3 i2 i1" and "f \<equiv> e AND NOT (0xFFF OR PAGE_NX)"
    and "w \<equiv> leaf_word (e AND NOT (0xFFF OR PAGE_NX)) ((e AND (0xFFF OR PAGE_NX)) AND NOT 2)"
  shows "\<exists>s' ok. cow_leaf parent child i3 i2 pt i1 s = Some (s', ok) \<and>
    pt_inv s' parent \<and> pt_inv s' child \<and> cow_inv (mm_cow s') \<and>
    (ok \<longrightarrow> leaf (pm s') parent [0, i3, i2] i1 = w \<and> leaf (pm s') child [0, i3, i2] i1 = w \<and>
       cow_owners (mm_cow s') f = cow_owners (mm_cow s) f + 1)"
proof -
  have vp: "vpath v = [0, i3, i2]" "vindex 12 v = i1" unfolding v_def using i by (simp_all add: fork_vaddr_index)
  have m: "mappable v" using vp(1) i(1) by (simp add: mappable_def vpath_def)
  have lp: "leaf_path (vpath v)" using m leaf_path_vpath by blast
  note sep' = sep [folded vp(1)]
  obtain s1 ok1 where 1: "map_page_in s parent v f ((e AND (0xFFF OR PAGE_NX)) AND NOT 2) = Some (s1, ok1)"
      "pt_inv s1 parent" "pt_frame s parent (vpath v) s1"
      "\<forall>q j. leaf_path q \<longrightarrow> j < 512 \<longrightarrow> leaf (pm s1) parent q j =
        (if ok1 \<and> q = vpath v \<and> j = vindex 12 v then w else leaf (pm s) parent q j)"
    using map_page_in_spec [OF p m, of f "(e AND (0xFFF OR PAGE_NX)) AND NOT 2"]
    unfolding w_def f_def by blast
  have cow1: "mm_cow s1 = mm_cow s" using 1(3) by (simp add: pt_frame_def)
  have c1: "pt_inv s1 child" using sep' unfolding separate_def by (intro map_page_in_other(1) [OF c 1(2,3)]) blast
  have run: "cow_leaf parent child i3 i2 pt i1 s = do {
      (s, ok) \<leftarrow> map_page_in s parent v f ((e AND (0xFFF OR PAGE_NX)) AND NOT 2);
      if \<not> ok then Some (s, False) else do {
        (s, ok) \<leftarrow> map_page_in s child v f ((e AND (0xFFF OR PAGE_NX)) AND NOT 2);
        if \<not> ok then Some (s, False)
        else case cow_track (mm_cow s) f of (t, ok) \<Rightarrow> Some (s\<lparr>mm_cow := t\<rparr>, ok) } }"
    unfolding cow_leaf_def e(1) Let_def v_def fork_vaddr_def f_def using e(2) by (simp only: if_False)
  show ?thesis
  proof (cases ok1)
    case False
    then have "cow_leaf parent child i3 i2 pt i1 s = Some (s1, False)" unfolding run 1(1) by simp
    with 1(2) c1 cow cow1 show ?thesis by (intro exI [of _ s1] exI [of _ False]) simp
  next
    case ok1: True
    obtain s2 ok2 where 2: "map_page_in s1 child v f ((e AND (0xFFF OR PAGE_NX)) AND NOT 2) = Some (s2, ok2)"
        "pt_inv s2 child" "pt_frame s1 child (vpath v) s2"
        "\<forall>q j. leaf_path q \<longrightarrow> j < 512 \<longrightarrow> leaf (pm s2) child q j =
          (if ok2 \<and> q = vpath v \<and> j = vindex 12 v then w else leaf (pm s1) child q j)"
      using map_page_in_spec [OF c1 m, of f "(e AND (0xFFF OR PAGE_NX)) AND NOT 2"]
      unfolding w_def f_def by blast
    have cow2: "mm_cow s2 = mm_cow s" using 2(3) cow1 by (simp add: pt_frame_def)
    note par = map_page_in_other [OF 1(2) 2(2,3) separate_after_parent [OF sep' m c 1(2,3)]]
    have lf: "leaf (pm s2) parent [0, i3, i2] i1 = w" "ok2 \<Longrightarrow> leaf (pm s2) child [0, i3, i2] i1 = w"
      using par(3) [OF lp i(4)] 1(4) 2(4) lp i(4) ok1 by (simp_all add: vp)
    show ?thesis
    proof (cases ok2)
      case False
      then have "cow_leaf parent child i3 i2 pt i1 s = Some (s2, False)" unfolding run 1(1) using ok1 2(1) by simp
      with par(1) 2(2) cow cow2 show ?thesis by (intro exI [of _ s2] exI [of _ False]) simp
    next
      case ok2: True
      obtain t b where ct: "cow_track (mm_cow s) f = (t, b)" by fastforce
      let ?s = "s2\<lparr>mm_cow := t\<rparr>"
      have "cow_leaf parent child i3 i2 pt i1 s = Some (?s, b)"
        unfolding run 1(1) using ok1 2(1) ok2 ct cow2 by simp
      moreover have "cow_inv t" using cow_track_refines [OF cow, of f t] cow_track_fails [of _ f t] ct cow by (cases b) auto
      moreover have "b \<Longrightarrow> cow_owners t f = cow_owners (mm_cow s) f + 1"
        using cow_track_refines [OF cow, of f t] ct by simp
      moreover have "pt_inv ?s parent" "pt_inv ?s child" using par(1) 2(2) by (simp_all add: pt_inv_def)
      ultimately show ?thesis using lf ok2 by (intro exI [of _ ?s] exI [of _ b]) simp
    qed
  qed
qed

section \<open>Properties\<close>

text \<open>
  C19. Tearing an address space down always completes; it returns every private page table to
  the frame allocator, and it returns nothing but private tables and frames the process had
  mapped below PDPT entry 2, so the kernel tables shared through entries 0 and 1 survive.
\<close>

theorem free_address_space_releases:
  assumes "mm_ok s" "\<forall>a \<in> private_tables (pm s) root \<union> private_leaves (pm s) root. frame_addr_ok a"
  shows "\<exists>s'. free_address_space s root = Some s' \<and> mm_ok s' \<and>
    private_tables (pm s) root \<subseteq> mm_avail s' \<and> mm_avail s \<subseteq> mm_avail s' \<and>
    mm_avail s' \<subseteq> mm_avail s \<union> private_tables (pm s) root \<union> private_leaves (pm s) root"
  using free_address_space_ok [OF assms] by blast

text \<open>
  On teardown an executable page whose frame still has another owner, or belongs to a
  shared-memory region, is not released; the copy-on-write table only loses one owner.
\<close>

theorem free_leaf_keeps_shared:
  assumes "mm_ok s" "pm s (entry_at pt i) = e" "e AND 1 \<noteq> 0" "\<not> bit e 63"
    and "f = e AND NOT (0xFFF OR PAGE_NX)"
    and "2 \<le> cow_owners (mm_cow s) f \<or> f \<in> shm_owned (mm_shm s)"
  shows "\<exists>s'. free_leaf pt i s = Some s' \<and> mm_avail s' = mm_avail s \<and> mm_ok s' \<and>
    cow_owners (mm_cow s') = (cow_owners (mm_cow s))(f := max 1 (cow_owners (mm_cow s) f - 1))"
proof -
  have f: "e AND NOT 0xFFF = f"
    unfolding assms(5) using assms(4)
    by (intro bit_word_eqI) (auto simp: bit_simps mask12 bit_PAGE_NX)
  obtain t b where ct: "cow_should_free (mm_cow s) f = (t, b)" by fastforce
  note r = cow_should_free_refines [OF _ ct]
  have "free_leaf pt i s = Some (s\<lparr>mm_cow := t\<rparr>)"
    using free_leaf_cases [OF assms(1-3)] assms(6) unfolding f ct by auto
  with r assms(1) show ?thesis by (auto simp: mm_ok_def)
qed

text \<open>
  The same page with the no-execute bit set is released although the copy-on-write table
  still counts two owners: the lookup key keeps bit 63, matches no entry, and the frame number
  passed to \<^verbatim>\<open>free_frame\<close> drops it.
\<close>

theorem free_leaf_nx_releases_shared:
  assumes "mm_ok s" "pm s (entry_at pt i) = e" "e AND 1 \<noteq> 0" "bit e 63"
    and "f = e AND NOT (0xFFF OR PAGE_NX)" "frame_addr_ok f"
    and "\<forall>c \<in> set (mm_cow s). cow_used c \<longrightarrow> \<not> bit (cow_frame c) 63"
    and "\<forall>a \<in> shm_owned (mm_shm s). \<not> bit a 63"
  shows "\<exists>s'. free_leaf pt i s = Some s' \<and> f \<in> mm_avail s' \<and> mm_cow s' = mm_cow s"
proof -
  let ?k = "e AND NOT 0xFFF"
  have k: "bit ?k 63" using assms(4) by (simp add: bit_and_iff bit_not_iff mask12 bit_mask_iff)
  have "cow_find_slot (mm_cow s) ?k = None"
    using assms(7) k by (auto simp: cow_find_slot_def first_index_None)
  then have cow: "cow_should_free (mm_cow s) ?k = (mm_cow s, True)" "cow_owners (mm_cow s) ?k = 1"
    by (simp_all add: cow_should_free_def cow_owners_def)
  have shm: "?k \<notin> shm_owned (mm_shm s)" using assms(8) k by blast
  have "free_leaf pt i s = mm_free_frame s ?k"
    unfolding free_leaf_cases [OF assms(1-3)] Let_def cow(1) using cow(2) shm by simp
  also have "\<dots> = mm_free_frame s f" unfolding assms(5) by (rule mm_free_frame_nx)
  finally show ?thesis using mm_free_frame_ok [OF assms(1,6)] by auto
qed

text \<open>A machine with one page table entry at 0x1000, and frame 0x5000 shared by two owners.\<close>

definition sample_shared :: "u64 \<Rightarrow> mm" where
  "sample_shared e = \<lparr>pm = (\<lambda>_. 0)(0x1000 := e), mm_frames = frames_reset,
     mm_cow = fst (cow_track cow_empty 0x5000),
     mm_shm = replicate 4 \<lparr>shm_used = False, shm_page_count = 0, shm_frames = replicate 4 0\<rparr>,
     g_pml4_phys = 0x2000\<rparr>"

lemma sample_shared:
  "mm_ok (sample_shared e)" "cow_owners (mm_cow (sample_shared e)) 0x5000 = 2"
  "pm (sample_shared e) (entry_at 0x1000 0) = e" "mm_avail (sample_shared e) = {}"
  "shm_owned (mm_shm (sample_shared e)) = {}"
  "\<forall>c \<in> set (mm_cow (sample_shared e)). cow_used c \<longrightarrow> cow_frame c = 0x5000"
proof -
  have inv: "cow_inv cow_empty" by (simp add: cow_inv_def cow_empty_def COW_SLOTS_def)
  have e: "\<not> (\<forall>c \<in> set cow_empty. cow_used c)" by (simp add: cow_empty_def COW_SLOTS_def)
  obtain t b where t: "cow_track cow_empty 0x5000 = (t, b)" by fastforce
  with e cow_track_fails [of cow_empty "0x5000" t] have b by (cases b) auto
  with t have t: "cow_track cow_empty 0x5000 = (t, True)" by simp
  have one: "cow_owners cow_empty 0x5000 = 1" by (rule cow_owners_untracked) (simp add: cow_empty_def)
  note r = cow_track_refines [OF inv t]
  show "mm_ok (sample_shared e)"
    using r t by (simp add: mm_ok_def sample_shared_def frames_ok_def frames_reset_inv frames_reset_free
        shm_inv_def SHM_SLOTS_def)
  show "cow_owners (mm_cow (sample_shared e)) 0x5000 = 2" using r t one by (simp add: sample_shared_def)
  show "pm (sample_shared e) (entry_at 0x1000 0) = e" by (simp add: sample_shared_def entry_at_def)
  show "mm_avail (sample_shared e) = {}" by (simp add: sample_shared_def avail_frames_def frames_reset_free)
  show "shm_owned (mm_shm (sample_shared e)) = {}" by (simp add: sample_shared_def shm_owned_def region_frames_def)
  have "first_index (\<lambda>c. \<not> cow_used c) cow_empty = Some 0"
    by (rule first_index_SomeI) (simp_all add: cow_empty_def COW_SLOTS_def)
  then have "cow_track cow_empty 0x5000 = (cow_empty[0 := cow_entry_init 0x5000 (cow_empty ! 0)], True)"
    using cow_find_slot_None [of cow_empty "0x5000"] by (simp add: cow_track_def cow_claim_def cow_empty_def)
  then show "\<forall>c \<in> set (mm_cow (sample_shared e)). cow_used c \<longrightarrow> cow_frame c = 0x5000"
    using set_update_subset_insert [of cow_empty 0 "cow_entry_init 0x5000 (cow_empty ! 0)"]
    by (auto simp: sample_shared_def cow_empty_def cow_entry_init_def)
qed

theorem free_leaf_keeps_shared_witness:
  "2 \<le> cow_owners (mm_cow (sample_shared 0x5007)) 0x5000 \<and>
   (\<exists>s'. free_leaf 0x1000 0 (sample_shared 0x5007) = Some s' \<and> mm_avail s' = {})"
  using free_leaf_keeps_shared [OF sample_shared(1,3), of "0x5007" "0x5000"]
  by (auto simp: sample_shared PAGE_NX_def)

theorem free_leaf_nx_releases_shared_witness:
  "2 \<le> cow_owners (mm_cow (sample_shared 0x8000000000005007)) 0x5000 \<and>
   (\<exists>s'. free_leaf 0x1000 0 (sample_shared 0x8000000000005007) = Some s' \<and> 0x5000 \<in> mm_avail s' \<and>
      2 \<le> cow_owners (mm_cow s') 0x5000)"
proof -
  have nx: "bit (0x8000000000005007 :: u64) 63" by (simp add: bit_iff_odd)
  have "\<not> bit (0x5000 :: u64) 63" by (simp add: bit_iff_odd)
  with sample_shared(6) have "\<forall>c \<in> set (mm_cow (sample_shared 0x8000000000005007)).
      cow_used c \<longrightarrow> \<not> bit (cow_frame c) 63" by metis
  with free_leaf_nx_releases_shared [OF sample_shared(1,3), of "0x8000000000005007" "0x5000"] nx
  show ?thesis by (auto simp: sample_shared PAGE_NX_def frame_addr_ok_def page_aligned_def)
qed

lemma pt_inv_by_cases:
  assumes "frames_ok (mm_frames s)"
    and "\<And>q x. table_path q \<Longrightarrow> walk (pm s) root q = Some x \<Longrightarrow> (q, x) \<in> W"
    and "\<And>q x. (q, x) \<in> W \<Longrightarrow> page_aligned x \<and> x \<noteq> 0 \<and> x \<notin> mm_avail s"
    and "\<And>q q' x. (q, x) \<in> W \<Longrightarrow> (q', x) \<in> W \<Longrightarrow> q' = q"
  shows "pt_inv s root"
  using assms unfolding pt_inv_def by blast

theorem free_address_space_releases_witness:
  "\<exists>s'. free_address_space (sample_shared 0x2007) 0x1000 = Some s' \<and> {0x1000, 0x2000} \<subseteq> mm_avail s'"
proof -
  let ?m = "pm (sample_shared 0x2007)"
  have z: "?m (entry_at 0x2000 i) = 0" if "i < 512" for i
    using that entry_at_inject [of "0x2000" i "0x1000" 0]
    by (simp add: sample_shared_def page_aligned_def) (simp add: entry_at_def)
  have r: "?m (entry_at 0x1000 0) = 0x2007" by (rule sample_shared(3))
  have "pd_tables ?m 0x2000 i = {}" "pd_leaves ?m 0x2000 i = {}" if "i < 512" for i
    using z [OF that] by (simp_all add: pd_tables_def pd_leaves_def pt_of_def)
  then have t: "private_tables ?m 0x1000 = {0x1000, 0x2000}" "private_leaves ?m 0x1000 = {}"
    by (auto simp: private_tables_def private_leaves_def r)
  show ?thesis
    using free_address_space_releases [OF sample_shared(1), of "0x2007" "0x1000"]
    by (auto simp: t frame_addr_ok_def page_aligned_def)
qed

text \<open>
  C26. With two free frames \<^verbatim>\<open>clone_address_space\<close> builds a well-formed address space that sees
  the kernel heap region (PDPT entry 1) exactly as the kernel does, maps nothing in its private
  region, denies user access to the shared entries and leaves every kernel translation alone.
\<close>

theorem clone_address_space_shares_kernel:
  assumes "pt_inv s (g_pml4_phys s)" "walk (pm s) (g_pml4_phys s) [0] = Some kpdpt"
    and "2 \<le> card (mm_avail s)"
  shows "\<exists>s' a b. clone_address_space s = Some (s', a) \<and> pt_inv s' a \<and> pt_inv s' (g_pml4_phys s) \<and>
    (\<forall>v. mappable v \<longrightarrow> translate_in s' a v =
       (if vindex 39 v = 0 \<and> vindex 30 v = 1 then translate_in s (g_pml4_phys s) v else 0)) \<and>
    (\<forall>v. mappable v \<longrightarrow> translate_in s' (g_pml4_phys s) v = translate_in s (g_pml4_phys s) v) \<and>
    walk (pm s') a [0] = Some b \<and> (\<forall>j < 2. \<not> bit (pm s' (entry_at b j)) 2)"
proof -
  let ?K = "g_pml4_phys s"
  from clone_address_space_memory [OF assms] obtain s' a b where
      run: "clone_address_space s = Some (s', a)" and c: "cloned (pm s) kpdpt a b (pm s')"
      and ab: "a \<in> mm_avail s" "b \<in> mm_avail s" "a \<noteq> b"
      and s': "frames_ok (mm_frames s')" "mm_avail s' = mm_avail s - {a, b}" by blast
  have al: "page_aligned b"
    using assms(1) fp.avail_aligned ab(2) by (auto simp: pt_inv_def page_aligned_def)
  note inv = cloned_pt_inv [OF c assms(1) refl ab assms(2) refl s'(2,1)]
  note lf = cloned_leaf [OF c assms(1) refl ab(1,2) assms(2) al]
  have "translate_in s' a v = (if vindex 39 v = 0 \<and> vindex 30 v = 1 then translate_in s ?K v else 0)"
    "translate_in s' ?K v = translate_in s ?K v" if "mappable v" for v
    using lf [OF that] by (simp_all add: translate_in_leaf leaf_addr_def)
  moreover have "walk (pm s') a [0] = Some b"
    using cloned_walk [OF c assms(1) refl ab(1,2) assms(2) al, of "[0]"] by (simp add: table_path_def)
  moreover have "\<not> bit (pm s' (entry_at b j)) 2" if "j < 2" for j
    using c that strip_user(3) by (simp add: cloned_def)
  ultimately show ?thesis using run inv by blast
qed

theorem clone_address_space_shares_kernel_witness:
  "\<exists>s s' a. g_pml4_phys s = 0x2000 \<and> pt_inv s 0x2000 \<and> clone_address_space s = Some (s', a) \<and>
     pt_inv s' a \<and> translate_in s' a 0x80000000 = 0"
proof -
  from sample_mm obtain s0 where s0: "pt_inv s0 0x2000" "card (mm_avail s0) = 4" "pm s0 = (\<lambda>_. 0)"
    "0x3000 \<notin> mm_avail s0" by auto
  define s where "s = s0\<lparr>pm := (\<lambda>_. 0)(0x2000 := 0x3007), g_pml4_phys := 0x2000\<rparr>"
  have e: "pm s (entry_at t i) = (if t = 0x2000 \<and> i = 0 then 0x3007 else 0)"
    if "page_aligned t" "i < 512" for t i
    using that entry_at_inject [OF that, of "0x2000" 0] by (auto simp: s_def page_aligned_def entry_at_def)
  have al: "page_aligned 0x2000" "page_aligned 0x3000" by (simp_all add: page_aligned_def)
  have w: "(q = [] \<and> x = 0x2000) \<or> (q = [0] \<and> x = 0x3000)"
    if "table_path q" "walk (pm s) 0x2000 q = Some x" for q x
    using that al e by (cases q; cases "tl q") (auto simp: table_path_def Let_def split: if_splits)
  have "walk (pm s0) 0x2000 [] = Some 0x2000" by simp
  from pt_invD(3) [OF s0(1) _ this] have "0x2000 \<notin> mm_avail s" by (simp add: s_def table_path_def)
  moreover have "frames_ok (mm_frames s)" using s0(1) by (simp add: pt_inv_def s_def)
  ultimately have inv: "pt_inv s 0x2000"
    using s0(4) by (intro pt_inv_by_cases [where W = "{([], 0x2000), ([0], 0x3000)}"])
      (use w in \<open>auto simp: s_def page_aligned_def\<close>)
  have k: "walk (pm s) 0x2000 [0] = Some 0x3000" using e [OF al(1), of 0] by simp
  have g: "g_pml4_phys s = 0x2000" "card (mm_avail s) = 4" using s0(2) by (simp_all add: s_def)
  have m: "mappable 0x80000000" "vindex 30 0x80000000 \<noteq> 1" by (simp_all add: mappable_def vindex_def)
  from clone_address_space_shares_kernel [of s "0x3000"] inv k g obtain s' a where
      "clone_address_space s = Some (s', a)" "pt_inv s' a"
      "\<forall>v. mappable v \<longrightarrow> translate_in s' a v =
         (if vindex 39 v = 0 \<and> vindex 30 v = 1 then translate_in s 0x2000 v else 0)" by auto
  with inv g m show ?thesis by auto
qed



end
