(* ===== verification/Heap.thy ===== *)
theory Heap
  imports Address_Space
begin

text \<open>
  Model of the kernel heap \<^verbatim>\<open>src/kernel/mm/heap/heap.c\<close>: address-ordered blocks with 16-byte
  headers from \<^verbatim>\<open>HEAP_BASE\<close> up, split on allocation, coalesced on release, grown by mapping
  fresh frames. \<open>hdr\<close> is the header stored at an offset; an access to a header outside the mapped
  \<^verbatim>\<open>g_heap_size\<close> bytes is a page fault and the value \<open>None\<close>, as is a loop that does not end.
\<close>

section \<open>State and operations\<close>

record block_header =
  bsize :: u64
  bfree :: bool

record heap =
  hp_mm :: mm
  hdr :: "u64 \<Rightarrow> block_header"
  g_heap_size :: u64
  g_heap_cap :: u64
  g_heap_inited :: bool

definition HEAP_BASE :: u64 where "HEAP_BASE = 0x50000000"

definition rd_hdr :: "heap \<Rightarrow> u64 \<Rightarrow> block_header option" where
  "rd_hdr h off = (if unat off + 16 \<le> unat (g_heap_size h) then Some (hdr h off) else None)"

definition wr_hdr :: "heap \<Rightarrow> u64 \<Rightarrow> block_header \<Rightarrow> heap option" where
  "wr_hdr h off b = (if unat off + 16 \<le> unat (g_heap_size h) then Some (h\<lparr>hdr := (hdr h)(off := b)\<rparr>) else None)"

partial_function (option) grow_loop :: "heap \<Rightarrow> u64 \<Rightarrow> u64 \<Rightarrow> (heap \<times> bool) option" where
  "grow_loop h mapped chunk =
     (if mapped < chunk then
        Option.bind (alloc_frame (mm_frames (hp_mm h))) (\<lambda>(fr, frame).
          if frame = 0 then Some (h\<lparr>hp_mm := (hp_mm h)\<lparr>mm_frames := fr\<rparr>\<rparr>, False)
          else Option.bind (map_page ((hp_mm h)\<lparr>mm_frames := fr\<rparr>) (HEAP_BASE + g_heap_size h + mapped) frame
              (2 OR PAGE_NX)) (\<lambda>(mm, ok).
            if \<not> ok then map_option (\<lambda>mm. (h\<lparr>hp_mm := mm\<rparr>, False)) (mm_free_frame mm frame)
            else grow_loop (h\<lparr>hp_mm := mm\<rparr>) (mapped + 4096) chunk))
      else Some (h, True))"

definition grow_round :: "u64 \<Rightarrow> u64" where
  "grow_round min_extra =
     (let chunk = (if min_extra < 65536 then 65536 else min_extra)
      in if chunk mod 4096 \<noteq> 0 then chunk + (4096 - chunk mod 4096) else chunk)"

definition grow_chunk :: "heap \<Rightarrow> u64 \<Rightarrow> u64" where
  "grow_chunk h min_extra =
     (let chunk = grow_round min_extra
      in if g_heap_size h + chunk > g_heap_cap h then g_heap_cap h - g_heap_size h else chunk)"

definition heap_grow :: "heap \<Rightarrow> u64 \<Rightarrow> (heap \<times> bool) option" where
  "heap_grow h min_extra =
     (let chunk = grow_chunk h min_extra
      in map_option (\<lambda>(h, ok). if ok then (h\<lparr>g_heap_size := g_heap_size h + chunk\<rparr>, True) else (h, False))
           (grow_loop h 0 chunk))"

definition heap_init :: "heap \<Rightarrow> heap option" where
  "heap_init h =
     do {
       h \<leftarrow> (if g_heap_size h = 0
             then map_option fst (heap_grow (h\<lparr>g_heap_cap := 16777216\<rparr>) 65536) else Some h);
       h \<leftarrow> wr_hdr h 0 \<lparr>bsize = g_heap_size h - 16, bfree = True\<rparr>;
       Some (h\<lparr>g_heap_inited := True\<rparr>)
     }"

text \<open>The scan of \<^verbatim>\<open>kalloc\<close>: the offset of the first free block that is large enough.\<close>

partial_function (option) kalloc_scan :: "heap \<Rightarrow> u64 \<Rightarrow> u64 \<Rightarrow> u64 option option" where
  "kalloc_scan h sz offset =
     (if offset < g_heap_size h then
        Option.bind (rd_hdr h offset) (\<lambda>b.
          if bfree b \<and> bsize b \<ge> sz then Some (Some offset)
          else kalloc_scan h sz (offset + 16 + bsize b))
      else Some None)"

definition take_block :: "heap \<Rightarrow> u64 \<Rightarrow> u64 \<Rightarrow> (heap \<times> u64) option" where
  "take_block h sz offset =
     do {
       b \<leftarrow> rd_hdr h offset;
       (h, b) \<leftarrow> (if bsize b \<ge> sz + 16 + 16 then do {
                   h \<leftarrow> wr_hdr h (offset + 16 + sz) \<lparr>bsize = bsize b - sz - 16, bfree = True\<rparr>;
                   Some (h, b\<lparr>bsize := sz\<rparr>)
                 } else Some (h, b));
       h \<leftarrow> wr_hdr h offset (b\<lparr>bfree := False\<rparr>);
       Some (h, HEAP_BASE + offset + 16)
     }"

partial_function (option) kalloc_loop :: "heap \<Rightarrow> u64 \<Rightarrow> (heap \<times> u64) option" where
  "kalloc_loop h sz =
     Option.bind (kalloc_scan h sz 0) (\<lambda>r.
       case r of
         Some offset \<Rightarrow> take_block h sz offset
       | None \<Rightarrow>
           Option.bind (heap_grow h (sz + 16)) (\<lambda>(h', ok).
             if \<not> ok then Some (h', 0)
             else Option.bind (wr_hdr h' (g_heap_size h)
                    \<lparr>bsize = (g_heap_size h' - g_heap_size h) - 16, bfree = True\<rparr>) (\<lambda>h''. kalloc_loop h'' sz)))"

definition round16 :: "u64 \<Rightarrow> u64" where
  "round16 sz = (if sz mod 16 \<noteq> 0 then sz + (16 - sz mod 16) else sz)"

definition kalloc :: "heap \<Rightarrow> u64 \<Rightarrow> (heap \<times> u64) option" where
  "kalloc h sz = do { h \<leftarrow> (if g_heap_inited h then Some h else heap_init h); kalloc_loop h (round16 sz) }"

partial_function (option) coalesce_forward :: "heap \<Rightarrow> u64 \<Rightarrow> u64 \<Rightarrow> heap option" where
  "coalesce_forward h offset next_offset =
     (if next_offset < g_heap_size h then
        Option.bind (rd_hdr h next_offset) (\<lambda>nb.
          if \<not> bfree nb then Some h
          else Option.bind (rd_hdr h offset) (\<lambda>b.
            Option.bind (wr_hdr h offset (b\<lparr>bsize := bsize b + 16 + bsize nb\<rparr>)) (\<lambda>h.
              coalesce_forward h offset (offset + 16 + (bsize b + 16 + bsize nb)))))
      else Some h)"

partial_function (option) find_prev :: "heap \<Rightarrow> u64 \<Rightarrow> u64 \<Rightarrow> u64 option option" where
  "find_prev h offset scan_offset =
     (if scan_offset < offset then
        Option.bind (rd_hdr h scan_offset) (\<lambda>b.
          if scan_offset + 16 + bsize b = offset then Some (Some scan_offset)
          else find_prev h offset (scan_offset + 16 + bsize b))
      else Some None)"

definition kfree :: "heap \<Rightarrow> u64 \<Rightarrow> heap option" where
  "kfree h ptr =
     (if ptr = 0 then Some h
      else if ptr < HEAP_BASE + 16 \<or> ptr \<ge> HEAP_BASE + g_heap_size h then Some h
      else let offset = ptr - HEAP_BASE - 16 in do {
        b \<leftarrow> rd_hdr h offset;
        h \<leftarrow> wr_hdr h offset (b\<lparr>bfree := True\<rparr>);
        h \<leftarrow> coalesce_forward h offset (offset + 16 + bsize b);
        prev \<leftarrow> find_prev h offset 0;
        case prev of
          None \<Rightarrow> Some h
        | Some prev_offset \<Rightarrow> do {
            pb \<leftarrow> rd_hdr h prev_offset;
            if bfree pb then do {
              b \<leftarrow> rd_hdr h offset;
              wr_hdr h prev_offset (pb\<lparr>bsize := bsize pb + 16 + bsize b\<rparr>)
            } else Some h
          }
      })"

partial_function (option) free_bytes_loop :: "heap \<Rightarrow> u64 \<Rightarrow> u64 \<Rightarrow> u64 option" where
  "free_bytes_loop h acc offset =
     (if offset < g_heap_size h then
        Option.bind (rd_hdr h offset) (\<lambda>b.
          free_bytes_loop h (if bfree b then acc + bsize b else acc) (offset + 16 + bsize b))
      else Some acc)"

definition heap_free_bytes :: "heap \<Rightarrow> (heap \<times> u64) option" where
  "heap_free_bytes h =
     do {
       h \<leftarrow> (if g_heap_inited h then Some h else heap_init h);
       acc \<leftarrow> free_bytes_loop h 0 0;
       Some (h, acc)
     }"

section \<open>The block list\<close>

text \<open>
  A block is its payload size and whether it is free. \<open>blocks h o bs\<close>: the headers from offset
  \<open>o\<close> on describe \<open>bs\<close> and end exactly at the heap size.
\<close>

type_synonym block = "nat \<times> bool"

definition span :: "block list \<Rightarrow> nat" where
  "span bs = sum_list (map (\<lambda>b. 16 + fst b) bs)"

lemma span_simps [simp]:
  "span [] = 0" "span (b # bs) = 16 + fst b + span bs" "span (bs @ cs) = span bs + span cs"
  by (simp_all add: span_def)

fun blocks :: "(u64 \<Rightarrow> block_header) \<Rightarrow> nat \<Rightarrow> block list \<Rightarrow> bool" where
  "blocks m o1 [] \<longleftrightarrow> True"
| "blocks m o1 (b # bs) \<longleftrightarrow>
     m (of_nat o1) = \<lparr>bsize = of_nat (fst b), bfree = snd b\<rparr> \<and> blocks m (o1 + 16 + fst b) bs"

definition heap_rep :: "heap \<Rightarrow> block list \<Rightarrow> bool" where
  "heap_rep h bs \<longleftrightarrow> blocks (hdr h) 0 bs \<and> span bs = unat (g_heap_size h) \<and>
     unat (g_heap_size h) \<le> 16777216 \<and> (\<forall>b \<in> set bs. fst b mod 16 = 0)"

lemma blocks_append [simp]: "blocks m o1 (bs @ cs) \<longleftrightarrow> blocks m o1 bs \<and> blocks m (o1 + span bs) cs"
  by (induction bs arbitrary: o1) (auto simp: add.assoc)

lemma unat_small: "n < 2147483648 \<Longrightarrow> unat (of_nat n :: u64) = n"
  by (simp add: unat_of_nat)

lemma of_nat_inj_small: "m < 2147483648 \<Longrightarrow> n < 2147483648 \<Longrightarrow> (of_nat m :: u64) = of_nat n \<longleftrightarrow> m = n"
  using unat_small by metis

text \<open>A write below or above a run of blocks does not touch it.\<close>

lemma blocks_update:
  assumes "blocks m o1 bs" "p < o1 \<or> o1 + span bs \<le> p" "o1 + span bs < 2147483648" "p < 2147483648"
  shows "blocks (m(of_nat p := b)) o1 bs"
  using assms
proof (induction bs arbitrary: o1)
  case (Cons c bs)
  then have "of_nat p \<noteq> (of_nat o1 :: u64)" by (auto simp: of_nat_inj_small)
  with Cons show ?case by (auto simp: add.assoc)
qed simp

section \<open>Reading and writing headers\<close>

lemma heap_rep_bounds:
  assumes "heap_rep h (pre @ b # post)"
  shows "span pre + 16 + fst b + span post = unat (g_heap_size h)" "unat (g_heap_size h) \<le> 16777216"
    and "unat (of_nat (span pre) :: u64) = span pre" "fst b < 16777216"
    and "unat (of_nat (fst b) :: u64) = fst b"
    and "of_nat (span pre) < g_heap_size h"
    and "hdr h (of_nat (span pre)) = \<lparr>bsize = of_nat (fst b), bfree = snd b\<rparr>"
    and "rd_hdr h (of_nat (span pre)) = Some \<lparr>bsize = of_nat (fst b), bfree = snd b\<rparr>"
    and "of_nat (span pre) + 16 + of_nat (fst b) = (of_nat (span (pre @ [b])) :: u64)"
proof -
  show s: "span pre + 16 + fst b + span post = unat (g_heap_size h)" and l: "unat (g_heap_size h) \<le> 16777216"
    and hd: "hdr h (of_nat (span pre)) = \<lparr>bsize = of_nat (fst b), bfree = snd b\<rparr>"
    using assms by (auto simp: heap_rep_def)
  show u: "unat (of_nat (span pre) :: u64) = span pre" and "unat (of_nat (fst b) :: u64) = fst b"
    and "fst b < 16777216"
    using s l by (auto intro!: unat_small)
  then show "of_nat (span pre) < g_heap_size h" using s by (simp add: word_less_nat_alt)
  show "rd_hdr h (of_nat (span pre)) = Some \<lparr>bsize = of_nat (fst b), bfree = snd b\<rparr>"
    unfolding rd_hdr_def u hd using s by simp
qed simp

lemma heap_end: "heap_rep h bs \<Longrightarrow> \<not> of_nat (span bs) < g_heap_size h"
  by (simp add: heap_rep_def)

text \<open>Replacing a run of blocks by another of the same extent.\<close>

lemma blocks_replace:
  assumes "blocks m 0 (pre @ ds @ post)" "span (pre @ ds @ post) < 2147483648"
    and "span cs = span ds" "blocks m' (span pre) cs"
    and "\<And>p. p < span pre \<or> span pre + span cs \<le> p \<Longrightarrow> p < 2147483648 \<Longrightarrow> m' (of_nat p) = m (of_nat p)"
  shows "blocks m' 0 (pre @ cs @ post)"
proof -
  have keep: "blocks m o1 bs \<Longrightarrow> o1 + span bs < 2147483648 \<Longrightarrow>
      o1 + span bs \<le> span pre \<or> span pre + span cs \<le> o1 \<Longrightarrow> blocks m' o1 bs" for o1 bs
  proof (induction bs arbitrary: o1)
    case (Cons c bs)
    have "m' (of_nat o1) = m (of_nat o1)" using Cons.prems by (intro assms(5)) auto
    with Cons show ?case by (auto simp: add.assoc)
  qed simp
  have "blocks m' 0 pre" using assms(1,2) by (intro keep) auto
  moreover have "blocks m' (span pre + span cs) post" using assms(1-3) by (intro keep) (auto simp: add.assoc)
  ultimately show ?thesis using assms(4) by simp
qed

section \<open>First fit\<close>

definition fits :: "nat \<Rightarrow> block \<Rightarrow> bool" where
  "fits n b \<longleftrightarrow> snd b \<and> n \<le> fst b"

lemma kalloc_scan_spec:
  "heap_rep h (pre @ bs) \<Longrightarrow> kalloc_scan h sz (of_nat (span pre)) =
     Some (map_option (\<lambda>i. of_nat (span (pre @ take i bs))) (first_index (fits (unat sz)) bs))"
proof (induction bs arbitrary: pre)
  case Nil
  then show ?case using heap_end [of h pre] by (subst kalloc_scan.simps) simp
next
  case (Cons b bs)
  note d = heap_rep_bounds [OF Cons.prems]
  have fit: "(snd b \<and> of_nat (fst b) \<ge> sz) = fits (unat sz) b"
    by (simp add: fits_def word_le_nat_alt d(5))
  have ih: "kalloc_scan h sz (of_nat (span (pre @ [b]))) =
      Some (map_option (\<lambda>i. of_nat (span ((pre @ [b]) @ take i bs))) (first_index (fits (unat sz)) bs))"
    using Cons.prems by (intro Cons.IH) simp
  show ?case
  proof (cases "fits (unat sz) b")
    case True
    then have "kalloc_scan h sz (of_nat (span pre)) = Some (Some (of_nat (span pre)))"
      by (subst kalloc_scan.simps) (simp only: d(6,8) if_True bind.bind_lunit block_header.select_convs fit)
    then show ?thesis using True by simp
  next
    case False
    then have "kalloc_scan h sz (of_nat (span pre)) = kalloc_scan h sz (of_nat (span (pre @ [b])))"
      by (subst kalloc_scan.simps) (simp only: d(6,8) if_True bind.bind_lunit block_header.select_convs fit if_False d(9))
    then show ?thesis
      unfolding ih using False by (simp add: option.map_comp comp_def add.assoc)
  qed
qed

definition split_block :: "nat \<Rightarrow> nat \<Rightarrow> block list" where
  "split_block sz n = (if sz + 32 \<le> n then [(sz, False), (n - sz - 16, True)] else [(n, False)])"

lemma span_split_block: "span (split_block sz n) = 16 + n"
  by (simp add: split_block_def)

lemma take_block_spec:
  assumes rep: "heap_rep h (pre @ (n, True) # post)" and sz: "unat sz \<le> n" "unat sz mod 16 = 0"
  shows "\<exists>m'. take_block h sz (of_nat (span pre)) = Some (h\<lparr>hdr := m'\<rparr>, HEAP_BASE + of_nat (span pre) + 16) \<and>
    heap_rep (h\<lparr>hdr := m'\<rparr>) (pre @ split_block (unat sz) n @ post)"
proof -
  note d = heap_rep_bounds [OF rep, simplified]
  let ?o = "of_nat (span pre) :: u64" and ?k = "unat sz"
  have bl: "blocks (hdr h) 0 (pre @ [(n, True)] @ post)" "span (pre @ [(n, True)] @ post) < 2147483648"
    using rep d(1,2) by (auto simp: heap_rep_def)
  have n16: "n mod 16 = 0" using rep by (simp add: heap_rep_def)
  have fin: "heap_rep (h\<lparr>hdr := m'\<rparr>) (pre @ split_block ?k n @ post)"
    if "blocks m' 0 (pre @ split_block ?k n @ post)" for m'
  proof -
    have "\<forall>b \<in> set (split_block ?k n). fst b mod 16 = 0"
      using n16 sz by (auto simp: split_block_def mod_diff_eq dvd_diff_nat mod_eq_0_iff_dvd)
    then show ?thesis using that rep by (auto simp: heap_rep_def span_split_block)
  qed
  have u32: "unat (sz + 16 + 16) = ?k + 32" using sz(1) d(4) by (simp add: unat_word_ariths)
  have le: "of_nat n \<ge> sz + 16 + 16 \<longleftrightarrow> ?k + 32 \<le> n" unfolding word_le_nat_alt u32 d(5) ..
  show ?thesis
  proof (cases "?k + 32 \<le> n")
    case True
    let ?r = "of_nat (span pre + 16 + ?k) :: u64"
    let ?m = "(hdr h)(?r := \<lparr>bsize = of_nat n - sz - 16, bfree = True\<rparr>, ?o := \<lparr>bsize = sz, bfree = False\<rparr>)"
    have ur: "unat ?r = span pre + 16 + ?k" using d(1,2) True by (intro unat_small) simp
    have re: "?o + 16 + sz = ?r" by simp
    have rs: "of_nat n - sz - 16 = (of_nat (n - ?k - 16) :: u64)"
      using True sz(1) by (simp add: of_nat_diff)
    have w1: "wr_hdr h ?r b = Some (h\<lparr>hdr := (hdr h)(?r := b)\<rparr>)" for b
      unfolding wr_hdr_def ur using True d(1) by simp
    have w2: "wr_hdr (h\<lparr>hdr := m\<rparr>) ?o b = Some (h\<lparr>hdr := m(?o := b)\<rparr>)" for m b
      unfolding wr_hdr_def d(3) using d(1) by simp
    have "take_block h sz ?o = Some (h\<lparr>hdr := ?m\<rparr>, HEAP_BASE + ?o + 16)"
      unfolding take_block_def d(8)
      by (simp only: bind.bind_lunit block_header.simps le True if_True re w1 w2 prod.case)
    moreover have "blocks ?m 0 (pre @ split_block ?k n @ post)"
    proof (rule blocks_replace [OF bl])
      show "span (split_block ?k n) = span [(n, True)]" by (simp add: span_split_block)
      have "?r \<noteq> ?o" using d(1,2) True by (subst of_nat_inj_small) auto
      then show "blocks ?m (span pre) (split_block ?k n)"
        using True rs by (simp add: split_block_def)
      show "?m (of_nat p) = hdr h (of_nat p)"
        if "p < span pre \<or> span pre + span (split_block ?k n) \<le> p" "p < 2147483648" for p
        using that True d(1,2) by (auto simp: span_split_block of_nat_inj_small simp del: of_nat_add)
    qed
    ultimately show ?thesis using fin by blast
  next
    case False
    let ?m = "(hdr h)(?o := \<lparr>bsize = of_nat n, bfree = False\<rparr>)"
    have "take_block h sz ?o = Some (h\<lparr>hdr := ?m\<rparr>, HEAP_BASE + ?o + 16)"
    proof -
      have "wr_hdr h ?o b = Some (h\<lparr>hdr := (hdr h)(?o := b)\<rparr>)" for b
        unfolding wr_hdr_def d(3) using d(1) by simp
      then show ?thesis
        unfolding take_block_def d(8) using False
        by (simp only: bind.bind_lunit block_header.simps le if_False prod.case)
    qed
    moreover have "blocks ?m 0 (pre @ split_block ?k n @ post)"
    proof (rule blocks_replace [OF bl])
      show "?m (of_nat p) = hdr h (of_nat p)"
        if "p < span pre \<or> span pre + span (split_block ?k n) \<le> p" "p < 2147483648" for p
        using that d(1,2) by (auto simp: span_split_block of_nat_inj_small)
    qed (use False in \<open>simp_all add: split_block_def\<close>)
    ultimately show ?thesis using fin by blast
  qed
qed

section \<open>Growing\<close>

lemma vindex_div: "vindex sh v = unat v div 2 ^ sh mod 512"
proof -
  have "drop_bit sh v AND 0x1FF = take_bit 9 (drop_bit sh v)"
    by (simp add: take_bit_eq_mask mask_eq_exp_minus_1)
  then have "vindex sh v = take_bit 9 (unat (drop_bit sh v))"
    unfolding vindex_def by (simp add: unsigned_take_bit_eq)
  also have "\<dots> = unat v div 2 ^ sh mod 512" 
    unfolding unat_drop_bit_eq by (simp add: take_bit_eq_mod drop_bit_eq_div)
  finally show ?thesis .
qed

lemma heap_vaddr_mappable:
  assumes "unat hs + unat mapped < 16777216"
  shows "mappable (HEAP_BASE + hs + mapped)"
proof -
  have "unat (HEAP_BASE + hs + mapped) = 0x50000000 + (unat hs + unat mapped)"
    using assms by (simp add: HEAP_BASE_def unat_word_ariths)
  moreover from this have "unat (HEAP_BASE + hs + mapped) div 2 ^ 30 = 1" using assms by simp
  ultimately show ?thesis by (simp add: mappable_def vindex_div)
qed

lemma pt_inv_alloc:
  assumes inv: "pt_inv s root" and al: "alloc_frame (mm_frames s) = Some (fr, a)" "a \<noteq> 0"
  shows "pt_inv (s\<lparr>mm_frames := fr\<rparr>) root" "a \<notin> pt_pages s root" "a \<notin> avail_frames fr"
    and "a mod 4096 = 0 \<and> a < 0x40000000"
proof -
  have ok: "frames_ok (mm_frames s)" using inv by (simp add: pt_inv_def)
  note f = fp.alloc_frame_some [OF ok al]
  show "a \<notin> avail_frames fr" using f(3) by simp
  show "a mod 4096 = 0 \<and> a < 0x40000000" using fp.avail_aligned [OF ok f(1)] by simp
  show "a \<notin> pt_pages s root" using f(1) pt_invD(3) [OF inv] by (auto simp: pt_pages_def)
  show "pt_inv (s\<lparr>mm_frames := fr\<rparr>) root" using inv f(2,3) unfolding pt_inv_def by auto
qed

lemma pt_inv_free:
  assumes inv: "pt_inv s root" and a: "a \<notin> pt_pages s root" "a mod 4096 = 0" "a \<noteq> 0" "a < 0x40000000"
  shows "\<exists>fr. free_frame (mm_frames s) a = Some fr \<and> pt_inv (s\<lparr>mm_frames := fr\<rparr>) root"
proof -
  have ok: "frames_ok (mm_frames s)" using inv by (simp add: pt_inv_def)
  from fp.free_avail [OF ok a(2-4)] obtain fr where
      fr: "free_frame (mm_frames s) a = Some fr" "frames_ok fr" "avail_frames fr = insert a (mm_avail s)"
    by blast
  have "x \<noteq> a" if "table_path q" "walk (pm s) root q = Some x" for q x
    using that a(1) by (auto simp: pt_pages_def)
  with inv fr show ?thesis unfolding pt_inv_def by auto
qed

lemma step_le: "m < n \<Longrightarrow> n mod 4096 = 0 \<Longrightarrow> m mod 4096 = 0 \<Longrightarrow> m + 4096 \<le> (n :: nat)"
proof -
  assume lt: "m < n" and "n mod 4096 = 0" "m mod 4096 = 0"
  then obtain j k where jk: "m = 4096 * j" "n = 4096 * k" by (auto elim!: dvdE simp: mod_eq_0_iff_dvd)
  with lt have "Suc j \<le> k" by simp
  then have "4096 * Suc j \<le> 4096 * k" by (rule mult_le_mono2)
  then show ?thesis using jk by simp
qed

lemma grow_loop_ok:
  assumes "pt_inv (hp_mm h) (g_pml4_phys (hp_mm h))"
    and "unat (g_heap_size h) + unat chunk \<le> 16777216" "unat chunk mod 4096 = 0" "unat mapped mod 4096 = 0"
  shows "\<exists>mm ok. grow_loop h mapped chunk = Some (h\<lparr>hp_mm := mm\<rparr>, ok) \<and> pt_inv mm (g_pml4_phys mm)"
  using assms(1,2,4)
proof (induction "unat chunk - unat mapped" arbitrary: h mapped rule: less_induct)
  case less
  let ?s = "hp_mm h" and ?K = "g_pml4_phys (hp_mm h)"
  have ok: "frames_ok (mm_frames ?s)" using less.prems(1) by (simp add: pt_inv_def)
  show ?case
  proof (cases "mapped < chunk")
    case False
    then have "grow_loop h mapped chunk = Some (h, True)" by (subst grow_loop.simps) simp
    with less.prems(1) show ?thesis by (intro exI [of _ ?s] exI [of _ True]) simp
  next
    case True
    then have lt: "unat mapped < unat chunk" by (simp add: word_less_nat_alt)
    from fp.alloc_total [OF ok] obtain fr a where al: "alloc_frame (mm_frames ?s) = Some (fr, a)" by blast
    show ?thesis
    proof (cases "a = 0")
      case a0: True
      then have "avail_frames (mm_frames ?s) = {}" using fp.alloc_null_iff [OF ok al] by simp
      then have "fr = mm_frames ?s" using fp.alloc_exhausted [OF ok] al by simp
      then have "grow_loop h mapped chunk = Some (h\<lparr>hp_mm := ?s\<rparr>, False)"
        using True al a0 by (subst grow_loop.simps) simp
      with less.prems(1) show ?thesis by blast
    next
      case nz: False
      let ?s1 = "?s\<lparr>mm_frames := fr\<rparr>" and ?v = "HEAP_BASE + g_heap_size h + mapped"
      note p = pt_inv_alloc [OF less.prems(1) al nz]
      have v: "mappable ?v" using less.prems(2) lt by (intro heap_vaddr_mappable) simp
      from map_page_in_spec [OF p(1) v, of a "2 OR PAGE_NX"] obtain s2 b where
          m: "map_page_in ?s1 ?K ?v a (2 OR PAGE_NX) = Some (s2, b)" "pt_inv s2 ?K"
            "pt_frame ?s1 ?K (vpath ?v) s2" by blast
      have K: "g_pml4_phys s2 = ?K" using m(3) by (simp add: pt_frame_def)
      show ?thesis
      proof (cases b)
        case False
        have "a \<notin> pt_pages s2 ?K"
          using m(3) p(2,3) unfolding pt_frame_def pt_pages_def by auto
        from pt_inv_free [OF m(2) this] p(4) nz obtain fr' where
            f: "free_frame (mm_frames s2) a = Some fr'" "pt_inv (s2\<lparr>mm_frames := fr'\<rparr>) ?K" by blast
        then have "grow_loop h mapped chunk = Some (h\<lparr>hp_mm := s2\<lparr>mm_frames := fr'\<rparr>\<rparr>, False)"
          using True al nz m(1) False by (subst grow_loop.simps) (simp add: map_page_def mm_free_frame_def)
        with f(2) K show ?thesis by auto
      next
        case b: True
        let ?h = "h\<lparr>hp_mm := s2\<rparr>"
        have eq: "grow_loop h mapped chunk = grow_loop ?h (mapped + 4096) chunk"
          using True al nz m(1) b by (subst grow_loop.simps) (simp add: map_page_def)
        have "unat mapped + 4096 \<le> unat chunk" using lt assms(3) less.prems(3) by (rule step_le)
        then have u: "unat (mapped + 4096) = unat mapped + 4096"
          using unat_less_u64 [of chunk] by (intro unat_step) (linarith, simp)
        have "unat chunk - unat (mapped + 4096) < unat chunk - unat mapped" using u lt by simp
        from less.hyps [OF this, of ?h] m(2) K less.prems u show ?thesis
          by (auto simp: eq mod_add_eq)
      qed
    qed
  qed
qed

text \<open>The chunk a request of \<open>n\<close> bytes adds when the cap leaves room for it.\<close>

definition grow_need :: "nat \<Rightarrow> nat" where
  "grow_need n = (let c = max 65536 n in if c mod 4096 \<noteq> 0 then c + (4096 - c mod 4096) else c)"

lemma grow_need: "n \<le> grow_need n" "65536 \<le> grow_need n" "grow_need n mod 4096 = 0"
proof -
  define c where "c = max 65536 n"
  have g: "grow_need n = (if c mod 4096 \<noteq> 0 then c + (4096 - c mod 4096) else c)"
    by (simp add: grow_need_def c_def Let_def)
  have "c \<le> grow_need n" unfolding g by (cases "c mod 4096 = 0") (simp_all only: if_False if_True not_True_eq_False not_False_eq_True le_add1 order_refl simp_thms)
  moreover have "n \<le> c" "65536 \<le> c" by (simp_all add: c_def)
  ultimately show "n \<le> grow_need n" "65536 \<le> grow_need n" by simp_all
  have "c + (4096 - c mod 4096) = (c div 4096 + 1) * 4096"
  proof -
    have "c mod 4096 < 4096" by simp
    then show ?thesis using div_mult_mod_eq [of c 4096] unfolding distrib_right by linarith
  qed
  then show "grow_need n mod 4096 = 0" unfolding g by (auto simp del: mult_Suc)
qed

lemma unat_grow_round:
  assumes "grow_need (unat n) < 18446744073709551616"
  shows "unat (grow_round n) = grow_need (unat n)"
proof -
  define c where "c = (if n < 65536 then 65536 else n)"
  have c: "unat c = max 65536 (unat n)" by (simp add: c_def word_less_nat_alt max_def)
  have m: "unat (c mod 4096) = max 65536 (unat n) mod 4096" unfolding unat_mod c by simp
  have nz: "c mod 4096 \<noteq> 0 \<longleftrightarrow> max 65536 (unat n) mod 4096 \<noteq> 0"
    using m by (metis unat_0 unat_eq_zero)
  have le: "c mod 4096 \<le> 4096" unfolding word_le_nat_alt m by (simp add: less_imp_le)
  have sub: "unat (4096 - c mod 4096) = 4096 - max 65536 (unat n) mod 4096"
    unfolding unat_sub [OF le] m by simp
  show ?thesis
  proof (cases "c mod 4096 \<noteq> 0")
    case True
    then have g: "grow_need (unat n) = max 65536 (unat n) + (4096 - max 65536 (unat n) mod 4096)"
      using nz by (simp add: grow_need_def Let_def)
    have "unat (c + (4096 - c mod 4096)) = unat c + (4096 - max 65536 (unat n) mod 4096)"
      using assms g c sub by (intro unat_step) simp_all
    then show ?thesis using True g c by (simp add: grow_round_def c_def [symmetric])
  next
    case False
    then have "grow_need (unat n) = max 65536 (unat n)" using nz by (simp add: grow_need_def Let_def)
    then show ?thesis using False c by (simp add: grow_round_def c_def [symmetric])
  qed
qed

lemma grow_chunk_room:
  assumes "unat (g_heap_size h) + grow_need (unat n) \<le> unat (g_heap_cap h)" "unat (g_heap_cap h) \<le> 16777216"
  shows "unat (grow_chunk h n) = grow_need (unat n)"
proof -
  have r: "unat (grow_round n) = grow_need (unat n)" using assms by (intro unat_grow_round) simp
  have "unat (g_heap_size h + grow_round n) = unat (g_heap_size h) + grow_need (unat n)"
    using assms r by (intro unat_step) simp_all
  then have "\<not> g_heap_size h + grow_round n > g_heap_cap h" using assms(1) by (simp add: word_less_nat_alt)
  then show ?thesis unfolding grow_chunk_def Let_def using r by simp
qed

text \<open>At the cap the chunk is empty, and growing succeeds without adding a byte.\<close>

lemma heap_grow_at_cap:
  assumes "g_heap_size h = g_heap_cap h" "unat (g_heap_cap h) \<le> 16777216"
    and "grow_need (unat n) \<le> 4611686018427387904"
  shows "heap_grow h n = Some (h, True)"
proof -
  have r: "unat (grow_round n) = grow_need (unat n)" using assms(3) by (intro unat_grow_round) simp
  have "unat (g_heap_cap h + grow_round n) = unat (g_heap_cap h) + grow_need (unat n)"
    using assms r by (intro unat_step) simp_all
  then have "g_heap_cap h + grow_round n > g_heap_cap h"
    using grow_need(2) [of "unat n"] by (simp add: word_less_nat_alt)
  then have z: "grow_chunk h n = 0" by (simp add: grow_chunk_def assms(1))
  then have "grow_loop h 0 (grow_chunk h n) = Some (h, True)" by (subst grow_loop.simps) simp
  then show ?thesis using z by (simp add: heap_grow_def)
qed

end
