(* ===== verification/Heap_Alloc.thy ===== *)
theory Heap_Alloc
  imports Heap
begin

text \<open>
  The heap as an allocator: \<^verbatim>\<open>kalloc\<close> and \<^verbatim>\<open>kfree\<close> of \<^verbatim>\<open>src/kernel/mm/heap/heap.c\<close> refined to
  operations on the list of blocks, and through it to the set of live allocations.
\<close>

section \<open>Live allocations\<close>

fun live_at :: "nat \<Rightarrow> block list \<Rightarrow> (nat \<times> nat) set" where
  "live_at o1 [] = {}"
| "live_at o1 (b # bs) = (if snd b then {} else {(o1, fst b)}) \<union> live_at (o1 + 16 + fst b) bs"

abbreviation live :: "block list \<Rightarrow> (nat \<times> nat) set" where
  "live bs \<equiv> live_at 0 bs"

lemma live_append [simp]: "live_at o1 (bs @ cs) = live_at o1 bs \<union> live_at (o1 + span bs) cs"
  by (induction bs arbitrary: o1) (auto simp: add.assoc)

lemma live_bounds: "(p, n) \<in> live_at o1 bs \<Longrightarrow> o1 \<le> p \<and> p + 16 + n \<le> o1 + span bs"
  by (induction bs arbitrary: o1) (fastforce split: if_splits)+

text \<open>Live allocations never overlap, headers included.\<close>

lemma live_disjoint:
  "(p, m) \<in> live_at o1 bs \<Longrightarrow> (q, n) \<in> live_at o1 bs \<Longrightarrow> p < q \<Longrightarrow> p + 16 + m \<le> q"
proof (induction bs arbitrary: o1)
  case (Cons b bs)
  then show ?case using live_bounds [of _ _ "o1 + 16 + fst b" bs] by (fastforce split: if_splits)
qed simp

lemma live_inj: "(p, m) \<in> live_at o1 bs \<Longrightarrow> (p, n) \<in> live_at o1 bs \<Longrightarrow> m = n"
proof (induction bs arbitrary: o1)
  case (Cons b bs)
  then show ?case using live_bounds [of _ _ "o1 + 16 + fst b" bs] by (fastforce split: if_splits)
qed simp

section \<open>Allocation\<close>

text \<open>First fit on the block list: the offset of the payload's header and the new list.\<close>

definition list_alloc :: "nat \<Rightarrow> block list \<Rightarrow> (nat \<times> block list) option" where
  "list_alloc k bs = map_option (\<lambda>i. (span (take i bs),
     take i bs @ split_block k (fst (bs ! i)) @ drop (Suc i) bs)) (first_index (fits k) bs)"

lemma list_alloc_live:
  assumes "list_alloc k bs = Some (p, bs')"
  shows "\<exists>n. k \<le> n \<and> live bs' = insert (p, n) (live bs) \<and> (\<forall>m. (p, m) \<notin> live bs) \<and>
    p + 16 + n \<le> span bs \<and> span bs' = span bs"
proof -
  from assms obtain i where i: "first_index (fits k) bs = Some i" and p: "p = span (take i bs)"
    and bs': "bs' = take i bs @ split_block k (fst (bs ! i)) @ drop (Suc i) bs"
    by (auto simp: list_alloc_def)
  from first_index_SomeD [OF i] have len: "i < length bs" and fit: "snd (bs ! i)" "k \<le> fst (bs ! i)"
    by (auto simp: fits_def)
  define pre post n where "pre = take i bs" "post = drop (Suc i) bs" "n = fst (bs ! i)"
  have bs: "bs = pre @ (n, True) # post"
    using id_take_nth_drop [OF len] fit(1) by (simp add: pre_post_n_def) (metis prod.collapse)
  have bs'': "bs' = pre @ split_block k n @ post" and p': "p = span pre"
    by (simp_all add: bs' p pre_post_n_def)
  have fresh: "(p, m) \<notin> live bs" for m
    using live_bounds [of p m 0 pre] live_bounds [of p m "span pre + 16 + n" post] by (auto simp: bs p')
  have l: "live bs' = insert (p, if k + 32 \<le> n then k else n) (live bs)"
    by (auto simp: bs'' bs p' split_block_def add.assoc)
  have "k \<le> n" using fit(2) by (simp add: pre_post_n_def)
  with fresh l show ?thesis
    by (intro exI [of _ "if k + 32 \<le> n then k else n"]) (auto simp: bs p' bs'' span_split_block)
qed

definition heap_ok :: "heap \<Rightarrow> block list \<Rightarrow> bool" where
  "heap_ok h bs \<longleftrightarrow> heap_rep h bs \<and> g_heap_inited h \<and> pt_inv (hp_mm h) (g_pml4_phys (hp_mm h)) \<and>
     unat (g_heap_cap h) \<le> 16777216 \<and> unat (g_heap_size h) \<le> unat (g_heap_cap h)"

lemma kalloc_loop_fit:
  assumes "heap_rep h bs" "unat sz mod 16 = 0" "list_alloc (unat sz) bs = Some (p, bs')"
  shows "\<exists>m. kalloc_loop h sz = Some (h\<lparr>hdr := m\<rparr>, HEAP_BASE + of_nat p + 16) \<and> heap_rep (h\<lparr>hdr := m\<rparr>) bs'"
proof -
  from assms(3) obtain i where i: "first_index (fits (unat sz)) bs = Some i" and p: "p = span (take i bs)"
    and bs': "bs' = take i bs @ split_block (unat sz) (fst (bs ! i)) @ drop (Suc i) bs"
    by (auto simp: list_alloc_def)
  from first_index_SomeD [OF i] have len: "i < length bs" and fit: "snd (bs ! i)" "unat sz \<le> fst (bs ! i)"
    by (auto simp: fits_def)
  have "bs ! i = (fst (bs ! i), True)" using fit(1) by (metis prod.collapse)
  then have "heap_rep h (take i bs @ (fst (bs ! i), True) # drop (Suc i) bs)"
    using assms(1) id_take_nth_drop [OF len] by metis
  from take_block_spec [OF this fit(2) assms(2)] obtain m where
      m: "take_block h sz (of_nat p) = Some (h\<lparr>hdr := m\<rparr>, HEAP_BASE + of_nat p + 16)"
        "heap_rep (h\<lparr>hdr := m\<rparr>) bs'" unfolding p bs' by blast
  have "kalloc_scan h sz 0 = Some (Some (of_nat p))"
    using kalloc_scan_spec [of h "[]" bs sz] assms(1) i by (simp add: p)
  then have "kalloc_loop h sz = take_block h sz (of_nat p)" by (subst kalloc_loop.simps) simp
  with m show ?thesis by auto
qed

lemma kalloc_scan_none:
  assumes "heap_rep h bs" "list_alloc (unat sz) bs = None"
  shows "kalloc_scan h sz 0 = Some None"
  using kalloc_scan_spec [of h "[]" bs sz] assms by (simp add: list_alloc_def)

lemma heap_rep_grown:
  assumes rep: "heap_rep h bs" and c: "unat (g_heap_size h) + c \<le> 16777216" "16 \<le> c" "c mod 16 = 0"
    and g: "g_heap_size h' = g_heap_size h + of_nat c" "hdr h' = hdr h"
  shows "\<exists>h''. wr_hdr h' (g_heap_size h) \<lparr>bsize = (g_heap_size h' - g_heap_size h) - 16, bfree = True\<rparr> = Some h'' \<and>
    h'' = h'\<lparr>hdr := hdr h''\<rparr> \<and> heap_rep h'' (bs @ [(c - 16, True)])"
proof -
  let ?e = "unat (g_heap_size h)"
  have s: "span bs = ?e" "blocks (hdr h) 0 bs" using rep by (auto simp: heap_rep_def)
  have o1: "g_heap_size h = of_nat ?e" by simp
  have u: "unat (g_heap_size h') = ?e + c"
    unfolding g(1) using c(1) by (intro unat_step) (simp_all add: unat_of_nat)
  have sz: "(g_heap_size h' - g_heap_size h) - 16 = (of_nat (c - 16) :: u64)"
    using c(2) by (simp add: g(1) of_nat_diff)
  let ?b = "\<lparr>bsize = of_nat (c - 16), bfree = True\<rparr>"
  let ?h = "h'\<lparr>hdr := (hdr h)(of_nat ?e := ?b)\<rparr>"
  have w: "wr_hdr h' (g_heap_size h) ?b = Some ?h"
    unfolding wr_hdr_def u using c(2) g(2) by simp
  have "blocks ((hdr h)(of_nat ?e := ?b)) 0 bs"
    using s c(1) by (intro blocks_update) auto
  then have "heap_rep ?h (bs @ [(c - 16, True)])"
    using rep c u s by (auto simp: heap_rep_def dvd_diff_nat mod_eq_0_iff_dvd)
  with w show ?thesis unfolding sz by (intro exI [of _ ?h]) simp
qed

lemma list_alloc_grown:
  assumes "list_alloc k bs = None" "k + 16 \<le> c"
  shows "\<exists>p bs'. list_alloc k (bs @ [(c - 16, True)]) = Some (p, bs')"
proof -
  have "fits k (c - 16, True)" using assms(2) by (simp add: fits_def)
  then have "first_index (fits k) (bs @ [(c - 16, True)]) \<noteq> None"
    by (auto simp: first_index_None)
  then show ?thesis by (auto simp: list_alloc_def)
qed

text \<open>
  \<^verbatim>\<open>kalloc\<close> with room below the cap: it returns, with NULL only when frames ran out, and then the
  block list is unchanged.
\<close>

lemma kalloc_loop_ok:
  assumes ok: "heap_ok h bs" and sz: "unat sz mod 16 = 0"
    and room: "list_alloc (unat sz) bs = None \<longrightarrow>
      unat (g_heap_size h) + grow_need (unat sz + 16) \<le> unat (g_heap_cap h)"
  shows "\<exists>h' q bs'. kalloc_loop h sz = Some (h', q) \<and> heap_ok h' bs' \<and>
    ((q = 0 \<and> bs' = bs) \<or>
     (\<exists>p bs0. q = HEAP_BASE + of_nat p + 16 \<and> list_alloc (unat sz) bs0 = Some (p, bs') \<and>
        (bs0 = bs \<or> (\<exists>n. bs0 = bs @ [(n, True)])) \<and> span bs0 \<le> 16777216))"
proof -
  have rep: "heap_rep h bs" and inv: "pt_inv (hp_mm h) (g_pml4_phys (hp_mm h))"
    using ok by (auto simp: heap_ok_def)
  have sp: "span bs \<le> 16777216" using rep by (auto simp: heap_rep_def)
  show ?thesis
  proof (cases "list_alloc (unat sz) bs")
    case (Some r)
    then obtain p bs' where r: "list_alloc (unat sz) bs = Some (p, bs')" by (cases r) auto
    from kalloc_loop_fit [OF rep sz r] obtain m where
        m: "kalloc_loop h sz = Some (h\<lparr>hdr := m\<rparr>, HEAP_BASE + of_nat p + 16)" "heap_rep (h\<lparr>hdr := m\<rparr>) bs'"
      by blast
    have "heap_ok (h\<lparr>hdr := m\<rparr>) bs'" using ok m(2) by (simp add: heap_ok_def)
    with m(1) r sp show ?thesis by blast
  next
    case None
    define c where "c = grow_need (unat sz + 16)"
    have rm: "unat (g_heap_size h) + c \<le> unat (g_heap_cap h)" "unat (g_heap_cap h) \<le> 16777216"
      using room None ok by (auto simp: c_def heap_ok_def)
    have c: "unat sz + 16 \<le> c" "65536 \<le> c" "c mod 4096 = 0" unfolding c_def by (rule grow_need)+
    have us: "unat (sz + 16) = unat sz + 16" using rm c by (intro unat_step) simp_all
    have gc: "unat (grow_chunk h (sz + 16)) = c"
      using grow_chunk_room [of h "sz + 16"] rm by (simp add: us c_def)
    have gc': "grow_chunk h (sz + 16) = of_nat c" unfolding gc [symmetric] by simp
    from grow_loop_ok [OF inv, of "grow_chunk h (sz + 16)" 0] rm c(3) gc obtain mm b where
        g: "grow_loop h 0 (grow_chunk h (sz + 16)) = Some (h\<lparr>hp_mm := mm\<rparr>, b)" "pt_inv mm (g_pml4_phys mm)"
      by auto
    note scan = kalloc_scan_none [OF rep None]
    show ?thesis
    proof (cases b)
      case False
      then have "kalloc_loop h sz = Some (h\<lparr>hp_mm := mm\<rparr>, 0)"
        using scan g(1) by (subst kalloc_loop.simps) (simp add: heap_grow_def)
      moreover have "heap_ok (h\<lparr>hp_mm := mm\<rparr>) bs" using ok g(2) by (simp add: heap_ok_def heap_rep_def)
      ultimately show ?thesis by blast
    next
      case True
      define h1 where "h1 = h\<lparr>hp_mm := mm, g_heap_size := g_heap_size h + of_nat c\<rparr>"
      have hg: "heap_grow h (sz + 16) = Some (h1, True)"
        using g(1) True gc' by (simp add: heap_grow_def h1_def)
      have "c mod 16 = 0" using mod_mod_cancel [of 16 4096 c] c(3) by simp
      from heap_rep_grown [OF rep, of c h1] this rm c(2) obtain h2 where
          h2: "wr_hdr h1 (g_heap_size h) \<lparr>bsize = (g_heap_size h1 - g_heap_size h) - 16, bfree = True\<rparr> = Some h2"
            "h2 = h1\<lparr>hdr := hdr h2\<rparr>" "heap_rep h2 (bs @ [(c - 16, True)])" by (auto simp: h1_def)
      from list_alloc_grown [OF None c(1)] obtain p bs' where
          la: "list_alloc (unat sz) (bs @ [(c - 16, True)]) = Some (p, bs')" by blast
      from kalloc_loop_fit [OF h2(3) sz la] obtain m where
          m: "kalloc_loop h2 sz = Some (h2\<lparr>hdr := m\<rparr>, HEAP_BASE + of_nat p + 16)" "heap_rep (h2\<lparr>hdr := m\<rparr>) bs'"
        by blast
      have "kalloc_loop h sz = kalloc_loop h2 sz"
        using scan hg h2(1) by (subst kalloc_loop.simps) simp
      moreover have "heap_ok (h2\<lparr>hdr := m\<rparr>) bs'"
      proof -
        have "unat (g_heap_size h1) = unat (g_heap_size h) + c"
          unfolding h1_def using rm by (simp, intro unat_step) (simp_all add: unat_of_nat)
        moreover have "g_heap_inited h2 = g_heap_inited h" "hp_mm h2 = mm" "g_heap_cap h2 = g_heap_cap h"
          "g_heap_size h2 = g_heap_size h1"
          by (subst h2(2), simp add: h1_def)+
        ultimately show ?thesis using m(2) ok g(2) rm by (simp add: heap_ok_def)
      qed
      moreover have "span (bs @ [(c - 16, True)]) \<le> 16777216" using h2(3) by (auto simp: heap_rep_def)
      ultimately show ?thesis using m(1) la by (metis (no_types, lifting))
    qed
  qed
qed

section \<open>Release\<close>

lemma wr_hdr_rep:
  assumes rep: "heap_rep h (pre @ ds @ post)" and ds: "ds \<noteq> []" and n: "16 + n = span ds" "n mod 16 = 0"
  shows "\<exists>m. wr_hdr h (of_nat (span pre)) \<lparr>bsize = of_nat n, bfree = f\<rparr> = Some (h\<lparr>hdr := m\<rparr>) \<and>
    heap_rep (h\<lparr>hdr := m\<rparr>) (pre @ (n, f) # post)"
proof -
  obtain d es where d: "ds = d # es" using ds by (cases ds) auto
  note b = heap_rep_bounds [OF rep [unfolded d append_Cons]]
  let ?m = "(hdr h)(of_nat (span pre) := \<lparr>bsize = of_nat n, bfree = f\<rparr>)"
  have sp: "span pre + span ds + span post = unat (g_heap_size h)" using rep by (simp add: heap_rep_def)
  have "blocks ?m 0 (pre @ [(n, f)] @ post)"
  proof (rule blocks_replace [where m = "hdr h" and ds = ds])
    show "blocks (hdr h) 0 (pre @ ds @ post)" "span (pre @ ds @ post) < 2147483648"
      using rep b(2) by (auto simp: heap_rep_def)
    show "?m (of_nat p) = hdr h (of_nat p)"
      if "p < span pre \<or> span pre + span [(n, f)] \<le> p" "p < 2147483648" for p
      using that b(1,2) by (auto simp: of_nat_inj_small)
  qed (use n in simp_all)
  then have "heap_rep (h\<lparr>hdr := ?m\<rparr>) (pre @ (n, f) # post)"
    using rep n by (auto simp: heap_rep_def)
  moreover have "wr_hdr h (of_nat (span pre)) \<lparr>bsize = of_nat n, bfree = f\<rparr> = Some (h\<lparr>hdr := ?m\<rparr>)"
    unfolding wr_hdr_def b(3) using b(1) by simp
  ultimately show ?thesis by blast
qed

lemma coalesce_forward_ok:
  "heap_rep h (pre @ (n, True) # post) \<Longrightarrow>
    \<exists>m. coalesce_forward h (of_nat (span pre)) (of_nat (span (pre @ [(n, True)]))) = Some (h\<lparr>hdr := m\<rparr>) \<and>
      heap_rep (h\<lparr>hdr := m\<rparr>) (pre @ (n + span (takeWhile snd post), True) # dropWhile snd post)"
proof (induction post arbitrary: h n)
  case Nil
  have "\<not> of_nat (span (pre @ [(n, True)])) < g_heap_size h" using heap_end [OF Nil] by simp
  then have "coalesce_forward h (of_nat (span pre)) (of_nat (span (pre @ [(n, True)]))) = Some (h\<lparr>hdr := hdr h\<rparr>)"
    by (subst coalesce_forward.simps) simp
  with Nil show ?case by (metis (no_types) append_Nil2 dropWhile.simps(1) heap.surjective heap.update_convs(2)
        list.size takeWhile.simps(1) span_simps(1) add_0_right)
next
  case (Cons c post)
  let ?o = "of_nat (span pre) :: u64" and ?x = "of_nat (span (pre @ [(n, True)])) :: u64"
  have rep2: "heap_rep h ((pre @ [(n, True)]) @ c # post)" using Cons.prems by simp
  note b = heap_rep_bounds [OF Cons.prems] and d = heap_rep_bounds [OF rep2]
  show ?case
  proof (cases "snd c")
    case False
    then have "coalesce_forward h ?o ?x = Some (h\<lparr>hdr := hdr h\<rparr>)"
      by (subst coalesce_forward.simps) (simp add: d(6,8) del: span_simps)
    with Cons.prems False show ?thesis by (intro exI [of _ "hdr h"]) simp
  next
    case True
    have n16: "n mod 16 = 0" "fst c mod 16 = 0" using Cons.prems by (auto simp: heap_rep_def)
    then have "(n + 16 + fst c) mod 16 = 0" by (metis add_0 mod_add_cong mod_add_self2 mod_0)
    from wr_hdr_rep [of h pre "[(n, True), c]" post "n + 16 + fst c" True] this Cons.prems obtain m where
        m: "wr_hdr h ?o \<lparr>bsize = of_nat (n + 16 + fst c), bfree = True\<rparr> = Some (h\<lparr>hdr := m\<rparr>)"
          "heap_rep (h\<lparr>hdr := m\<rparr>) (pre @ (n + 16 + fst c, True) # post)" by auto
    have eq: "coalesce_forward h ?o ?x = coalesce_forward (h\<lparr>hdr := m\<rparr>) ?o (of_nat (span (pre @ [(n + 16 + fst c, True)])))"
      using d(6,8) b(8) m(1) True by (subst coalesce_forward.simps) (simp add: add.assoc)
    from Cons.IH [OF m(2)] True show ?thesis unfolding eq by (auto simp: add.assoc)
  qed
qed

lemma find_prev_ok:
  "heap_rep h (pre @ ps @ bs) \<Longrightarrow> find_prev h (of_nat (span (pre @ ps))) (of_nat (span pre)) =
    Some (if ps = [] then None else Some (of_nat (span (pre @ butlast ps))))"
proof (induction ps arbitrary: pre)
  case Nil
  then show ?case by (subst find_prev.simps) simp
next
  case (Cons p ps)
  note b = heap_rep_bounds [of h pre p "ps @ bs"]
  have sp: "span pre + 16 + fst p + span ps + span bs = unat (g_heap_size h)" "unat (g_heap_size h) \<le> 16777216"
    using Cons.prems by (auto simp: heap_rep_def)
  have lt: "(of_nat (span pre) :: u64) < of_nat (span (pre @ p # ps))"
    using sp by (simp add: word_less_nat_alt unat_small del: of_nat_add of_nat_numeral)
  have rd: "rd_hdr h (of_nat (span pre)) = Some \<lparr>bsize = of_nat (fst p), bfree = snd p\<rparr>"
    and nx: "of_nat (span pre) + 16 + of_nat (fst p) = (of_nat (span (pre @ [p])) :: u64)"
    using b(8,9) Cons.prems by simp_all
  have eq: "(of_nat (span (pre @ [p])) :: u64) = of_nat (span (pre @ p # ps)) \<longleftrightarrow> ps = []"
  proof -
    have "(of_nat (span (pre @ [p])) :: u64) = of_nat (span (pre @ p # ps)) \<longleftrightarrow>
        span (pre @ [p]) = span (pre @ p # ps)" using sp by (intro of_nat_inj_small) simp_all
    also have "\<dots> \<longleftrightarrow> ps = []" by (cases ps) simp_all
    finally show ?thesis .
  qed
  have step: "find_prev h (of_nat (span (pre @ p # ps))) (of_nat (span pre)) =
      (if ps = [] then Some (Some (of_nat (span pre)))
       else find_prev h (of_nat (span (pre @ p # ps))) (of_nat (span (pre @ [p]))))"
    by (subst find_prev.simps) (simp only: lt if_True rd bind.bind_lunit block_header.select_convs nx eq)
  show ?case
  proof (cases "ps = []")
    case False
    with step Cons.IH [of "pre @ [p]"] Cons.prems show ?thesis by simp
  next
    case True
    with step [unfolded True] show ?thesis by simp
  qed
qed

text \<open>What \<^verbatim>\<open>kfree\<close> makes of the block list: merge forward, then into a free left neighbour.\<close>

definition merge_left :: "block list \<Rightarrow> nat \<Rightarrow> block list" where
  "merge_left pre n =
     (if pre \<noteq> [] \<and> snd (last pre) then butlast pre @ [(fst (last pre) + 16 + n, True)] else pre @ [(n, True)])"

definition list_free :: "block list \<Rightarrow> nat \<Rightarrow> block list \<Rightarrow> block list" where
  "list_free pre n post = merge_left pre (n + span (takeWhile snd post)) @ dropWhile snd post"

lemma live_takeWhile: "live_at o1 (takeWhile snd bs) = {}"
  by (induction bs arbitrary: o1) auto

lemma live_list_free: "live (list_free pre n post) = live (pre @ (n, True) # post)"
proof -
  have "live_at o1 post = live_at (o1 + span (takeWhile snd post)) (dropWhile snd post)" for o1
    using live_append [of o1 "takeWhile snd post" "dropWhile snd post"] live_takeWhile by simp
  then have fwd: "live (pre @ (n + span (takeWhile snd post), True) # dropWhile snd post) =
      live (pre @ (n, True) # post)" by (simp add: add.assoc add.commute add.left_commute)
  show ?thesis
  proof (cases "pre \<noteq> [] \<and> snd (last pre)")
    case True
    then obtain ps k where "pre = ps @ [(k, True)]" by (metis append_butlast_last_id prod.collapse)
    then show ?thesis using fwd by (simp add: list_free_def merge_left_def add.assoc)
  next
    case False
    then have "list_free pre n post = pre @ (n + span (takeWhile snd post), True) # dropWhile snd post"
      unfolding list_free_def merge_left_def by (simp only: if_False append_assoc append_Cons append_Nil)
    then show ?thesis using fwd by simp
  qed
qed

lemma live_free_block:
  "live (pre @ (n, True) # post) = live (pre @ (n, False) # post) - {(span pre, n)}"
  using live_bounds [of "span pre" n 0 pre] live_bounds [of "span pre" n "span pre + 16 + n" post] by auto

lemma live_split:
  "(p, n) \<in> live_at o1 bs \<Longrightarrow> \<exists>pre post. bs = pre @ (n, False) # post \<and> p = o1 + span pre"
proof (induction bs arbitrary: o1)
  case (Cons b bs)
  show ?case
  proof (cases "(p, n) \<in> live_at (o1 + 16 + fst b) bs")
    case True
    from Cons.IH [OF this] obtain pre post where "bs = pre @ (n, False) # post" "p = o1 + 16 + fst b + span pre"
      by blast
    then show ?thesis by (intro exI [of _ "b # pre"] exI [of _ post]) simp
  next
    case False
    with Cons.prems have "b = (n, False)" "p = o1" by (cases b, auto split: if_splits)+
    then show ?thesis by (intro exI [of _ "[]"] exI [of _ bs]) simp
  qed
qed simp

lemma kfree_ok:
  assumes rep: "heap_rep h (pre @ (n, False) # post)" and n: "0 < n"
  shows "\<exists>m. kfree h (HEAP_BASE + of_nat (span pre) + 16) = Some (h\<lparr>hdr := m\<rparr>) \<and>
    heap_rep (h\<lparr>hdr := m\<rparr>) (list_free pre n post)"
proof -
  note b = heap_rep_bounds [OF rep, simplified]
  let ?o = "of_nat (span pre) :: u64" and ?ptr = "HEAP_BASE + of_nat (span pre) + 16"
  have up: "unat ?ptr = 0x50000000 + span pre + 16"
    using b(1,2) by (simp add: HEAP_BASE_def unat_word_ariths unat_of_nat)
  have ub: "unat (HEAP_BASE + 16) = 0x50000000 + 16" "unat (HEAP_BASE + g_heap_size h) = 0x50000000 + unat (g_heap_size h)"
    using b(2) by (simp_all add: HEAP_BASE_def unat_word_ariths)
  have guards: "?ptr \<noteq> 0" "\<not> (?ptr < HEAP_BASE + 16 \<or> ?ptr \<ge> HEAP_BASE + g_heap_size h)"
  proof -
    show "?ptr \<noteq> 0" using up by (metis unat_0 add_is_0 zero_neq_numeral)
    show "\<not> (?ptr < HEAP_BASE + 16 \<or> ?ptr \<ge> HEAP_BASE + g_heap_size h)"
      unfolding word_less_nat_alt word_le_nat_alt up ub using b(1) n by simp
  qed
  have off: "?ptr - HEAP_BASE - 16 = ?o" by simp
  have n16: "n mod 16 = 0" using rep by (simp add: heap_rep_def)
  from wr_hdr_rep [of h pre "[(n, False)]" post n True] rep n16 obtain m1 where
      1: "wr_hdr h ?o \<lparr>bsize = of_nat n, bfree = True\<rparr> = Some (h\<lparr>hdr := m1\<rparr>)"
        "heap_rep (h\<lparr>hdr := m1\<rparr>) (pre @ (n, True) # post)" by auto
  define n' where "n' = n + span (takeWhile snd post)"
  from coalesce_forward_ok [OF 1(2)] obtain m2 where
      2: "coalesce_forward (h\<lparr>hdr := m1\<rparr>) ?o (of_nat (span (pre @ [(n, True)]))) = Some (h\<lparr>hdr := m2\<rparr>)"
        "heap_rep (h\<lparr>hdr := m2\<rparr>) (pre @ (n', True) # dropWhile snd post)" by (auto simp: n'_def)
  have prev: "find_prev (h\<lparr>hdr := m2\<rparr>) ?o 0 = Some (if pre = [] then None else Some (of_nat (span (butlast pre))))"
    using find_prev_ok [of "h\<lparr>hdr := m2\<rparr>" "[]" pre] 2(2) by simp
  note c = heap_rep_bounds [OF 2(2)]
  have nx: "?o + 16 + of_nat n = (of_nat (span (pre @ [(n, True)])) :: u64)" by simp
  have run: "kfree h ?ptr = do {
      prev \<leftarrow> find_prev (h\<lparr>hdr := m2\<rparr>) ?o 0;
      case prev of None \<Rightarrow> Some (h\<lparr>hdr := m2\<rparr>)
      | Some prev_offset \<Rightarrow> do {
          pb \<leftarrow> rd_hdr (h\<lparr>hdr := m2\<rparr>) prev_offset;
          if bfree pb then do {
            b \<leftarrow> rd_hdr (h\<lparr>hdr := m2\<rparr>) ?o;
            wr_hdr (h\<lparr>hdr := m2\<rparr>) prev_offset (pb\<lparr>bsize := bsize pb + 16 + bsize b\<rparr>)
          } else Some (h\<lparr>hdr := m2\<rparr>) } }"
    unfolding kfree_def Let_def off using guards
    by (simp only: if_False b(8) bind.bind_lunit block_header.simps 1(1) nx 2(1))
  show ?thesis
  proof (cases "pre = []")
    case True
    then show ?thesis using run prev 2(2) by (auto simp: list_free_def merge_left_def n'_def)
  next
    case False
    define ps p where "ps = butlast pre" "p = last pre"
    have pre: "pre = ps @ [p]" using False by (simp add: ps_p_def)
    have rep2: "heap_rep (h\<lparr>hdr := m2\<rparr>) (ps @ p # (n', True) # dropWhile snd post)"
      using 2(2) by (simp add: pre)
    note d = heap_rep_bounds [OF rep2]
    show ?thesis
    proof (cases "snd p")
      case True
      have "fst p mod 16 = 0" "n' mod 16 = 0" using rep2 by (auto simp: heap_rep_def)
      then have "(fst p + 16 + n') mod 16 = 0" by (metis add_0 mod_add_cong mod_add_self2 mod_0)
      from wr_hdr_rep [of "h\<lparr>hdr := m2\<rparr>" ps "[p, (n', True)]" "dropWhile snd post" "fst p + 16 + n'" True] this rep2
      obtain m3 where 3: "wr_hdr (h\<lparr>hdr := m2\<rparr>) (of_nat (span ps)) \<lparr>bsize = of_nat (fst p + 16 + n'), bfree = True\<rparr>
          = Some (h\<lparr>hdr := m3\<rparr>)" "heap_rep (h\<lparr>hdr := m3\<rparr>) (ps @ (fst p + 16 + n', True) # dropWhile snd post)"
        by auto
      have "kfree h ?ptr = Some (h\<lparr>hdr := m3\<rparr>)"
        unfolding run prev using False True d(8) c(8) 3(1) by (simp add: ps_p_def)
      with 3(2) True False show ?thesis by (auto simp: list_free_def merge_left_def n'_def ps_p_def)
    next
      case nf: False
      have "kfree h ?ptr = Some (h\<lparr>hdr := m2\<rparr>)"
        unfolding run prev using False nf d(8) by (simp add: ps_p_def)
      with 2(2) nf False show ?thesis by (auto simp: list_free_def merge_left_def n'_def ps_p_def)
    qed
  qed
qed

lemma free_bytes_loop_ok:
  "heap_rep h (pre @ bs) \<Longrightarrow> free_bytes_loop h acc (of_nat (span pre)) =
    Some (acc + of_nat (sum_list (map fst (filter snd bs))))"
proof (induction bs arbitrary: pre acc)
  case Nil
  then show ?case using heap_end [of h pre] by (subst free_bytes_loop.simps) simp
next
  case (Cons b bs)
  note d = heap_rep_bounds [OF Cons.prems]
  have "free_bytes_loop h acc (of_nat (span pre)) =
      free_bytes_loop h (if snd b then acc + of_nat (fst b) else acc) (of_nat (span (pre @ [b])))"
    by (subst free_bytes_loop.simps)
       (simp only: d(6,8) if_True bind.bind_lunit block_header.select_convs d(9))
  with Cons.IH [of "pre @ [b]"] Cons.prems show ?case by (simp add: add.assoc)
qed

lemma round16:
  assumes "unat n \<le> 16777216"
  shows "unat n \<le> unat (round16 n)" "unat (round16 n) mod 16 = 0" "unat (round16 n) \<le> unat n + 16"
proof -
  have m: "unat (n mod 16) = unat n mod 16" unfolding unat_mod by simp
  have le: "n mod 16 \<le> 16" unfolding word_le_nat_alt m by (simp add: less_imp_le)
  have sub: "unat (16 - n mod 16) = 16 - unat n mod 16" unfolding unat_sub [OF le] m by simp
  have lt: "unat n mod 16 < 16" by simp
  have "unat n \<le> unat (round16 n) \<and> unat (round16 n) mod 16 = 0 \<and> unat (round16 n) \<le> unat n + 16"
  proof (cases "n mod 16 = 0")
    case True
    then have "unat n mod 16 = 0" using m by simp
    then show ?thesis
      using True by (simp add: round16_def)
  next
    case False
    have "unat (n + (16 - n mod 16)) = unat n + (16 - unat n mod 16)"
      using assms by (intro unat_step [OF _ sub]) simp
    moreover have "unat n + (16 - unat n mod 16) = (unat n div 16 + 1) * 16"
      using div_mult_mod_eq [of "unat n" 16] lt unfolding distrib_right by linarith
    ultimately show ?thesis using False by (simp add: round16_def)
  qed
  then show "unat n \<le> unat (round16 n)" "unat (round16 n) mod 16 = 0" "unat (round16 n) \<le> unat n + 16" by auto
qed

section \<open>Properties\<close>



text \<open>
  Once the heap has reached its cap and no free block is large enough, \<^verbatim>\<open>kalloc\<close> does not
  return NULL: \<^verbatim>\<open>heap_grow\<close> reports success for an empty chunk and the next step writes a block
  header at the first byte behind the mapped heap.
\<close>

theorem kalloc_at_cap_faults:
  assumes "heap_ok h bs" "g_heap_size h = g_heap_cap h" "unat n \<le> 16777216"
    and "list_alloc (unat (round16 n)) bs = None"
  shows "heap_grow h (round16 n + 16) = Some (h, True) \<and> kalloc h n = None"
proof -
  have rep: "heap_rep h bs" "g_heap_inited h" "unat (g_heap_cap h) \<le> 16777216"
    using assms(1) by (auto simp: heap_ok_def)
  have "unat (round16 n) \<le> 16777232" using round16(3) [OF assms(3)] assms(3) by simp
  then have "unat (round16 n + 16) \<le> 16777248" by (simp add: unat_word_ariths)
  moreover have "grow_need (unat (round16 n + 16)) \<le> max 65536 (unat (round16 n + 16)) + 4096"
    by (simp add: grow_need_def Let_def)
  ultimately have "grow_need (unat (round16 n + 16)) \<le> 4611686018427387904" by linarith
  then have g: "heap_grow h (round16 n + 16) = Some (h, True)"
    by (intro heap_grow_at_cap [OF assms(2) rep(3)])
  moreover have "kalloc h n = None"
    using kalloc_scan_none [OF rep(1) assms(4)] g rep(2)
    by (simp add: kalloc_def) (subst kalloc_loop.simps, simp add: wr_hdr_def)
  ultimately show ?thesis ..
qed

text \<open>A one-page heap at its cap, with 64 bytes allocated.\<close>

definition sample_heap :: "mm \<Rightarrow> heap" where
  "sample_heap s = \<lparr>hp_mm = s\<lparr>g_pml4_phys := 0x1000\<rparr>,
     hdr = (\<lambda>off. if off = 0 then \<lparr>bsize = 64, bfree = False\<rparr> else \<lparr>bsize = 4000, bfree = True\<rparr>),
     g_heap_size = 4096, g_heap_cap = 4096, g_heap_inited = True\<rparr>"

lemma sample_heap: "\<exists>s. heap_ok (sample_heap s) [(64, False), (4000, True)]"
proof -
  from sample_mm obtain s where "pt_inv s 0x1000" by blast
  then have "pt_inv (s\<lparr>g_pml4_phys := 0x1000\<rparr>) 0x1000" by (simp add: pt_inv_def)
  then show ?thesis by (intro exI [of _ s]) (simp add: heap_ok_def heap_rep_def sample_heap_def)
qed



theorem kalloc_at_cap_faults_witness:
  "\<exists>s. heap_ok (sample_heap s) [(64, False), (4000, True)] \<and> kalloc (sample_heap s) 4096 = None"
proof -
  from sample_heap obtain s where s: "heap_ok (sample_heap s) [(64, False), (4000, True)]" by blast
  have "list_alloc (unat (round16 4096)) [(64, False), (4000, True)] = None"
    by (simp add: list_alloc_def round16_def fits_def)
  with kalloc_at_cap_faults [OF s, of 4096] s show ?thesis by (auto simp: sample_heap_def)
qed

end
