(* ===== verification/Objects.thy ===== *)
theory Objects
  imports Prelude
begin

text \<open>
  Kernel objects and per-process handle tables (\<^verbatim>\<open>src/proc/ipc/object/object.c\<close>). A handle names
  an object and carries a mask of rights; a system call reaches the resource behind an object only
  through a handle of the calling process. \<open>handle_grants\<close> is the chain of checks every handler
  opens with.
\<close>

section \<open>Objects and handles\<close>

abbreviation OBJECT_SLOTS :: nat where "OBJECT_SLOTS \<equiv> 32"
abbreviation HANDLES_PER_PROCESS :: nat where "HANDLES_PER_PROCESS \<equiv> 8"
abbreviation MAX_PROCESSES :: nat where "MAX_PROCESSES \<equiv> 8"

record kernel_object =
  obj_used :: bool
  obj_type :: int
  obj_data :: int \<comment> \<open>\<^verbatim>\<open>data_index\<close>\<close>

record handle =
  h_used :: bool
  h_object :: int \<comment> \<open>\<^verbatim>\<open>object_index\<close>\<close>
  h_rights :: int

record objects =
  g_objects :: "kernel_object list"
  g_object_count :: int
  g_handle_tables :: "handle list list"

definition OBJ_PROCESS :: int where "OBJ_PROCESS = 1"
definition OBJ_CHANNEL :: int where "OBJ_CHANNEL = 2"
definition OBJ_IO_REQUEST :: int where "OBJ_IO_REQUEST = 3"
definition OBJ_NET_PING_REQUEST :: int where "OBJ_NET_PING_REQUEST = 4"
definition OBJ_NET_TCP_REQUEST :: int where "OBJ_NET_TCP_REQUEST = 5"
definition OBJ_FILE :: int where "OBJ_FILE = 6"
definition OBJ_PIPE :: int where "OBJ_PIPE = 7"
definition OBJ_SHARED_MEMORY :: int where "OBJ_SHARED_MEMORY = 8"
definition OBJ_SOCKET :: int where "OBJ_SOCKET = 9"
definition OBJ_THREAD :: int where "OBJ_THREAD = 10"
definition OBJ_EVENT :: int where "OBJ_EVENT = 11"
definition OBJ_MUTEX :: int where "OBJ_MUTEX = 12"
definition OBJ_TIMER :: int where "OBJ_TIMER = 13"
definition OBJ_DIRECTORY :: int where "OBJ_DIRECTORY = 14"
definition OBJ_SANDBOX :: int where "OBJ_SANDBOX = 17"

lemmas obj_types = OBJ_PROCESS_def OBJ_CHANNEL_def OBJ_IO_REQUEST_def OBJ_NET_PING_REQUEST_def
  OBJ_NET_TCP_REQUEST_def OBJ_FILE_def OBJ_PIPE_def OBJ_SHARED_MEMORY_def OBJ_SOCKET_def
  OBJ_THREAD_def OBJ_EVENT_def OBJ_MUTEX_def OBJ_TIMER_def OBJ_DIRECTORY_def OBJ_SANDBOX_def

definition RIGHT_QUERY :: int where "RIGHT_QUERY = 1"
definition RIGHT_SEND :: int where "RIGHT_SEND = 2"
definition RIGHT_RECEIVE :: int where "RIGHT_RECEIVE = 4"
definition RIGHT_READ :: int where "RIGHT_READ = 8"
definition RIGHT_WRITE :: int where "RIGHT_WRITE = 16"
definition RIGHT_MAP :: int where "RIGHT_MAP = 32"

lemmas rights = RIGHT_QUERY_def RIGHT_SEND_def RIGHT_RECEIVE_def RIGHT_READ_def RIGHT_WRITE_def
  RIGHT_MAP_def

section \<open>Allocation and release\<close>

definition object_init :: "int \<times> int \<Rightarrow> kernel_object \<Rightarrow> kernel_object" where
  "object_init a ob = ob\<lparr>obj_used := True, obj_type := fst a, obj_data := snd a\<rparr>"

definition object_claim :: "int \<times> int \<Rightarrow> kernel_object list \<Rightarrow> kernel_object list \<times> int" where
  "object_claim a obs =
     (case first_index (\<lambda>ob. \<not> obj_used ob) obs of
        None \<Rightarrow> (obs, -1)
      | Some i \<Rightarrow> (obs[i := object_init a (obs ! i)], int i))"

definition alloc_object :: "int \<Rightarrow> int \<Rightarrow> objects \<Rightarrow> objects \<times> int" where
  "alloc_object type data s =
     (let (obs, r) = object_claim (type, data) (g_objects s)
      in if r < 0 then (s, -1)
         else (s\<lparr>g_objects := obs, g_object_count := g_object_count s + 1\<rparr>, r))"

definition free_object :: "int \<Rightarrow> objects \<Rightarrow> objects option" where
  "free_object i s =
     Option.bind (slot_at (g_objects s) i) (\<lambda>ob.
     Option.bind (slot_put (g_objects s) i (ob\<lparr>obj_used := False\<rparr>)) (\<lambda>obs.
     Some (s\<lparr>g_objects := obs, g_object_count := g_object_count s - 1\<rparr>)))"

definition handle_init :: "int \<times> int \<Rightarrow> handle \<Rightarrow> handle" where
  "handle_init a h = h\<lparr>h_used := True, h_object := fst a, h_rights := snd a\<rparr>"

definition handle_claim :: "int \<times> int \<Rightarrow> handle list \<Rightarrow> handle list \<times> int" where
  "handle_claim a hs =
     (case first_index (\<lambda>h. \<not> h_used h) hs of
        None \<Rightarrow> (hs, -1)
      | Some i \<Rightarrow> (hs[i := handle_init a (hs ! i)], int i))"

definition alloc_handle :: "int \<Rightarrow> int \<Rightarrow> int \<Rightarrow> objects \<Rightarrow> (objects \<times> int) option" where
  "alloc_handle p obj rts s =
     Option.bind (slot_at (g_handle_tables s) p) (\<lambda>hs.
     (let (hs', r) = handle_claim (obj, rts) hs
      in Option.bind (slot_put (g_handle_tables s) p hs') (\<lambda>tabs.
         Some (s\<lparr>g_handle_tables := tabs\<rparr>, r))))"

definition handle_at :: "objects \<Rightarrow> int \<Rightarrow> int \<Rightarrow> handle option" where
  "handle_at s p h = Option.bind (slot_at (g_handle_tables s) p) (\<lambda>hs. slot_at hs h)"

definition free_handle :: "int \<Rightarrow> int \<Rightarrow> objects \<Rightarrow> objects option" where
  "free_handle p h s =
     Option.bind (slot_at (g_handle_tables s) p) (\<lambda>hs.
     Option.bind (slot_at hs h) (\<lambda>hd.
     Option.bind (slot_put hs h (hd\<lparr>h_used := False\<rparr>)) (\<lambda>hs'.
     Option.bind (slot_put (g_handle_tables s) p hs') (\<lambda>tabs.
     Some (s\<lparr>g_handle_tables := tabs\<rparr>)))))"

interpretation objt: slot_table obj_used object_init object_claim
  by unfold_locales (simp_all add: object_claim_def object_init_def)

interpretation hndt: slot_table h_used handle_init handle_claim
  by unfold_locales (simp_all add: handle_claim_def handle_init_def)

section \<open>Invariant\<close>

text \<open>
  The tables keep their sizes, the object count is the number of live objects, and every live
  handle names a slot of the object table.
\<close>

definition live_objects :: "objects \<Rightarrow> nat" where
  "live_objects s = length (filter obj_used (g_objects s))"

definition objects_inv :: "objects \<Rightarrow> bool" where
  "objects_inv s \<longleftrightarrow>
     length (g_objects s) = OBJECT_SLOTS \<and>
     length (g_handle_tables s) = MAX_PROCESSES \<and>
     (\<forall>hs \<in> set (g_handle_tables s). length hs = HANDLES_PER_PROCESS \<and>
        (\<forall>h \<in> set hs. h_used h \<longrightarrow> 0 \<le> h_object h \<and> h_object h < int OBJECT_SLOTS)) \<and>
     g_object_count s = int (live_objects s)"

lemma alloc_object_inv:
  assumes "objects_inv s" and "alloc_object t d s = (s', r)"
  shows "objects_inv s'" and "g_handle_tables s' = g_handle_tables s"
    and "r = -1 \<and> s' = s \<or> (\<exists>i. r = int i \<and> i < OBJECT_SLOTS \<and> \<not> obj_used (g_objects s ! i) \<and>
           g_objects s' = (g_objects s)[i := object_init (t, d) (g_objects s ! i)])"
proof -
  obtain obs r0 where c: "object_claim (t, d) (g_objects s) = (obs, r0)" by fastforce
  have "objects_inv s' \<and> g_handle_tables s' = g_handle_tables s \<and>
    (r = -1 \<and> s' = s \<or> (\<exists>i. r = int i \<and> i < OBJECT_SLOTS \<and> \<not> obj_used (g_objects s ! i) \<and>
       g_objects s' = (g_objects s)[i := object_init (t, d) (g_objects s ! i)]))"
  proof (cases "r0 < 0")
    case True
    with assms c show ?thesis by (simp add: alloc_object_def)
  next
    case False
    then obtain i where i: "r0 = int i" by (metis nonneg_int_cases not_le)
    note f = objt.alloc_fresh [OF c [unfolded i]]
    have "length (filter obj_used obs) = Suc (live_objects s)"
      using objt.alloc_count [OF c] i by (simp add: live_objects_def)
    with assms c False i f show ?thesis
      by (auto simp: alloc_object_def objects_inv_def live_objects_def)
  qed
  then show "objects_inv s'" "g_handle_tables s' = g_handle_tables s"
    "r = -1 \<and> s' = s \<or> (\<exists>i. r = int i \<and> i < OBJECT_SLOTS \<and> \<not> obj_used (g_objects s ! i) \<and>
       g_objects s' = (g_objects s)[i := object_init (t, d) (g_objects s ! i)])" by blast+
qed

lemma alloc_handle_SomeE:
  assumes "alloc_handle p ob rts s = Some (s', r)"
  obtains k hs' where "p = int k" "k < length (g_handle_tables s)"
    "handle_claim (ob, rts) (g_handle_tables s ! k) = (hs', r)"
    "s' = s\<lparr>g_handle_tables := (g_handle_tables s)[k := hs']\<rparr>"
proof -
  from assms obtain hs where at: "slot_at (g_handle_tables s) p = Some hs"
    by (auto simp: alloc_handle_def bind_eq_Some_conv)
  obtain hs' r' where c: "handle_claim (ob, rts) hs = (hs', r')" by fastforce
  from slot_at_SomeD [OF at] obtain k where k: "p = int k" "k < length (g_handle_tables s)"
    and hs: "hs = g_handle_tables s ! k" by blast
  from assms k c show ?thesis
    by (intro that [of k hs']) (auto simp: alloc_handle_def hs)
qed

lemma alloc_handle_inv:
  assumes "objects_inv s" and run: "alloc_handle p ob rts s = Some (s', r)"
    and "0 \<le> ob" "ob < int OBJECT_SLOTS"
  shows "objects_inv s'"
proof -
  from run obtain k hs' where k: "k < length (g_handle_tables s)"
    and c: "handle_claim (ob, rts) (g_handle_tables s ! k) = (hs', r)"
    and s': "s' = s\<lparr>g_handle_tables := (g_handle_tables s)[k := hs']\<rparr>"
    by (rule alloc_handle_SomeE)
  let ?hs = "g_handle_tables s ! k"
  have hs: "length ?hs = HANDLES_PER_PROCESS"
    "\<And>h. h \<in> set ?hs \<Longrightarrow> h_used h \<Longrightarrow> 0 \<le> h_object h \<and> h_object h < int OBJECT_SLOTS"
    using assms(1) nth_mem [OF k] by (auto simp: objects_inv_def)
  have len: "length hs' = HANDLES_PER_PROCESS"
    using hndt.alloc_length [of "(ob, rts)" ?hs] c hs by simp
  have "\<forall>h \<in> set hs'. h_used h \<longrightarrow> 0 \<le> h_object h \<and> h_object h < int OBJECT_SLOTS"
  proof (cases "first_index (\<lambda>h. \<not> h_used h) ?hs")
    case None
    with c hs show ?thesis by (simp add: handle_claim_def)
  next
    case (Some i)
    then have hs': "hs' = ?hs[i := handle_init (ob, rts) (?hs ! i)]"
      using c by (simp add: handle_claim_def)
    show ?thesis
    proof
      fix h assume "h \<in> set hs'"
      then have "h = handle_init (ob, rts) (?hs ! i) \<or> h \<in> set ?hs"
        using set_update_subset_insert [of ?hs i] by (auto simp: hs')
      then show "h_used h \<longrightarrow> 0 \<le> h_object h \<and> h_object h < int OBJECT_SLOTS"
        using hs(2) assms(3,4) by (auto simp: handle_init_def)
    qed
  qed
  with len assms(1) k show ?thesis
    by (auto simp: objects_inv_def s' live_objects_def
        dest!: set_update_subset_insert [THEN subsetD])
qed

lemma free_object_inv:
  assumes "objects_inv s" and "free_object i s = Some s'"
    and "\<exists>k. i = int k \<and> k < OBJECT_SLOTS \<and> obj_used (g_objects s ! k)"
  shows "objects_inv s'"
proof -
  from assms obtain k where k: "i = int k" "k < length (g_objects s)" "obj_used (g_objects s ! k)"
    and s': "s' = s\<lparr>g_objects := (g_objects s)[k := (g_objects s ! k)\<lparr>obj_used := False\<rparr>],
                   g_object_count := g_object_count s - 1\<rparr>"
    by (auto simp: free_object_def objects_inv_def)
  have "Suc (live_objects s') = live_objects s"
    using length_filter_update_drop [of k "g_objects s" obj_used] k by (simp add: s' live_objects_def)
  with assms(1) show ?thesis by (auto simp: objects_inv_def s')
qed

lemma free_handle_inv:
  assumes inv: "objects_inv s" and run: "free_handle p h s = Some s'"
  shows "objects_inv s'"
proof -
  from run obtain k j where k: "k < length (g_handle_tables s)" and j: "j < length (g_handle_tables s ! k)"
    and s': "s' = s\<lparr>g_handle_tables := (g_handle_tables s)
      [k := (g_handle_tables s ! k)[j := (g_handle_tables s ! k ! j)\<lparr>h_used := False\<rparr>]]\<rparr>"
    by (auto simp: free_handle_def bind_eq_Some_conv dest!: slot_at_SomeD slot_put_SomeD)
  let ?hs = "g_handle_tables s ! k"
  let ?hs' = "?hs[j := (?hs ! j)\<lparr>h_used := False\<rparr>]"
  have hs: "length ?hs = HANDLES_PER_PROCESS"
    "\<forall>h \<in> set ?hs. h_used h \<longrightarrow> 0 \<le> h_object h \<and> h_object h < int OBJECT_SLOTS"
    using inv nth_mem [OF k] by (auto simp: objects_inv_def)
  have "\<forall>h \<in> set ?hs'. h_used h \<longrightarrow> 0 \<le> h_object h \<and> h_object h < int OBJECT_SLOTS"
    using hs(2) by (auto dest!: set_update_subset_insert [THEN subsetD])
  with hs(1) inv show ?thesis
    by (auto simp: objects_inv_def s' live_objects_def
        dest!: set_update_subset_insert [THEN subsetD])
qed

section \<open>The access check of the system-call handlers\<close>

text \<open>
  Caller is a process, the handle index is in range, the handle is live, it carries the right
  (mask \<open>0\<close>: no right is asked for) and its object has the expected type; the result is the
  object's \<^verbatim>\<open>data_index\<close>. The outer \<open>None\<close> is a table access out of range, the inner one the
  \<^verbatim>\<open>(u64) -1\<close> exit.
\<close>

definition handle_grants :: "objects \<Rightarrow> int \<Rightarrow> int \<Rightarrow> int \<Rightarrow> int \<Rightarrow> int option option" where
  "handle_grants s p h need type =
     (if p < 0 then Some None
      else if h < 0 \<or> h \<ge> int HANDLES_PER_PROCESS then Some None
      else Option.bind (handle_at s p h) (\<lambda>hd.
        if \<not> h_used hd then Some None
        else if need \<noteq> 0 \<and> h_rights hd AND need = 0 then Some None
        else Option.bind (slot_at (g_objects s) (h_object hd)) (\<lambda>ob.
          if obj_type ob \<noteq> type then Some None else Some (Some (obj_data ob)))))"

lemma handle_grants_total:
  assumes "objects_inv s" and "p < int MAX_PROCESSES"
  shows "\<exists>r. handle_grants s p h need t = Some r"
proof (cases "p < 0 \<or> h < 0 \<or> h \<ge> int HANDLES_PER_PROCESS")
  case True
  then show ?thesis by (auto simp: handle_grants_def)
next
  case False
  then obtain k j where k: "p = int k" "k < MAX_PROCESSES" and j: "h = int j" "j < HANDLES_PER_PROCESS"
    using assms(2) by (metis nat_int nat_0_le not_le of_nat_less_iff)
  have hs: "length (g_handle_tables s ! k) = HANDLES_PER_PROCESS"
    "\<forall>h \<in> set (g_handle_tables s ! k). h_used h \<longrightarrow> 0 \<le> h_object h \<and> h_object h < int OBJECT_SLOTS"
    using assms(1) k nth_mem [of k "g_handle_tables s"] by (auto simp: objects_inv_def)
  have "h_used (g_handle_tables s ! k ! j) \<longrightarrow>
      0 \<le> h_object (g_handle_tables s ! k ! j) \<and> h_object (g_handle_tables s ! k ! j) < int OBJECT_SLOTS"
    using hs j nth_mem [of j "g_handle_tables s ! k"] by auto
  with assms(1) k j hs(1) show ?thesis
    by (auto simp: handle_grants_def handle_at_def slot_at_def objects_inv_def)
qed

lemma handle_grants_SomeD:
  assumes "handle_grants s p h need t = Some (Some d)"
  shows "\<exists>hd ob. 0 \<le> p \<and> handle_at s p h = Some hd \<and> h_used hd \<and>
    (need \<noteq> 0 \<longrightarrow> h_rights hd AND need \<noteq> 0) \<and>
    slot_at (g_objects s) (h_object hd) = Some ob \<and> obj_type ob = t \<and> d = obj_data ob"
  using assms by (auto simp: handle_grants_def bind_eq_Some_conv split: if_splits)

end
