(* ===== verification/Ipc.thy ===== *)
theory Ipc
  imports Prelude "HOL-Library.Monad_Syntax"
begin

text \<open>
  The data structures behind the inter-process communication objects: channels
  (\<^verbatim>\<open>src/proc/ipc/channel/channel.c\<close>), pipes (\<^verbatim>\<open>pipe/pipe.c\<close>), events (\<^verbatim>\<open>event/event.c\<close>), mutexes
  (\<^verbatim>\<open>mutex/mutex.c\<close>) and timers (\<^verbatim>\<open>timer/timer.c\<close>). The blocking halves of these objects are part
  of the scheduler. A pipe is shown to implement a bounded FIFO queue of bytes, a channel a
  one-message mailbox.
\<close>

section \<open>Channels\<close>

abbreviation CHANNEL_MSG_MAX :: nat where "CHANNEL_MSG_MAX \<equiv> 128"

record channel =
  ch_used :: bool
  ch_full :: bool
  ch_len :: u32 \<comment> \<open>\<^verbatim>\<open>msg_len\<close>\<close>
  ch_data :: "u8 list" \<comment> \<open>\<^verbatim>\<open>msg_data\<close>\<close>

record channels =
  g_channels :: "channel list"
  g_channel_count :: int

definition create_channel :: "channels \<Rightarrow> (channels \<times> int) option" where
  "create_channel s =
     (if g_channel_count s \<ge> 4 then Some (s, -1)
      else do {
        let idx = g_channel_count s;
        c \<leftarrow> slot_at (g_channels s) idx;
        cs \<leftarrow> slot_put (g_channels s) idx (c\<lparr>ch_used := True, ch_full := False\<rparr>);
        Some (s\<lparr>g_channels := cs, g_channel_count := g_channel_count s + 1\<rparr>, idx)
      })"

definition channel_has_message :: "int \<Rightarrow> channels \<Rightarrow> bool option" where
  "channel_has_message i s = map_option ch_full (slot_at (g_channels s) i)"

definition channel_send_msg :: "int \<Rightarrow> u8 list \<Rightarrow> u32 \<Rightarrow> channels \<Rightarrow> (channels \<times> bool) option" where
  "channel_send_msg i data len s =
     (if unat len > CHANNEL_MSG_MAX then Some (s, False)
      else do {
        c \<leftarrow> slot_at (g_channels s) i;
        if ch_full c then Some (s, False)
        else if length data < unat len \<or> length (ch_data c) < unat len then None
        else do {
          let c' = c\<lparr>ch_data := put_bytes 0 (take (unat len) data) (ch_data c), ch_len := len,
                     ch_full := True\<rparr>;
          cs \<leftarrow> slot_put (g_channels s) i c';
          Some (s\<lparr>g_channels := cs\<rparr>, True)
        }
      })"

text \<open>A \<^verbatim>\<open>u64\<close> in memory: eight bytes, least significant first.\<close>

primrec le_bytes :: "nat \<Rightarrow> u64 \<Rightarrow> u8 list" where
  "le_bytes 0 v = []"
| "le_bytes (Suc n) v = ucast v # le_bytes n (drop_bit 8 v)"

definition le64_encode :: "u64 \<Rightarrow> u8 list" where
  "le64_encode v = le_bytes 8 v"

fun le64_decode :: "u8 list \<Rightarrow> u64" where
  "le64_decode [] = 0"
| "le64_decode (b # bs) = ucast b OR push_bit 8 (le64_decode bs)"

definition channel_send :: "int \<Rightarrow> u64 \<Rightarrow> channels \<Rightarrow> (channels \<times> bool) option" where
  "channel_send i v s = channel_send_msg i (le64_encode v) 8 s"

definition channel_take_msg ::
  "int \<Rightarrow> u8 list \<Rightarrow> u32 \<Rightarrow> channels \<Rightarrow> (channels \<times> u8 list \<times> u32) option" where
  "channel_take_msg i buf max_len s = do {
     c \<leftarrow> slot_at (g_channels s) i;
     let real_len = ch_len c;
     let copy_len = (if real_len < max_len then real_len else max_len);
     if length buf < unat copy_len \<or> length (ch_data c) < unat copy_len then None
     else do {
       let buf' = put_bytes 0 (take (unat copy_len) (ch_data c)) buf;
       cs \<leftarrow> slot_put (g_channels s) i (c\<lparr>ch_full := False\<rparr>);
       Some (s\<lparr>g_channels := cs\<rparr>, buf', real_len)
     }
   }"

definition channels_inv :: "channels \<Rightarrow> bool" where
  "channels_inv s \<longleftrightarrow> length (g_channels s) = 4 \<and> 0 \<le> g_channel_count s \<and> g_channel_count s \<le> 4 \<and>
     (\<forall>c \<in> set (g_channels s). length (ch_data c) = CHANNEL_MSG_MAX \<and> unat (ch_len c) \<le> CHANNEL_MSG_MAX)"

lemma channels_inv_put:
  assumes "channels_inv s" and "slot_put (g_channels s) i c = Some cs"
    and "length (ch_data c) = CHANNEL_MSG_MAX" "unat (ch_len c) \<le> CHANNEL_MSG_MAX"
  shows "channels_inv (s\<lparr>g_channels := cs\<rparr>)"
  using assms by (auto simp: channels_inv_def dest!: slot_put_SomeD set_update_subset_insert [THEN subsetD])

lemma channels_invD:
  assumes "channels_inv s" and "slot_at (g_channels s) i = Some c"
  shows "length (ch_data c) = CHANNEL_MSG_MAX" "unat (ch_len c) \<le> CHANNEL_MSG_MAX"
  using assms by (auto simp: channels_inv_def dest!: slot_at_SomeD)

lemma channel_send_msg_inv:
  assumes "channels_inv s" and "channel_send_msg i data len s = Some (s', ok)"
  shows "channels_inv s'"
  using assms channels_invD [OF assms(1)]
  by (auto simp: channel_send_msg_def Let_def bind_eq_Some_conv split: if_splits
      intro!: channels_inv_put)

lemma channel_take_msg_inv:
  assumes "channels_inv s" and "channel_take_msg i buf n s = Some (s', buf', r)"
  shows "channels_inv s'"
  using assms channels_invD [OF assms(1)]
  by (auto simp: channel_take_msg_def Let_def bind_eq_Some_conv split: if_splits
      intro!: channels_inv_put)

lemma create_channel_inv:
  assumes "channels_inv s"
  shows "\<exists>s' r. create_channel s = Some (s', r) \<and> channels_inv s'"
proof (cases "g_channel_count s \<ge> 4")
  case True
  with assms show ?thesis by (auto simp: create_channel_def)
next
  case False
  with assms obtain k where k: "g_channel_count s = int k" "k < 4"
    by (metis channels_inv_def nonneg_int_cases not_le of_nat_less_iff of_nat_numeral)
  with assms show ?thesis
    by (auto simp: create_channel_def Let_def channels_inv_def dest!: set_update_subset_insert [THEN subsetD])
qed

lemma length_le_bytes [simp]: "length (le_bytes n v) = n"
  by (induction n arbitrary: v) simp_all

lemma length_le64_encode [simp]: "length (le64_encode v) = 8"
  by (simp add: le64_encode_def)

lemma le64_decode_le_bytes: "le64_decode (le_bytes n v) = take_bit (8 * n) v"
proof (induction n arbitrary: v)
  case (Suc n)
  have "ucast (ucast v :: u8) OR push_bit 8 (take_bit (8 * n) (drop_bit 8 v)) = take_bit (8 * Suc n) v"
    by (rule bit_word_eqI) (auto simp: bit_simps)
  then show ?case by (simp add: Suc.IH)
qed simp

lemma le64_decode_encode [simp]: "le64_decode (le64_encode v) = v"
  by (rule bit_word_eqI) (simp add: le64_encode_def le64_decode_le_bytes bit_simps)

section \<open>Pipes\<close>

abbreviation PIPE_SLOTS :: nat where "PIPE_SLOTS \<equiv> 4"
abbreviation PIPE_BUF_SIZE :: nat where "PIPE_BUF_SIZE \<equiv> 256"

record pipe_buffer =
  pi_used :: bool
  pi_buf :: "u8 list"
  pi_read :: u32 \<comment> \<open>\<^verbatim>\<open>read_pos\<close>\<close>
  pi_write :: u32 \<comment> \<open>\<^verbatim>\<open>write_pos\<close>\<close>
  pi_count :: u32

definition pipe_init :: "unit \<Rightarrow> pipe_buffer \<Rightarrow> pipe_buffer" where
  "pipe_init a p = p\<lparr>pi_used := True, pi_read := 0, pi_write := 0, pi_count := 0\<rparr>"

definition alloc_pipe :: "unit \<Rightarrow> pipe_buffer list \<Rightarrow> pipe_buffer list \<times> int" where
  "alloc_pipe a ps =
     (case first_index (\<lambda>p. \<not> pi_used p) ps of
        None \<Rightarrow> (ps, -1)
      | Some i \<Rightarrow> (ps[i := pipe_init a (ps ! i)], int i))"

fun pipe_put :: "u8 list \<Rightarrow> pipe_buffer \<Rightarrow> pipe_buffer option" where
  "pipe_put [] p = Some p"
| "pipe_put (b # bs) p =
     (if unat (pi_write p) < length (pi_buf p)
      then pipe_put bs (p\<lparr>pi_buf := (pi_buf p)[unat (pi_write p) := b],
                          pi_write := (pi_write p + 1) mod 256\<rparr>)
      else None)"

fun pipe_get :: "nat \<Rightarrow> pipe_buffer \<Rightarrow> (pipe_buffer \<times> u8 list) option" where
  "pipe_get 0 p = Some (p, [])"
| "pipe_get (Suc n) p =
     (if unat (pi_read p) < length (pi_buf p)
      then map_option (\<lambda>(p', bs). (p', pi_buf p ! unat (pi_read p) # bs))
             (pipe_get n (p\<lparr>pi_read := (pi_read p + 1) mod 256\<rparr>))
      else None)"

definition pipe_write :: "int \<Rightarrow> u8 list \<Rightarrow> u32 \<Rightarrow> pipe_buffer list \<Rightarrow> (pipe_buffer list \<times> u32) option" where
  "pipe_write i data len ps = do {
     p \<leftarrow> slot_at ps i;
     let space = 256 - pi_count p;
     let n = (if len < space then len else space);
     if length data < unat n then None
     else do {
       p' \<leftarrow> pipe_put (take (unat n) data) p;
       ps' \<leftarrow> slot_put ps i (p'\<lparr>pi_count := pi_count p' + n\<rparr>);
       Some (ps', n)
     }
   }"

text \<open>The output bytes are returned; the caller's buffer holds at least that many.\<close>

definition pipe_read :: "int \<Rightarrow> u32 \<Rightarrow> pipe_buffer list \<Rightarrow> (pipe_buffer list \<times> u8 list \<times> u32) option" where
  "pipe_read i max_len ps = do {
     p \<leftarrow> slot_at ps i;
     let n = (if max_len < pi_count p then max_len else pi_count p);
     (p', out) \<leftarrow> pipe_get (unat n) p;
     ps' \<leftarrow> slot_put ps i (p'\<lparr>pi_count := pi_count p' - n\<rparr>);
     Some (ps', out, n)
   }"

interpretation pipet: slot_table pi_used pipe_init alloc_pipe
  by unfold_locales (simp_all add: alloc_pipe_def pipe_init_def split: option.split)

definition pipe_inv :: "pipe_buffer \<Rightarrow> bool" where
  "pipe_inv p \<longleftrightarrow> length (pi_buf p) = PIPE_BUF_SIZE \<and> unat (pi_read p) < PIPE_BUF_SIZE \<and>
     unat (pi_write p) < PIPE_BUF_SIZE \<and> unat (pi_count p) \<le> PIPE_BUF_SIZE \<and>
     unat (pi_write p) = (unat (pi_read p) + unat (pi_count p)) mod PIPE_BUF_SIZE"

definition ring :: "u8 list \<Rightarrow> nat \<Rightarrow> nat \<Rightarrow> u8 list" where
  "ring buf r n = map (\<lambda>k. buf ! ((r + k) mod PIPE_BUF_SIZE)) [0..<n]"

text \<open>The bytes buffered in a pipe, oldest first.\<close>

definition pipe_contents :: "pipe_buffer \<Rightarrow> u8 list" where
  "pipe_contents p = ring (pi_buf p) (unat (pi_read p)) (unat (pi_count p))"

lemma length_ring [simp]: "length (ring buf r n) = n"
  by (simp add: ring_def)

lemma length_pipe_contents [simp]: "length (pipe_contents p) = unat (pi_count p)"
  by (simp add: pipe_contents_def)

lemma unat_next_pos:
  assumes "unat (x :: u32) < 256"
  shows "unat ((x + 1) mod 256) = (unat x + 1) mod 256"
proof -
  have "unat (x + 1) = unat x + 1" using assms by (simp add: unat_word_ariths)
  then show ?thesis by (simp add: unat_mod)
qed

lemma pipe_put_spec:
  assumes "length (pi_buf p) = PIPE_BUF_SIZE" "unat (pi_write p) < PIPE_BUF_SIZE"
    and "unat (pi_write p) = (r + n) mod PIPE_BUF_SIZE" and "n + length bs \<le> PIPE_BUF_SIZE"
  shows "\<exists>p'. pipe_put bs p = Some p' \<and> length (pi_buf p') = PIPE_BUF_SIZE \<and>
    unat (pi_write p') < PIPE_BUF_SIZE \<and>
    unat (pi_write p') = (r + n + length bs) mod PIPE_BUF_SIZE \<and>
    pi_read p' = pi_read p \<and> pi_count p' = pi_count p \<and> pi_used p' = pi_used p \<and>
    ring (pi_buf p') r (n + length bs) = ring (pi_buf p) r n @ bs"
  using assms
proof (induction bs arbitrary: p n)
  case Nil
  then show ?case by simp
next
  case (Cons b bs)
  let ?w = "unat (pi_write p)"
  let ?p = "p\<lparr>pi_buf := (pi_buf p)[?w := b], pi_write := (pi_write p + 1) mod 256\<rparr>"
  have w: "unat ((pi_write p + 1) mod 256) = (r + Suc n) mod PIPE_BUF_SIZE"
    using Cons.prems(2,3) by (simp add: unat_next_pos mod_Suc_eq)
  have other: "(r + k) mod PIPE_BUF_SIZE \<noteq> ?w" if "k < n" for k
  proof
    assume "(r + k) mod PIPE_BUF_SIZE = ?w"
    then have "(r + n) mod PIPE_BUF_SIZE = (r + k) mod PIPE_BUF_SIZE" using Cons.prems(3) by simp
    then have "PIPE_BUF_SIZE dvd (r + n) - (r + k)" using that by (simp add: mod_eq_dvd_iff_nat)
    then show False using that Cons.prems(4) by (auto dest: dvd_imp_le)
  qed
  have same: "\<forall>k < n. (pi_buf p)[?w := b] ! ((r + k) mod PIPE_BUF_SIZE) = pi_buf p ! ((r + k) mod PIPE_BUF_SIZE)"
  proof (intro allI impI)
    fix k
    assume "k < n"
    then have "?w \<noteq> (r + k) mod PIPE_BUF_SIZE" by (rule other [THEN not_sym])
    then show "(pi_buf p)[?w := b] ! ((r + k) mod PIPE_BUF_SIZE) = pi_buf p ! ((r + k) mod PIPE_BUF_SIZE)"
      by (rule nth_list_update_neq)
  qed
  have here: "(pi_buf p)[?w := b] ! ((r + n) mod PIPE_BUF_SIZE) = b"
    using Cons.prems(1-3) by (metis nth_list_update_eq)
  have ring1: "ring (pi_buf ?p) r (Suc n) = ring (pi_buf p) r n @ [b]"
    using same here by (simp add: ring_def)
  have "\<exists>p'. pipe_put bs ?p = Some p' \<and> length (pi_buf p') = PIPE_BUF_SIZE \<and>
      unat (pi_write p') < PIPE_BUF_SIZE \<and>
      unat (pi_write p') = (r + Suc n + length bs) mod PIPE_BUF_SIZE \<and>
      pi_read p' = pi_read ?p \<and> pi_count p' = pi_count ?p \<and> pi_used p' = pi_used ?p \<and>
      ring (pi_buf p') r (Suc n + length bs) = ring (pi_buf ?p) r (Suc n) @ bs"
    using Cons.prems w by (intro Cons.IH) simp_all
  with Cons.prems(1,2) ring1 show ?case by auto
qed

lemma ring_Suc: "ring buf r (Suc n) = buf ! (r mod PIPE_BUF_SIZE) # ring buf (Suc r mod PIPE_BUF_SIZE) n"
proof -
  have "(Suc r mod PIPE_BUF_SIZE + k) mod PIPE_BUF_SIZE = (r + Suc k) mod PIPE_BUF_SIZE" for k
    by (simp add: mod_simps)
  then show ?thesis by (simp add: ring_def upt_conv_Cons map_Suc_upt [symmetric] del: upt_Suc)
qed

lemma pipe_get_spec:
  assumes "length (pi_buf p) = PIPE_BUF_SIZE" "unat (pi_read p) < PIPE_BUF_SIZE"
  shows "\<exists>q. pipe_get n p = Some (p\<lparr>pi_read := q\<rparr>, ring (pi_buf p) (unat (pi_read p)) n) \<and>
    unat q = (unat (pi_read p) + n) mod PIPE_BUF_SIZE"
  using assms
proof (induction n arbitrary: p)
  case 0
  then show ?case by (intro exI [of _ "pi_read p"]) (simp add: ring_def)
next
  case (Suc n)
  let ?p = "p\<lparr>pi_read := (pi_read p + 1) mod 256\<rparr>"
  have r: "unat ((pi_read p + 1) mod 256) = Suc (unat (pi_read p)) mod PIPE_BUF_SIZE"
    using Suc.prems by (simp add: unat_next_pos)
  have "\<exists>q. pipe_get n ?p = Some (?p\<lparr>pi_read := q\<rparr>, ring (pi_buf ?p) (unat (pi_read ?p)) n) \<and>
      unat q = (unat (pi_read ?p) + n) mod PIPE_BUF_SIZE"
    using Suc.prems r by (intro Suc.IH) simp_all
  then obtain q where g: "pipe_get n ?p = Some (p\<lparr>pi_read := q\<rparr>, ring (pi_buf p) (unat (pi_read ?p)) n)"
    and q: "unat q = (unat (pi_read ?p) + n) mod PIPE_BUF_SIZE" by auto
  have "ring (pi_buf p) (unat (pi_read p)) (Suc n) =
      pi_buf p ! unat (pi_read p) # ring (pi_buf p) (unat (pi_read ?p)) n"
    using r Suc.prems by (simp add: ring_Suc)
  then have "pipe_get (Suc n) p = Some (p\<lparr>pi_read := q\<rparr>, ring (pi_buf p) (unat (pi_read p)) (Suc n))"
    using Suc.prems g by simp
  moreover have "unat q = (unat (pi_read p) + Suc n) mod PIPE_BUF_SIZE"
    using q r by (simp add: mod_simps)
  ultimately show ?case by blast
qed

lemma drop_ring: "m \<le> n \<Longrightarrow> drop m (ring buf r n) = ring buf ((r + m) mod PIPE_BUF_SIZE) (n - m)"
  by (rule nth_equalityI) (simp_all add: ring_def nth_upt less_diff_conv mod_simps ac_simps)

lemma take_ring: "m \<le> n \<Longrightarrow> take m (ring buf r n) = ring buf r m"
  by (rule nth_equalityI) (simp_all add: ring_def)

lemma pipe_write_spec:
  assumes inv: "pipe_inv (ps ! i)" and i: "i < length ps" and len: "unat len \<le> length data"
  shows "\<exists>p' n. pipe_write (int i) data len ps = Some (ps[i := p'], n) \<and> pipe_inv p' \<and>
    pi_used p' = pi_used (ps ! i) \<and>
    unat n = min (unat len) (PIPE_BUF_SIZE - length (pipe_contents (ps ! i))) \<and>
    pipe_contents p' = pipe_contents (ps ! i) @ take (unat n) data"
proof -
  let ?p = "ps ! i"
  let ?n = "if len < 256 - pi_count ?p then len else 256 - pi_count ?p"
  have cnt: "unat (pi_count ?p) \<le> 256" using inv by (simp add: pipe_inv_def)
  then have sp: "unat (256 - pi_count ?p) = 256 - unat (pi_count ?p)"
    by (subst unat_sub) (simp_all add: word_le_nat_alt)
  have n: "unat ?n = min (unat len) (256 - unat (pi_count ?p))"
    by (auto simp: word_less_nat_alt sp min_def)
  have "\<exists>p'. pipe_put (take (unat ?n) data) ?p = Some p' \<and> length (pi_buf p') = PIPE_BUF_SIZE \<and>
    unat (pi_write p') < PIPE_BUF_SIZE \<and>
    unat (pi_write p') = (unat (pi_read ?p) + unat (pi_count ?p) + length (take (unat ?n) data)) mod PIPE_BUF_SIZE \<and>
    pi_read p' = pi_read ?p \<and> pi_count p' = pi_count ?p \<and> pi_used p' = pi_used ?p \<and>
    ring (pi_buf p') (unat (pi_read ?p)) (unat (pi_count ?p) + length (take (unat ?n) data)) =
      ring (pi_buf ?p) (unat (pi_read ?p)) (unat (pi_count ?p)) @ take (unat ?n) data"
    by (rule pipe_put_spec) (use inv n in \<open>auto simp: pipe_inv_def\<close>)
  moreover have tl: "length (take (unat ?n) data) = unat ?n" using n len by simp
  ultimately obtain p' where put: "pipe_put (take (unat ?n) data) ?p = Some p'"
    "length (pi_buf p') = PIPE_BUF_SIZE" "unat (pi_write p') < PIPE_BUF_SIZE"
    "unat (pi_write p') = (unat (pi_read ?p) + unat (pi_count ?p) + unat ?n) mod PIPE_BUF_SIZE"
    "pi_read p' = pi_read ?p" "pi_count p' = pi_count ?p" "pi_used p' = pi_used ?p"
    "ring (pi_buf p') (unat (pi_read ?p)) (unat (pi_count ?p) + unat ?n) =
      ring (pi_buf ?p) (unat (pi_read ?p)) (unat (pi_count ?p)) @ take (unat ?n) data"
    by metis
  have c': "unat (pi_count ?p + ?n) = unat (pi_count ?p) + unat ?n"
    using n cnt by (intro unat_add_lem [THEN iffD1]) simp
  have room: "unat (pi_count ?p) + unat ?n \<le> PIPE_BUF_SIZE" unfolding n using cnt by simp
  let ?p' = "p'\<lparr>pi_count := pi_count p' + ?n\<rparr>"
  have "pipe_write (int i) data len ps = Some (ps[i := ?p'], ?n)"
    using i put(1) tl len n by (simp add: pipe_write_def Let_def)
  moreover have "pipe_inv ?p'"
    unfolding pipe_inv_def using put(2-6) inv [unfolded pipe_inv_def] c' room
    by (simp del: split_min add: ac_simps)
  moreover have "pipe_contents ?p' = pipe_contents ?p @ take (unat ?n) data"
    using put c' by (simp add: pipe_contents_def)
  ultimately show ?thesis using n put(7)
    by (intro exI [of _ ?p'] exI [of _ ?n]) simp
qed

lemma pipe_read_spec:
  assumes inv: "pipe_inv (ps ! i)" and i: "i < length ps"
  shows "\<exists>p' n. pipe_read (int i) m ps = Some (ps[i := p'], take (unat n) (pipe_contents (ps ! i)), n) \<and>
    pipe_inv p' \<and> pi_used p' = pi_used (ps ! i) \<and>
    unat n = min (unat m) (length (pipe_contents (ps ! i))) \<and>
    pipe_contents p' = drop (unat n) (pipe_contents (ps ! i))"
proof -
  let ?p = "ps ! i"
  let ?n = "if m < pi_count ?p then m else pi_count ?p"
  have n: "unat ?n = min (unat m) (unat (pi_count ?p))"
    by (auto simp: word_less_nat_alt)
  obtain q where g: "pipe_get (unat ?n) ?p =
      Some (?p\<lparr>pi_read := q\<rparr>, ring (pi_buf ?p) (unat (pi_read ?p)) (unat ?n))"
    and q: "unat q = (unat (pi_read ?p) + unat ?n) mod PIPE_BUF_SIZE"
    using pipe_get_spec [of ?p "unat ?n"] inv by (auto simp: pipe_inv_def)
  have c': "unat (pi_count ?p - ?n) = unat (pi_count ?p) - unat ?n"
    using n by (intro unat_sub) (simp add: word_le_nat_alt)
  let ?p' = "?p\<lparr>pi_read := q, pi_count := pi_count ?p - ?n\<rparr>"
  have out: "ring (pi_buf ?p) (unat (pi_read ?p)) (unat ?n) = take (unat ?n) (pipe_contents ?p)"
    using n by (simp add: pipe_contents_def take_ring)
  have "pipe_read (int i) m ps = Some (ps[i := ?p'], take (unat ?n) (pipe_contents ?p), ?n)"
    unfolding out [symmetric] using i g by (simp add: pipe_read_def Let_def)
  moreover have "pipe_inv ?p'"
  proof -
    have nle: "unat ?n \<le> unat (pi_count ?p)" unfolding n by simp
    have "((unat (pi_read ?p) + unat ?n) mod PIPE_BUF_SIZE + (unat (pi_count ?p) - unat ?n)) mod PIPE_BUF_SIZE
        = (unat (pi_read ?p) + unat ?n + (unat (pi_count ?p) - unat ?n)) mod PIPE_BUF_SIZE"
      by (rule mod_add_left_eq)
    also have "unat (pi_read ?p) + unat ?n + (unat (pi_count ?p) - unat ?n) = unat (pi_read ?p) + unat (pi_count ?p)"
      using nle by linarith
    finally show ?thesis
      unfolding pipe_inv_def using inv [unfolded pipe_inv_def] q c' by auto
  qed
  moreover have "pipe_contents ?p' = drop (unat ?n) (pipe_contents ?p)"
    using n c' q by (simp add: pipe_contents_def drop_ring)
  ultimately show ?thesis using n
    by (intro exI [of _ ?p'] exI [of _ ?n]) simp
qed

text \<open>
  The specification: a queue that accepts as many bytes as fit and hands out the oldest ones.
\<close>

datatype pipe_op = PipeWrite "u8 list" | PipeRead u32

fun fifo_run :: "pipe_op list \<Rightarrow> u8 list \<Rightarrow> u8 list \<times> u8 list" where
  "fifo_run [] q = (q, [])"
| "fifo_run (PipeWrite bs # ops) q = fifo_run ops (q @ take (PIPE_BUF_SIZE - length q) bs)"
| "fifo_run (PipeRead m # ops) q =
     (let (q', out) = fifo_run ops (drop (unat m) q) in (q', take (unat m) q @ out))"

fun pipe_run :: "int \<Rightarrow> pipe_op list \<Rightarrow> pipe_buffer list \<Rightarrow> (pipe_buffer list \<times> u8 list) option" where
  "pipe_run i [] ps = Some (ps, [])"
| "pipe_run i (PipeWrite bs # ops) ps =
     do { (ps', _) \<leftarrow> pipe_write i bs (word_of_nat (length bs)) ps; pipe_run i ops ps' }"
| "pipe_run i (PipeRead m # ops) ps =
     do { (ps', out, _) \<leftarrow> pipe_read i m ps; (ps'', rest) \<leftarrow> pipe_run i ops ps'; Some (ps'', out @ rest) }"

lemma pipe_run_refines:
  assumes "i < length ps" and "pipe_inv (ps ! i)"
    and "\<forall>bs. PipeWrite bs \<in> set ops \<longrightarrow> length bs < 2 ^ 32"
  shows "\<exists>p' out. pipe_run (int i) ops ps = Some (ps[i := p'], out) \<and> pipe_inv p' \<and>
    fifo_run ops (pipe_contents (ps ! i)) = (pipe_contents p', out)"
  using assms
proof (induction ops arbitrary: ps)
  case Nil
  then show ?case by (intro exI [of _ "ps ! i"] exI [of _ "[]"]) simp
next
  case (Cons op ops)
  show ?case
  proof (cases op)
    case (PipeWrite bs)
    then have l: "unat (word_of_nat (length bs) :: u32) = length bs"
      using Cons.prems(3) by (simp add: unsigned_of_nat take_bit_nat_eq_self)
    obtain p1 n where w: "pipe_write (int i) bs (word_of_nat (length bs)) ps = Some (ps[i := p1], n)"
      "pipe_inv p1" "unat n = min (length bs) (PIPE_BUF_SIZE - length (pipe_contents (ps ! i)))"
      "pipe_contents p1 = pipe_contents (ps ! i) @ take (unat n) bs"
      using pipe_write_spec [OF Cons.prems(2,1), of "word_of_nat (length bs)" bs] l by auto
    have "take (unat n) bs = take (PIPE_BUF_SIZE - length (pipe_contents (ps ! i))) bs"
      unfolding w(3) by (simp add: min_def)
    with w Cons.IH [of "ps[i := p1]"] Cons.prems PipeWrite show ?thesis by auto
  next
    case (PipeRead m)
    obtain p1 n where r: "pipe_read (int i) m ps =
        Some (ps[i := p1], take (unat n) (pipe_contents (ps ! i)), n)"
      "pipe_inv p1" "unat n = min (unat m) (length (pipe_contents (ps ! i)))"
      "pipe_contents p1 = drop (unat n) (pipe_contents (ps ! i))"
      using pipe_read_spec [OF Cons.prems(2,1), of m] by auto
    have "take (unat n) (pipe_contents (ps ! i)) = take (unat m) (pipe_contents (ps ! i))"
      "drop (unat n) (pipe_contents (ps ! i)) = drop (unat m) (pipe_contents (ps ! i))"
      unfolding r(3) by (simp_all add: min_def)
    with r Cons.IH [of "ps[i := p1]"] Cons.prems PipeRead show ?thesis by auto
  qed
qed

section \<open>Events, mutexes and timers\<close>

abbreviation EVENT_SLOTS :: nat where "EVENT_SLOTS \<equiv> 8"
abbreviation MUTEX_SLOTS :: nat where "MUTEX_SLOTS \<equiv> 8"
abbreviation TIMER_SLOTS :: nat where "TIMER_SLOTS \<equiv> 8"

record event =
  ev_used :: bool
  ev_signaled :: bool

record mutex =
  mx_used :: bool
  mx_locked :: bool
  mx_owner :: int \<comment> \<open>\<^verbatim>\<open>owner_task\<close>\<close>

record timer =
  tm_used :: bool
  tm_wake :: u64 \<comment> \<open>\<^verbatim>\<open>wake_tick\<close>\<close>

definition event_init :: "unit \<Rightarrow> event \<Rightarrow> event" where
  "event_init a e = e\<lparr>ev_used := True, ev_signaled := False\<rparr>"

definition event_create :: "unit \<Rightarrow> event list \<Rightarrow> event list \<times> int" where
  "event_create a es =
     (case first_index (\<lambda>e. \<not> ev_used e) es of
        None \<Rightarrow> (es, -1)
      | Some i \<Rightarrow> (es[i := event_init a (es ! i)], int i))"

definition event_signal :: "int \<Rightarrow> event list \<Rightarrow> event list" where
  "event_signal i es =
     (if i \<ge> 0 \<and> i < int EVENT_SLOTS then es[nat i := (es ! nat i)\<lparr>ev_signaled := True\<rparr>] else es)"

definition event_reset :: "int \<Rightarrow> event list \<Rightarrow> event list" where
  "event_reset i es =
     (if i \<ge> 0 \<and> i < int EVENT_SLOTS then es[nat i := (es ! nat i)\<lparr>ev_signaled := False\<rparr>] else es)"

definition mutex_init :: "unit \<Rightarrow> mutex \<Rightarrow> mutex" where
  "mutex_init a m = m\<lparr>mx_used := True, mx_locked := False, mx_owner := -1\<rparr>"

definition mutex_create :: "unit \<Rightarrow> mutex list \<Rightarrow> mutex list \<times> int" where
  "mutex_create a ms =
     (case first_index (\<lambda>m. \<not> mx_used m) ms of
        None \<Rightarrow> (ms, -1)
      | Some i \<Rightarrow> (ms[i := mutex_init a (ms ! i)], int i))"

text \<open>\<open>now\<close> is the tick counter; the deadline wraps modulo \<open>2 ^ 64\<close>.\<close>

definition timer_init :: "u64 \<times> u64 \<Rightarrow> timer \<Rightarrow> timer" where
  "timer_init a t = t\<lparr>tm_used := True, tm_wake := fst a + snd a\<rparr>"

definition timer_create :: "u64 \<times> u64 \<Rightarrow> timer list \<Rightarrow> timer list \<times> int" where
  "timer_create a ts =
     (case first_index (\<lambda>t. \<not> tm_used t) ts of
        None \<Rightarrow> (ts, -1)
      | Some i \<Rightarrow> (ts[i := timer_init a (ts ! i)], int i))"

interpretation evt: slot_table ev_used event_init event_create
  by unfold_locales (simp_all add: event_create_def event_init_def split: option.split)

interpretation mxt: slot_table mx_used mutex_init mutex_create
  by unfold_locales (simp_all add: mutex_create_def mutex_init_def split: option.split)

interpretation tmt: slot_table tm_used timer_init timer_create
  by unfold_locales (simp_all add: timer_create_def timer_init_def)

section \<open>Properties\<close>

text \<open>
  C6. A pipe is a bounded first-in first-out queue. Any sequence of writes and reads on a
  well-formed pipe completes without leaving the 256-byte buffer, returns exactly the bytes the
  queue specification returns, and leaves the pipe well formed with the specified contents.
\<close>

theorem pipe_is_fifo:
  assumes "i < length ps" and "pipe_inv (ps ! i)"
    and "\<forall>bs. PipeWrite bs \<in> set ops \<longrightarrow> length bs < 2 ^ 32"
  shows "\<exists>p' out. pipe_run (int i) ops ps = Some (ps[i := p'], out) \<and> pipe_inv p' \<and>
    fifo_run ops (pipe_contents (ps ! i)) = (pipe_contents p', out)"
  using assms by (rule pipe_run_refines)

definition sample_pipe :: pipe_buffer where
  "sample_pipe = \<lparr>pi_used = True, pi_buf = replicate 256 0, pi_read = 250, pi_write = 250, pi_count = 0\<rparr>"

theorem pipe_is_fifo_witness:
  "\<exists>p' out. pipe_run (int 0) [PipeWrite [1, 2, 3, 4, 5, 6, 7, 8], PipeRead 7, PipeWrite [9], PipeRead 10]
      [sample_pipe] = Some ([sample_pipe][0 := p'], out) \<and> pipe_inv p' \<and>
    fifo_run [PipeWrite [1, 2, 3, 4, 5, 6, 7, 8], PipeRead 7, PipeWrite [9], PipeRead 10]
      (pipe_contents ([sample_pipe] ! 0)) = (pipe_contents p', out)"
  by (rule pipe_is_fifo) (auto simp: sample_pipe_def pipe_inv_def)

text \<open>
  C37. A channel is a one-message mailbox. A message of at most 128 bytes sent to an empty channel
  is accepted, a second send is refused without touching the first, and taking the message returns
  its full length and its bytes and empties the channel; a longer message is refused.
\<close>

theorem channel_mailbox:
  assumes "channels_inv s" and "i < 4" and "\<not> ch_full (g_channels s ! i)"
    and "unat len \<le> length data" and "unat len \<le> length buf" and "len \<le> cap"
  shows "if unat len \<le> CHANNEL_MSG_MAX
    then \<exists>s1 s2. channel_send_msg (int i) data len s = Some (s1, True) \<and>
      channel_has_message (int i) s1 = Some True \<and>
      (unat m \<le> length other \<longrightarrow> channel_send_msg (int i) other m s1 = Some (s1, False)) \<and>
      channel_take_msg (int i) buf cap s1 =
        Some (s2, put_bytes 0 (take (unat len) data) buf, len) \<and>
      channel_has_message (int i) s2 = Some False \<and> channels_inv s2
    else channel_send_msg (int i) data len s = Some (s, False)"
proof (cases "unat len \<le> CHANNEL_MSG_MAX")
  case True
  let ?c = "g_channels s ! i"
  let ?c1 = "?c\<lparr>ch_data := put_bytes 0 (take (unat len) data) (ch_data ?c), ch_len := len, ch_full := True\<rparr>"
  let ?s1 = "s\<lparr>g_channels := (g_channels s)[i := ?c1]\<rparr>"
  let ?s2 = "s\<lparr>g_channels := (g_channels s)[i := ?c1\<lparr>ch_full := False\<rparr>]\<rparr>"
  have inv: "length (g_channels s) = 4" "length (ch_data ?c) = CHANNEL_MSG_MAX"
    using assms(1,2) by (auto simp: channels_inv_def)
  have send: "channel_send_msg (int i) data len s = Some (?s1, True)"
    using True assms inv by (simp add: channel_send_msg_def Let_def)
  have full: "channel_send_msg (int i) other m ?s1 = Some (?s1, False)"
    using assms(2) inv by (simp add: channel_send_msg_def)
  have "(if len < cap then len else cap) = len" using assms(6) by auto
  moreover have "take (unat len) (put_bytes 0 (take (unat len) data) (ch_data ?c)) = take (unat len) data"
    using assms(4) True inv(2) by (simp add: put_bytes_def)
  ultimately have tk: "channel_take_msg (int i) buf cap ?s1 =
      Some (?s2, put_bytes 0 (take (unat len) data) buf, len)"
    using assms(2,5) inv True by (auto simp: channel_take_msg_def Let_def)
  have "channels_inv ?s1" by (rule channel_send_msg_inv [OF assms(1) send])
  then have "channels_inv ?s2" by (rule channel_take_msg_inv [OF _ tk])
  with send full tk assms(2) inv(1) True show ?thesis
    by (auto simp: channel_has_message_def)
next
  case False
  then show ?thesis by (simp add: channel_send_msg_def)
qed

definition sample_channels :: channels where
  "sample_channels = \<lparr>g_channels = replicate 4
     \<lparr>ch_used = True, ch_full = False, ch_len = 0, ch_data = replicate 128 0\<rparr>, g_channel_count = 4\<rparr>"

theorem channel_mailbox_witness:
  "if unat (3 :: u32) \<le> CHANNEL_MSG_MAX
    then \<exists>s1 s2. channel_send_msg (int 2) [7, 8, 9] 3 sample_channels = Some (s1, True) \<and>
      channel_has_message (int 2) s1 = Some True \<and>
      (unat (1 :: u32) \<le> length [5 :: u8] \<longrightarrow> channel_send_msg (int 2) [5] 1 s1 = Some (s1, False)) \<and>
      channel_take_msg (int 2) [0, 0, 0, 0] 4 s1 =
        Some (s2, put_bytes 0 (take (unat (3 :: u32)) [7, 8, 9]) [0, 0, 0, 0], 3) \<and>
      channel_has_message (int 2) s2 = Some False \<and> channels_inv s2
    else channel_send_msg (int 2) [7, 8, 9] 3 sample_channels = Some (sample_channels, False)"
  by (rule channel_mailbox) (auto simp: sample_channels_def channels_inv_def)

end
