(* ===== verification/Requests.thy ===== *)
theory Requests
  imports Prelude "HOL-Library.Monad_Syntax"
begin

text \<open>
  The asynchronous request tables and their worker tasks: file I/O
  (\<^verbatim>\<open>src/proc/ipc/io_request/io_request.c\<close>), ping and DNS (\<^verbatim>\<open>net_request/net_request.c\<close>), TCP
  fetches (\<^verbatim>\<open>net_tcp_request/net_tcp_request.c\<close>) and WiFi (\<^verbatim>\<open>wifi_request/wifi_request.c\<close>). A
  client fills a slot and waits for its \<^verbatim>\<open>done\<close> flag; the worker serves every pending slot of the
  table and sets the flag. The file system, the network stack and the WiFi manager that a worker
  calls are arguments.
\<close>

section \<open>Worker passes\<close>

text \<open>
  One turn of a worker's endless loop: visit the slots in order, serve each one that is in use and
  not done. The serving function gets the slot number.
\<close>

fun worker_pass ::
  "('r \<Rightarrow> bool) \<Rightarrow> ('r \<Rightarrow> bool) \<Rightarrow> (nat \<Rightarrow> 'r \<Rightarrow> 'w \<Rightarrow> ('r \<times> 'w) option) \<Rightarrow>
   nat \<Rightarrow> 'r list \<Rightarrow> 'w \<Rightarrow> ('r list \<times> 'w) option" where
  "worker_pass used fin serve i [] w = Some ([], w)"
| "worker_pass used fin serve i (r # rs) w =
     (if used r \<and> \<not> fin r
      then do {
        (r', w') \<leftarrow> serve i r w;
        (rs', w'') \<leftarrow> worker_pass used fin serve (Suc i) rs w';
        Some (r' # rs', w'')
      }
      else do {
        (rs', w'') \<leftarrow> worker_pass used fin serve (Suc i) rs w;
        Some (r # rs', w'')
      })"

text \<open>
  The contract between a request table and its worker: serving a slot always completes and marks
  it done, and leaves it allocated.
\<close>

locale request_worker =
  fixes used fin :: "'r \<Rightarrow> bool"
    and wf :: "'r \<Rightarrow> bool"
    and serve :: "nat \<Rightarrow> 'r \<Rightarrow> 'w \<Rightarrow> ('r \<times> 'w) option"
  assumes serve_completes: "wf r \<Longrightarrow> \<exists>r' w'. serve i r w = Some (r', w') \<and> fin r' \<and> used r' = used r \<and> wf r'"
begin

lemma pass_completes:
  assumes "\<forall>r \<in> set rs. wf r"
  shows "\<exists>rs' w'. worker_pass used fin serve i rs w = Some (rs', w') \<and> length rs' = length rs \<and>
    (\<forall>r \<in> set rs'. wf r) \<and>
    (\<forall>k < length rs. used (rs' ! k) = used (rs ! k) \<and>
       (used (rs ! k) \<longrightarrow> fin (rs' ! k)) \<and>
       (\<not> used (rs ! k) \<or> fin (rs ! k) \<longrightarrow> rs' ! k = rs ! k))"
  using assms
proof (induction rs arbitrary: i w)
  case (Cons r rs)
  show ?case
  proof (cases "used r \<and> \<not> fin r")
    case True
    from Cons.prems serve_completes [of r i w] obtain r' w1
      where s: "serve i r w = Some (r', w1)" "fin r'" "used r' = used r" "wf r'" by auto
    from Cons.IH [of "Suc i" w1] Cons.prems obtain rs' w'
      where p: "worker_pass used fin serve (Suc i) rs w1 = Some (rs', w')" "length rs' = length rs"
        "\<forall>r \<in> set rs'. wf r"
        "\<forall>k < length rs. used (rs' ! k) = used (rs ! k) \<and> (used (rs ! k) \<longrightarrow> fin (rs' ! k)) \<and>
           (\<not> used (rs ! k) \<or> fin (rs ! k) \<longrightarrow> rs' ! k = rs ! k)" by auto
    from True s p show ?thesis
      by (intro exI [of _ "r' # rs'"] exI [of _ w']) (auto simp: nth_Cons' less_Suc_eq_0_disj)
  next
    case False
    from Cons.IH [of "Suc i" w] Cons.prems obtain rs' w'
      where p: "worker_pass used fin serve (Suc i) rs w = Some (rs', w')" "length rs' = length rs"
        "\<forall>r \<in> set rs'. wf r"
        "\<forall>k < length rs. used (rs' ! k) = used (rs ! k) \<and> (used (rs ! k) \<longrightarrow> fin (rs' ! k)) \<and>
           (\<not> used (rs ! k) \<or> fin (rs ! k) \<longrightarrow> rs' ! k = rs ! k)" by auto
    from False p Cons.prems show ?thesis
      by (intro exI [of _ "r # rs'"] exI [of _ w']) (auto simp: nth_Cons' less_Suc_eq_0_disj)
  qed
qed simp

end

section \<open>File requests\<close>

abbreviation IO_REQUEST_SLOTS :: nat where "IO_REQUEST_SLOTS \<equiv> 4"
abbreviation IO_REQUEST_BUF_SIZE :: nat where "IO_REQUEST_BUF_SIZE \<equiv> 512"

record io_request =
  io_used :: bool
  io_done :: bool
  io_is_write :: bool
  io_path :: "u8 list"
  io_buffer :: "u8 list"
  io_payload_len :: u32
  io_result :: int

definition io_request_wf :: "io_request \<Rightarrow> bool" where
  "io_request_wf r \<longleftrightarrow> length (io_path r) = 64 \<and> length (io_buffer r) = IO_REQUEST_BUF_SIZE \<and>
     unat (io_payload_len r) \<le> IO_REQUEST_BUF_SIZE"

definition io_slot_init :: "u8 list \<Rightarrow> io_request \<Rightarrow> io_request option" where
  "io_slot_init path r =
     map_option (\<lambda>p. r\<lparr>io_path := p, io_used := True, io_done := False, io_result := -1\<rparr>)
       (copy_cstr 63 path 0 (io_path r))"

definition alloc_io_request_slot :: "u8 list \<Rightarrow> io_request list \<Rightarrow> (io_request list \<times> int) option" where
  "alloc_io_request_slot path rs =
     (case first_index (\<lambda>r. \<not> io_used r) rs of
        None \<Rightarrow> Some (rs, -1)
      | Some i \<Rightarrow> map_option (\<lambda>r. (rs[i := r], int i)) (io_slot_init path (rs ! i)))"

definition alloc_io_request :: "u8 list \<Rightarrow> io_request list \<Rightarrow> (io_request list \<times> int) option" where
  "alloc_io_request path rs = do {
     (rs', slot) \<leftarrow> alloc_io_request_slot path rs;
     if slot < 0 then Some (rs', -1)
     else do {
       r \<leftarrow> slot_at rs' slot;
       rs'' \<leftarrow> slot_put rs' slot (r\<lparr>io_is_write := False\<rparr>);
       Some (rs'', slot)
     }
   }"

definition alloc_io_write_request ::
  "u8 list \<Rightarrow> u8 list \<Rightarrow> u32 \<Rightarrow> io_request list \<Rightarrow> (io_request list \<times> int) option" where
  "alloc_io_write_request path payload payload_len rs = do {
     (rs', slot) \<leftarrow> alloc_io_request_slot path rs;
     if slot < 0 then Some (rs', -1)
     else do {
       r \<leftarrow> slot_at rs' slot;
       let n = (if payload_len > 512 then 512 else payload_len);
       if length payload < unat n \<or> length (io_buffer r) < unat n then None
       else do {
         rs'' \<leftarrow> slot_put rs' slot (r\<lparr>io_is_write := True,
                   io_buffer := put_bytes 0 (take (unat n) payload) (io_buffer r),
                   io_payload_len := n\<rparr>);
         Some (rs'', slot)
       }
     }
   }"

definition free_io_request :: "int \<Rightarrow> io_request list \<Rightarrow> io_request list option" where
  "free_io_request i rs = do { r \<leftarrow> slot_at rs i; slot_put rs i (r\<lparr>io_used := False\<rparr>) }"

text \<open>
  \<open>vread path max fs = (fs', n, bytes)\<close> and \<open>vwrite path bytes fs = (fs', ok)\<close> are the virtual
  file system called as root; the read stores at most \<open>max\<close> bytes from the start of the buffer.
\<close>

type_synonym 'f vfs_reader = "u8 list \<Rightarrow> nat \<Rightarrow> 'f \<Rightarrow> 'f \<times> int \<times> u8 list"
type_synonym 'f vfs_writer = "u8 list \<Rightarrow> u8 list \<Rightarrow> 'f \<Rightarrow> 'f \<times> bool"

definition io_serve ::
  "'f vfs_reader \<Rightarrow> 'f vfs_writer \<Rightarrow> nat \<Rightarrow> io_request \<Rightarrow> 'f \<Rightarrow> (io_request \<times> 'f) option" where
  "io_serve vread vwrite i r fs =
     (if io_is_write r then
        (let (fs', ok) = vwrite (io_path r) (take (unat (io_payload_len r)) (io_buffer r)) fs
         in Some (r\<lparr>io_result := (if ok then int (unat (io_payload_len r)) else -1), io_done := True\<rparr>, fs'))
      else
        (let (fs', n, bs) = vread (io_path r) IO_REQUEST_BUF_SIZE fs
         in if length bs > length (io_buffer r) then None
            else Some (r\<lparr>io_buffer := put_bytes 0 bs (io_buffer r), io_result := n, io_done := True\<rparr>, fs')))"

definition io_worker_pass ::
  "'f vfs_reader \<Rightarrow> 'f vfs_writer \<Rightarrow> io_request list \<Rightarrow> 'f \<Rightarrow> (io_request list \<times> 'f) option" where
  "io_worker_pass vread vwrite = worker_pass io_used io_done (io_serve vread vwrite) 0"

lemma io_slot_init_eq:
  assumes "io_request_wf r" and "terminated path"
  shows "io_slot_init path r = Some (r\<lparr>io_path := put_bytes 0 (take 63 (cstr path) @ [0]) (io_path r),
    io_used := True, io_done := False, io_result := -1\<rparr>)"
  using assms copy_cstr_eq [of path 0 63 "io_path r"] by (simp add: io_slot_init_def io_request_wf_def)

section \<open>Ping and DNS requests\<close>

abbreviation NET_PING_SLOTS :: nat where "NET_PING_SLOTS \<equiv> 2"

record net_ping_request =
  np_used :: bool
  np_done :: bool
  np_is_dns :: bool
  np_target_ip :: "u8 list"
  np_hostname :: "u8 list"
  np_ok :: bool
  np_resolved_ip :: "u8 list"

definition net_slot_init :: "unit \<Rightarrow> net_ping_request \<Rightarrow> net_ping_request" where
  "net_slot_init a r = r\<lparr>np_used := True, np_done := False, np_ok := False\<rparr>"

definition alloc_net_request_slot :: "unit \<Rightarrow> net_ping_request list \<Rightarrow> net_ping_request list \<times> int" where
  "alloc_net_request_slot a rs =
     (case first_index (\<lambda>r. \<not> np_used r) rs of
        None \<Rightarrow> (rs, -1)
      | Some i \<Rightarrow> (rs[i := net_slot_init a (rs ! i)], int i))"

interpretation npt: slot_table np_used net_slot_init alloc_net_request_slot
  by unfold_locales (simp_all add: alloc_net_request_slot_def net_slot_init_def split: option.split)

definition alloc_net_ping_request :: "u8 list \<Rightarrow> net_ping_request list \<Rightarrow> (net_ping_request list \<times> int) option" where
  "alloc_net_ping_request target_ip rs =
     (let (rs', slot) = alloc_net_request_slot () rs
      in if slot < 0 then Some (rs', -1)
         else do {
           r \<leftarrow> slot_at rs' slot;
           if length target_ip < 4 \<or> length (np_target_ip r) < 4 then None
           else do {
             rs'' \<leftarrow> slot_put rs' slot (r\<lparr>np_is_dns := False,
                       np_target_ip := put_bytes 0 (take 4 target_ip) (np_target_ip r)\<rparr>);
             Some (rs'', slot)
           }
         })"

definition alloc_net_dns_request :: "u8 list \<Rightarrow> net_ping_request list \<Rightarrow> (net_ping_request list \<times> int) option" where
  "alloc_net_dns_request hostname rs =
     (let (rs', slot) = alloc_net_request_slot () rs
      in if slot < 0 then Some (rs', -1)
         else do {
           r \<leftarrow> slot_at rs' slot;
           h \<leftarrow> copy_cstr 63 hostname 0 (np_hostname r);
           rs'' \<leftarrow> slot_put rs' slot (r\<lparr>np_is_dns := True, np_hostname := h\<rparr>);
           Some (rs'', slot)
         })"

definition free_net_ping_request :: "int \<Rightarrow> net_ping_request list \<Rightarrow> net_ping_request list option" where
  "free_net_ping_request i rs = do { r \<leftarrow> slot_at rs i; slot_put rs i (r\<lparr>np_used := False\<rparr>) }"

definition PING_IDENTIFIER :: u16 where "PING_IDENTIFIER = 0x5150"

text \<open>
  \<open>resolve host = (ok, ip)\<close> is the DNS client (\<open>ip\<close> is written when \<open>ok\<close>), \<open>ping ip id seq\<close> the
  ICMP client, each with the network state threaded through.
\<close>

definition net_serve ::
  "(u8 list \<Rightarrow> 'n \<Rightarrow> 'n \<times> bool \<times> u8 list) \<Rightarrow> (u8 list \<Rightarrow> u16 \<Rightarrow> u16 \<Rightarrow> 'n \<Rightarrow> 'n \<times> bool) \<Rightarrow>
   nat \<Rightarrow> net_ping_request \<Rightarrow> 'n \<Rightarrow> (net_ping_request \<times> 'n) option" where
  "net_serve resolve ping i r nw =
     (if np_is_dns r then
        (let (nw', ok, ip) = resolve (np_hostname r) nw
         in if length ip > length (np_resolved_ip r) then None
            else Some (r\<lparr>np_resolved_ip := put_bytes 0 ip (np_resolved_ip r), np_ok := ok, np_done := True\<rparr>, nw'))
      else
        (let (nw', ok) = ping (np_target_ip r) PING_IDENTIFIER (word_of_nat i) nw
         in Some (r\<lparr>np_ok := ok, np_done := True\<rparr>, nw')))"

definition net_worker_pass ::
  "(u8 list \<Rightarrow> 'n \<Rightarrow> 'n \<times> bool \<times> u8 list) \<Rightarrow> (u8 list \<Rightarrow> u16 \<Rightarrow> u16 \<Rightarrow> 'n \<Rightarrow> 'n \<times> bool) \<Rightarrow>
   net_ping_request list \<Rightarrow> 'n \<Rightarrow> (net_ping_request list \<times> 'n) option" where
  "net_worker_pass resolve ping = worker_pass np_used np_done (net_serve resolve ping) 0"

section \<open>TCP requests\<close>

abbreviation TCP_REQUEST_SLOTS :: nat where "TCP_REQUEST_SLOTS \<equiv> 2"
abbreviation TCP_REQUEST_PAYLOAD_SIZE :: nat where "TCP_REQUEST_PAYLOAD_SIZE \<equiv> 256"
abbreviation TCP_REQUEST_RESPONSE_SIZE :: nat where "TCP_REQUEST_RESPONSE_SIZE \<equiv> 512"

record net_tcp_request =
  nt_used :: bool
  nt_done :: bool
  nt_target_ip :: "u8 list"
  nt_target_port :: u16
  nt_payload :: "u8 list"
  nt_payload_len :: u16
  nt_response :: "u8 list"
  nt_response_len :: u32
  nt_ok :: bool

definition tcp_slot_init ::
  "u8 list \<Rightarrow> u16 \<Rightarrow> u8 list \<Rightarrow> u16 \<Rightarrow> net_tcp_request \<Rightarrow> net_tcp_request option" where
  "tcp_slot_init target_ip target_port payload payload_len r =
     (let n = (if payload_len > 256 then 256 else payload_len)
      in if length target_ip < 4 \<or> length (nt_target_ip r) < 4 \<or> length payload < unat n \<or>
            length (nt_payload r) < unat n then None
         else Some (r\<lparr>nt_target_ip := put_bytes 0 (take 4 target_ip) (nt_target_ip r),
                nt_target_port := target_port,
                nt_payload := put_bytes 0 (take (unat n) payload) (nt_payload r),
                nt_payload_len := n, nt_used := True, nt_done := False, nt_ok := False\<rparr>))"

definition alloc_net_tcp_request ::
  "u8 list \<Rightarrow> u16 \<Rightarrow> u8 list \<Rightarrow> u16 \<Rightarrow> net_tcp_request list \<Rightarrow> (net_tcp_request list \<times> int) option" where
  "alloc_net_tcp_request target_ip target_port payload payload_len rs =
     (case first_index (\<lambda>r. \<not> nt_used r) rs of
        None \<Rightarrow> Some (rs, -1)
      | Some i \<Rightarrow> map_option (\<lambda>r. (rs[i := r], int i))
                   (tcp_slot_init target_ip target_port payload payload_len (rs ! i)))"

definition free_net_tcp_request :: "int \<Rightarrow> net_tcp_request list \<Rightarrow> net_tcp_request list option" where
  "free_net_tcp_request i rs = do { r \<leftarrow> slot_at rs i; slot_put rs i (r\<lparr>nt_used := False\<rparr>) }"

text \<open>
  \<open>fetch ip port payload max = (ok, bytes)\<close> is the TCP client; it stores at most \<open>max\<close> response
  bytes and reports their number.
\<close>

type_synonym 'n tcp_fetcher = "u8 list \<Rightarrow> u16 \<Rightarrow> u8 list \<Rightarrow> nat \<Rightarrow> 'n \<Rightarrow> 'n \<times> bool \<times> u8 list"

definition tcp_serve ::
  "'n tcp_fetcher \<Rightarrow> nat \<Rightarrow> net_tcp_request \<Rightarrow> 'n \<Rightarrow> (net_tcp_request \<times> 'n) option" where
  "tcp_serve fetch i r nw =
     (let (nw', ok, bs) = fetch (nt_target_ip r) (nt_target_port r)
            (take (unat (nt_payload_len r)) (nt_payload r)) TCP_REQUEST_RESPONSE_SIZE nw
      in if length bs > length (nt_response r) then None
         else Some (r\<lparr>nt_response := put_bytes 0 bs (nt_response r),
                nt_response_len := word_of_nat (length bs), nt_ok := ok, nt_done := True\<rparr>, nw'))"

definition tcp_worker_pass ::
  "'n tcp_fetcher \<Rightarrow> net_tcp_request list \<Rightarrow> 'n \<Rightarrow> (net_tcp_request list \<times> 'n) option" where
  "tcp_worker_pass fetch = worker_pass nt_used nt_done (tcp_serve fetch) 0"

section \<open>WiFi requests\<close>

abbreviation WIFI_REQUEST_SLOTS :: nat where "WIFI_REQUEST_SLOTS \<equiv> 2"

record 'a wifi_request =
  wr_used :: bool
  wr_done :: bool
  wr_op :: u8
  wr_ssid :: "u8 list"
  wr_passphrase :: "u8 list"
  wr_passphrase_len :: u32
  wr_scan_results :: "'a list"
  wr_scan_count :: int
  wr_connect_result :: int

definition wifi_slot_init :: "unit \<Rightarrow> 'a wifi_request \<Rightarrow> 'a wifi_request" where
  "wifi_slot_init a r = r\<lparr>wr_used := True, wr_done := False\<rparr>"

definition alloc_wifi_request_slot :: "unit \<Rightarrow> 'a wifi_request list \<Rightarrow> 'a wifi_request list \<times> int" where
  "alloc_wifi_request_slot a rs =
     (case first_index (\<lambda>r. \<not> wr_used r) rs of
        None \<Rightarrow> (rs, -1)
      | Some i \<Rightarrow> (rs[i := wifi_slot_init a (rs ! i)], int i))"

interpretation wrt: slot_table wr_used wifi_slot_init alloc_wifi_request_slot
  by unfold_locales (simp_all add: alloc_wifi_request_slot_def wifi_slot_init_def split: option.split)

definition alloc_wifi_scan_request :: "'a wifi_request list \<Rightarrow> ('a wifi_request list \<times> int) option" where
  "alloc_wifi_scan_request rs =
     (let (rs', slot) = alloc_wifi_request_slot () rs
      in if slot < 0 then Some (rs', -1)
         else do {
           r \<leftarrow> slot_at rs' slot;
           rs'' \<leftarrow> slot_put rs' slot (r\<lparr>wr_op := 0\<rparr>);
           Some (rs'', slot)
         })"

definition alloc_wifi_connect_request ::
  "u8 list \<Rightarrow> u8 list \<Rightarrow> u32 \<Rightarrow> 'a wifi_request list \<Rightarrow> ('a wifi_request list \<times> int) option" where
  "alloc_wifi_connect_request ssid passphrase passphrase_len rs =
     (let (rs', slot) = alloc_wifi_request_slot () rs
      in if slot < 0 then Some (rs', -1)
         else do {
           r \<leftarrow> slot_at rs' slot;
           id \<leftarrow> copy_cstr 32 ssid 0 (wr_ssid r);
           let n = (if passphrase_len > 63 then 63 else passphrase_len);
           if length passphrase < unat n \<or> length (wr_passphrase r) \<le> unat n then None
           else do {
             rs'' \<leftarrow> slot_put rs' slot (r\<lparr>wr_op := 1, wr_ssid := id,
                       wr_passphrase := put_bytes 0 (take (unat n) passphrase @ [0]) (wr_passphrase r),
                       wr_passphrase_len := n\<rparr>);
             Some (rs'', slot)
           }
         })"

definition free_wifi_request :: "int \<Rightarrow> 'a wifi_request list \<Rightarrow> 'a wifi_request list option" where
  "free_wifi_request i rs = do { r \<leftarrow> slot_at rs i; slot_put rs i (r\<lparr>wr_used := False\<rparr>) }"

definition wifi_serve ::
  "('n \<Rightarrow> 'n \<times> 'a list \<times> int) \<Rightarrow> (u8 list \<Rightarrow> u8 list \<Rightarrow> u32 \<Rightarrow> 'n \<Rightarrow> 'n \<times> int) \<Rightarrow>
   nat \<Rightarrow> 'a wifi_request \<Rightarrow> 'n \<Rightarrow> ('a wifi_request \<times> 'n) option" where
  "wifi_serve scan connect i r nw =
     (if wr_op r = 0 then
        (let (nw', nets, n) = scan nw
         in if length nets > length (wr_scan_results r) then None
            else Some (r\<lparr>wr_scan_results := put_bytes 0 nets (wr_scan_results r), wr_scan_count := n,
                         wr_done := True\<rparr>, nw'))
      else
        (let (nw', st) = connect (wr_ssid r) (wr_passphrase r) (wr_passphrase_len r) nw
         in Some (r\<lparr>wr_connect_result := st, wr_done := True\<rparr>, nw')))"

definition wifi_worker_pass ::
  "('n \<Rightarrow> 'n \<times> 'a list \<times> int) \<Rightarrow> (u8 list \<Rightarrow> u8 list \<Rightarrow> u32 \<Rightarrow> 'n \<Rightarrow> 'n \<times> int) \<Rightarrow>
   'a wifi_request list \<Rightarrow> 'n \<Rightarrow> ('a wifi_request list \<times> 'n) option" where
  "wifi_worker_pass scan connect = worker_pass wr_used wr_done (wifi_serve scan connect) 0"

section \<open>The workers meet the contract\<close>

text \<open>
  What the tables rely on of the services behind them: a read, a fetch or a scan stores no more
  than the capacity it was given. \<open>clip\<close> cuts a service's output at the capacity, so a service
  that keeps the bound equals its clipped version.
\<close>

definition clip_read :: "'f vfs_reader \<Rightarrow> 'f vfs_reader" where
  "clip_read vread path n fs = (let (fs', r, bs) = vread path n fs in (fs', r, take n bs))"

definition clip_fetch :: "'n tcp_fetcher \<Rightarrow> 'n tcp_fetcher" where
  "clip_fetch fetch ip port pl n nw = (let (nw', ok, bs) = fetch ip port pl n nw in (nw', ok, take n bs))"

definition clip_resolve :: "(u8 list \<Rightarrow> 'n \<Rightarrow> 'n \<times> bool \<times> u8 list) \<Rightarrow> u8 list \<Rightarrow> 'n \<Rightarrow> 'n \<times> bool \<times> u8 list" where
  "clip_resolve resolve h nw = (let (nw', ok, ip) = resolve h nw in (nw', ok, take 4 ip))"

definition clip_scan :: "nat \<Rightarrow> ('n \<Rightarrow> 'n \<times> 'a list \<times> int) \<Rightarrow> 'n \<Rightarrow> 'n \<times> 'a list \<times> int" where
  "clip_scan m scan nw = (let (nw', nets, n) = scan nw in (nw', take m nets, n))"

definition net_ping_wf :: "net_ping_request \<Rightarrow> bool" where
  "net_ping_wf r \<longleftrightarrow> length (np_target_ip r) = 4 \<and> length (np_hostname r) = 64 \<and> length (np_resolved_ip r) = 4"

definition net_tcp_wf :: "net_tcp_request \<Rightarrow> bool" where
  "net_tcp_wf r \<longleftrightarrow> length (nt_target_ip r) = 4 \<and> length (nt_payload r) = TCP_REQUEST_PAYLOAD_SIZE \<and>
     unat (nt_payload_len r) \<le> TCP_REQUEST_PAYLOAD_SIZE \<and> length (nt_response r) = TCP_REQUEST_RESPONSE_SIZE"

definition wifi_wf :: "nat \<Rightarrow> 'a wifi_request \<Rightarrow> bool" where
  "wifi_wf m r \<longleftrightarrow> length (wr_ssid r) = 33 \<and> length (wr_passphrase r) = 64 \<and>
     length (wr_scan_results r) = m"

interpretation iow: request_worker io_used io_done io_request_wf "io_serve (clip_read vread) vwrite"
  for vread vwrite
  by unfold_locales
    (auto simp: io_serve_def io_request_wf_def clip_read_def Let_def split: prod.splits)

interpretation npw: request_worker np_used np_done net_ping_wf "net_serve (clip_resolve resolve) ping"
  for resolve ping
  by unfold_locales
    (auto simp: net_serve_def net_ping_wf_def clip_resolve_def Let_def split: prod.splits)

interpretation ntw: request_worker nt_used nt_done net_tcp_wf "tcp_serve (clip_fetch fetch)"
  for fetch
  by unfold_locales
    (auto simp: tcp_serve_def net_tcp_wf_def clip_fetch_def Let_def split: prod.splits)

interpretation wrw: request_worker wr_used wr_done "wifi_wf m" "wifi_serve (clip_scan m scan) connect"
  for m scan connect
  by unfold_locales
    (auto simp: wifi_serve_def wifi_wf_def clip_scan_def Let_def split: prod.splits)

lemma clip_read_id: "(\<And>p n fs. length (snd (snd (vread p n fs))) \<le> n) \<Longrightarrow> clip_read vread = vread"
  by (intro ext) (simp add: clip_read_def Let_def case_prod_beta)

section \<open>Properties\<close>


definition sample_io_request :: io_request where
  "sample_io_request = \<lparr>io_used = True, io_done = False, io_is_write = False, io_path = replicate 64 0,
     io_buffer = replicate 512 0, io_payload_len = 0, io_result = -1\<rparr>"

definition sample_vread :: "unit vfs_reader" where
  "sample_vread p n fs = (fs, 2, take n [1, 2])"


end
