(* ===== verification/Sandbox.thy ===== *)
theory Sandbox
  imports Objects "HOL-Library.Monad_Syntax"
begin

text \<open>
  The system-call sandbox (\<^verbatim>\<open>src/kernel/security/sandbox/sandbox.c\<close>): a process that holds a handle to
  a sandbox object is refused the calls its policy's two bitmaps name.
\<close>

abbreviation SANDBOX_POLICY_SLOTS :: nat where "SANDBOX_POLICY_SLOTS \<equiv> 8"

record sandbox_policy =
  sp_used :: bool
  sp_denied_low :: u64
  sp_denied_high :: u64

definition policy_init :: "u64 \<times> u64 \<Rightarrow> sandbox_policy \<Rightarrow> sandbox_policy" where
  "policy_init a p = p\<lparr>sp_used := True, sp_denied_low := fst a, sp_denied_high := snd a\<rparr>"

definition sandbox_policy_create :: "u64 \<times> u64 \<Rightarrow> sandbox_policy list \<Rightarrow> sandbox_policy list \<times> int" where
  "sandbox_policy_create a ps =
     (case first_index (\<lambda>p. \<not> sp_used p) ps of
        None \<Rightarrow> (ps, -1)
      | Some i \<Rightarrow> (ps[i := policy_init a (ps ! i)], int i))"

interpretation spt: slot_table sp_used policy_init sandbox_policy_create
  by unfold_locales (simp_all add: sandbox_policy_create_def policy_init_def)

definition policy_denies :: "sandbox_policy \<Rightarrow> u64 \<Rightarrow> bool" where
  "policy_denies p num =
     (if num < 64 then sp_denied_low p AND push_bit (unat num) 1 \<noteq> 0
      else if num < 128 then sp_denied_high p AND push_bit (unat (num - 64)) 1 \<noteq> 0
      else False)"

definition handle_denies :: "objects \<Rightarrow> sandbox_policy list \<Rightarrow> u64 \<Rightarrow> handle \<Rightarrow> bool option" where
  "handle_denies s pols num h =
     (if h_used h then do {
        ob \<leftarrow> slot_at (g_objects s) (h_object h);
        if obj_type ob = OBJ_SANDBOX
        then map_option (\<lambda>p. policy_denies p num) (slot_at pols (obj_data ob))
        else Some False
      }
      else Some False)"

fun any_denies :: "objects \<Rightarrow> sandbox_policy list \<Rightarrow> u64 \<Rightarrow> handle list \<Rightarrow> bool option" where
  "any_denies s pols num [] = Some False"
| "any_denies s pols num (h # hs) = do {
     d \<leftarrow> handle_denies s pols num h;
     if d then Some True else any_denies s pols num hs
   }"

definition sandbox_denies :: "objects \<Rightarrow> sandbox_policy list \<Rightarrow> int \<Rightarrow> u64 \<Rightarrow> bool option" where
  "sandbox_denies s pols p num =
     (if p < 0 \<or> p \<ge> int MAX_PROCESSES then Some False
      else do { hs \<leftarrow> slot_at (g_handle_tables s) p; any_denies s pols num hs })"

definition sandbox_default_denied_low :: u64 where
  "sandbox_default_denied_low = push_bit 6 1 OR push_bit 11 1 OR push_bit 14 1 OR push_bit 49 1"

definition sandbox_default_denied_high :: u64 where
  "sandbox_default_denied_high = push_bit (95 - 64) 1 OR push_bit (99 - 64) 1"

lemma policy_denies_bit:
  "policy_denies p num \<longleftrightarrow>
     (if num < 64 then bit (sp_denied_low p) (unat num)
      else num < 128 \<and> bit (sp_denied_high p) (unat (num - 64)))"
  by (simp add: policy_denies_def bit_iff_and_push_bit_not_eq_0)

lemma default_low_bits: "bit sandbox_default_denied_low n \<longleftrightarrow> n \<in> {6, 11, 14, 49}"
  unfolding sandbox_default_denied_low_def bit_or_iff bit_push_bit_iff bit_1_iff
  by (auto simp: possible_bit_word)

lemma default_high_bits: "bit sandbox_default_denied_high n \<longleftrightarrow> n \<in> {31, 35}"
  unfolding sandbox_default_denied_high_def bit_or_iff bit_push_bit_iff bit_1_iff
  by (auto simp: possible_bit_word)

text \<open>The default policy denies exactly the six calls its description lists.\<close>

lemma default_policy_denies:
  "policy_denies (policy_init (sandbox_default_denied_low, sandbox_default_denied_high) p) num \<longleftrightarrow>
     num \<in> {6, 11, 14, 49, 95, 99}"
proof (cases "num < 64")
  case True
  then show ?thesis
    by (auto simp: policy_denies_bit policy_init_def default_low_bits word_less_nat_alt word_unat_eq_iff)
next
  case False
  then have "unat (num - 64) = unat num - 64"
    by (subst unat_sub) (simp_all add: word_le_nat_alt word_less_nat_alt)
  with False show ?thesis
    by (auto simp: policy_denies_bit policy_init_def default_high_bits word_less_nat_alt word_unat_eq_iff)
qed

lemma any_denies_True:
  assumes "any_denies s pols num hs = Some True"
  shows "\<exists>h \<in> set hs. handle_denies s pols num h = Some True"
  using assms by (induction hs) (auto simp: bind_eq_Some_conv split: if_splits)

lemma any_denies_False:
  assumes "\<forall>h \<in> set hs. handle_denies s pols num h = Some False"
  shows "any_denies s pols num hs = Some False"
  using assms by (induction hs) auto

lemma any_denies_mem:
  assumes "\<forall>h \<in> set hs. handle_denies s pols num h \<noteq> None" and "h \<in> set hs"
    and "handle_denies s pols num h = Some True"
  shows "any_denies s pols num hs = Some True"
  using assms
proof (induction hs)
  case (Cons x xs)
  then obtain d where d: "handle_denies s pols num x = Some d" by auto
  with Cons show ?case by (cases d) auto
qed simp

end
