(* ===== verification/Sched.thy ===== *)
theory Sched
  imports Heap Ipc Requests Sandbox
begin

text \<open>
  The task table and the round-robin scheduler (\<^verbatim>\<open>src/kernel/sched/task.c\<close>), with the blocking
  operations it offers on events, mutexes, timers, channels and requests. A task that blocks points
  \<^verbatim>\<open>waiting_on\<close> at a flag of one of the tables; here the pointer is a value that names the flag.
  Register and stack contents, which \<^verbatim>\<open>switch_context\<close> saves and restores, are not part of the
  state; the loaded CR3 and the TSS stack pointer are.
\<close>

section \<open>Tasks and the kernel state they share\<close>

abbreviation MAX_TASKS :: nat where "MAX_TASKS \<equiv> 24"

datatype wait_flag =
    EventSignaled int | ChannelFull int | IoDone int | PingDone int | TcpDone int | WifiDone int

record task =
  t_saved_rsp :: u64
  t_used :: bool
  t_blocked :: bool
  t_wake_tick :: u64
  t_cr3 :: u64
  t_ring3_entry :: u64
  t_ring3_stack_top :: u64
  t_process :: int \<comment> \<open>\<^verbatim>\<open>process_index\<close>\<close>
  t_waiting_on :: "wait_flag option"
  t_kernel_stack_top :: u64

record process =
  p_used :: bool
  p_cr3 :: u64
  p_task :: int \<comment> \<open>\<^verbatim>\<open>task_index\<close>\<close>
  p_uid :: u8
  p_main_stack :: u64
  p_next_thread_stack :: u64

text \<open>
  The globals of the kernel. \<open>k_phys\<close> are the bytes of physical memory outside the page tables and
  \<open>k_stack\<close> the words of the kernel stacks.
\<close>

record kern =
  g_tasks :: "task list"
  g_task_count :: int
  g_current_task :: int
  g_tick_count :: u64
  k_channels :: channels
  g_events :: "event list"
  g_mutexes :: "mutex list"
  g_timers :: "timer list"
  g_io_requests :: "io_request list"
  g_net_ping_requests :: "net_ping_request list"
  g_net_tcp_requests :: "net_tcp_request list"
  g_wifi_requests :: "u8 list wifi_request list"
  k_heap :: heap
  k_objects :: objects
  g_pipes :: "pipe_buffer list"
  g_processes :: "process list"
  g_process_count :: int
  g_sandbox_policies :: "sandbox_policy list"
  k_phys :: "u64 \<Rightarrow> u8"
  k_stack :: "u64 \<Rightarrow> u64"
  k_cr3 :: u64
  k_tss_rsp0 :: u64

definition flag_value :: "kern \<Rightarrow> wait_flag \<Rightarrow> bool option" where
  "flag_value k f = (case f of
       EventSignaled i \<Rightarrow> map_option ev_signaled (slot_at (g_events k) i)
     | ChannelFull i \<Rightarrow> channel_has_message i (k_channels k)
     | IoDone i \<Rightarrow> map_option io_done (slot_at (g_io_requests k) i)
     | PingDone i \<Rightarrow> map_option np_done (slot_at (g_net_ping_requests k) i)
     | TcpDone i \<Rightarrow> map_option nt_done (slot_at (g_net_tcp_requests k) i)
     | WifiDone i \<Rightarrow> map_option wr_done (slot_at (g_wifi_requests k) i))"

definition scheduler_init :: "kern \<Rightarrow> kern option" where
  "scheduler_init k = do {
     t \<leftarrow> slot_at (g_tasks k) 0;
     ts \<leftarrow> slot_put (g_tasks k) 0 (t\<lparr>t_used := True, t_cr3 := g_pml4_phys (hp_mm (k_heap k))\<rparr>);
     Some (k\<lparr>g_tasks := ts, g_task_count := 1, g_current_task := 0\<rparr>)
   }"

section \<open>Creating tasks\<close>

text \<open>The stack a new task resumes on: the entry point as return address and six zero registers.\<close>

definition push_words :: "u64 list \<Rightarrow> u64 \<Rightarrow> (u64 \<Rightarrow> u64) \<Rightarrow> (u64 \<Rightarrow> u64) \<times> u64" where
  "push_words ws sp m = foldl (\<lambda>(m, sp) w. (m(sp - 8 := w), sp - 8)) (m, sp) ws"

definition task_slot :: "kern \<Rightarrow> (kern \<times> int \<times> u64) option" where
  "task_slot k =
     (case first_index (\<lambda>t. \<not> t_used t) (take (nat (g_task_count k)) (g_tasks k)) of
        Some i \<Rightarrow> Some (k, int i, t_kernel_stack_top (g_tasks k ! i))
      | None \<Rightarrow>
          if g_task_count k \<ge> int MAX_TASKS then Some (k, -1, 0)
          else do {
            (h, stack_mem) \<leftarrow> kalloc (k_heap k) 16384;
            if stack_mem = 0 then Some (k\<lparr>k_heap := h\<rparr>, -1, 0)
            else Some (k\<lparr>k_heap := h, g_task_count := g_task_count k + 1\<rparr>, g_task_count k,
                       (stack_mem + 16384) AND NOT 15)
          })"

definition create_task_with_cr3 :: "u64 \<Rightarrow> u64 \<Rightarrow> kern \<Rightarrow> (kern \<times> int) option" where
  "create_task_with_cr3 entry cr3 k = do {
     (k1, index, stack_top) \<leftarrow> task_slot k;
     if index < 0 then Some (k1, -1)
     else do {
       let (m, sp) = push_words [entry, 0, 0, 0, 0, 0, 0] stack_top (k_stack k1);
       t \<leftarrow> slot_at (g_tasks k1) index;
       ts \<leftarrow> slot_put (g_tasks k1) index
              (t\<lparr>t_saved_rsp := sp, t_used := True, t_blocked := False, t_wake_tick := 0, t_cr3 := cr3,
                 t_ring3_entry := 0, t_ring3_stack_top := 0, t_process := -1, t_waiting_on := None,
                 t_kernel_stack_top := stack_top\<rparr>);
       Some (k1\<lparr>g_tasks := ts, k_stack := m\<rparr>, index)
     }
   }"

definition create_task :: "u64 \<Rightarrow> kern \<Rightarrow> (kern \<times> bool) option" where
  "create_task entry k = do {
     (k', i) \<leftarrow> create_task_with_cr3 entry (g_pml4_phys (hp_mm (k_heap k))) k;
     Some (k', i \<ge> 0)
   }"

definition create_isolated_task :: "u64 \<Rightarrow> kern \<Rightarrow> (kern \<times> bool) option" where
  "create_isolated_task entry k = do {
     (s, cr3) \<leftarrow> clone_address_space (hp_mm (k_heap k));
     let k1 = k\<lparr>k_heap := (k_heap k)\<lparr>hp_mm := s\<rparr>\<rparr>;
     if cr3 = 0 then Some (k1, False)
     else do { (k2, i) \<leftarrow> create_task_with_cr3 entry cr3 k1; Some (k2, i \<ge> 0) }
   }"

section \<open>Switching\<close>

definition wakes :: "kern \<Rightarrow> task \<Rightarrow> bool option" where
  "wakes k t = (case t_waiting_on t of
       Some f \<Rightarrow> flag_value k f
     | None \<Rightarrow> Some (g_tick_count k \<ge> t_wake_tick t))"

definition wake_candidate :: "kern \<Rightarrow> task \<Rightarrow> task option" where
  "wake_candidate k t =
     (if t_blocked t
      then map_option (\<lambda>w. if w then t\<lparr>t_blocked := False, t_waiting_on := None\<rparr> else t) (wakes k t)
      else Some t)"

fun yield_scan :: "nat \<Rightarrow> int \<Rightarrow> kern \<Rightarrow> (kern \<times> int) option" where
  "yield_scan 0 next k = Some (k, next)"
| "yield_scan (Suc n) next k =
     (let next' = (next + 1) mod g_task_count k
      in do {
        t \<leftarrow> slot_at (g_tasks k) next';
        if \<not> t_used t then yield_scan n next' k
        else do {
          t' \<leftarrow> wake_candidate k t;
          ts \<leftarrow> slot_put (g_tasks k) next' t';
          let k' = k\<lparr>g_tasks := ts\<rparr>;
          if \<not> t_blocked t' then Some (k', next') else yield_scan n next' k'
        }
      })"

definition yield :: "kern \<Rightarrow> kern option" where
  "yield k = do {
     let prev = g_current_task k;
     (k', next) \<leftarrow> yield_scan (nat (g_task_count k)) prev k;
     t \<leftarrow> slot_at (g_tasks k') next;
     if next = prev \<or> t_blocked t \<or> \<not> t_used t then Some k'
     else Some (k'\<lparr>g_current_task := next, k_cr3 := t_cr3 t,
                   k_tss_rsp0 := (if t_ring3_entry t \<noteq> 0 then t_kernel_stack_top t else k_tss_rsp0 k')\<rparr>)
   }"

section \<open>Blocking operations\<close>

text \<open>
  \<open>resume\<close> stands for the \<^verbatim>\<open>yield()\<close> inside a wait loop as the waiting task sees it: the switch away,
  whatever the other tasks do, and the switch back. The loops need not end, so they are partial.
\<close>

definition update_self :: "(task \<Rightarrow> task) \<Rightarrow> kern \<Rightarrow> kern option" where
  "update_self f k = do {
     t \<leftarrow> slot_at (g_tasks k) (g_current_task k);
     ts \<leftarrow> slot_put (g_tasks k) (g_current_task k) (f t);
     Some (k\<lparr>g_tasks := ts\<rparr>)
   }"

definition block_on :: "wait_flag \<Rightarrow> kern \<Rightarrow> kern option" where
  "block_on f = update_self (\<lambda>t. t\<lparr>t_blocked := True, t_waiting_on := Some f\<rparr>)"

partial_function (option) wait_loop :: "(kern \<Rightarrow> kern option) \<Rightarrow> wait_flag \<Rightarrow> kern \<Rightarrow> kern option" where
  "wait_loop resume f k = do {
     b \<leftarrow> flag_value k f;
     if b then Some k
     else do { k1 \<leftarrow> block_on f k; k2 \<leftarrow> resume k1; wait_loop resume f k2 }
   }"

definition event_wait :: "(kern \<Rightarrow> kern option) \<Rightarrow> int \<Rightarrow> kern \<Rightarrow> kern option" where
  "event_wait resume i k =
     (if i \<ge> 0 \<and> i < int EVENT_SLOTS then wait_loop resume (EventSignaled i) k else Some k)"

partial_function (option) thread_join :: "(kern \<Rightarrow> kern option) \<Rightarrow> int \<Rightarrow> kern \<Rightarrow> kern option" where
  "thread_join resume i k =
     (if i < 0 \<or> i \<ge> int MAX_TASKS then Some k
      else do {
        t \<leftarrow> slot_at (g_tasks k) i;
        if t_used t then do { k' \<leftarrow> resume k; thread_join resume i k' } else Some k
      })"

text \<open>One round of the lock loop: the test-and-set under disabled interrupts.\<close>

definition mutex_try_lock :: "int \<Rightarrow> kern \<Rightarrow> (kern \<times> bool) option" where
  "mutex_try_lock i k = do {
     m \<leftarrow> slot_at (g_mutexes k) i;
     if \<not> mx_locked m then do {
       ms \<leftarrow> slot_put (g_mutexes k) i (m\<lparr>mx_locked := True, mx_owner := g_current_task k\<rparr>);
       Some (k\<lparr>g_mutexes := ms\<rparr>, True)
     }
     else Some (k, False)
   }"

partial_function (option) mutex_lock_loop :: "(kern \<Rightarrow> kern option) \<Rightarrow> int \<Rightarrow> kern \<Rightarrow> kern option" where
  "mutex_lock_loop resume i k = do {
     (k', got) \<leftarrow> mutex_try_lock i k;
     if got then Some k' else do { k'' \<leftarrow> resume k'; mutex_lock_loop resume i k'' }
   }"

definition mutex_lock :: "(kern \<Rightarrow> kern option) \<Rightarrow> int \<Rightarrow> kern \<Rightarrow> kern option" where
  "mutex_lock resume i k =
     (if i < 0 \<or> i \<ge> int MUTEX_SLOTS then Some k else mutex_lock_loop resume i k)"

definition mutex_unlock :: "int \<Rightarrow> kern \<Rightarrow> kern option" where
  "mutex_unlock i k =
     (if i < 0 \<or> i \<ge> int MUTEX_SLOTS then Some k
      else do {
        m \<leftarrow> slot_at (g_mutexes k) i;
        ms \<leftarrow> slot_put (g_mutexes k) i (m\<lparr>mx_locked := False, mx_owner := -1\<rparr>);
        Some (k\<lparr>g_mutexes := ms\<rparr>)
      })"

definition timer_wait :: "(kern \<Rightarrow> kern option) \<Rightarrow> int \<Rightarrow> kern \<Rightarrow> kern option" where
  "timer_wait resume i k =
     (if i < 0 \<or> i \<ge> int TIMER_SLOTS then Some k
      else do {
        tm \<leftarrow> slot_at (g_timers k) i;
        k1 \<leftarrow> update_self (\<lambda>t. t\<lparr>t_blocked := True, t_waiting_on := None, t_wake_tick := tm_wake tm\<rparr>) k;
        resume k1
      })"

definition sleep_ticks :: "(kern \<Rightarrow> kern option) \<Rightarrow> u64 \<Rightarrow> kern \<Rightarrow> kern option" where
  "sleep_ticks resume ticks k = do {
     k1 \<leftarrow> update_self (\<lambda>t. t\<lparr>t_blocked := True, t_wake_tick := g_tick_count k + ticks\<rparr>) k;
     resume k1
   }"

definition channel_receive :: "(kern \<Rightarrow> kern option) \<Rightarrow> int \<Rightarrow> kern \<Rightarrow> (kern \<times> u64) option" where
  "channel_receive resume i k = do {
     k1 \<leftarrow> wait_loop resume (ChannelFull i) k;
     (cs, buf, len) \<leftarrow> channel_take_msg i (le64_encode 0) 8 (k_channels k1);
     Some (k1\<lparr>k_channels := cs\<rparr>, le64_decode buf)
   }"

definition channel_receive_msg ::
  "(kern \<Rightarrow> kern option) \<Rightarrow> int \<Rightarrow> u8 list \<Rightarrow> u32 \<Rightarrow> kern \<Rightarrow> (kern \<times> u8 list \<times> u32) option" where
  "channel_receive_msg resume i buf max_len k = do {
     k1 \<leftarrow> wait_loop resume (ChannelFull i) k;
     (cs, buf', len) \<leftarrow> channel_take_msg i buf max_len (k_channels k1);
     Some (k1\<lparr>k_channels := cs\<rparr>, buf', len)
   }"

definition io_request_wait :: "(kern \<Rightarrow> kern option) \<Rightarrow> int \<Rightarrow> kern \<Rightarrow> kern option" where
  "io_request_wait resume i = wait_loop resume (IoDone i)"

definition net_ping_request_wait :: "(kern \<Rightarrow> kern option) \<Rightarrow> int \<Rightarrow> kern \<Rightarrow> kern option" where
  "net_ping_request_wait resume i = wait_loop resume (PingDone i)"

definition net_tcp_request_wait :: "(kern \<Rightarrow> kern option) \<Rightarrow> int \<Rightarrow> kern \<Rightarrow> kern option" where
  "net_tcp_request_wait resume i = wait_loop resume (TcpDone i)"

definition wifi_request_wait :: "(kern \<Rightarrow> kern option) \<Rightarrow> int \<Rightarrow> kern \<Rightarrow> kern option" where
  "wifi_request_wait resume i = wait_loop resume (WifiDone i)"

section \<open>The scheduler picks the next ready task\<close>

definition ready :: "kern \<Rightarrow> task \<Rightarrow> bool" where
  "ready k t \<longleftrightarrow> t_used t \<and> (t_blocked t \<longrightarrow> wakes k t = Some True)"

definition woken :: "task \<Rightarrow> task" where
  "woken t = (if t_blocked t then t\<lparr>t_blocked := False, t_waiting_on := None\<rparr> else t)"

text \<open>
  The table has its size, the current task is one of the created ones, task 0 is live and never
  blocked, and every flag a task waits for exists.
\<close>

definition sched_inv :: "kern \<Rightarrow> bool" where
  "sched_inv k \<longleftrightarrow> length (g_tasks k) = MAX_TASKS \<and> 1 \<le> g_task_count k \<and>
     g_task_count k \<le> int MAX_TASKS \<and> 0 \<le> g_current_task k \<and> g_current_task k < g_task_count k \<and>
     t_used (g_tasks k ! 0) \<and> \<not> t_blocked (g_tasks k ! 0) \<and>
     (\<forall>t \<in> set (g_tasks k). wakes k t \<noteq> None)"

lemma flag_value_tasks [simp]:
  "flag_value (k\<lparr>g_tasks := ts\<rparr>) f = flag_value k f"
  "flag_value (k\<lparr>g_current_task := c, k_cr3 := a, k_tss_rsp0 := b\<rparr>) f = flag_value k f"
  by (cases f; simp add: flag_value_def)+

lemma wakes_tasks [simp]:
  "wakes (k\<lparr>g_tasks := ts\<rparr>) t = wakes k t"
  "wakes (k\<lparr>g_current_task := c, k_cr3 := a, k_tss_rsp0 := b\<rparr>) t = wakes k t"
  by (simp_all add: wakes_def split: option.split)

lemma wake_candidate_ready: "ready k t \<Longrightarrow> wake_candidate k t = Some (woken t)"
  by (auto simp: ready_def wake_candidate_def woken_def)

lemma wake_candidate_not_ready:
  "\<not> ready k t \<Longrightarrow> t_used t \<Longrightarrow> wakes k t \<noteq> None \<Longrightarrow> wake_candidate k t = Some t \<and> t_blocked t"
  unfolding ready_def wake_candidate_def by (cases "wakes k t") (simp_all split: if_splits)

lemma woken_not_blocked [simp]: "\<not> t_blocked (woken t)" "t_used (woken t) = t_used t"
  "t_cr3 (woken t) = t_cr3 t" "t_ring3_entry (woken t) = t_ring3_entry t"
  "t_kernel_stack_top (woken t) = t_kernel_stack_top t"
  by (simp_all add: woken_def)

lemma yield_scan_finds:
  assumes "length (g_tasks k) = MAX_TASKS" "g_task_count k = int c" "0 < c" "c \<le> MAX_TASKS"
    and "\<forall>t \<in> set (g_tasks k). wakes k t \<noteq> None"
    and "1 \<le> d" "d \<le> n" "ready k (g_tasks k ! ((s + d) mod c))"
    and "\<forall>e. 1 \<le> e \<and> e < d \<longrightarrow> \<not> ready k (g_tasks k ! ((s + e) mod c))"
  shows "yield_scan n (int s) k =
    Some (k\<lparr>g_tasks := (g_tasks k)[(s + d) mod c := woken (g_tasks k ! ((s + d) mod c))]\<rparr>,
          int ((s + d) mod c))"
  using assms(6-)
proof (induction n arbitrary: s d)
  case (Suc n)
  let ?j = "Suc s mod c"
  have j: "?j < MAX_TASKS" using assms(3,4) by (metis mod_less_divisor less_le_trans)
  have nx: "(int s + 1) mod g_task_count k = int ?j"
    using assms(2) by (simp add: zmod_int add.commute)
  have t: "wakes k (g_tasks k ! ?j) \<noteq> None" using assms(1,5) j nth_mem by metis
  show ?case
  proof (cases "d = 1")
    case True
    with Suc.prems(3) have r: "ready k (g_tasks k ! ?j)" by simp
    then show ?thesis
      using True j assms(1) by (simp add: nx ready_def wake_candidate_ready [OF r] Let_def)
  next
    case False
    with Suc.prems obtain d' where d: "d = Suc d'" and d': "1 \<le> d'" "d' \<le> n"
      by (cases d) auto
    have nr: "\<not> ready k (g_tasks k ! ?j)" using Suc.prems(4) [rule_format, of 1] False Suc.prems(1) by simp
    have shift: "(?j + e) mod c = (s + Suc e) mod c" for e
      by (simp add: mod_simps)
    have ih: "yield_scan n (int ?j) k =
        Some (k\<lparr>g_tasks := (g_tasks k)[(s + d) mod c := woken (g_tasks k ! ((s + d) mod c))]\<rparr>,
              int ((s + d) mod c))"
    proof -
      have "\<forall>e. 1 \<le> e \<and> e < d' \<longrightarrow> \<not> ready k (g_tasks k ! ((?j + e) mod c))"
      proof (intro allI impI)
        fix e
        assume "1 \<le> e \<and> e < d'"
        then show "\<not> ready k (g_tasks k ! ((?j + e) mod c))"
          using Suc.prems(4) [rule_format, of "Suc e"] d unfolding shift by simp
      qed
      moreover have "ready k (g_tasks k ! ((?j + d') mod c))" using Suc.prems(3) d unfolding shift by simp
      ultimately show ?thesis using Suc.IH [of d' ?j] d d' unfolding shift by simp
    qed
    show ?thesis
    proof (cases "t_used (g_tasks k ! ?j)")
      case True
      from wake_candidate_not_ready [OF nr True t] True ih show ?thesis
        using j assms(1) by (simp add: nx Let_def)
    next
      case False
      with ih show ?thesis using j assms(1) by (simp add: nx)
    qed
  qed
qed simp

lemma first_ready:
  assumes "sched_inv k" and "g_task_count k = int c" "g_current_task k = int s"
  shows "\<exists>d. 1 \<le> d \<and> d \<le> c \<and> ready k (g_tasks k ! ((s + d) mod c)) \<and>
    (\<forall>e. 1 \<le> e \<and> e < d \<longrightarrow> \<not> ready k (g_tasks k ! ((s + e) mod c)))"
proof -
  let ?P = "\<lambda>d. 1 \<le> d \<and> ready k (g_tasks k ! ((s + d) mod c))"
  have s: "s < c" using assms by (simp add: sched_inv_def)
  have "(s + (c - s)) mod c = 0" using s by simp
  moreover have "ready k (g_tasks k ! 0)" using assms(1) by (simp add: sched_inv_def ready_def)
  ultimately have P: "?P (c - s)" using s by simp
  let ?d = "LEAST d. ?P d"
  have "?P ?d" by (rule LeastI [of ?P, OF P])
  moreover have "?d \<le> c" using Least_le [of ?P, OF P] by linarith
  moreover have "\<forall>e. 1 \<le> e \<and> e < ?d \<longrightarrow> \<not> ready k (g_tasks k ! ((s + e) mod c))"
    using not_less_Least [of _ ?P] by blast
  ultimately show ?thesis by blast
qed

text \<open>
  \<open>runs_next k d k'\<close>: \<open>k'\<close> is \<open>k\<close> after switching to the task \<open>d\<close> places after the current one in
  cyclic order, with that task woken up and its address space loaded.
\<close>

definition nth_after :: "kern \<Rightarrow> nat \<Rightarrow> nat" where
  "nth_after k d = (nat (g_current_task k) + d) mod nat (g_task_count k)"

definition switched :: "kern \<Rightarrow> nat \<Rightarrow> kern" where
  "switched k j =
     (let t = g_tasks k ! j; k1 = k\<lparr>g_tasks := (g_tasks k)[j := woken t]\<rparr>
      in if int j = g_current_task k then k1
         else k1\<lparr>g_current_task := int j, k_cr3 := t_cr3 t,
                 k_tss_rsp0 := (if t_ring3_entry t \<noteq> 0 then t_kernel_stack_top t else k_tss_rsp0 k)\<rparr>)"

lemma sched_inv_nats:
  assumes "sched_inv k"
  obtains c s where "g_task_count k = int c" "g_current_task k = int s" "0 < c" "c \<le> MAX_TASKS" "s < c"
  using assms that [of "nat (g_task_count k)" "nat (g_current_task k)"] by (auto simp: sched_inv_def)

lemma yield_switches:
  assumes inv: "sched_inv k"
  shows "\<exists>d. 1 \<le> d \<and> d \<le> nat (g_task_count k) \<and> ready k (g_tasks k ! nth_after k d) \<and>
    (\<forall>e. 1 \<le> e \<and> e < d \<longrightarrow> \<not> ready k (g_tasks k ! nth_after k e)) \<and>
    yield k = Some (switched k (nth_after k d))"
proof -
  from inv obtain c s where cs: "g_task_count k = int c" "g_current_task k = int s" "0 < c" "c \<le> MAX_TASKS" "s < c"
    by (rule sched_inv_nats)
  from first_ready [OF inv cs(1,2)] obtain d where d: "1 \<le> d" "d \<le> c"
    "ready k (g_tasks k ! ((s + d) mod c))"
    "\<forall>e. 1 \<le> e \<and> e < d \<longrightarrow> \<not> ready k (g_tasks k ! ((s + e) mod c))" by blast
  have na: "nth_after k e = (s + e) mod c" for e by (simp add: nth_after_def cs)
  let ?j = "(s + d) mod c"
  have j: "?j < MAX_TASKS" using cs(3,4) by (metis mod_less_divisor less_le_trans)
  have len: "length (g_tasks k) = MAX_TASKS" and fl: "\<forall>t \<in> set (g_tasks k). wakes k t \<noteq> None"
    using inv by (auto simp: sched_inv_def)
  have scan: "yield_scan c (int s) k =
    Some (k\<lparr>g_tasks := (g_tasks k)[?j := woken (g_tasks k ! ?j)]\<rparr>, int ?j)"
    by (rule yield_scan_finds [OF len cs(1,3,4) fl d(1,2,3,4)])
  have "t_used (g_tasks k ! ?j)" using d(3) by (simp add: ready_def)
  with scan j len have "yield k = Some (switched k ?j)"
    by (simp add: yield_def cs Let_def switched_def)
  with d show ?thesis by (intro exI [of _ d]) (simp add: na cs)
qed

lemma switched_inv:
  assumes inv: "sched_inv k" and j: "j < nat (g_task_count k)" and r: "ready k (g_tasks k ! j)"
  shows "sched_inv (switched k j)" "g_current_task (switched k j) = int j"
    "g_task_count (switched k j) = g_task_count k"
proof -
  have "wakes k (woken t) \<noteq> None" if "wakes k t \<noteq> None" for t
    using that by (simp add: woken_def wakes_def)
  moreover have "\<forall>t \<in> set (g_tasks k). wakes k t \<noteq> None" and "j < length (g_tasks k)"
    using inv j by (auto simp: sched_inv_def)
  ultimately have w: "\<forall>t \<in> set ((g_tasks k)[j := woken (g_tasks k ! j)]). wakes k t \<noteq> None"
    by (auto dest!: set_update_subset_insert [THEN subsetD])
  have "t_used ((g_tasks k)[j := woken (g_tasks k ! j)] ! 0)"
    "\<not> t_blocked ((g_tasks k)[j := woken (g_tasks k ! j)] ! 0)"
    using inv by (cases j; auto simp: sched_inv_def)+
  with inv j w show "sched_inv (switched k j)"
    by (auto simp: sched_inv_def switched_def Let_def)
qed (simp_all add: switched_def Let_def)

section \<open>Progress\<close>

text \<open>How many places the task \<open>t\<close> is behind the task \<open>s\<close> in a table of \<open>n\<close> tasks.\<close>

definition behind :: "nat \<Rightarrow> nat \<Rightarrow> nat \<Rightarrow> nat" where
  "behind n s t = (t + n - s) mod n"

lemma behind_step:
  assumes "s < n" "t < n" "s \<noteq> t" "1 \<le> d" "d \<le> behind n s t"
  shows "behind n ((s + d) mod n) t = behind n s t - d"
proof (cases "s < t")
  case True
  then have D: "behind n s t = t - s" using assms by (simp add: behind_def mod_if)
  with True assms have "(s + d) mod n = s + d" by simp
  with D True assms show ?thesis by (simp add: behind_def mod_if)
next
  case False
  then have D: "behind n s t = t + n - s" using assms by (simp add: behind_def)
  show ?thesis
  proof (cases "s + d < n")
    case True
    with D False assms show ?thesis by (simp add: behind_def mod_if)
  next
    case big: False
    then have "(s + d) mod n = s + d - n" using assms D by (simp add: mod_if)
    moreover have "t + n - (s + d - n) = n + (t + n - (s + d))" "t + n - (s + d) < n"
      using big D False assms by linarith+
    ultimately have "behind n ((s + d) mod n) t = (n + (t + n - (s + d))) mod n" "t + n - (s + d) < n"
      unfolding behind_def by metis+
    then show ?thesis unfolding D mod_add_self1 by simp
  qed
qed

lemma behind_reaches: "s < n \<Longrightarrow> t < n \<Longrightarrow> (s + behind n s t) mod n = t"
  by (simp add: behind_def mod_simps)

lemma behind_zero: "s < n \<Longrightarrow> t < n \<Longrightarrow> behind n s t = 0 \<longleftrightarrow> s = t"
  by (auto simp: behind_def mod_if split: if_splits)

lemma yield_approaches:
  assumes inv: "sched_inv k" and n: "g_task_count k = int n" and t: "t < n"
    and r: "ready k (g_tasks k ! t)" and s: "g_current_task k = int s" "s \<noteq> t"
  shows "\<exists>k' s'. yield k = Some k' \<and> g_current_task k' = int s' \<and> s' < n \<and>
    behind n s' t < behind n s t"
proof -
  from inv n s have sn: "s < n" by (simp add: sched_inv_def)
  have na: "nth_after k e = (s + e) mod n" for e by (simp add: nth_after_def n s)
  from yield_switches [OF inv] obtain d where d: "1 \<le> d" "ready k (g_tasks k ! ((s + d) mod n))"
    "\<forall>e. 1 \<le> e \<and> e < d \<longrightarrow> \<not> ready k (g_tasks k ! ((s + e) mod n))"
    "yield k = Some (switched k ((s + d) mod n))" by (auto simp: na)
  have pos: "0 < behind n s t" using behind_zero [OF sn t] s(2) by simp
  have "\<not> behind n s t < d"
  proof
    assume "behind n s t < d"
    then have "\<not> ready k (g_tasks k ! ((s + behind n s t) mod n))" using d(3) pos by simp
    then show False using r by (simp add: behind_reaches [OF sn t])
  qed
  then have "behind n ((s + d) mod n) t = behind n s t - d"
    by (intro behind_step sn t s(2) d(1)) simp
  moreover have "(s + d) mod n < nat (g_task_count k)" using t n by simp
  note switched_inv(2) [OF inv this d(2)]
  ultimately show ?thesis using d(1,4) pos t
    by (intro exI [of _ "switched k ((s + d) mod n)"] exI [of _ "(s + d) mod n"]) simp
qed

lemma trace_reaches:
  assumes inv: "\<And>i. sched_inv (K i)" and n: "\<And>i. g_task_count (K i) = int n" and t: "t < n"
    and r: "\<And>i. ready (K i) (g_tasks (K i) ! t)"
    and st: "\<And>i. \<exists>k'. yield (K i) = Some k' \<and> g_current_task (K (Suc i)) = g_current_task k'"
    and s: "g_current_task (K i) = int s"
  shows "\<exists>j. i \<le> j \<and> j \<le> i + behind n s t \<and> g_current_task (K j) = int t"
  using s
proof (induction "behind n s t" arbitrary: i s rule: less_induct)
  case less
  show ?case
  proof (cases "s = t")
    case True
    with less.prems show ?thesis by (intro exI [of _ i]) simp
  next
    case False
    from yield_approaches [OF inv n t r less.prems False] obtain k' s'
      where y: "yield (K i) = Some k'" "g_current_task k' = int s'" "behind n s' t < behind n s t" by blast
    from st [of i] y have "g_current_task (K (Suc i)) = int s'" by auto
    from less.hyps [OF y(3) this] obtain j where "Suc i \<le> j" "j \<le> Suc i + behind n s' t"
      "g_current_task (K j) = int t" by blast
    with y(3) show ?thesis by (intro exI [of _ j]) simp
  qed
qed

section \<open>Mutual exclusion\<close>

text \<open>
  The steps of a system in which tasks lock and unlock mutexes and the scheduler runs. The ghost
  set \<open>H\<close> holds the tasks that have acquired mutex \<open>i\<close> and not released it; only a task in \<open>H\<close>
  unlocks it.
\<close>

inductive mutex_step :: "int \<Rightarrow> kern \<times> int set \<Rightarrow> kern \<times> int set \<Rightarrow> bool" for i where
  acquire: "mutex_try_lock i k = Some (k', True) \<Longrightarrow> mutex_step i (k, H) (k', insert (g_current_task k) H)"
| contend: "mutex_try_lock i k = Some (k', False) \<Longrightarrow> mutex_step i (k, H) (k', H)"
| release: "g_current_task k \<in> H \<Longrightarrow> mutex_unlock i k = Some k' \<Longrightarrow> mutex_step i (k, H) (k', H - {g_current_task k})"
| other_lock: "j \<noteq> i \<Longrightarrow> mutex_try_lock j k = Some (k', b) \<Longrightarrow> mutex_step i (k, H) (k', H)"
| other_unlock: "j \<noteq> i \<Longrightarrow> mutex_unlock j k = Some k' \<Longrightarrow> mutex_step i (k, H) (k', H)"
| switch: "yield k = Some k' \<Longrightarrow> mutex_step i (k, H) (k', H)"

inductive mutex_reach :: "int \<Rightarrow> kern \<times> int set \<Rightarrow> kern \<times> int set \<Rightarrow> bool" for i s where
  start: "mutex_reach i s s"
| step: "mutex_reach i s t \<Longrightarrow> mutex_step i t u \<Longrightarrow> mutex_reach i s u"

definition exclusive :: "nat \<Rightarrow> kern \<times> int set \<Rightarrow> bool" where
  "exclusive i = (\<lambda>(k, H). i < length (g_mutexes k) \<and>
     (if mx_locked (g_mutexes k ! i) then H = {mx_owner (g_mutexes k ! i)} else H = {}))"

lemma yield_scan_mutexes: "yield_scan n s k = Some (k', j) \<Longrightarrow> g_mutexes k' = g_mutexes k"
proof (induction n arbitrary: s k)
  case (Suc n)
  from Suc.prems show ?case
    by (auto simp: bind_eq_Some_conv Let_def split: if_splits dest!: Suc.IH)
qed simp

lemma yield_mutexes: "yield k = Some k' \<Longrightarrow> g_mutexes k' = g_mutexes k"
  by (auto simp: yield_def bind_eq_Some_conv Let_def split: if_splits dest!: yield_scan_mutexes)

lemma mutex_try_lock_cases:
  assumes "mutex_try_lock j k = Some (k', b)"
  obtains p where "j = int p" "p < length (g_mutexes k)" "b = (\<not> mx_locked (g_mutexes k ! p))"
    "b \<longrightarrow> k' = k\<lparr>g_mutexes := (g_mutexes k)
        [p := (g_mutexes k ! p)\<lparr>mx_locked := True, mx_owner := g_current_task k\<rparr>]\<rparr>"
    "\<not> b \<longrightarrow> k' = k"
proof -
  from assms obtain m where "slot_at (g_mutexes k) j = Some m"
    by (auto simp: mutex_try_lock_def bind_eq_Some_conv)
  from slot_at_SomeD [OF this] obtain p where "j = int p" "p < length (g_mutexes k)" by blast
  with assms show ?thesis
    by (intro that [of p]) (auto simp: mutex_try_lock_def split: if_splits)
qed

lemma mutex_unlock_cases:
  assumes "mutex_unlock j k = Some k'"
  obtains "k' = k" "j < 0 \<or> j \<ge> int MUTEX_SLOTS"
  | p where "j = int p" "p < length (g_mutexes k)"
    "k' = k\<lparr>g_mutexes := (g_mutexes k)[p := (g_mutexes k ! p)\<lparr>mx_locked := False, mx_owner := -1\<rparr>]\<rparr>"
proof (cases "j < 0 \<or> j \<ge> int MUTEX_SLOTS")
  case True
  with assms show ?thesis by (intro that(1)) (auto simp: mutex_unlock_def)
next
  case False
  with assms obtain m where "slot_at (g_mutexes k) j = Some m"
    by (auto simp: mutex_unlock_def bind_eq_Some_conv)
  from slot_at_SomeD [OF this] obtain p where "j = int p" "p < length (g_mutexes k)" by blast
  with assms False show ?thesis
    by (intro that(2) [of p]) (auto simp: mutex_unlock_def)
qed

lemma exclusive_step:
  assumes "mutex_step (int i) s t" and "i < MUTEX_SLOTS" and "exclusive i s"
  shows "exclusive i t"
  using assms
proof (induction rule: mutex_step.induct)
  case (acquire k k' H)
  from acquire.hyps show ?case
    by (rule mutex_try_lock_cases) (use acquire.prems in \<open>auto simp: exclusive_def\<close>)
next
  case (contend k k' H)
  from contend.hyps show ?case
    by (rule mutex_try_lock_cases) (use contend.prems in auto)
next
  case (release k H k')
  from release.hyps(2) show ?case
    by (rule mutex_unlock_cases) (use release.hyps(1) release.prems in \<open>auto simp: exclusive_def split: if_splits\<close>)
next
  case (other_lock j k k' b H)
  from other_lock.hyps(2) show ?case
    by (rule mutex_try_lock_cases)
      (use other_lock.hyps(1) other_lock.prems in \<open>cases b; auto simp: exclusive_def\<close>)
next
  case (other_unlock j k k' H)
  from other_unlock.hyps(2) show ?case
    by (rule mutex_unlock_cases)
      (use other_unlock.hyps(1) other_unlock.prems in \<open>auto simp: exclusive_def\<close>)
next
  case (switch k k' H)
  then show ?case by (simp add: exclusive_def yield_mutexes)
qed

lemma exclusive_reach:
  assumes "mutex_reach (int i) s t" and "i < MUTEX_SLOTS" and "exclusive i s"
  shows "exclusive i t"
  using assms by (induction rule: mutex_reach.induct) (auto intro: exclusive_step)

section \<open>Properties\<close>

definition sample_task :: "bool \<Rightarrow> task" where
  "sample_task u = \<lparr>t_saved_rsp = 0, t_used = u, t_blocked = False, t_wake_tick = 0, t_cr3 = 0x1000,
     t_ring3_entry = 0, t_ring3_stack_top = 0, t_process = -1, t_waiting_on = None, t_kernel_stack_top = 0\<rparr>"

definition sample_heap :: heap where
  "sample_heap = \<lparr>hp_mm = \<lparr>pm = (\<lambda>a. 0),
       mm_frames = \<lparr>frame_bitmap = [], total_frames = 0, free_frame_count = 0\<rparr>,
       mm_cow = [], mm_shm = [], g_pml4_phys = 0x1000\<rparr>,
     hdr = (\<lambda>a. \<lparr>bsize = 0, bfree = False\<rparr>), g_heap_size = 0, g_heap_cap = 0, g_heap_inited = False\<rparr>"

definition sample_kern :: "int \<Rightarrow> kern" where
  "sample_kern cur = \<lparr>g_tasks = sample_task True # sample_task True # replicate 22 (sample_task False),
     g_task_count = 2, g_current_task = cur, g_tick_count = 0, k_channels = sample_channels,
     g_events = [], g_mutexes = replicate 8 \<lparr>mx_used = True, mx_locked = False, mx_owner = -1\<rparr>,
     g_timers = [], g_io_requests = [], g_net_ping_requests = [], g_net_tcp_requests = [],
     g_wifi_requests = [],
     k_heap = sample_heap,
     k_objects = \<lparr>g_objects = replicate 32 \<lparr>obj_used = False, obj_type = 0, obj_data = 0\<rparr>, g_object_count = 0,
       g_handle_tables = replicate 8 (replicate 8 \<lparr>h_used = False, h_object = 0, h_rights = 0\<rparr>)\<rparr>,
     g_pipes = replicate 4 sample_pipe,
     g_processes = replicate 8 \<lparr>p_used = False, p_cr3 = 0, p_task = 0, p_uid = 0, p_main_stack = 0, p_next_thread_stack = 0\<rparr>,
     g_process_count = 0,
     g_sandbox_policies = replicate 8 \<lparr>sp_used = False, sp_denied_low = 0, sp_denied_high = 0\<rparr>,
     k_phys = (\<lambda>a. 0), k_stack = (\<lambda>a. 0), k_cr3 = 0x1000, k_tss_rsp0 = 0\<rparr>"

lemma sample_kern_inv [simp]: "cur = 0 \<or> cur = 1 \<Longrightarrow> sched_inv (sample_kern cur)"
  by (auto simp: sched_inv_def sample_kern_def sample_task_def wakes_def)



text \<open>
  C9. No ready task starves. Along any run in which the current task yields again and again, while
  the other tasks change the rest of the state as they like, a task that stays ready becomes the
  current task before as many switches as there are tasks.
\<close>

theorem yield_starvation_free:
  assumes "\<And>i. sched_inv (K i)" and "\<And>i. g_task_count (K i) = int n" and "t < n"
    and "\<And>i. ready (K i) (g_tasks (K i) ! t)"
    and "\<And>i. \<exists>k'. yield (K i) = Some k' \<and> g_current_task (K (Suc i)) = g_current_task k'"
  shows "\<exists>i < n. g_current_task (K i) = int t"
proof -
  from assms(1) [of 0] assms(2) [of 0] obtain s where s: "g_current_task (K 0) = int s"
    by (metis sched_inv_nats)
  from trace_reaches [OF assms s] obtain j where "j \<le> behind n s t" "g_current_task (K j) = int t"
    by auto
  moreover have "behind n s t < n" using assms(3) by (simp add: behind_def)
  ultimately show ?thesis by (intro exI [of _ j]) simp
qed

lemma sample_yield:
  "\<exists>k'. yield (sample_kern 0) = Some k' \<and> g_current_task k' = 1"
  "\<exists>k'. yield (sample_kern 1) = Some k' \<and> g_current_task k' = 0"
proof -
  have n: "nat (g_task_count (sample_kern c)) = Suc (Suc 0)" for c by (simp add: sample_kern_def)
  show "\<exists>k'. yield (sample_kern 0) = Some k' \<and> g_current_task k' = 1"
    "\<exists>k'. yield (sample_kern 1) = Some k' \<and> g_current_task k' = 0"
    by (simp_all only: yield_def n yield_scan.simps)
      (simp_all add: sample_kern_def sample_task_def wake_candidate_def Let_def slot_at_def slot_put_def)
qed

theorem yield_starvation_free_witness:
  "\<exists>i < 2. g_current_task (sample_kern (int (i mod 2))) = int 1"
proof (rule yield_starvation_free [where K = "\<lambda>i. sample_kern (int (i mod 2))"])
  fix i :: nat
  have c: "i mod 2 = 0 \<and> Suc i mod 2 = 1 \<or> i mod 2 = 1 \<and> Suc i mod 2 = 0" by presburger
  then show "sched_inv (sample_kern (int (i mod 2)))" by auto
  show "g_task_count (sample_kern (int (i mod 2))) = int 2" by (simp add: sample_kern_def)
  show "ready (sample_kern (int (i mod 2))) (g_tasks (sample_kern (int (i mod 2))) ! 1)"
    by (simp add: sample_kern_def sample_task_def ready_def)
  from c show "\<exists>k'. yield (sample_kern (int (i mod 2))) = Some k' \<and>
      g_current_task (sample_kern (int (Suc i mod 2))) = g_current_task k'"
    using sample_yield by (auto simp: sample_kern_def)
qed simp


definition sample_locked :: kern where
  "sample_locked = (sample_kern 1)\<lparr>g_mutexes := (g_mutexes (sample_kern 1))
     [3 := \<lparr>mx_used = True, mx_locked = True, mx_owner = 1\<rparr>]\<rparr>"


text \<open>
  Unlocking ignores ownership. Whatever task runs, unlocking a mutex that another task holds
  succeeds, and the running task can then acquire it although its owner has not released it.
\<close>

theorem mutex_unlock_ignores_owner:
  assumes "i < MUTEX_SLOTS" and "length (g_mutexes k) = MUTEX_SLOTS"
    and "mx_locked (g_mutexes k ! i)" and "mx_owner (g_mutexes k ! i) \<noteq> g_current_task k"
  shows "\<exists>k1 k2. mutex_try_lock (int i) k = Some (k, False) \<and> mutex_unlock (int i) k = Some k1 \<and>
    mutex_try_lock (int i) k1 = Some (k2, True) \<and> mx_owner (g_mutexes k2 ! i) = g_current_task k"
  using assms by (simp add: mutex_unlock_def mutex_try_lock_def)

theorem mutex_unlock_ignores_owner_witness:
  "\<exists>k1 k2. mutex_try_lock (int 3) (sample_locked\<lparr>g_current_task := 0\<rparr>) =
      Some (sample_locked\<lparr>g_current_task := 0\<rparr>, False) \<and>
    mutex_unlock (int 3) (sample_locked\<lparr>g_current_task := 0\<rparr>) = Some k1 \<and>
    mutex_try_lock (int 3) k1 = Some (k2, True) \<and>
    mx_owner (g_mutexes k2 ! 3) = g_current_task (sample_locked\<lparr>g_current_task := 0\<rparr>)"
  by (rule mutex_unlock_ignores_owner) (simp_all add: sample_locked_def sample_kern_def)

end
