(* ===== verification/Syscalls.thy ===== *)
theory Syscalls
  imports Sched
begin

text \<open>
  System-call handlers (\<^verbatim>\<open>src/kernel/syscall/handlers/\<close>): handle management (\<^verbatim>\<open>core.c\<close>), channels
  (\<^verbatim>\<open>channel.c\<close>), pipes (\<^verbatim>\<open>pipe.c\<close>), events, mutexes and timers (\<^verbatim>\<open>sync.c\<close>), shared memory
  (\<^verbatim>\<open>shm.c\<close>), threads (\<^verbatim>\<open>thread.c\<close>) and the part of \<^verbatim>\<open>process.c\<close> that does not load programs. A handler
  takes the kernel state and the three argument registers and returns the new state with the result
  register; \<open>failed\<close> is the \<^verbatim>\<open>(u64) -1\<close> exit. \<open>resume\<close> is the view a blocking call has of \<^verbatim>\<open>yield\<close>, as in
  the scheduler theory.
\<close>

section \<open>Arguments, results and user memory\<close>

text \<open>\<^verbatim>\<open>(int) a\<close> for a \<^verbatim>\<open>u64\<close>: the low 32 bits, sign-extended.\<close>

definition c_int :: "u64 \<Rightarrow> int" where
  "c_int a = sint (ucast a :: u32)"

definition failed :: "kern \<Rightarrow> (kern \<times> u64) option" where
  "failed k = Some (k, -1)"

definition caller_process :: "kern \<Rightarrow> int option" where
  "caller_process k = map_option t_process (slot_at (g_tasks k) (g_current_task k))"

text \<open>
  Ring 0 dereferences a user pointer under the caller's CR3: the first gigabyte is identity mapped,
  the rest goes through the page tables.
\<close>

definition cpu_translate :: "kern \<Rightarrow> u64 \<Rightarrow> u64 option" where
  "cpu_translate k a =
     (if a < 0x40000000 then Some a
      else let p = translate_in (hp_mm (k_heap k)) (k_cr3 k) a in if p = 0 then None else Some p)"

fun read_mem :: "kern \<Rightarrow> u64 \<Rightarrow> nat \<Rightarrow> u8 list option" where
  "read_mem k a 0 = Some []"
| "read_mem k a (Suc n) = do { p \<leftarrow> cpu_translate k a; bs \<leftarrow> read_mem k (a + 1) n; Some (k_phys k p # bs) }"

fun write_mem :: "u64 \<Rightarrow> u8 list \<Rightarrow> kern \<Rightarrow> kern option" where
  "write_mem a [] k = Some k"
| "write_mem a (b # bs) k = do { p \<leftarrow> cpu_translate k a; write_mem (a + 1) bs (k\<lparr>k_phys := (k_phys k)(p := b)\<rparr>) }"

text \<open>The checks that open every call on an existing handle; \<open>f\<close> gets the caller and the object's data index.\<close>

definition with_handle ::
  "kern \<Rightarrow> u64 \<Rightarrow> int \<Rightarrow> int \<Rightarrow> (int \<Rightarrow> int \<Rightarrow> (kern \<times> u64) option) \<Rightarrow> (kern \<times> u64) option" where
  "with_handle k a need type f = do {
     p \<leftarrow> caller_process k;
     g \<leftarrow> handle_grants (k_objects k) p (c_int a) need type;
     case g of None \<Rightarrow> failed k | Some d \<Rightarrow> f p d
   }"

text \<open>
  A new object with a handle for process \<open>p\<close>; \<open>cleanup\<close> says whether the object is released when the
  handle table is full.
\<close>

definition grant_new :: "bool \<Rightarrow> int \<Rightarrow> int \<Rightarrow> int \<Rightarrow> int \<Rightarrow> kern \<Rightarrow> (kern \<times> u64) option" where
  "grant_new cleanup type data rts p k =
     (let (os, ob) = alloc_object type data (k_objects k); k1 = k\<lparr>k_objects := os\<rparr>
      in if ob < 0 then failed k1
         else do {
           (os', h) \<leftarrow> alloc_handle p ob rts os;
           if h < 0 then
             (if cleanup then do { os'' \<leftarrow> free_object ob os'; failed (k\<lparr>k_objects := os''\<rparr>) }
              else failed (k\<lparr>k_objects := os'\<rparr>))
           else Some (k\<lparr>k_objects := os'\<rparr>, word_of_int h)
         })"

section \<open>Handles: calls 13, 83 and 84\<close>

definition used_handle :: "kern \<Rightarrow> int \<Rightarrow> int \<Rightarrow> handle option option" where
  "used_handle k p h =
     (if h < 0 \<or> h \<ge> int HANDLES_PER_PROCESS then Some None
      else do { hn \<leftarrow> handle_at (k_objects k) p h; Some (if h_used hn then Some hn else None) })"

definition sys_handle_close :: "u64 \<Rightarrow> kern \<Rightarrow> (kern \<times> u64) option" where
  "sys_handle_close a1 k = do {
     p \<leftarrow> caller_process k;
     if p < 0 then failed k
     else do {
       g \<leftarrow> used_handle k p (c_int a1);
       case g of None \<Rightarrow> failed k
       | Some hn \<Rightarrow> do {
           os \<leftarrow> free_object (h_object hn) (k_objects k);
           os' \<leftarrow> free_handle p (c_int a1) os;
           Some (k\<lparr>k_objects := os'\<rparr>, 0)
         }
     }
   }"

text \<open>The process behind a task number, or a negative value.\<close>

definition target_process :: "kern \<Rightarrow> int \<Rightarrow> int option" where
  "target_process k t =
     (if t < 0 \<or> t \<ge> int MAX_TASKS then Some (-1) else map_option t_process (slot_at (g_tasks k) t))"

definition sys_handle_grant :: "u64 \<Rightarrow> u64 \<Rightarrow> kern \<Rightarrow> (kern \<times> u64) option" where
  "sys_handle_grant a1 a2 k = do {
     p \<leftarrow> caller_process k;
     if p < 0 then failed k
     else do {
       g \<leftarrow> used_handle k p (c_int a1);
       case g of None \<Rightarrow> failed k
       | Some hn \<Rightarrow> do {
           q \<leftarrow> target_process k (c_int a2);
           if q < 0 then failed k
           else do {
             (os, h) \<leftarrow> alloc_handle q (h_object hn) (h_rights hn) (k_objects k);
             Some (k\<lparr>k_objects := os\<rparr>, if h < 0 then -1 else word_of_int h)
           }
         }
     }
   }"

fun all_used :: "kern \<Rightarrow> int \<Rightarrow> int list \<Rightarrow> bool option" where
  "all_used k p [] = Some True"
| "all_used k p (h # hs) = do {
     g \<leftarrow> used_handle k p h;
     case g of None \<Rightarrow> Some False | Some _ \<Rightarrow> all_used k p hs
   }"

fun grant_all :: "int \<Rightarrow> int \<Rightarrow> int list \<Rightarrow> objects \<Rightarrow> (objects \<times> bool) option" where
  "grant_all p q [] os = Some (os, True)"
| "grant_all p q (h # hs) os = do {
     hn \<leftarrow> handle_at os p h;
     (os', r) \<leftarrow> alloc_handle q (h_object hn) (h_rights hn) os;
     if r < 0 then Some (os', False) else grant_all p q hs os'
   }"

definition sys_handle_grant3 :: "u64 \<Rightarrow> u64 \<Rightarrow> u64 \<Rightarrow> kern \<Rightarrow> (kern \<times> u64) option" where
  "sys_handle_grant3 a1 a2 a3 k = do {
     p \<leftarrow> caller_process k;
     if p < 0 then failed k
     else do {
       q \<leftarrow> target_process k (c_int a3);
       if q < 0 then failed k
       else do {
         let hs = [c_int a1, c_int (drop_bit 32 a2), c_int (a2 AND 0xFFFFFFFF)];
         ok \<leftarrow> all_used k p hs;
         if \<not> ok then failed k
         else do {
           (os, ok) \<leftarrow> grant_all p q hs (k_objects k);
           Some (k\<lparr>k_objects := os\<rparr>, if ok then 0 else -1)
         }
       }
     }
   }"

section \<open>Channels: calls 7, 8, 9, 85 and 86\<close>

definition sys_channel_send :: "u64 \<Rightarrow> u64 \<Rightarrow> kern \<Rightarrow> (kern \<times> u64) option" where
  "sys_channel_send a1 a2 k =
     with_handle k a1 RIGHT_SEND OBJ_CHANNEL (\<lambda>p i. do {
       (cs, ok) \<leftarrow> channel_send i a2 (k_channels k);
       Some (k\<lparr>k_channels := cs\<rparr>, if ok then 0 else -1)
     })"

definition sys_channel_receive :: "(kern \<Rightarrow> kern option) \<Rightarrow> u64 \<Rightarrow> kern \<Rightarrow> (kern \<times> u64) option" where
  "sys_channel_receive resume a1 k =
     with_handle k a1 RIGHT_RECEIVE OBJ_CHANNEL (\<lambda>p i. channel_receive resume i k)"

definition sys_channel_open :: "u64 \<Rightarrow> kern \<Rightarrow> (kern \<times> u64) option" where
  "sys_channel_open a1 k = do {
     p \<leftarrow> caller_process k;
     if p < 0 then failed k
     else if c_int a1 < 0 \<or> c_int a1 \<ge> g_channel_count (k_channels k) then failed k
     else grant_new False OBJ_CHANNEL (c_int a1) RIGHT_RECEIVE p k
   }"

definition sys_channel_send_msg :: "u64 \<Rightarrow> u64 \<Rightarrow> u64 \<Rightarrow> kern \<Rightarrow> (kern \<times> u64) option" where
  "sys_channel_send_msg a1 a2 a3 k =
     with_handle k a1 RIGHT_SEND OBJ_CHANNEL (\<lambda>p i.
       let len = ucast a3 :: u32
       in if unat len > CHANNEL_MSG_MAX then failed k
          else do {
            full \<leftarrow> channel_has_message i (k_channels k);
            data \<leftarrow> (if full then Some [] else read_mem k a2 (unat len));
            (cs, ok) \<leftarrow> channel_send_msg i data len (k_channels k);
            Some (k\<lparr>k_channels := cs\<rparr>, if ok then 0 else -1)
          })"

definition sys_channel_receive_msg ::
  "(kern \<Rightarrow> kern option) \<Rightarrow> u64 \<Rightarrow> u64 \<Rightarrow> u64 \<Rightarrow> kern \<Rightarrow> (kern \<times> u64) option" where
  "sys_channel_receive_msg resume a1 a2 a3 k =
     with_handle k a1 RIGHT_RECEIVE OBJ_CHANNEL (\<lambda>p i. do {
       let max_len = (ucast a3 :: u32);
       (k', buf, got) \<leftarrow> channel_receive_msg resume i (replicate CHANNEL_MSG_MAX 0) max_len k;
       k'' \<leftarrow> write_mem a2 (take (min (unat got) (unat max_len)) buf) k';
       Some (k'', ucast got)
     })"

definition syscall_channel ::
  "(kern \<Rightarrow> kern option) \<Rightarrow> u64 \<Rightarrow> u64 \<Rightarrow> u64 \<Rightarrow> u64 \<Rightarrow> kern \<Rightarrow> (kern \<times> u64) option option" where
  "syscall_channel resume num a1 a2 a3 k =
     (if num = 7 then Some (sys_channel_send a1 a2 k)
      else if num = 8 then Some (sys_channel_receive resume a1 k)
      else if num = 9 then Some (sys_channel_open a1 k)
      else if num = 85 then Some (sys_channel_send_msg a1 a2 a3 k)
      else if num = 86 then Some (sys_channel_receive_msg resume a1 a2 a3 k)
      else None)"

section \<open>Pipes: calls 52, 53 and 54\<close>

definition sys_pipe_open :: "u64 \<Rightarrow> u64 \<Rightarrow> kern \<Rightarrow> (kern \<times> u64) option" where
  "sys_pipe_open a1 a2 k = do {
     p \<leftarrow> caller_process k;
     if p < 0 then failed k
     else grant_new True OBJ_PIPE (c_int a1) (if a2 \<noteq> 0 then RIGHT_SEND else RIGHT_RECEIVE) p k
   }"

definition sys_pipe_write :: "u64 \<Rightarrow> u64 \<Rightarrow> u64 \<Rightarrow> kern \<Rightarrow> (kern \<times> u64) option" where
  "sys_pipe_write a1 a2 a3 k =
     with_handle k a1 RIGHT_SEND OBJ_PIPE (\<lambda>p i. do {
       let len = (ucast a3 :: u32);
       pb \<leftarrow> slot_at (g_pipes k) i;
       data \<leftarrow> read_mem k a2 (min (unat len) (unat (256 - pi_count pb)));
       (ps, n) \<leftarrow> pipe_write i data len (g_pipes k);
       Some (k\<lparr>g_pipes := ps\<rparr>, ucast n)
     })"

definition sys_pipe_read :: "u64 \<Rightarrow> u64 \<Rightarrow> u64 \<Rightarrow> kern \<Rightarrow> (kern \<times> u64) option" where
  "sys_pipe_read a1 a2 a3 k =
     with_handle k a1 RIGHT_RECEIVE OBJ_PIPE (\<lambda>p i. do {
       (ps, out, n) \<leftarrow> pipe_read i (ucast a3) (g_pipes k);
       k' \<leftarrow> write_mem a2 out (k\<lparr>g_pipes := ps\<rparr>);
       Some (k', ucast n)
     })"

definition syscall_pipe :: "u64 \<Rightarrow> u64 \<Rightarrow> u64 \<Rightarrow> u64 \<Rightarrow> kern \<Rightarrow> (kern \<times> u64) option option" where
  "syscall_pipe num a1 a2 a3 k =
     (if num = 52 then Some (sys_pipe_open a1 a2 k)
      else if num = 53 then Some (sys_pipe_write a1 a2 a3 k)
      else if num = 54 then Some (sys_pipe_read a1 a2 a3 k)
      else None)"

section \<open>Shared memory: calls 55, 56 and 57\<close>

definition set_mm :: "mm \<Rightarrow> kern \<Rightarrow> kern" where
  "set_mm s k = k\<lparr>k_heap := (k_heap k)\<lparr>hp_mm := s\<rparr>\<rparr>"

definition sys_shm_create :: "u64 \<Rightarrow> kern \<Rightarrow> (kern \<times> u64) option" where
  "sys_shm_create a1 k = do {
     p \<leftarrow> caller_process k;
     if p < 0 then failed k
     else do {
       let s = hp_mm (k_heap k);
       ((fr, t), slot) \<leftarrow> alloc_shared_memory (mm_frames s) (mm_shm s) (ucast a1);
       let k1 = set_mm (s\<lparr>mm_frames := fr, mm_shm := t\<rparr>) k;
       if slot < 0 then failed k1 else grant_new True OBJ_SHARED_MEMORY slot RIGHT_MAP p k1
     }
   }"

definition map_region :: "int \<Rightarrow> int \<Rightarrow> u64 \<Rightarrow> kern \<Rightarrow> (kern \<times> u64) option" where
  "map_region slot q vaddr k =
     (if slot < 0 then None
      else do {
        pr \<leftarrow> slot_at (g_processes k) q;
        (s, ok) \<leftarrow> shared_memory_map (hp_mm (k_heap k)) (nat slot) (p_cr3 pr) vaddr;
        Some (set_mm s k, if ok then 0 else -1)
      })"

definition sys_shm_map :: "u64 \<Rightarrow> u64 \<Rightarrow> kern \<Rightarrow> (kern \<times> u64) option" where
  "sys_shm_map a1 a2 k =
     with_handle k a1 RIGHT_MAP OBJ_SHARED_MEMORY (\<lambda>p slot. map_region slot p a2 k)"

definition sys_shm_map_into :: "u64 \<Rightarrow> u64 \<Rightarrow> u64 \<Rightarrow> kern \<Rightarrow> (kern \<times> u64) option" where
  "sys_shm_map_into a1 a2 a3 k =
     with_handle k a1 RIGHT_MAP OBJ_SHARED_MEMORY (\<lambda>p slot. do {
       t \<leftarrow> slot_at (g_tasks k) (c_int a2);
       if t_process t < 0 then failed k else map_region slot (t_process t) a3 k
     })"

definition syscall_shm :: "u64 \<Rightarrow> u64 \<Rightarrow> u64 \<Rightarrow> u64 \<Rightarrow> kern \<Rightarrow> (kern \<times> u64) option option" where
  "syscall_shm num a1 a2 a3 k =
     (if num = 55 then Some (sys_shm_create a1 k)
      else if num = 56 then Some (sys_shm_map a1 a2 k)
      else if num = 57 then Some (sys_shm_map_into a1 a2 a3 k)
      else None)"

section \<open>Events, mutexes and timers: calls 74 to 82\<close>

definition sys_event_create :: "kern \<Rightarrow> (kern \<times> u64) option" where
  "sys_event_create k = do {
     p \<leftarrow> caller_process k;
     if p < 0 then failed k
     else let (es, slot) = event_create () (g_events k); k1 = k\<lparr>g_events := es\<rparr>
          in if slot < 0 then failed k1 else grant_new False OBJ_EVENT slot RIGHT_QUERY p k1
   }"

definition sys_event_op :: "(kern \<Rightarrow> kern option) \<Rightarrow> u64 \<Rightarrow> u64 \<Rightarrow> kern \<Rightarrow> (kern \<times> u64) option" where
  "sys_event_op resume num a1 k =
     with_handle k a1 0 OBJ_EVENT (\<lambda>p i. do {
       k' \<leftarrow> (if num = 75 then event_wait resume i k
             else if num = 76 then Some (k\<lparr>g_events := event_signal i (g_events k)\<rparr>)
             else Some (k\<lparr>g_events := event_reset i (g_events k)\<rparr>));
       Some (k', 0)
     })"

definition sys_mutex_create :: "kern \<Rightarrow> (kern \<times> u64) option" where
  "sys_mutex_create k = do {
     p \<leftarrow> caller_process k;
     if p < 0 then failed k
     else let (ms, slot) = mutex_create () (g_mutexes k); k1 = k\<lparr>g_mutexes := ms\<rparr>
          in if slot < 0 then failed k1 else grant_new False OBJ_MUTEX slot RIGHT_QUERY p k1
   }"

definition sys_mutex_op :: "(kern \<Rightarrow> kern option) \<Rightarrow> u64 \<Rightarrow> u64 \<Rightarrow> kern \<Rightarrow> (kern \<times> u64) option" where
  "sys_mutex_op resume num a1 k =
     with_handle k a1 0 OBJ_MUTEX (\<lambda>p i. do {
       k' \<leftarrow> (if num = 79 then mutex_lock resume i k else mutex_unlock i k);
       Some (k', 0)
     })"

definition sys_timer_create :: "u64 \<Rightarrow> kern \<Rightarrow> (kern \<times> u64) option" where
  "sys_timer_create a1 k = do {
     p \<leftarrow> caller_process k;
     if p < 0 then failed k
     else let (ts, slot) = timer_create (g_tick_count k, a1) (g_timers k); k1 = k\<lparr>g_timers := ts\<rparr>
          in if slot < 0 then failed k1 else grant_new False OBJ_TIMER slot RIGHT_QUERY p k1
   }"

definition sys_timer_wait :: "(kern \<Rightarrow> kern option) \<Rightarrow> u64 \<Rightarrow> kern \<Rightarrow> (kern \<times> u64) option" where
  "sys_timer_wait resume a1 k =
     with_handle k a1 0 OBJ_TIMER (\<lambda>p i. do { k' \<leftarrow> timer_wait resume i k; Some (k', 0) })"

definition syscall_sync ::
  "(kern \<Rightarrow> kern option) \<Rightarrow> u64 \<Rightarrow> u64 \<Rightarrow> u64 \<Rightarrow> u64 \<Rightarrow> kern \<Rightarrow> (kern \<times> u64) option option" where
  "syscall_sync resume num a1 a2 a3 k =
     (if num = 74 then Some (sys_event_create k)
      else if num = 75 \<or> num = 76 \<or> num = 77 then Some (sys_event_op resume num a1 k)
      else if num = 78 then Some (sys_mutex_create k)
      else if num = 79 \<or> num = 80 then Some (sys_mutex_op resume num a1 k)
      else if num = 81 then Some (sys_timer_create a1 k)
      else if num = 82 then Some (sys_timer_wait resume a1 k)
      else None)"

section \<open>Threads: calls 71, 72 and 73\<close>

definition update_task :: "int \<Rightarrow> (task \<Rightarrow> task) \<Rightarrow> kern \<Rightarrow> kern option" where
  "update_task i f k = do {
     t \<leftarrow> slot_at (g_tasks k) i;
     ts \<leftarrow> slot_put (g_tasks k) i (f t);
     Some (k\<lparr>g_tasks := ts\<rparr>)
   }"

definition update_process :: "int \<Rightarrow> (process \<Rightarrow> process) \<Rightarrow> kern \<Rightarrow> kern option" where
  "update_process i f k = do {
     p \<leftarrow> slot_at (g_processes k) i;
     ps \<leftarrow> slot_put (g_processes k) i (f p);
     Some (k\<lparr>g_processes := ps\<rparr>)
   }"

definition abort_task :: "int \<Rightarrow> kern \<Rightarrow> (kern \<times> u64) option" where
  "abort_task i k = do { k' \<leftarrow> update_task i (\<lambda>t. t\<lparr>t_used := False\<rparr>) k; failed k' }"

definition thread_handle :: "int \<Rightarrow> int \<Rightarrow> kern \<Rightarrow> (kern \<times> u64) option" where
  "thread_handle p t k =
     (let (os, ob) = alloc_object OBJ_THREAD t (k_objects k); k1 = k\<lparr>k_objects := os\<rparr>
      in if ob < 0 then abort_task t k1
         else do {
           (os', h) \<leftarrow> alloc_handle p ob RIGHT_QUERY os;
           if h < 0 then do { os'' \<leftarrow> free_object ob os'; abort_task t (k\<lparr>k_objects := os''\<rparr>) }
           else Some (k\<lparr>k_objects := os'\<rparr>, word_of_int h)
         })"

text \<open>\<open>trampoline\<close> is the address of \<^verbatim>\<open>process_entry_trampoline\<close>.\<close>

definition sys_thread_create :: "u64 \<Rightarrow> u64 \<Rightarrow> kern \<Rightarrow> (kern \<times> u64) option" where
  "sys_thread_create trampoline a1 k = do {
     p \<leftarrow> caller_process k;
     if p < 0 then failed k
     else do {
       pr \<leftarrow> slot_at (g_processes k) p;
       (k1, t) \<leftarrow> create_task_with_cr3 trampoline (p_cr3 pr) k;
       if t < 0 then failed k1
       else do {
         let s = hp_mm (k_heap k1);
         (fr, frame) \<leftarrow> alloc_frame (mm_frames s);
         if frame = 0 then abort_task t (set_mm (s\<lparr>mm_frames := fr\<rparr>) k1)
         else do {
           let stack_vaddr = p_next_thread_stack pr;
           (s', ok) \<leftarrow> map_page_in (s\<lparr>mm_frames := fr\<rparr>) (p_cr3 pr) stack_vaddr frame (6 OR PAGE_NX);
           if \<not> ok then do { s'' \<leftarrow> mm_free_frame s' frame; abort_task t (set_mm s'' k1) }
           else do {
             k2 \<leftarrow> update_process p (\<lambda>q. q\<lparr>p_next_thread_stack := stack_vaddr + 0x10000\<rparr>) (set_mm s' k1);
             k3 \<leftarrow> update_task t (\<lambda>u. u\<lparr>t_ring3_entry := a1, t_ring3_stack_top := stack_vaddr + 4096,
                                       t_process := p\<rparr>) k2;
             thread_handle p t k3
           }
         }
       }
     }
   }"

definition sys_thread_join :: "(kern \<Rightarrow> kern option) \<Rightarrow> u64 \<Rightarrow> kern \<Rightarrow> (kern \<times> u64) option" where
  "sys_thread_join resume a1 k =
     with_handle k a1 0 OBJ_THREAD (\<lambda>p i. do { k' \<leftarrow> thread_join resume i k; Some (k', 0) })"

text \<open>The caller never runs again; the result register is not observed.\<close>

definition sys_thread_exit :: "kern \<Rightarrow> (kern \<times> u64) option" where
  "sys_thread_exit k = do {
     k1 \<leftarrow> update_self (\<lambda>t. t\<lparr>t_used := False\<rparr>) k;
     k2 \<leftarrow> yield k1;
     Some (k2, 0)
   }"

definition syscall_thread ::
  "u64 \<Rightarrow> (kern \<Rightarrow> kern option) \<Rightarrow> u64 \<Rightarrow> u64 \<Rightarrow> u64 \<Rightarrow> u64 \<Rightarrow> kern \<Rightarrow> (kern \<times> u64) option option" where
  "syscall_thread trampoline resume num a1 a2 a3 k =
     (if num = 71 then Some (sys_thread_create trampoline a1 k)
      else if num = 72 then Some (sys_thread_join resume a1 k)
      else if num = 73 then Some (sys_thread_exit k)
      else None)"

section \<open>Processes: calls 3, 10, 12, 49 and 96\<close>

definition sys_process_query :: "u64 \<Rightarrow> kern \<Rightarrow> (kern \<times> u64) option" where
  "sys_process_query a1 k =
     with_handle k a1 RIGHT_QUERY OBJ_PROCESS (\<lambda>p i. do {
       pr \<leftarrow> slot_at (g_processes k) i;
       if \<not> p_used pr then failed k else Some (k, word_of_int (p_task pr))
     })"

definition sys_process_open :: "u64 \<Rightarrow> u64 \<Rightarrow> kern \<Rightarrow> (kern \<times> u64) option" where
  "sys_process_open a1 a2 k = do {
     p \<leftarrow> caller_process k;
     if p < 0 then failed k
     else if c_int a1 < 0 \<or> c_int a1 \<ge> g_task_count k then failed k
     else do {
       t \<leftarrow> slot_at (g_tasks k) (c_int a1);
       if t_process t < 0 then failed k
       else grant_new False OBJ_PROCESS (t_process t) (c_int a2 AND RIGHT_QUERY) p k
     }
   }"

text \<open>Releasing every handle of an exiting process, in table order.\<close>

definition drop_handle :: "int \<Rightarrow> nat \<Rightarrow> objects \<Rightarrow> objects option" where
  "drop_handle p h os = do {
     hn \<leftarrow> handle_at os p (int h);
     if h_used hn then do { os' \<leftarrow> free_object (h_object hn) os; free_handle p (int h) os' }
     else Some os
   }"

definition sys_process_exit :: "kern \<Rightarrow> (kern \<times> u64) option" where
  "sys_process_exit k = do {
     p \<leftarrow> caller_process k;
     k1 \<leftarrow> (if p \<ge> 0 then do {
              pr \<leftarrow> slot_at (g_processes k) p;
              k1 \<leftarrow> update_process p (\<lambda>q. q\<lparr>p_used := False\<rparr>) k;
              s \<leftarrow> free_address_space (hp_mm (k_heap k1)) (p_cr3 pr);
              os \<leftarrow> loopM (drop_handle p) [0..<HANDLES_PER_PROCESS] (k_objects k1);
              Some ((set_mm s k1)\<lparr>k_objects := os\<rparr>)
            }
            else Some k);
     sys_thread_exit k1
   }"

definition sys_setuid :: "u64 \<Rightarrow> kern \<Rightarrow> (kern \<times> u64) option" where
  "sys_setuid a1 k = do {
     p \<leftarrow> caller_process k;
     if p < 0 then failed k
     else do { k' \<leftarrow> update_process p (\<lambda>q. q\<lparr>p_uid := ucast a1\<rparr>) k; Some (k', 0) }
   }"

partial_function (option) process_wait_loop :: "(kern \<Rightarrow> kern option) \<Rightarrow> int \<Rightarrow> kern \<Rightarrow> kern option" where
  "process_wait_loop resume i k = do {
     pr \<leftarrow> slot_at (g_processes k) i;
     if p_used pr then do { k' \<leftarrow> resume k; process_wait_loop resume i k' } else Some k
   }"

definition sys_process_wait :: "(kern \<Rightarrow> kern option) \<Rightarrow> u64 \<Rightarrow> kern \<Rightarrow> (kern \<times> u64) option" where
  "sys_process_wait resume a1 k =
     with_handle k a1 RIGHT_QUERY OBJ_PROCESS (\<lambda>p i. do {
       k' \<leftarrow> process_wait_loop resume i k;
       Some (k', 0)
     })"

end
