(* ===== verification/Process.thy ===== *)
theory Process
  imports Syscalls
begin

text \<open>
  Loading programs (\<^verbatim>\<open>src/proc/process.c\<close>): a fresh address space, the image copied page by page, a
  stack page, a task, the process entry with its self handle and, for untrusted images, the sandbox
  handle. The file read and the signature check in front of it are arguments.
\<close>

definition find_process_slot :: "kern \<Rightarrow> nat option" where
  "find_process_slot k = first_index (\<lambda>p. \<not> p_used p) (take (nat (g_process_count k)) (g_processes k))"

text \<open>Frames are identity mapped, so the image bytes go straight to physical memory.\<close>

definition copy_page :: "u64 \<Rightarrow> u8 list \<Rightarrow> (u64 \<Rightarrow> u8) \<Rightarrow> u64 \<Rightarrow> u8" where
  "copy_page frame bs m a = (if frame \<le> a \<and> unat (a - frame) < length bs then bs ! unat (a - frame) else m a)"

definition load_page :: "u64 \<Rightarrow> u64 \<Rightarrow> u8 list \<Rightarrow> nat \<Rightarrow> kern \<Rightarrow> (kern \<times> bool) option" where
  "load_page cr3 load_vaddr img i k = do {
     let s = hp_mm (k_heap k);
     (fr, frame) \<leftarrow> alloc_frame (mm_frames s);
     let s1 = s\<lparr>mm_frames := fr\<rparr>;
     if frame = 0 then Some (set_mm s1 k, False)
     else do {
       (s2, ok) \<leftarrow> map_page_in s1 cr3 (load_vaddr + word_of_nat i * 4096) frame 6;
       if \<not> ok then do { s3 \<leftarrow> mm_free_frame s2 frame; Some (set_mm s3 k, False) }
       else Some ((set_mm s2 k)\<lparr>k_phys := copy_page frame (take 4096 (drop (i * 4096) img)) (k_phys k)\<rparr>, True)
     }
   }"

definition map_stack :: "u64 \<Rightarrow> u64 \<Rightarrow> kern \<Rightarrow> (kern \<times> bool) option" where
  "map_stack cr3 stack_vaddr k = do {
     let s = hp_mm (k_heap k);
     (fr, frame) \<leftarrow> alloc_frame (mm_frames s);
     let s1 = s\<lparr>mm_frames := fr\<rparr>;
     if frame = 0 then Some (set_mm s1 k, False)
     else do {
       (s2, ok) \<leftarrow> map_page_in s1 cr3 stack_vaddr frame (6 OR PAGE_NX);
       if \<not> ok then do { s3 \<leftarrow> mm_free_frame s2 frame; Some (set_mm s3 k, False) }
       else Some (set_mm s2 k, True)
     }
   }"

text \<open>The sandbox handle; every failure on the way leaves the process without one.\<close>

definition attach_sandbox :: "int \<Rightarrow> kern \<Rightarrow> kern option" where
  "attach_sandbox p k =
     (let (pols, slot) = sandbox_policy_create (sandbox_default_denied_low, sandbox_default_denied_high)
            (g_sandbox_policies k);
          k1 = k\<lparr>g_sandbox_policies := pols\<rparr>
      in if slot < 0 then Some k1
         else let (os, ob) = alloc_object OBJ_SANDBOX slot (k_objects k1)
              in if ob < 0 then Some (k1\<lparr>k_objects := os\<rparr>)
                 else do { (os', h) \<leftarrow> alloc_handle p ob 0 os; Some (k1\<lparr>k_objects := os'\<rparr>) })"

definition self_handle :: "int \<Rightarrow> kern \<Rightarrow> kern option" where
  "self_handle p k =
     (let (os, ob) = alloc_object OBJ_PROCESS p (k_objects k)
      in do { (os', h) \<leftarrow> alloc_handle p ob RIGHT_QUERY os; Some (k\<lparr>k_objects := os'\<rparr>) })"

definition register_process ::
  "u64 \<Rightarrow> nat option \<Rightarrow> u64 \<Rightarrow> u64 \<Rightarrow> u64 \<Rightarrow> bool \<Rightarrow> kern \<Rightarrow> (kern \<times> int) option" where
  "register_process trampoline slot cr3 load_vaddr stack_vaddr sandboxed k = do {
     (k1, t) \<leftarrow> create_task_with_cr3 trampoline cr3 k;
     if t < 0 then Some (k1, -1)
     else do {
       k2 \<leftarrow> update_task t (\<lambda>u. u\<lparr>t_ring3_entry := load_vaddr, t_ring3_stack_top := stack_vaddr + 4096\<rparr>) k1;
       let p = (case slot of Some i \<Rightarrow> int i | None \<Rightarrow> g_process_count k2);
       let k3 = (case slot of Some i \<Rightarrow> k2 | None \<Rightarrow> k2\<lparr>g_process_count := g_process_count k2 + 1\<rparr>);
       k4 \<leftarrow> update_process p (\<lambda>q. q\<lparr>p_used := True, p_cr3 := cr3, p_task := t, p_uid := 0,
                p_main_stack := stack_vaddr, p_next_thread_stack := stack_vaddr + 0x10000\<rparr>) k3;
       k5 \<leftarrow> update_task t (\<lambda>u. u\<lparr>t_process := p\<rparr>) k4;
       k6 \<leftarrow> self_handle p k5;
       k7 \<leftarrow> (if sandboxed then attach_sandbox p k6 else Some k6);
       Some (k7, p)
     }
   }"

definition spawn_process ::
  "u64 \<Rightarrow> u8 list \<Rightarrow> u64 \<Rightarrow> u64 \<Rightarrow> bool \<Rightarrow> kern \<Rightarrow> (kern \<times> int) option" where
  "spawn_process trampoline img load_vaddr stack_vaddr sandboxed k =
     (if find_process_slot k = None \<and> g_process_count k \<ge> int MAX_PROCESSES then Some (k, -1)
      else do {
        (s, cr3) \<leftarrow> clone_address_space (hp_mm (k_heap k));
        let k1 = set_mm s k;
        if cr3 = 0 then Some (k1, -1)
        else do {
          (k2, ok) \<leftarrow> loopE (load_page cr3 load_vaddr img) [0..<(length img + 4095) div 4096] k1;
          if \<not> ok then Some (k2, -1)
          else do {
            (k3, ok) \<leftarrow> map_stack cr3 stack_vaddr k2;
            if \<not> ok then Some (k3, -1)
            else register_process trampoline (find_process_slot k) cr3 load_vaddr stack_vaddr sandboxed k3
          }
        }
      })"

text \<open>
  \<open>vread\<close> reads at most 65536 bytes of the file, \<open>verify\<close> is the signature check and returns the
  payload of a signed image.
\<close>

definition spawn_process_from_path ::
  "(u8 list \<Rightarrow> nat \<Rightarrow> kern \<Rightarrow> kern \<times> int \<times> u8 list) \<Rightarrow> (u8 list \<Rightarrow> u8 list option) \<Rightarrow> u64 \<Rightarrow>
   u8 list \<Rightarrow> u64 \<Rightarrow> u64 \<Rightarrow> kern \<Rightarrow> (kern \<times> int) option" where
  "spawn_process_from_path vread verify trampoline path load_vaddr stack_vaddr k =
     (let (k1, n, buf) = vread path 65536 k
      in if n < 0 then Some (k1, -1)
         else case verify (take (nat n) buf) of
                None \<Rightarrow> Some (k1, -1)
              | Some payload \<Rightarrow> spawn_process trampoline payload load_vaddr stack_vaddr True k1)"

section \<open>Dispatch\<close>

definition syscall_core :: "u64 \<Rightarrow> u64 \<Rightarrow> u64 \<Rightarrow> u64 \<Rightarrow> kern \<Rightarrow> (kern \<times> u64) option option" where
  "syscall_core num a1 a2 a3 k =
     (if num = 13 then Some (sys_handle_close a1 k)
      else if num = 83 then Some (sys_handle_grant a1 a2 k)
      else if num = 84 then Some (sys_handle_grant3 a1 a2 a3 k)
      else None)"

definition syscall_process ::
  "(kern \<Rightarrow> kern option) \<Rightarrow> u64 \<Rightarrow> u64 \<Rightarrow> u64 \<Rightarrow> u64 \<Rightarrow> kern \<Rightarrow> (kern \<times> u64) option option" where
  "syscall_process resume num a1 a2 a3 k =
     (if num = 3 then Some (sys_process_query a1 k)
      else if num = 10 then Some (sys_process_open a1 a2 k)
      else if num = 12 then Some (sys_process_exit k)
      else if num = 96 then Some (sys_process_wait resume a1 k)
      else if num = 49 then Some (sys_setuid a1 k)
      else None)"

text \<open>
  The handlers are tried in order; \<open>rest\<close> are the handlers that are not modelled, whose call numbers
  are disjoint from the modelled ones.
\<close>

definition first_handler :: "(kern \<times> u64) option option list \<Rightarrow> kern \<Rightarrow> (kern \<times> u64) option" where
  "first_handler rs k = (case filter (\<lambda>r. r \<noteq> None) rs of [] \<Rightarrow> failed k | r # _ \<Rightarrow> the r)"

definition syscall_dispatch ::
  "u64 \<Rightarrow> (kern \<Rightarrow> kern option) \<Rightarrow> (u64 \<Rightarrow> u64 \<Rightarrow> u64 \<Rightarrow> u64 \<Rightarrow> kern \<Rightarrow> (kern \<times> u64) option option) \<Rightarrow>
   u64 \<Rightarrow> u64 \<Rightarrow> u64 \<Rightarrow> u64 \<Rightarrow> kern \<Rightarrow> (kern \<times> u64) option" where
  "syscall_dispatch trampoline resume rest num a1 a2 a3 k = do {
     p \<leftarrow> caller_process k;
     denied \<leftarrow> sandbox_denies (k_objects k) (g_sandbox_policies k) p num;
     if denied then failed k
     else first_handler
       [syscall_core num a1 a2 a3 k, syscall_process resume num a1 a2 a3 k,
        syscall_channel resume num a1 a2 a3 k, syscall_pipe num a1 a2 a3 k,
        syscall_shm num a1 a2 a3 k, syscall_thread trampoline resume num a1 a2 a3 k,
        syscall_sync resume num a1 a2 a3 k, rest num a1 a2 a3 k] k
   }"

section \<open>Capability checks\<close>

text \<open>The right and the object type each call on a handle asks for.\<close>

definition capability :: "u64 \<Rightarrow> (int \<times> int) option" where
  "capability num =
     (if num = 3 \<or> num = 96 then Some (RIGHT_QUERY, OBJ_PROCESS)
      else if num = 7 \<or> num = 85 then Some (RIGHT_SEND, OBJ_CHANNEL)
      else if num = 8 \<or> num = 86 then Some (RIGHT_RECEIVE, OBJ_CHANNEL)
      else if num = 53 then Some (RIGHT_SEND, OBJ_PIPE)
      else if num = 54 then Some (RIGHT_RECEIVE, OBJ_PIPE)
      else if num = 56 \<or> num = 57 then Some (RIGHT_MAP, OBJ_SHARED_MEMORY)
      else if num = 72 then Some (0, OBJ_THREAD)
      else if num = 75 \<or> num = 76 \<or> num = 77 then Some (0, OBJ_EVENT)
      else if num = 79 \<or> num = 80 then Some (0, OBJ_MUTEX)
      else if num = 82 then Some (0, OBJ_TIMER)
      else None)"

text \<open>Process \<open>p\<close> holds a live handle \<open>h\<close> with one of the rights in \<open>need\<close> on an object of that type.\<close>

definition holds :: "kern \<Rightarrow> int \<Rightarrow> int \<Rightarrow> int \<Rightarrow> int \<Rightarrow> bool" where
  "holds k p h need type \<longleftrightarrow> (\<exists>hn ob. 0 \<le> p \<and> handle_at (k_objects k) p h = Some hn \<and> h_used hn \<and>
     (need \<noteq> 0 \<longrightarrow> h_rights hn AND need \<noteq> 0) \<and>
     slot_at (g_objects (k_objects k)) (h_object hn) = Some ob \<and> obj_type ob = type)"

lemma with_handle_refused:
  assumes "objects_inv (k_objects k)" and "caller_process k = Some p" "p < int MAX_PROCESSES"
    and "\<not> holds k p (c_int a) need type"
  shows "with_handle k a need type f = failed k"
proof -
  obtain r where r: "handle_grants (k_objects k) p (c_int a) need type = Some r"
    using handle_grants_total [OF assms(1,3)] by blast
  have "r = None"
  proof (cases r)
    case (Some d)
    with handle_grants_SomeD [of "k_objects k" p "c_int a" need type d] r assms(4)
    show ?thesis unfolding holds_def by blast
  qed simp
  with r assms(2) show ?thesis by (simp add: with_handle_def)
qed

lemmas handle_calls = sys_process_query_def sys_process_wait_def sys_channel_send_def
  sys_channel_receive_def sys_channel_send_msg_def sys_channel_receive_msg_def sys_pipe_write_def
  sys_pipe_read_def sys_shm_map_def sys_shm_map_into_def sys_thread_join_def sys_event_op_def
  sys_mutex_op_def sys_timer_wait_def

lemma first_handler_simps:
  "first_handler (None # rs) k = first_handler rs k"
  "first_handler (Some r # rs) k = r"
  by (simp_all add: first_handler_def)

lemmas dispatch_tables = syscall_core_def syscall_process_def syscall_channel_def syscall_pipe_def
  syscall_shm_def syscall_thread_def syscall_sync_def

section \<open>Confinement\<close>

text \<open>Every sandbox object names an existing policy.\<close>

definition policies_ok :: "kern \<Rightarrow> bool" where
  "policies_ok k \<longleftrightarrow> length (g_sandbox_policies k) = SANDBOX_POLICY_SLOTS \<and>
     (\<forall>ob \<in> set (g_objects (k_objects k)). obj_type ob = OBJ_SANDBOX \<longrightarrow>
        0 \<le> obj_data ob \<and> obj_data ob < int SANDBOX_POLICY_SLOTS)"

definition is_sandbox_handle :: "kern \<Rightarrow> handle \<Rightarrow> bool" where
  "is_sandbox_handle k hn \<longleftrightarrow> h_used hn \<and>
     (\<exists>ob. slot_at (g_objects (k_objects k)) (h_object hn) = Some ob \<and> obj_type ob = OBJ_SANDBOX)"

lemma handle_denies_total:
  assumes "objects_inv (k_objects k)" "policies_ok k" "i < MAX_PROCESSES"
    and "hn \<in> set (g_handle_tables (k_objects k) ! i)"
  shows "handle_denies (k_objects k) (g_sandbox_policies k) num hn \<noteq> None"
proof (cases "h_used hn")
  case True
  from assms(1,3) have "g_handle_tables (k_objects k) ! i \<in> set (g_handle_tables (k_objects k))"
    by (simp add: objects_inv_def)
  with assms(1,4) True have "0 \<le> h_object hn" "h_object hn < int OBJECT_SLOTS"
    by (auto simp: objects_inv_def)
  with assms(1) obtain ob where ob: "slot_at (g_objects (k_objects k)) (h_object hn) = Some ob"
    by (auto simp: objects_inv_def slot_at_def)
  then have "ob \<in> set (g_objects (k_objects k))" using slot_at_SomeD [OF ob] by auto
  with assms(2) True ob show ?thesis
    by (auto simp: handle_denies_def policies_ok_def slot_at_def)
qed (simp add: handle_denies_def)

lemma not_sandbox_denies_False:
  assumes "objects_inv (k_objects k)" "i < MAX_PROCESSES"
    and "hn \<in> set (g_handle_tables (k_objects k) ! i)" "\<not> is_sandbox_handle k hn"
  shows "handle_denies (k_objects k) pols num hn = Some False"
proof (cases "h_used hn")
  case True
  from assms(1,2) have "g_handle_tables (k_objects k) ! i \<in> set (g_handle_tables (k_objects k))"
    by (simp add: objects_inv_def)
  with assms(1,3) True have "0 \<le> h_object hn" "h_object hn < int OBJECT_SLOTS"
    by (auto simp: objects_inv_def)
  with assms(1,4) True show ?thesis
    by (auto simp: handle_denies_def is_sandbox_handle_def objects_inv_def slot_at_def)
qed (simp add: handle_denies_def)

lemma c_int_small: "n < 2147483648 \<Longrightarrow> c_int (word_of_nat n) = int n"
proof -
  assume n: "n < 2147483648"
  have "ucast (word_of_nat n :: u64) = (word_of_nat n :: u32)"
    by (rule bit_word_eqI) (simp add: bit_simps)
  moreover have "sint (word_of_nat n :: u32) = int n"
    using n by (simp add: signed_of_nat signed_take_bit_int_eq_self)
  ultimately show ?thesis by (simp add: c_int_def)
qed

lemma dispatch_denied:
  assumes "caller_process k = Some p" "sandbox_denies (k_objects k) (g_sandbox_policies k) p num = Some True"
  shows "syscall_dispatch trampoline resume rest num a1 a2 a3 k = Some (k, -1)"
  using assms by (simp add: syscall_dispatch_def failed_def)

lemma sandbox_denies_True:
  assumes "objects_inv (k_objects k)" "policies_ok k" "i < MAX_PROCESSES"
    and "hn \<in> set (g_handle_tables (k_objects k) ! i)"
    and "handle_denies (k_objects k) (g_sandbox_policies k) num hn = Some True"
  shows "sandbox_denies (k_objects k) (g_sandbox_policies k) (int i) num = Some True"
proof -
  have "any_denies (k_objects k) (g_sandbox_policies k) num (g_handle_tables (k_objects k) ! i) = Some True"
    by (rule any_denies_mem [OF _ assms(4,5)]) (use handle_denies_total [OF assms(1-3)] in blast)
  with assms(1,3) show ?thesis by (simp add: sandbox_denies_def objects_inv_def)
qed

lemma sandbox_denies_False:
  assumes "objects_inv (k_objects k)" "i < MAX_PROCESSES"
    and "\<forall>hn \<in> set (g_handle_tables (k_objects k) ! i). \<not> is_sandbox_handle k hn"
  shows "sandbox_denies (k_objects k) pols (int i) num = Some False"
proof -
  have "any_denies (k_objects k) pols num (g_handle_tables (k_objects k) ! i) = Some False"
    by (rule any_denies_False) (use not_sandbox_denies_False [OF assms(1,2)] assms(3) in blast)
  with assms(1,2) show ?thesis by (simp add: sandbox_denies_def objects_inv_def)
qed

text \<open>What closing a live handle on a live object does to the tables.\<close>

lemma close_handle_run:
  assumes inv: "objects_inv (k_objects k)" and c: "caller_process k = Some (int i)" and i: "i < MAX_PROCESSES"
    and h: "h < HANDLES_PER_PROCESS" and hn: "hn = g_handle_tables (k_objects k) ! i ! h" "h_used hn"
    and o: "h_object hn = int ob" "obj_used (g_objects (k_objects k) ! ob)"
  shows "\<exists>os. sys_handle_close (word_of_nat h) k = Some (k\<lparr>k_objects := os\<rparr>, 0) \<and> objects_inv os \<and>
    g_objects os = (g_objects (k_objects k))[ob := (g_objects (k_objects k) ! ob)\<lparr>obj_used := False\<rparr>] \<and>
    g_handle_tables os = (g_handle_tables (k_objects k))
      [i := (g_handle_tables (k_objects k) ! i)[h := hn\<lparr>h_used := False\<rparr>]]"
proof -
  let ?s = "k_objects k"
  have hs: "g_handle_tables ?s ! i \<in> set (g_handle_tables ?s)" using inv i by (simp add: objects_inv_def)
  then have len: "length (g_handle_tables ?s ! i) = HANDLES_PER_PROCESS" using inv by (simp add: objects_inv_def)
  then have "hn \<in> set (g_handle_tables ?s ! i)" using h hn(1) by simp
  then have ob: "ob < OBJECT_SLOTS" using inv hs hn(2) o(1) by (fastforce simp: objects_inv_def)
  have lens: "length (g_objects ?s) = OBJECT_SLOTS" "length (g_handle_tables ?s) = MAX_PROCESSES"
    using inv by (simp_all add: objects_inv_def)
  let ?os1 = "?s\<lparr>g_objects := (g_objects ?s)[ob := (g_objects ?s ! ob)\<lparr>obj_used := False\<rparr>],
                g_object_count := g_object_count ?s - 1\<rparr>"
  let ?os2 = "?os1\<lparr>g_handle_tables := (g_handle_tables ?s)[i := (g_handle_tables ?s ! i)[h := hn\<lparr>h_used := False\<rparr>]]\<rparr>"
  have f1: "free_object (h_object hn) ?s = Some ?os1"
    using ob lens o(1) by (simp add: free_object_def)
  have f2: "free_handle (int i) (int h) ?os1 = Some ?os2"
    using i h lens len hn(1) by (simp add: free_handle_def)
  have "objects_inv ?os1" by (rule free_object_inv [OF inv f1]) (use ob o in auto)
  from free_handle_inv [OF this f2] have "objects_inv ?os2" .
  moreover have "used_handle k (int i) (int h) = Some (Some hn)"
    using i h lens len hn by (simp add: used_handle_def handle_at_def)
  with f1 f2 c have "sys_handle_close (word_of_nat h) k = Some (k\<lparr>k_objects := ?os2\<rparr>, 0)"
    using c_int_small [of h] h by (simp add: sys_handle_close_def)
  ultimately show ?thesis by (intro exI [of _ ?os2]) simp
qed

lemma attach_sandbox_run:
  assumes inv: "objects_inv (k_objects k)" and pol: "policies_ok k" and i: "i < MAX_PROCESSES"
    and fp: "\<exists>q \<in> set (g_sandbox_policies k). \<not> sp_used q"
    and fo: "\<exists>ob \<in> set (g_objects (k_objects k)). \<not> obj_used ob"
    and fh: "\<exists>hn \<in> set (g_handle_tables (k_objects k) ! i). \<not> h_used hn"
  shows "\<exists>k' hn q. attach_sandbox (int i) k = Some k' \<and> objects_inv (k_objects k') \<and> policies_ok k' \<and>
    g_tasks k' = g_tasks k \<and> g_current_task k' = g_current_task k \<and>
    hn \<in> set (g_handle_tables (k_objects k') ! i) \<and>
    (\<forall>num. handle_denies (k_objects k') (g_sandbox_policies k') num hn =
       Some (policy_denies (policy_init (sandbox_default_denied_low, sandbox_default_denied_high) q) num))"
proof -
  let ?d = "(sandbox_default_denied_low, sandbox_default_denied_high)"
  let ?s = "k_objects k"
  obtain j where j: "first_index (\<lambda>q. \<not> sp_used q) (g_sandbox_policies k) = Some j"
    using fp first_index_exists [of _ "g_sandbox_policies k" "\<lambda>q. \<not> sp_used q"] by blast
  note jd = first_index_SomeD [OF j]
  have jl: "j < SANDBOX_POLICY_SLOTS" using jd pol by (simp add: policies_ok_def)
  obtain b where b: "first_index (\<lambda>ob. \<not> obj_used ob) (g_objects ?s) = Some b"
    using fo first_index_exists [of _ "g_objects ?s" "\<lambda>ob. \<not> obj_used ob"] by blast
  note bd = first_index_SomeD [OF b]
  have bl: "b < OBJECT_SLOTS" using bd inv by (simp add: objects_inv_def)
  obtain h where h: "first_index (\<lambda>hn. \<not> h_used hn) (g_handle_tables ?s ! i) = Some h"
    using fh first_index_exists [of _ "g_handle_tables ?s ! i" "\<lambda>hn. \<not> h_used hn"] by blast
  note hd = first_index_SomeD [OF h]
  define pols where "pols = (g_sandbox_policies k)[j := policy_init ?d (g_sandbox_policies k ! j)]"
  define os where "os = ?s\<lparr>g_objects := (g_objects ?s)[b := object_init (OBJ_SANDBOX, int j) (g_objects ?s ! b)],
      g_object_count := g_object_count ?s + 1\<rparr>"
  define hn where "hn = handle_init (int b, 0) (g_handle_tables ?s ! i ! h)"
  define os' where "os' = os\<lparr>g_handle_tables := (g_handle_tables ?s)[i := (g_handle_tables ?s ! i)[h := hn]]\<rparr>"
  define k' where "k' = k\<lparr>g_sandbox_policies := pols, k_objects := os'\<rparr>"
  have lens: "length (g_objects ?s) = OBJECT_SLOTS" "length (g_handle_tables ?s) = MAX_PROCESSES"
    using inv by (simp_all add: objects_inv_def)
  have p1: "sandbox_policy_create ?d (g_sandbox_policies k) = (pols, int j)"
    by (simp add: sandbox_policy_create_def j pols_def)
  have p2: "alloc_object OBJ_SANDBOX (int j) ?s = (os, int b)"
    by (simp add: alloc_object_def object_claim_def b os_def)
  have p3: "alloc_handle (int i) (int b) 0 os = Some (os', int h)"
    using i lens h by (simp add: alloc_handle_def handle_claim_def os_def os'_def hn_def)
  have run: "attach_sandbox (int i) k = Some k'"
    using p1 p2 p3 by (simp add: attach_sandbox_def k'_def)
  have "objects_inv os" by (rule alloc_object_inv(1) [OF inv p2])
  from alloc_handle_inv [OF this p3] bl have inv': "objects_inv os'" by simp
  have "policies_ok k'"
    using pol jl by (auto simp: policies_ok_def k'_def pols_def os'_def os_def object_init_def
        dest!: set_update_subset_insert [THEN subsetD])
  moreover have "hn \<in> set (g_handle_tables os' ! i)"
    using i lens hd by (simp add: os'_def set_update_memI)
  moreover have "handle_denies os' pols num hn = Some (policy_denies (policy_init ?d (g_sandbox_policies k ! j)) num)" for num
    using bl lens jd by (simp add: handle_denies_def hn_def handle_init_def os'_def os_def object_init_def pols_def)
  ultimately show ?thesis using run inv'
    by (intro exI [of _ k'] exI [of _ hn] exI [of _ "g_sandbox_policies k ! j"]) (simp add: k'_def)
qed

section \<open>Properties\<close>

text \<open>
  C2. No system call on a handle acts without the capability. For every call that takes a handle of
  a process, thread, channel, pipe, shared memory region, event, mutex or timer: unless the calling
  process holds a live handle of that number with the required right on an object of the required
  type, the dispatcher returns -1 and changes nothing.
\<close>

theorem syscall_needs_capability:
  assumes "objects_inv (k_objects k)" and "caller_process k = Some p" and "p < int MAX_PROCESSES"
    and "sandbox_denies (k_objects k) (g_sandbox_policies k) p num = Some d"
    and "capability num = Some (need, type)" and "\<not> holds k p (c_int a1) need type"
  shows "syscall_dispatch trampoline resume rest num a1 a2 a3 k = Some (k, -1)"
proof (cases d)
  case True
  with assms show ?thesis by (simp add: syscall_dispatch_def failed_def)
next
  case False
  note refuse = with_handle_refused [OF assms(1,2,3,6)]
  have "first_handler
     [syscall_core num a1 a2 a3 k, syscall_process resume num a1 a2 a3 k,
      syscall_channel resume num a1 a2 a3 k, syscall_pipe num a1 a2 a3 k,
      syscall_shm num a1 a2 a3 k, syscall_thread trampoline resume num a1 a2 a3 k,
      syscall_sync resume num a1 a2 a3 k, rest num a1 a2 a3 k] k = failed k"
    using assms(5) refuse
    by (auto simp: capability_def dispatch_tables first_handler_simps handle_calls split: if_splits)
  with False assms show ?thesis by (simp add: syscall_dispatch_def failed_def)
qed

definition sample_objects :: objects where
  "sample_objects = \<lparr>g_objects = \<lparr>obj_used = True, obj_type = OBJ_SANDBOX, obj_data = 0\<rparr> #
       replicate 31 \<lparr>obj_used = False, obj_type = 0, obj_data = 0\<rparr>, g_object_count = 1,
     g_handle_tables = (\<lparr>h_used = True, h_object = 0, h_rights = 0\<rparr> #
        replicate 7 \<lparr>h_used = False, h_object = 0, h_rights = 0\<rparr>) #
        replicate 7 (replicate 8 \<lparr>h_used = False, h_object = 0, h_rights = 0\<rparr>)\<rparr>"

text \<open>Task 1 runs process 0, which holds one handle: its sandbox.\<close>

definition sample_sandboxed :: kern where
  "sample_sandboxed = (sample_kern 1)\<lparr>k_objects := sample_objects,
     g_tasks := (g_tasks (sample_kern 1))[1 := (sample_task True)\<lparr>t_process := 0\<rparr>],
     g_sandbox_policies := policy_init (sandbox_default_denied_low, sandbox_default_denied_high)
        \<lparr>sp_used = False, sp_denied_low = 0, sp_denied_high = 0\<rparr> #
        replicate 7 \<lparr>sp_used = False, sp_denied_low = 0, sp_denied_high = 0\<rparr>\<rparr>"

lemma sample_sandboxed_facts:
  "objects_inv (k_objects sample_sandboxed)" "caller_process sample_sandboxed = Some 0"
  "policies_ok sample_sandboxed"
  "k_objects sample_sandboxed = sample_objects"
  "g_sandbox_policies sample_sandboxed ! 0 = policy_init (sandbox_default_denied_low, sandbox_default_denied_high)
        \<lparr>sp_used = False, sp_denied_low = 0, sp_denied_high = 0\<rparr>"
  "length (g_sandbox_policies sample_sandboxed) = 8"
  by (auto simp: sample_sandboxed_def sample_objects_def objects_inv_def live_objects_def
      caller_process_def sample_kern_def slot_at_def policies_ok_def OBJ_SANDBOX_def)

lemma sample_allowed:
  assumes "num \<notin> {6, 11, 14, 49, 95, 99}"
  shows "sandbox_denies (k_objects sample_sandboxed) (g_sandbox_policies sample_sandboxed) 0 num = Some False"
proof -
  have "handle_denies sample_objects (g_sandbox_policies sample_sandboxed) num
      \<lparr>h_used = True, h_object = 0, h_rights = 0\<rparr> = Some False"
    using sample_sandboxed_facts(5,6) default_policy_denies assms
    by (simp add: handle_denies_def sample_objects_def slot_at_def)
  then have "any_denies sample_objects (g_sandbox_policies sample_sandboxed) num
      (g_handle_tables sample_objects ! 0) = Some False"
    by (intro any_denies_False) (auto simp: sample_objects_def handle_denies_def)
  then show ?thesis
    by (simp add: sandbox_denies_def sample_sandboxed_facts(4)) (simp add: sample_objects_def slot_at_def)
qed

theorem syscall_needs_capability_witness:
  "syscall_dispatch 0 (\<lambda>k. None) (\<lambda>num a b c k. None) 53 0 0 0 sample_sandboxed = Some (sample_sandboxed, -1)"
proof (rule syscall_needs_capability [OF sample_sandboxed_facts(1,2)])
  show "sandbox_denies (k_objects sample_sandboxed) (g_sandbox_policies sample_sandboxed) 0 53 = Some False"
    by (rule sample_allowed) simp
  show "capability 53 = Some (RIGHT_SEND, OBJ_PIPE)" by (simp add: capability_def)
  show "\<not> holds sample_sandboxed 0 (c_int 0) RIGHT_SEND OBJ_PIPE"
    by (simp add: holds_def sample_sandboxed_facts(4) handle_at_def c_int_def sample_objects_def
        slot_at_def OBJ_PIPE_def OBJ_SANDBOX_def)
qed simp

text \<open>
  C21. A sandboxed program is confined. A process that was given its sandbox handle while a policy
  slot, an object slot and a handle slot were free is refused the six calls of the default policy
  (spawn, spawn builtin, register service, setuid, fork, port I/O) with no effect, for as long as the
  tables stay as they are.
\<close>

theorem sandbox_confines:
  assumes "objects_inv (k_objects k)" and "policies_ok k" and "i < MAX_PROCESSES"
    and "caller_process k = Some (int i)"
    and "\<exists>q \<in> set (g_sandbox_policies k). \<not> sp_used q"
    and "\<exists>ob \<in> set (g_objects (k_objects k)). \<not> obj_used ob"
    and "\<exists>hn \<in> set (g_handle_tables (k_objects k) ! i). \<not> h_used hn"
  shows "\<exists>k'. attach_sandbox (int i) k = Some k' \<and>
    (\<forall>num \<in> {6, 11, 14, 49, 95, 99}. \<forall>trampoline resume rest a1 a2 a3.
       syscall_dispatch trampoline resume rest num a1 a2 a3 k' = Some (k', -1))"
proof -
  from attach_sandbox_run [OF assms(1-3,5-7)] obtain k' hn q where
    run: "attach_sandbox (int i) k = Some k'" and inv: "objects_inv (k_objects k')" "policies_ok k'"
    and same: "g_tasks k' = g_tasks k" "g_current_task k' = g_current_task k"
    and hn: "hn \<in> set (g_handle_tables (k_objects k') ! i)"
    and den: "\<forall>num. handle_denies (k_objects k') (g_sandbox_policies k') num hn =
       Some (policy_denies (policy_init (sandbox_default_denied_low, sandbox_default_denied_high) q) num)"
    by blast
  have c: "caller_process k' = Some (int i)" using assms(4) same by (simp add: caller_process_def)
  have "syscall_dispatch trampoline resume rest num a1 a2 a3 k' = Some (k', -1)"
    if "num \<in> {6, 11, 14, 49, 95, 99}" for num trampoline resume rest a1 a2 a3
  proof (rule dispatch_denied [OF c])
    have "policy_denies (policy_init (sandbox_default_denied_low, sandbox_default_denied_high) q) num"
      using that by (simp only: default_policy_denies)
    with den have "handle_denies (k_objects k') (g_sandbox_policies k') num hn = Some True" by simp
    then show "sandbox_denies (k_objects k') (g_sandbox_policies k') (int i) num = Some True"
      by (rule sandbox_denies_True [OF inv assms(3) hn])
  qed
  with run show ?thesis by blast
qed

theorem sandbox_confines_witness:
  "\<exists>k'. attach_sandbox (int 0) sample_sandboxed = Some k' \<and>
    (\<forall>num \<in> {6, 11, 14, 49, 95, 99}. \<forall>trampoline resume rest a1 a2 a3.
       syscall_dispatch trampoline resume rest num a1 a2 a3 k' = Some (k', -1))"
  by (rule sandbox_confines [OF sample_sandboxed_facts(1,3)])
    (simp_all add: sample_sandboxed_facts(2,4),
     simp_all add: sample_sandboxed_def sample_objects_def policy_init_def)

text \<open>
  C28. The sandbox can be dropped from inside. Closing a handle is not among the denied calls and
  does not look at the object type: a process whose one sandbox handle has number \<open>h\<close> calls
  handle close on \<open>h\<close>, and afterwards no call at all is denied to it.
\<close>

theorem sandbox_escape:
  assumes inv: "objects_inv (k_objects k)" and i: "i < MAX_PROCESSES" and h: "h < HANDLES_PER_PROCESS"
    and c: "caller_process k = Some (int i)"
    and sb: "is_sandbox_handle k (g_handle_tables (k_objects k) ! i ! h)"
    and ob: "h_object (g_handle_tables (k_objects k) ! i ! h) = int ob" "obj_used (g_objects (k_objects k) ! ob)"
    and only: "\<forall>j < HANDLES_PER_PROCESS. is_sandbox_handle k (g_handle_tables (k_objects k) ! i ! j) \<longrightarrow> j = h"
    and allowed: "sandbox_denies (k_objects k) (g_sandbox_policies k) (int i) 13 = Some False"
  shows "\<exists>k'. syscall_dispatch trampoline resume rest 13 (word_of_nat h) a2 a3 k = Some (k', 0) \<and>
    caller_process k' = Some (int i) \<and>
    (\<forall>num. sandbox_denies (k_objects k') (g_sandbox_policies k') (int i) num = Some False)"
proof -
  let ?hs = "g_handle_tables (k_objects k) ! i"
  from close_handle_run [OF inv c i h refl _ ob] sb obtain os where
    run: "sys_handle_close (word_of_nat h) k = Some (k\<lparr>k_objects := os\<rparr>, 0)" and inv': "objects_inv os"
    and objs: "g_objects os = (g_objects (k_objects k))[ob := (g_objects (k_objects k) ! ob)\<lparr>obj_used := False\<rparr>]"
    and tabs: "g_handle_tables os = (g_handle_tables (k_objects k))[i := ?hs[h := (?hs ! h)\<lparr>h_used := False\<rparr>]]"
    by (auto simp: is_sandbox_handle_def)
  let ?k' = "k\<lparr>k_objects := os\<rparr>"
  have "?hs \<in> set (g_handle_tables (k_objects k))" using inv i by (simp add: objects_inv_def)
  then have len: "length ?hs = HANDLES_PER_PROCESS" using inv by (simp add: objects_inv_def)
  have ty: "obj_type ((g_objects (k_objects k))[ob := (g_objects (k_objects k) ! ob)\<lparr>obj_used := False\<rparr>] ! m) =
      obj_type (g_objects (k_objects k) ! m)" for m
    by (cases "ob < length (g_objects (k_objects k))"; cases "ob = m") (simp_all add: list_update_beyond)
  have same: "is_sandbox_handle ?k' g \<longleftrightarrow> is_sandbox_handle k g" for g
    by (auto simp: is_sandbox_handle_def objs slot_at_def ty)
  have "\<not> is_sandbox_handle ?k' g" if "g \<in> set (g_handle_tables os ! i)" for g
  proof
    assume sbg: "is_sandbox_handle ?k' g"
    have "length (g_handle_tables (k_objects k)) = MAX_PROCESSES" using inv by (simp add: objects_inv_def)
    with that i have "g \<in> set (?hs[h := (?hs ! h)\<lparr>h_used := False\<rparr>])" by (simp add: tabs)
    then obtain j where j: "j < length ?hs" and g: "g = ?hs[h := (?hs ! h)\<lparr>h_used := False\<rparr>] ! j"
      by (auto simp: in_set_conv_nth)
    show False
    proof (cases "j = h")
      case True
      with g j sbg show False by (simp add: is_sandbox_handle_def)
    next
      case False
      with g sbg same only j len show False by auto
    qed
  qed
  with inv' i have "\<forall>num. sandbox_denies (k_objects ?k') (g_sandbox_policies ?k') (int i) num = Some False"
    by (intro allI sandbox_denies_False) simp_all
  moreover have "syscall_dispatch trampoline resume rest 13 (word_of_nat h) a2 a3 k = Some (?k', 0)"
    using c allowed run by (simp add: syscall_dispatch_def syscall_core_def first_handler_simps)
  moreover have "caller_process ?k' = Some (int i)" using c by (simp add: caller_process_def)
  ultimately show ?thesis by blast
qed

theorem sandbox_escape_witness:
  "\<exists>k'. syscall_dispatch 0 (\<lambda>k. None) (\<lambda>num a b c k. None) 13 (word_of_nat 0) 0 0 sample_sandboxed = Some (k', 0) \<and>
    caller_process k' = Some (int 0) \<and>
    (\<forall>num. sandbox_denies (k_objects k') (g_sandbox_policies k') (int 0) num = Some False)"
proof (rule sandbox_escape [where ob = 0, OF sample_sandboxed_facts(1)])
  show "sandbox_denies (k_objects sample_sandboxed) (g_sandbox_policies sample_sandboxed) (int 0) 13 = Some False"
    using sample_allowed [of 13] by simp
qed (auto simp: sample_sandboxed_facts is_sandbox_handle_def sample_objects_def slot_at_def nth_Cons')

text \<open>
  Opening a pipe does not check the pipe number. With a free object and a free handle the call
  succeeds for any number, and when the number is not one of the four pipes the first write through
  the new handle leaves the pipe table.
\<close>

theorem pipe_open_unchecked:
  assumes inv: "objects_inv (k_objects k)" and i: "i < MAX_PROCESSES" and c: "caller_process k = Some (int i)"
    and fo: "\<exists>ob \<in> set (g_objects (k_objects k)). \<not> obj_used ob"
    and fh: "\<exists>hn \<in> set (g_handle_tables (k_objects k) ! i). \<not> h_used hn"
    and len: "length (g_pipes k) = PIPE_SLOTS" and bad: "c_int a1 < 0 \<or> c_int a1 \<ge> int PIPE_SLOTS"
  shows "\<exists>k' h. sys_pipe_open a1 1 k = Some (k', word_of_nat h) \<and> h < HANDLES_PER_PROCESS \<and>
    sys_pipe_write (word_of_nat h) a2 a3 k' = None"
proof -
  let ?s = "k_objects k"
  obtain b where b: "first_index (\<lambda>ob. \<not> obj_used ob) (g_objects ?s) = Some b"
    using fo first_index_exists [of _ "g_objects ?s" "\<lambda>ob. \<not> obj_used ob"] by blast
  obtain h where h: "first_index (\<lambda>hn. \<not> h_used hn) (g_handle_tables ?s ! i) = Some h"
    using fh first_index_exists [of _ "g_handle_tables ?s ! i" "\<lambda>hn. \<not> h_used hn"] by blast
  have lens: "length (g_objects ?s) = OBJECT_SLOTS" "length (g_handle_tables ?s) = MAX_PROCESSES"
    "length (g_handle_tables ?s ! i) = HANDLES_PER_PROCESS"
    using inv i nth_mem [of i "g_handle_tables ?s"] by (simp_all add: objects_inv_def)
  have bl: "b < OBJECT_SLOTS" and hl: "h < HANDLES_PER_PROCESS"
    using first_index_SomeD [OF b] first_index_SomeD [OF h] lens by simp_all
  define os where "os = ?s\<lparr>g_objects := (g_objects ?s)[b := object_init (OBJ_PIPE, c_int a1) (g_objects ?s ! b)],
      g_object_count := g_object_count ?s + 1,
      g_handle_tables := (g_handle_tables ?s)
        [i := (g_handle_tables ?s ! i)[h := handle_init (int b, RIGHT_SEND) (g_handle_tables ?s ! i ! h)]]\<rparr>"
  have run: "sys_pipe_open a1 1 k = Some (k\<lparr>k_objects := os\<rparr>, word_of_nat h)"
    using c i lens b h
    by (simp add: sys_pipe_open_def grant_new_def alloc_object_def object_claim_def alloc_handle_def
        handle_claim_def os_def)
  have "caller_process (k\<lparr>k_objects := os\<rparr>) = Some (int i)" using c by (simp add: caller_process_def)
  moreover have "handle_grants os (int i) (int h) RIGHT_SEND OBJ_PIPE = Some (Some (c_int a1))"
    using i hl bl lens
    by (simp add: handle_grants_def handle_at_def os_def handle_init_def object_init_def RIGHT_SEND_def)
  moreover have "slot_at (g_pipes k) (c_int a1) = None" using len bad by (auto simp: slot_at_def)
  ultimately have "sys_pipe_write (word_of_nat h) a2 a3 (k\<lparr>k_objects := os\<rparr>) = None"
    using c_int_small [of h] hl by (simp add: sys_pipe_write_def with_handle_def Let_def)
  with run hl show ?thesis by blast
qed

theorem pipe_open_unchecked_witness:
  "\<exists>k' h. sys_pipe_open 1000 1 sample_sandboxed = Some (k', word_of_nat h) \<and> h < HANDLES_PER_PROCESS \<and>
    sys_pipe_write (word_of_nat h) 0 1 k' = None"
  by (rule pipe_open_unchecked [where i = 0, OF sample_sandboxed_facts(1)])
    (simp_all add: sample_sandboxed_facts c_int_def,
     simp_all add: sample_objects_def sample_sandboxed_def sample_kern_def)

text \<open>
  Objects are not reference counted. A process grants a handle to another process and closes its
  own: the object's slot is released while the grantee's handle stays live. If it is the lowest free
  slot, the next object of any kind lands in it and the stale handle reaches that object.
\<close>

theorem granted_handle_dangles:
  assumes inv: "objects_inv (k_objects k)" and i: "i < MAX_PROCESSES" "h < HANDLES_PER_PROCESS"
    and c: "caller_process k = Some (int i)"
    and hn: "h_used (g_handle_tables (k_objects k) ! i ! h)" "h_object (g_handle_tables (k_objects k) ! i ! h) = int ob"
    and ob: "obj_used (g_objects (k_objects k) ! ob)" "\<forall>b < ob. obj_used (g_objects (k_objects k) ! b)"
    and t: "t < MAX_TASKS" "t < length (g_tasks k)" "t_process (g_tasks k ! t) = int j" "j < MAX_PROCESSES" "j \<noteq> i"
    and free: "\<exists>g \<in> set (g_handle_tables (k_objects k) ! j). \<not> h_used g"
  shows "\<exists>k1 g k2. sys_handle_grant (word_of_nat h) (word_of_nat t) k = Some (k1, word_of_nat g) \<and>
    sys_handle_close (word_of_nat h) k1 = Some (k2, 0) \<and>
    h_used (g_handle_tables (k_objects k2) ! j ! g) \<and> \<not> obj_used (g_objects (k_objects k2) ! ob) \<and>
    (\<forall>ty d. \<exists>s3. alloc_object ty d (k_objects k2) = (s3, int ob) \<and>
       handle_grants s3 (int j) (int g) 0 ty = Some (Some d))"
proof -
  let ?s = "k_objects k"
  let ?hn = "g_handle_tables ?s ! i ! h"
  have lens: "length (g_objects ?s) = OBJECT_SLOTS" "length (g_handle_tables ?s) = MAX_PROCESSES"
    "length (g_handle_tables ?s ! i) = HANDLES_PER_PROCESS" "length (g_handle_tables ?s ! j) = HANDLES_PER_PROCESS"
    using inv i t(4) nth_mem [of i "g_handle_tables ?s"] nth_mem [of j "g_handle_tables ?s"]
    by (simp_all add: objects_inv_def)
  have obl: "ob < OBJECT_SLOTS"
  proof -
    have "?hn \<in> set (g_handle_tables ?s ! i)" "g_handle_tables ?s ! i \<in> set (g_handle_tables ?s)"
      using lens i by simp_all
    with inv hn show ?thesis by (fastforce simp: objects_inv_def)
  qed
  obtain g where g: "first_index (\<lambda>x. \<not> h_used x) (g_handle_tables ?s ! j) = Some g"
    using free first_index_exists [of _ "g_handle_tables ?s ! j" "\<lambda>x. \<not> h_used x"] by blast
  have gl: "g < HANDLES_PER_PROCESS" using first_index_SomeD [OF g] lens by simp
  define gh where "gh = handle_init (int ob, h_rights ?hn) (g_handle_tables ?s ! j ! g)"
  define s1 where "s1 = ?s\<lparr>g_handle_tables := (g_handle_tables ?s)[j := (g_handle_tables ?s ! j)[g := gh]]\<rparr>"
  have a1: "alloc_handle (int j) (int ob) (h_rights ?hn) ?s = Some (s1, int g)"
    using t(4) lens g by (simp add: alloc_handle_def handle_claim_def s1_def gh_def)
  let ?k1 = "k\<lparr>k_objects := s1\<rparr>"
  have "used_handle k (int i) (int h) = Some (Some ?hn)"
    using i lens hn by (simp add: used_handle_def handle_at_def)
  moreover have "target_process k (int t) = Some (int j)" using t by (simp add: target_process_def)
  ultimately have grant: "sys_handle_grant (word_of_nat h) (word_of_nat t) k = Some (?k1, word_of_nat g)"
    using c a1 hn(2) c_int_small [of h] c_int_small [of t] i t(1) by (simp add: sys_handle_grant_def)
  have inv1: "objects_inv s1" using alloc_handle_inv [OF inv a1] obl by simp
  have same: "g_handle_tables s1 ! i = g_handle_tables ?s ! i" "g_objects s1 = g_objects ?s"
    using t(5) by (simp_all add: s1_def)
  have "caller_process ?k1 = Some (int i)" using c by (simp add: caller_process_def)
  from close_handle_run [of ?k1 i h ?hn ob, OF _ this i] inv1 same hn ob obtain s2 where
    cl: "sys_handle_close (word_of_nat h) ?k1 = Some (?k1\<lparr>k_objects := s2\<rparr>, 0)"
    and objs: "g_objects s2 = (g_objects ?s)[ob := (g_objects ?s ! ob)\<lparr>obj_used := False\<rparr>]"
    and tabs: "g_handle_tables s2 = (g_handle_tables s1)[i := (g_handle_tables s1 ! i)[h := ?hn\<lparr>h_used := False\<rparr>]]"
    by auto
  have gj: "g_handle_tables s2 ! j = (g_handle_tables ?s ! j)[g := gh]"
    using t(4,5) lens by (simp add: tabs s1_def)
  have fi: "first_index (\<lambda>x. \<not> obj_used x) (g_objects s2) = Some ob"
    by (rule first_index_SomeI) (use obl lens ob objs in auto)
  let ?s3 = "\<lambda>ty d. s2\<lparr>g_objects := (g_objects s2)[ob := object_init (ty, d) (g_objects s2 ! ob)],
      g_object_count := g_object_count s2 + 1\<rparr>"
  have al: "alloc_object ty d s2 = (?s3 ty d, int ob)" for ty d
    by (simp add: alloc_object_def object_claim_def fi)
  have hg: "handle_grants (?s3 ty d) (int j) (int g) 0 ty = Some (Some d)" for ty d
    using t(4) gl obl lens objs gj
    by (simp add: handle_grants_def handle_at_def tabs s1_def gh_def handle_init_def object_init_def)
  have "h_used (g_handle_tables s2 ! j ! g)" using gj gl lens by (simp add: gh_def handle_init_def)
  moreover have "\<not> obj_used (g_objects s2 ! ob)" using obl lens objs by simp
  ultimately show ?thesis using grant cl al hg
    by (intro exI [of _ ?k1] exI [of _ g] exI [of _ "?k1\<lparr>k_objects := s2\<rparr>"]) auto
qed

text \<open>The grantee of the example is process 3, behind task 0.\<close>

definition sample_pair :: kern where
  "sample_pair = sample_sandboxed\<lparr>g_tasks := (g_tasks sample_sandboxed)[0 := (sample_task True)\<lparr>t_process := 3\<rparr>]\<rparr>"

theorem granted_handle_dangles_witness:
  "\<exists>k1 g k2. sys_handle_grant (word_of_nat 0) (word_of_nat 0) sample_pair = Some (k1, word_of_nat g) \<and>
    sys_handle_close (word_of_nat 0) k1 = Some (k2, 0) \<and>
    h_used (g_handle_tables (k_objects k2) ! 3 ! g) \<and> \<not> obj_used (g_objects (k_objects k2) ! 0) \<and>
    (\<forall>ty d. \<exists>s3. alloc_object ty d (k_objects k2) = (s3, int 0) \<and>
       handle_grants s3 (int 3) (int g) 0 ty = Some (Some d))"
proof (rule granted_handle_dangles [where i = 0 and j = 3])
  have s: "k_objects sample_pair = sample_objects" by (simp add: sample_pair_def sample_sandboxed_facts)
  show "objects_inv (k_objects sample_pair)" using s sample_sandboxed_facts(1,4) by simp
  show "caller_process sample_pair = Some (int 0)"
    using sample_sandboxed_facts(2)
    by (simp add: caller_process_def sample_pair_def sample_sandboxed_def sample_kern_def slot_at_def)
qed (simp_all add: sample_pair_def sample_sandboxed_facts(4) sample_objects_def,
     simp_all add: sample_sandboxed_def sample_kern_def)

lemma attach_sandbox_fails_open:
  "\<forall>q \<in> set (g_sandbox_policies k). sp_used q \<Longrightarrow> attach_sandbox p k = Some k"
  using spt.alloc_full [of "g_sandbox_policies k"] by (simp add: attach_sandbox_def)

end
