(* ===== verification/Blockdev.thy ===== *)
theory Blockdev
  imports Prelude
begin

text \<open>
  The block devices the file systems sit on (\<^verbatim>\<open>src/kernel/fs/blockdev/blockdev.c\<close>). The controller
  drivers below it are hardware: a disk is a map from sector numbers to 512-byte sectors together
  with the set of sectors whose transfers the controller reports as failed. The contract the file
  systems rely on is the locale \<open>sector_store\<close>; transfers of consecutive sectors are derived in it.
  The dispatch of a logical device to a controller is \<open>blockdev_read_sector\<close> and
  \<open>blockdev_write_sector\<close>; MiniFS always names the system device, so its model works on that disk.
\<close>

type_synonym sector = "u8 list"

record disk =
  sectors :: "u32 \<Rightarrow> sector"
  failing :: "u32 \<Rightarrow> bool"

definition disk_read :: "disk \<Rightarrow> u32 \<Rightarrow> sector option" where
  "disk_read d lba = (if failing d lba then None else Some (sectors d lba))"

definition disk_write :: "disk \<Rightarrow> u32 \<Rightarrow> sector \<Rightarrow> disk \<times> bool" where
  "disk_write d lba buf =
     (if failing d lba then (d, False) else (d\<lparr>sectors := (sectors d)(lba := buf)\<rparr>, True))"

text \<open>The two controllers: a disk per NVMe namespace and per ATA drive, and the choice made at boot.\<close>

record storage =
  use_nvme :: bool
  nvme_namespace :: "u8 \<Rightarrow> disk"
  ata_drive :: "u8 \<Rightarrow> disk"

definition BLOCKDEV_SYSTEM :: u8 where "BLOCKDEV_SYSTEM = 0"
definition BLOCKDEV_FAT32 :: u8 where "BLOCKDEV_FAT32 = 1"

definition blockdev_read_sector :: "storage \<Rightarrow> u8 \<Rightarrow> u32 \<Rightarrow> sector option" where
  "blockdev_read_sector st dev lba =
     (if use_nvme st
      then let nsid = (if dev = BLOCKDEV_SYSTEM then 1 else 2) in disk_read (nvme_namespace st nsid) lba
      else let drive = (if dev = BLOCKDEV_SYSTEM then 0 else 1) in disk_read (ata_drive st drive) lba)"

definition blockdev_write_sector :: "storage \<Rightarrow> u8 \<Rightarrow> u32 \<Rightarrow> sector \<Rightarrow> storage \<times> bool" where
  "blockdev_write_sector st dev lba buf =
     (if use_nvme st
      then let nsid = (if dev = BLOCKDEV_SYSTEM then 1 else 2);
               (d, ok) = disk_write (nvme_namespace st nsid) lba buf
           in (st\<lparr>nvme_namespace := (nvme_namespace st)(nsid := d)\<rparr>, ok)
      else let drive = (if dev = BLOCKDEV_SYSTEM then 0 else 1);
               (d, ok) = disk_write (ata_drive st drive) lba buf
           in (st\<lparr>ata_drive := (ata_drive st)(drive := d)\<rparr>, ok))"

text \<open>The disk a logical device stands for.\<close>

definition device_disk :: "storage \<Rightarrow> u8 \<Rightarrow> disk" where
  "device_disk st dev =
     (if use_nvme st then nvme_namespace st (if dev = BLOCKDEV_SYSTEM then 1 else 2)
      else ata_drive st (if dev = BLOCKDEV_SYSTEM then 0 else 1))"

text \<open>Writing consecutive sectors, stopping at the first failure; reading them back.\<close>

fun write_run :: "('d \<Rightarrow> u32 \<Rightarrow> sector \<Rightarrow> 'd \<times> bool) \<Rightarrow> 'd \<Rightarrow> u32 \<Rightarrow> sector list \<Rightarrow> 'd \<times> bool" where
  "write_run wr d lba [] = (d, True)"
| "write_run wr d lba (s # ss) =
     (let (d', ok) = wr d lba s in if ok then write_run wr d' (lba + 1) ss else (d', False))"

fun read_run :: "('d \<Rightarrow> u32 \<Rightarrow> sector option) \<Rightarrow> 'd \<Rightarrow> u32 \<Rightarrow> nat \<Rightarrow> sector list \<times> bool" where
  "read_run rd d lba 0 = ([], True)"
| "read_run rd d lba (Suc n) =
     (case rd d lba of
        None \<Rightarrow> ([], False)
      | Some s \<Rightarrow> let (ss, ok) = read_run rd d (lba + 1) n in (s # ss, ok))"

locale sector_store =
  fixes rd :: "'d \<Rightarrow> u32 \<Rightarrow> sector option"
    and wr :: "'d \<Rightarrow> u32 \<Rightarrow> sector \<Rightarrow> 'd \<times> bool"
    and up :: "'d \<Rightarrow> u32 \<Rightarrow> bool"
  assumes wr_up: "up d l \<Longrightarrow> snd (wr d l s)"
    and wr_keeps_up: "up (fst (wr d l s)) m = up d m"
    and rd_same: "up d l \<Longrightarrow> rd (fst (wr d l s)) l = Some s"
    and rd_other: "m \<noteq> l \<Longrightarrow> rd (fst (wr d l s)) m = rd d m"
    and rd_up: "up d l \<Longrightarrow> \<exists>s. rd d l = Some s"
begin

lemma write_run_frame:
  assumes "\<forall>j < length ss. m \<noteq> lba + word_of_nat j"
  shows "rd (fst (write_run wr d lba ss)) m = rd d m"
  using assms
proof (induction ss arbitrary: d lba)
  case (Cons s ss)
  obtain d' ok where w: "wr d lba s = (d', ok)" by fastforce
  have "m \<noteq> lba" using Cons.prems [rule_format, of 0] by simp
  then have d': "rd d' m = rd d m" using rd_other [of m lba d s] w by simp
  have "\<forall>j < length ss. m \<noteq> (lba + 1) + word_of_nat j"
  proof (intro allI impI)
    fix j
    assume "j < length ss"
    then show "m \<noteq> (lba + 1) + word_of_nat j"
      using Cons.prems [rule_format, of "Suc j"] by (simp add: algebra_simps)
  qed
  from Cons.IH [OF this, of d'] d' w show ?case by simp
qed simp

lemma write_run_up:
  assumes "\<forall>j < length ss. up d (lba + word_of_nat j)"
  shows "snd (write_run wr d lba ss) \<and> up (fst (write_run wr d lba ss)) m = up d m"
  using assms
proof (induction ss arbitrary: d lba)
  case (Cons s ss)
  obtain d' ok where w: "wr d lba s = (d', ok)" by fastforce
  have u: "up d lba" using Cons.prems [rule_format, of 0] by simp
  then have ok: "ok" using wr_up [of d lba s] w by simp
  have keep: "up d' l = up d l" for l using wr_keeps_up [of d lba s l] w by simp
  have nx: "\<forall>j < length ss. up d' ((lba + 1) + word_of_nat j)"
  proof (intro allI impI)
    fix j
    assume "j < length ss"
    then show "up d' ((lba + 1) + word_of_nat j)"
      using Cons.prems [rule_format, of "Suc j"] by (simp add: keep algebra_simps)
  qed
  show ?case using Cons.IH [OF nx] w ok keep by simp
qed simp

lemma read_write_run:
  assumes "\<forall>j < length ss. up d (lba + word_of_nat j)" and "length ss < 2 ^ 32"
  shows "read_run rd (fst (write_run wr d lba ss)) lba (length ss) = (ss, True)"
  using assms
proof (induction ss arbitrary: d lba)
  case (Cons s ss)
  obtain d' ok where w: "wr d lba s = (d', ok)" by fastforce
  have u: "up d lba" using Cons.prems(1) [rule_format, of 0] by simp
  then have ok: "ok" using wr_up [of d lba s] w by simp
  have nx: "\<forall>j < length ss. up d' ((lba + 1) + word_of_nat j)"
  proof (intro allI impI)
    fix j
    assume "j < length ss"
    then show "up d' ((lba + 1) + word_of_nat j)"
      using Cons.prems(1) [rule_format, of "Suc j"] wr_keeps_up [of d lba s] w by (simp add: algebra_simps)
  qed
  have far: "\<forall>j < length ss. lba \<noteq> (lba + 1) + word_of_nat j"
  proof (intro allI impI notI)
    fix j
    assume j: "j < length ss" "lba = (lba + 1) + word_of_nat j"
    then have "(word_of_nat (Suc j) :: u32) = 0" by (simp add: algebra_simps)
    then have "unat (word_of_nat (Suc j) :: u32) = 0" by simp
    then show False using j(1) Cons.prems(2)
      by (simp only: unsigned_of_nat) (simp add: take_bit_nat_eq_self)
  qed
  have "rd (fst (write_run wr d' (lba + 1) ss)) lba = Some s"
    using write_run_frame [OF far, of d'] rd_same [OF u, of s] w by simp
  with Cons.IH [OF nx] Cons.prems(2) w ok show ?case by simp
qed simp

end

text \<open>A healthy sector is one whose transfers succeed.\<close>

interpretation bdev: sector_store disk_read disk_write "\<lambda>d l. \<not> failing d l"
  by unfold_locales (auto simp: disk_read_def disk_write_def)

lemma write_sector_sectors:
  "sectors (fst (disk_write d l s)) = (if failing d l then sectors d else (sectors d)(l := s))"
  "failing (fst (disk_write d l s)) = failing d"
  by (simp_all add: disk_write_def)

section \<open>Logical devices\<close>

lemma blockdev_read_disk: "blockdev_read_sector st dev lba = disk_read (device_disk st dev) lba"
  by (simp add: blockdev_read_sector_def device_disk_def)

lemma blockdev_write_disk:
  "snd (blockdev_write_sector st dev lba buf) = snd (disk_write (device_disk st dev) lba buf)"
  "device_disk (fst (blockdev_write_sector st dev lba buf)) dev = fst (disk_write (device_disk st dev) lba buf)"
  by (simp_all add: blockdev_write_sector_def device_disk_def split: prod.split)

lemma blockdev_write_other:
  "(dev = BLOCKDEV_SYSTEM) \<noteq> (dev' = BLOCKDEV_SYSTEM) \<Longrightarrow>
    device_disk (fst (blockdev_write_sector st dev lba buf)) dev' = device_disk st dev'"
  by (auto simp: blockdev_write_sector_def device_disk_def split: prod.split)

text \<open>Each logical device is a sector store of its own.\<close>

interpretation logdev: sector_store "\<lambda>st. blockdev_read_sector st dev" "\<lambda>st. blockdev_write_sector st dev"
    "\<lambda>st l. \<not> failing (device_disk st dev) l" for dev
  by unfold_locales
    (simp_all add: blockdev_read_disk blockdev_write_disk bdev.wr_up bdev.wr_keeps_up bdev.rd_same
      bdev.rd_other bdev.rd_up)

end
