(* ===== verification/Minifs.thy ===== *)
theory Minifs
  imports Blockdev Strings_Lib "HOL-Library.Monad_Syntax"
begin

text \<open>
  MiniFS (\<^verbatim>\<open>src/kernel/fs/minifs/minifs.c\<close>): a superblock, directories of one sector with sixteen
  32-byte entries, and file data allocated by bumping a sector counter. The on-disk bytes are kept;
  an entry is decoded where the code casts the sector to \<^verbatim>\<open>dir_entry*\<close>. A path is a C string; the
  outer \<open>None\<close> of an operation is a read past the end of a string or buffer, failure of the operation
  itself is a result.
\<close>

section \<open>On-disk layout\<close>

definition SUPERBLOCK_LBA :: u32 where "SUPERBLOCK_LBA = 500"
definition ROOT_LBA :: u32 where "ROOT_LBA = 501"
definition DATA_START_LBA :: u32 where "DATA_START_LBA = 502"
definition MINIFS_MAGIC :: u32 where "MINIFS_MAGIC = 0x3153464D"
abbreviation MAX_FILES :: nat where "MAX_FILES \<equiv> 16"
abbreviation MAX_PATH_DEPTH :: nat where "MAX_PATH_DEPTH \<equiv> 8"
definition MODE_OWNER_ONLY_READ :: u8 where "MODE_OWNER_ONLY_READ = 1"
definition MODE_OWNER_ONLY_WRITE :: u8 where "MODE_OWNER_ONLY_WRITE = 2"

record dir_entry =
  de_name :: "u8 list"
  de_start_lba :: u32
  de_size :: u32
  de_used :: bool
  de_is_dir :: bool
  de_owner :: u8
  de_mode :: u8

definition decode_entry :: "sector \<Rightarrow> nat \<Rightarrow> dir_entry" where
  "decode_entry sec i = \<lparr>de_name = get_bytes (32 * i) 20 sec,
     de_start_lba = le32_decode (get_bytes (32 * i + 20) 4 sec),
     de_size = le32_decode (get_bytes (32 * i + 24) 4 sec),
     de_used = sec ! (32 * i + 28) \<noteq> 0, de_is_dir = sec ! (32 * i + 29) \<noteq> 0,
     de_owner = sec ! (32 * i + 30), de_mode = sec ! (32 * i + 31)\<rparr>"

definition encode_entry :: "dir_entry \<Rightarrow> u8 list" where
  "encode_entry e = de_name e @ le32_encode (de_start_lba e) @ le32_encode (de_size e) @
     [if de_used e then 1 else 0, if de_is_dir e then 1 else 0, de_owner e, de_mode e]"

definition sb_file_count :: "sector \<Rightarrow> u32" where "sb_file_count sec = le32_decode (get_bytes 4 4 sec)"
definition sb_next_free :: "sector \<Rightarrow> u32" where "sb_next_free sec = le32_decode (get_bytes 8 4 sec)"

definition sectors_for :: "u32 \<Rightarrow> u32" where
  "sectors_for n = (n + 511) div 512"

text \<open>\<^verbatim>\<open>copy_name\<close>: at most 19 characters, the rest of the 20 bytes zero.\<close>

definition copy_name :: "u8 list \<Rightarrow> u8 list option" where
  "copy_name src =
     (if terminated src \<or> 19 \<le> length src
      then let s = takeWhile (\<lambda>c. c \<noteq> 0) (take 19 src) in Some (s @ replicate (20 - length s) 0)
      else None)"

definition mkfs :: "disk \<Rightarrow> disk \<times> bool" where
  "mkfs d =
     (let sb = put_bytes 0 (le32_encode MINIFS_MAGIC @ le32_encode 0 @ le32_encode DATA_START_LBA) (replicate 512 0);
          (d1, ok) = disk_write d SUPERBLOCK_LBA sb
      in if ok then disk_write d1 ROOT_LBA (replicate 512 0) else (d1, False))"

section \<open>Directories and paths\<close>

fun scan_entries :: "sector \<Rightarrow> u8 list \<Rightarrow> nat list \<Rightarrow> nat option option" where
  "scan_entries sec name [] = Some None"
| "scan_entries sec name (i # is) =
     (if de_used (decode_entry sec i) then do {
        b \<leftarrow> streq (drop (32 * i) sec) name;
        if b then Some (Some i) else scan_entries sec name is
      }
      else scan_entries sec name is)"

definition find_entry :: "sector \<Rightarrow> u8 list \<Rightarrow> nat option option" where
  "find_entry sec name = scan_entries sec name [0..<MAX_FILES]"

fun take_component :: "nat \<Rightarrow> u8 list \<Rightarrow> (u8 list \<times> u8 list) option" where
  "take_component m [] = None"
| "take_component m (c # p) =
     (if c = 0 \<or> c = 47 \<or> m = 0 then Some ([], c # p)
      else map_option (\<lambda>(s, r). (c # s, r)) (take_component (m - 1) p))"

fun skip_slashes :: "u8 list \<Rightarrow> u8 list option" where
  "skip_slashes [] = None"
| "skip_slashes (c # p) = (if c = 47 then skip_slashes p else Some (c # p))"

fun split_components :: "nat \<Rightarrow> u8 list \<Rightarrow> u8 list list option" where
  "split_components 0 path = Some []"
| "split_components (Suc n) [] = None"
| "split_components (Suc n) (c # p) =
     (if c = 0 then Some []
      else do {
        (s, r) \<leftarrow> take_component 19 (c # p);
        r' \<leftarrow> skip_slashes r;
        rest \<leftarrow> split_components n r';
        Some ((s @ [0]) # rest)
      })"

definition split_path :: "u8 list \<Rightarrow> u8 list list option" where
  "split_path path = split_components MAX_PATH_DEPTH path"

fun walk_dirs :: "disk \<Rightarrow> u32 \<Rightarrow> u8 list list \<Rightarrow> u32 option option" where
  "walk_dirs d lba [] = Some (Some lba)"
| "walk_dirs d lba (c # cs) =
     (case disk_read d lba of
        None \<Rightarrow> Some None
      | Some sec \<Rightarrow> do {
          f \<leftarrow> find_entry sec c;
          case f of
            None \<Rightarrow> Some None
          | Some i \<Rightarrow>
              if \<not> de_is_dir (decode_entry sec i) then Some None
              else walk_dirs d (de_start_lba (decode_entry sec i)) cs
        })"

definition resolve_parent_dir :: "disk \<Rightarrow> u8 list \<Rightarrow> (u32 \<times> u8 list) option option" where
  "resolve_parent_dir d path = do {
     cs \<leftarrow> split_path path;
     if cs = [] then Some None
     else do {
       r \<leftarrow> walk_dirs d ROOT_LBA (butlast cs);
       case r of
         None \<Rightarrow> Some None
       | Some lba \<Rightarrow> do { nm \<leftarrow> copy_name (last cs); Some (Some (lba, nm)) }
     }
   }"

definition resolve_dir :: "disk \<Rightarrow> u8 list \<Rightarrow> u32 option option" where
  "resolve_dir d path = do { cs \<leftarrow> split_path path; walk_dirs d ROOT_LBA cs }"

text \<open>
  The opening of every operation on an existing or new name: resolve the parent, read its sector.
  \<open>k\<close> continues with the parent's sector number, the sector and the name; \<open>failv\<close> is the failure exit.
\<close>

definition in_parent ::
  "disk \<Rightarrow> u8 list \<Rightarrow> 'r \<Rightarrow> (u32 \<Rightarrow> sector \<Rightarrow> u8 list \<Rightarrow> 'r option) \<Rightarrow> 'r option" where
  "in_parent d path failv k = do {
     r \<leftarrow> resolve_parent_dir d path;
     case r of
       None \<Rightarrow> Some failv
     | Some (parent, name) \<Rightarrow>
         (case disk_read d parent of
            None \<Rightarrow> Some failv
          | Some dir \<Rightarrow> k parent dir name)
   }"

definition free_slot :: "sector \<Rightarrow> nat option" where
  "free_slot sec = first_index (\<lambda>i. \<not> de_used (decode_entry sec i)) [0..<MAX_FILES]"

section \<open>Superblock\<close>

definition alloc_lba :: "disk \<Rightarrow> u32 \<Rightarrow> disk \<times> u32 option" where
  "alloc_lba d n =
     (case disk_read d SUPERBLOCK_LBA of
        None \<Rightarrow> (d, None)
      | Some sb \<Rightarrow>
          let lba = sb_next_free sb;
              (d', ok) = disk_write d SUPERBLOCK_LBA (put_bytes 8 (le32_encode (lba + n)) sb)
          in (d', if ok then Some lba else None))"

definition bump_file_count :: "disk \<Rightarrow> u32 \<Rightarrow> disk \<times> bool" where
  "bump_file_count d delta =
     (case disk_read d SUPERBLOCK_LBA of
        None \<Rightarrow> (d, False)
      | Some sb \<Rightarrow> disk_write d SUPERBLOCK_LBA (put_bytes 4 (le32_encode (sb_file_count sb + delta)) sb))"

definition fs_superblock_info :: "disk \<Rightarrow> u32 option" where
  "fs_superblock_info d = map_option sb_file_count (disk_read d SUPERBLOCK_LBA)"

section \<open>Operations\<close>

text \<open>The data sectors of a file, the last one padded with zeros.\<close>

definition data_sectors :: "u8 list \<Rightarrow> u32 \<Rightarrow> sector list" where
  "data_sectors data len =
     map (\<lambda>s. let ch = take 512 (drop (512 * s) (take (unat len) data)) in ch @ replicate (512 - length ch) 0)
       [0..<unat (sectors_for len)]"

definition new_entry :: "u8 list \<Rightarrow> u32 \<Rightarrow> u32 \<Rightarrow> bool \<Rightarrow> dir_entry" where
  "new_entry name lba len is_dir = \<lparr>de_name = name, de_start_lba = lba, de_size = len, de_used = True,
     de_is_dir = is_dir, de_owner = 0, de_mode = 0\<rparr>"

text \<open>Linking a new entry into a directory, the common end of file and directory creation.\<close>

definition link_entry :: "disk \<Rightarrow> u32 \<Rightarrow> sector \<Rightarrow> nat \<Rightarrow> dir_entry \<Rightarrow> disk \<times> bool" where
  "link_entry d parent dir i e =
     (let (d', ok) = disk_write d parent (put_bytes (32 * i) (encode_entry e) dir)
      in if ok then bump_file_count d' 1 else (d', False))"

definition fs_write_file :: "u8 list \<Rightarrow> u8 list \<Rightarrow> u32 \<Rightarrow> disk \<Rightarrow> (disk \<times> bool) option" where
  "fs_write_file path data len d =
     in_parent d path (d, False) (\<lambda>parent dir name. do {
       f \<leftarrow> find_entry dir name;
       if f \<noteq> None then Some (d, False)
       else case free_slot dir of
         None \<Rightarrow> Some (d, False)
       | Some i \<Rightarrow>
           (case alloc_lba d (sectors_for len) of
              (d1, None) \<Rightarrow> Some (d1, False)
            | (d1, Some start) \<Rightarrow>
                if sectors_for len \<noteq> 0 \<and> length data < unat len then None
                else let (d2, ok) = write_run disk_write d1 start (data_sectors data len)
                     in if \<not> ok then Some (d2, False)
                        else do { nm \<leftarrow> copy_name name;
                                  Some (link_entry d2 parent dir i (new_entry nm start len False)) })
     })"

definition fs_create_dir :: "u8 list \<Rightarrow> disk \<Rightarrow> (disk \<times> bool) option" where
  "fs_create_dir path d =
     in_parent d path (d, False) (\<lambda>parent dir name. do {
       f \<leftarrow> find_entry dir name;
       if f \<noteq> None then Some (d, False)
       else case free_slot dir of
         None \<Rightarrow> Some (d, False)
       | Some i \<Rightarrow>
           (case alloc_lba d 1 of
              (d1, None) \<Rightarrow> Some (d1, False)
            | (d1, Some lba) \<Rightarrow>
                let (d2, ok) = disk_write d1 lba (replicate 512 0)
                in if \<not> ok then Some (d2, False)
                   else do { nm \<leftarrow> copy_name name;
                             Some (link_entry d2 parent dir i (new_entry nm lba 0 True)) })
     })"

definition fs_delete_file :: "u8 list \<Rightarrow> disk \<Rightarrow> (disk \<times> bool) option" where
  "fs_delete_file path d =
     in_parent d path (d, False) (\<lambda>parent dir name. do {
       f \<leftarrow> find_entry dir name;
       case f of
         None \<Rightarrow> Some (d, False)
       | Some i \<Rightarrow>
           let (d', ok) = disk_write d parent (dir[32 * i + 28 := 0])
           in Some (if ok then bump_file_count d' (-1) else (d', False))
     })"

definition fs_list_entry :: "u8 list \<Rightarrow> int \<Rightarrow> disk \<Rightarrow> (u8 list \<times> u32 \<times> bool) option option" where
  "fs_list_entry path index d = do {
     r \<leftarrow> resolve_dir d path;
     case r of
       None \<Rightarrow> Some None
     | Some lba \<Rightarrow>
         (case disk_read d lba of
            None \<Rightarrow> Some None
          | Some dir \<Rightarrow>
              if index < 0 \<or> index \<ge> int MAX_FILES \<or> \<not> de_used (decode_entry dir (nat index)) then Some None
              else do {
                nm \<leftarrow> copy_name (drop (32 * nat index) dir);
                Some (Some (nm, de_size (decode_entry dir (nat index)), de_is_dir (decode_entry dir (nat index))))
              })
   }"

text \<open>The caller's buffer after the transfer is returned with the result.\<close>

definition fs_read_file :: "u8 list \<Rightarrow> u8 list \<Rightarrow> u32 \<Rightarrow> disk \<Rightarrow> (int \<times> u8 list) option" where
  "fs_read_file path out max_len d =
     in_parent d path (-1, out) (\<lambda>parent dir name. do {
       f \<leftarrow> find_entry dir name;
       case f of
         None \<Rightarrow> Some (-1, out)
       | Some i \<Rightarrow>
           let e = decode_entry dir i
           in if de_is_dir e then Some (-1, out)
              else if de_size e > max_len then Some (-2, out)
              else let (ss, ok) = read_run disk_read d (de_start_lba e) (unat (sectors_for (de_size e)));
                       bs = take (unat (de_size e)) (concat ss)
                   in if length bs > length out then None
                      else Some (if ok then int (unat (de_size e)) else -1, put_bytes 0 bs out)
     })"

definition fs_get_owner_mode :: "u8 list \<Rightarrow> disk \<Rightarrow> (u8 \<times> u8) option option" where
  "fs_get_owner_mode path d =
     in_parent d path None (\<lambda>parent dir name. do {
       f \<leftarrow> find_entry dir name;
       Some (map_option (\<lambda>i. (de_owner (decode_entry dir i), de_mode (decode_entry dir i))) f)
     })"

definition fs_stat_file :: "u8 list \<Rightarrow> disk \<Rightarrow> (u32 \<times> bool \<times> u8 \<times> u8) option option" where
  "fs_stat_file path d =
     in_parent d path None (\<lambda>parent dir name. do {
       f \<leftarrow> find_entry dir name;
       Some (map_option (\<lambda>i. let e = decode_entry dir i in (de_size e, de_is_dir e, de_owner e, de_mode e)) f)
     })"

text \<open>Changing one attribute byte of an entry, for its owner or root.\<close>

definition set_attribute :: "nat \<Rightarrow> u8 list \<Rightarrow> u8 \<Rightarrow> u8 \<Rightarrow> disk \<Rightarrow> (disk \<times> bool) option" where
  "set_attribute off path v caller_uid d =
     in_parent d path (d, False) (\<lambda>parent dir name. do {
       f \<leftarrow> find_entry dir name;
       case f of
         None \<Rightarrow> Some (d, False)
       | Some i \<Rightarrow>
           if caller_uid \<noteq> de_owner (decode_entry dir i) \<and> caller_uid \<noteq> 0 then Some (d, False)
           else Some (disk_write d parent (dir[32 * i + off := v]))
     })"

definition fs_set_owner :: "u8 list \<Rightarrow> u8 \<Rightarrow> u8 \<Rightarrow> disk \<Rightarrow> (disk \<times> bool) option" where
  "fs_set_owner = set_attribute 30"

definition fs_set_mode :: "u8 list \<Rightarrow> u8 \<Rightarrow> u8 \<Rightarrow> disk \<Rightarrow> (disk \<times> bool) option" where
  "fs_set_mode = set_attribute 31"

end
