(* ===== verification/Minifs_Store.thy ===== *)
theory Minifs_Store
  imports Minifs
begin

text \<open>
  MiniFS as a store of files. The invariant names the set of directory sectors; on top of it a path
  denotes a directory and a name, and the lemmas describe what linking, unlinking and writing do to
  the directory entries and to the data of every file.
\<close>

section \<open>Entries of a directory sector\<close>

lemma get_put_inside:
  assumes "off + length bs \<le> length buf" and "a + n \<le> length bs"
  shows "get_bytes (off + a) n (put_bytes off bs buf) = get_bytes a n bs"
  using assms by (intro nth_equalityI) (auto simp: get_bytes_def nth_put_bytes)

lemma length_encode_entry [simp]: "length (de_name e) = 20 \<Longrightarrow> length (encode_entry e) = 32"
  by (simp add: encode_entry_def)

lemma decode_encode_here:
  assumes "length (de_name e) = 20" and "length sec = 512" and "i < MAX_FILES"
  shows "decode_entry (put_bytes (32 * i) (encode_entry e) sec) i = e"
proof -
  let ?sec = "put_bytes (32 * i) (encode_entry e) sec"
  have len: "32 * i + length (encode_entry e) \<le> length sec" using assms by simp
  have name: "get_bytes (32 * i) 20 ?sec = de_name e"
    using get_put_inside [OF len, of 0 20] assms(1) by (simp add: encode_entry_def get_bytes_def)
  have lba: "get_bytes (32 * i + 20) 4 ?sec = le32_encode (de_start_lba e)"
    using get_put_inside [OF len, of 20 4] assms(1) by (simp add: encode_entry_def get_bytes_def)
  have sz: "get_bytes (32 * i + 24) 4 ?sec = le32_encode (de_size e)"
    using get_put_inside [OF len, of 24 4] assms(1) by (simp add: encode_entry_def get_bytes_def)
  have at: "?sec ! (32 * i + k) = encode_entry e ! k" if "k < 32" for k
    using that nth_put_bytes [OF len, of "32 * i + k"] assms by simp
  have tail: "encode_entry e ! 28 = (if de_used e then 1 else 0)" "encode_entry e ! 29 = (if de_is_dir e then 1 else 0)"
    "encode_entry e ! 30 = de_owner e" "encode_entry e ! 31 = de_mode e"
    using assms(1) by (simp_all add: encode_entry_def nth_append)
  show ?thesis
    using name lba sz at tail by (simp add: decode_entry_def)
qed

lemma decode_encode_other:
  assumes "length (de_name e) = 20" and "length sec = 512" and "i < MAX_FILES" "j < MAX_FILES" "j \<noteq> i"
  shows "decode_entry (put_bytes (32 * i) (encode_entry e) sec) j = decode_entry sec j"
proof -
  let ?sec = "put_bytes (32 * i) (encode_entry e) sec"
  have len: "32 * i + length (encode_entry e) \<le> length sec" using assms by simp
  have far: "32 * j + 32 \<le> 32 * i \<or> 32 * i + 32 \<le> 32 * j" using assms(5) by linarith
  have get: "get_bytes (32 * j + a) n ?sec = get_bytes (32 * j + a) n sec" if "a + n \<le> 32" for a n
    by (rule get_put_disjoint [OF len]) (use that far assms in auto)
  have at: "?sec ! (32 * j + k) = sec ! (32 * j + k)" if "k < 32" for k
    using that far nth_put_bytes [OF len, of "32 * j + k"] assms by auto
  show ?thesis
    using get [of 0 20] get [of 20 4] get [of 24 4] at by (simp add: decode_entry_def)
qed

lemma decode_unlink:
  assumes "length sec = 512" and "i < MAX_FILES" "j < MAX_FILES"
  shows "decode_entry (sec[32 * i + 28 := 0]) j =
    (if j = i then (decode_entry sec i)\<lparr>de_used := False\<rparr> else decode_entry sec j)"
proof -
  have get: "get_bytes (32 * j + a) n (sec[32 * i + 28 := 0]) = get_bytes (32 * j + a) n sec"
    if "a + n \<le> 28" for a n
  proof (rule get_bytes_nthI)
    fix k
    assume "32 * j + a \<le> k" "k < 32 * j + a + n"
    then have "32 * i + 28 \<noteq> k" using that by presburger
    then show "sec[32 * i + 28 := 0] ! k = sec ! k" by simp
  qed (use that assms in auto)
  have at: "(sec[32 * i + 28 := 0]) ! (32 * j + k) = (if j = i \<and> k = 28 then 0 else sec ! (32 * j + k))"
    if "k < 32" for k
  proof -
    have "32 * i + 28 = 32 * j + k \<longleftrightarrow> j = i \<and> k = 28" using that by presburger
    then show ?thesis using assms that by (auto simp: nth_list_update)
  qed
  show ?thesis
    using get [of 0 20] get [of 20 4] get [of 24 4] at by (simp add: decode_entry_def)
qed

section \<open>Names\<close>

lemma cstr_take:
  assumes "0 \<in> set (take n s)"
  shows "cstr s = cstr (take n s)" and "terminated s"
proof -
  have "s = take n s @ drop n s" by simp
  then show "terminated s" using assms by (metis UnCI set_append terminated_def)
  have "cstr (take n s @ drop n s) = cstr (take n s)"
    unfolding cstr_def using assms by (rule takeWhile_append1) simp
  then show "cstr s = cstr (take n s)" by simp
qed

text \<open>The 20-byte field that holds a name of at most 19 characters.\<close>

definition name_field :: "u8 list \<Rightarrow> u8 list" where
  "name_field s = s @ replicate (20 - length s) 0"

lemma length_name_field [simp]: "length s \<le> 20 \<Longrightarrow> length (name_field s) = 20"
  by (simp add: name_field_def)

lemma cstr_name_field [simp]: "0 \<notin> set s \<Longrightarrow> cstr (name_field s) = s"
  by (cases "20 - length s") (simp_all add: name_field_def cstr_append_zero)

lemma terminated_name_field [simp]: "length s \<le> 19 \<Longrightarrow> terminated (name_field s)"
  by (simp add: name_field_def terminated_def)

lemma copy_name_eq:
  assumes "terminated src" and "length (cstr src) \<le> 19"
  shows "copy_name src = Some (name_field (cstr src))"
proof -
  obtain t where src: "src = cstr src @ 0 # t" using terminated_split [OF assms(1)] by blast
  have "takeWhile (\<lambda>c. c \<noteq> 0) (take 19 src) = cstr src"
  proof -
    have "take 19 src = cstr src @ take (19 - length (cstr src)) (0 # t)"
      using assms(2) by (subst src) simp
    then show ?thesis
      by (cases "19 - length (cstr src)") (simp_all add: takeWhile_append cstr_nonzero)
  qed
  then show ?thesis using assms(1) by (simp add: copy_name_def name_field_def Let_def)
qed

text \<open>The first used entry with a given name.\<close>

definition has_name :: "sector \<Rightarrow> u8 list \<Rightarrow> nat \<Rightarrow> bool" where
  "has_name sec nm i \<longleftrightarrow> de_used (decode_entry sec i) \<and> cstr (de_name (decode_entry sec i)) = nm"

definition dir_lookup :: "sector \<Rightarrow> u8 list \<Rightarrow> nat option" where
  "dir_lookup sec nm = first_index (has_name sec nm) [0..<MAX_FILES]"

definition names_ok :: "sector \<Rightarrow> bool" where
  "names_ok sec \<longleftrightarrow> length sec = 512 \<and>
     (\<forall>i < MAX_FILES. de_used (decode_entry sec i) \<longrightarrow> 0 \<in> set (de_name (decode_entry sec i)))"

lemma first_index_upt_Some:
  "first_index P [0..<n] = Some k \<longleftrightarrow> k < n \<and> P k \<and> (\<forall>j < k. \<not> P j)"
proof
  assume "first_index P [0..<n] = Some k"
  from first_index_SomeD [OF this] show "k < n \<and> P k \<and> (\<forall>j < k. \<not> P j)" by auto
next
  assume "k < n \<and> P k \<and> (\<forall>j < k. \<not> P j)"
  then show "first_index P [0..<n] = Some k" by (intro first_index_SomeI) simp_all
qed

lemma first_index_upt_None: "first_index P [0..<n] = None \<longleftrightarrow> (\<forall>j < n. \<not> P j)"
  by (auto simp: first_index_None)

lemma scan_entries_eq:
  assumes "names_ok sec" and "terminated name" and "set is \<subseteq> {..<MAX_FILES}"
  shows "scan_entries sec name is = Some (map_option ((!) is) (first_index (has_name sec (cstr name)) is))"
  using assms(3)
proof (induction "is")
  case (Cons i "is")
  then have i: "i < MAX_FILES" by simp
  show ?case
  proof (cases "de_used (decode_entry sec i)")
    case True
    with assms(1) i have "0 \<in> set (take 20 (drop (32 * i) sec))"
      by (auto simp: names_ok_def decode_entry_def get_bytes_def)
    note ct = cstr_take [OF this]
    have "streq (drop (32 * i) sec) name = Some (cstr (de_name (decode_entry sec i)) = cstr name)"
      using streq_cstr [OF ct(2) assms(2)] ct(1) by (simp add: decode_entry_def get_bytes_def)
    with True Cons show ?thesis by (auto simp: has_name_def option.map_comp comp_def)
  next
    case False
    with Cons show ?thesis by (auto simp: has_name_def option.map_comp comp_def)
  qed
qed simp

lemma find_entry_eq:
  assumes "names_ok sec" and "terminated name"
  shows "find_entry sec name = Some (dir_lookup sec (cstr name))"
proof -
  have "find_entry sec name = Some (map_option ((!) [0..<MAX_FILES]) (dir_lookup sec (cstr name)))"
    unfolding find_entry_def dir_lookup_def using assms by (rule scan_entries_eq) auto
  moreover have "map_option ((!) [0..<MAX_FILES]) (dir_lookup sec nm) = dir_lookup sec nm" for nm
  proof (cases "dir_lookup sec nm")
    case (Some k)
    then have "k < MAX_FILES" unfolding dir_lookup_def first_index_upt_Some by blast
    with Some show ?thesis by simp
  qed simp
  ultimately show ?thesis by simp
qed

lemma dir_lookup_link:
  assumes len: "length sec = 512" and e: "length (de_name e) = 20" "de_used e" and i: "i < MAX_FILES"
    and fr: "\<not> de_used (decode_entry sec i)" and new: "dir_lookup sec (cstr (de_name e)) = None"
  shows "dir_lookup (put_bytes (32 * i) (encode_entry e) sec) nm =
    (if nm = cstr (de_name e) then Some i else dir_lookup sec nm)"
proof -
  let ?sec = "put_bytes (32 * i) (encode_entry e) sec"
  have h: "has_name ?sec nm j \<longleftrightarrow> (if j = i then nm = cstr (de_name e) else has_name sec nm j)"
    if "j < MAX_FILES" for j nm
    using decode_encode_here [OF e(1) len i] decode_encode_other [OF e(1) len i that] e(2)
    by (auto simp: has_name_def)
  have old: "\<not> has_name sec nm i" for nm using fr by (simp add: has_name_def)
  show ?thesis
  proof (cases "nm = cstr (de_name e)")
    case True
    have "\<forall>j < MAX_FILES. \<not> has_name sec nm j" using new True by (simp add: dir_lookup_def first_index_upt_None)
    then show ?thesis using True i h
      by (auto simp: dir_lookup_def first_index_upt_Some)
  next
    case False
    have "has_name ?sec nm j \<longleftrightarrow> has_name sec nm j" if "j < MAX_FILES" for j
      using h [OF that] False old by auto
    then have "first_index (has_name ?sec nm) [0..<MAX_FILES] = first_index (has_name sec nm) [0..<MAX_FILES]"
      by (intro first_index_cong) simp
    with False show ?thesis by (simp add: dir_lookup_def)
  qed
qed

definition unique_names :: "sector \<Rightarrow> bool" where
  "unique_names sec \<longleftrightarrow> (\<forall>i < MAX_FILES. \<forall>j < MAX_FILES. \<forall>nm. has_name sec nm i \<longrightarrow> has_name sec nm j \<longrightarrow> i = j)"

lemma dir_lookup_unlink:
  assumes len: "length sec = 512" and u: "unique_names sec" and i: "dir_lookup sec s = Some i"
  shows "dir_lookup (sec[32 * i + 28 := 0]) nm = (if nm = s then None else dir_lookup sec nm)"
proof -
  let ?sec = "sec[32 * i + 28 := 0]"
  from i have il: "i < MAX_FILES" and hi: "has_name sec s i"
    unfolding dir_lookup_def first_index_upt_Some by blast+
  have h: "has_name ?sec nm j \<longleftrightarrow> j \<noteq> i \<and> has_name sec nm j" if "j < MAX_FILES" for j
    using decode_unlink [OF len il that] by (auto simp: has_name_def)
  show ?thesis
  proof (cases "nm = s")
    case True
    then have "\<forall>j < MAX_FILES. \<not> has_name ?sec nm j" using h hi il u by (auto simp: unique_names_def)
    then show ?thesis using True by (simp add: dir_lookup_def first_index_upt_None)
  next
    case False
    then have "\<not> has_name sec nm i" using hi by (simp add: has_name_def)
    then have "first_index (has_name ?sec nm) [0..<MAX_FILES] = first_index (has_name sec nm) [0..<MAX_FILES]"
      using h by (intro first_index_cong) auto
    with False show ?thesis by (simp add: dir_lookup_def)
  qed
qed

section \<open>Paths\<close>

lemma take_component_ok:
  "terminated p \<Longrightarrow> \<exists>s r. take_component m p = Some (s, r) \<and> length s \<le> m \<and> 0 \<notin> set s \<and> terminated r"
proof (induction m p rule: take_component.induct)
  case (2 m c p)
  show ?case
  proof (cases "c = 0 \<or> c = 47 \<or> m = 0")
    case True
    then show ?thesis using 2(2) by auto
  next
    case False
    with 2 obtain s r where "take_component (m - 1) p = Some (s, r)" "length s \<le> m - 1" "0 \<notin> set s" "terminated r"
      by auto
    with False show ?thesis by auto
  qed
qed simp

lemma skip_slashes_ok: "terminated p \<Longrightarrow> \<exists>r. skip_slashes p = Some r \<and> terminated r"
  by (induction p rule: skip_slashes.induct) auto

definition component :: "u8 list \<Rightarrow> bool" where
  "component c \<longleftrightarrow> (\<exists>s. c = s @ [0] \<and> 0 \<notin> set s \<and> length s \<le> 19)"

lemma componentD:
  assumes "component c"
  shows "terminated c" "length (cstr c) \<le> 19"
  using assms by (auto simp: component_def terminated_def cstr_append_zero)

lemma split_components_ok:
  "terminated p \<Longrightarrow> \<exists>cs. split_components n p = Some cs \<and> (\<forall>c \<in> set cs. component c)"
proof (induction n p rule: split_components.induct)
  case (3 n c p)
  show ?case
  proof (cases "c = 0")
    case False
    from take_component_ok [OF 3(2), of 19] obtain s r where
      t: "take_component 19 (c # p) = Some (s, r)" "length s \<le> 19" "0 \<notin> set s" "terminated r" by blast
    from skip_slashes_ok [OF t(4)] obtain r' where r': "skip_slashes r = Some r'" "terminated r'" by blast
    from 3(1) [OF False t(1) refl r'] obtain cs where
      "split_components n r' = Some cs" "\<forall>c \<in> set cs. component c" by blast
    with False t r' show ?thesis by (auto simp: component_def)
  qed simp
qed simp_all

section \<open>The invariant\<close>

definition next_free :: "disk \<Rightarrow> nat" where
  "next_free d = unat (sb_next_free (sectors d SUPERBLOCK_LBA))"

definition entry_ok :: "u32 set \<Rightarrow> nat \<Rightarrow> dir_entry \<Rightarrow> bool" where
  "entry_ok D nf e \<longleftrightarrow> 0 \<in> set (de_name e) \<and>
     (if de_is_dir e then de_start_lba e \<in> D
      else 502 \<le> unat (de_start_lba e) \<and> unat (de_start_lba e) + unat (sectors_for (de_size e)) \<le> nf \<and>
        (\<forall>s < unat (sectors_for (de_size e)). de_start_lba e + word_of_nat s \<notin> D))"

text \<open>
  \<open>D\<close> holds the directory sectors. All of them and all file data lie below the allocation mark, file
  data and directories do not overlap, names are terminated and unique within a directory.
\<close>

definition minifs_inv :: "disk \<Rightarrow> u32 set \<Rightarrow> bool" where
  "minifs_inv d D \<longleftrightarrow> (\<forall>l. \<not> failing d l) \<and> (\<forall>l. length (sectors d l) = 512) \<and>
     ROOT_LBA \<in> D \<and> 502 \<le> next_free d \<and> (\<forall>l \<in> D. 501 \<le> unat l \<and> unat l < next_free d) \<and>
     (\<forall>l \<in> D. unique_names (sectors d l) \<and>
        (\<forall>i < MAX_FILES. de_used (decode_entry (sectors d l) i) \<longrightarrow>
           entry_ok D (next_free d) (decode_entry (sectors d l) i)))"

lemma minifs_invD:
  assumes "minifs_inv d D"
  shows "\<not> failing d l" "length (sectors d l) = 512" "ROOT_LBA \<in> D" "502 \<le> next_free d"
    "l \<in> D \<Longrightarrow> 501 \<le> unat l" "l \<in> D \<Longrightarrow> unat l < next_free d" "l \<in> D \<Longrightarrow> unique_names (sectors d l)"
    "l \<in> D \<Longrightarrow> i < MAX_FILES \<Longrightarrow> de_used (decode_entry (sectors d l) i) \<Longrightarrow>
       entry_ok D (next_free d) (decode_entry (sectors d l) i)"
    "l \<in> D \<Longrightarrow> names_ok (sectors d l)"
  using assms by (auto simp: minifs_inv_def names_ok_def entry_ok_def)

lemma read_sector_eq [simp]: "\<not> failing d l \<Longrightarrow> disk_read d l = Some (sectors d l)"
  by (simp add: disk_read_def)

section \<open>What a path denotes\<close>

definition entry_at_name :: "disk \<Rightarrow> u32 \<Rightarrow> u8 list \<Rightarrow> dir_entry option" where
  "entry_at_name d l nm = map_option (decode_entry (sectors d l)) (dir_lookup (sectors d l) nm)"

definition subdir :: "disk \<Rightarrow> u32 \<Rightarrow> u8 list \<Rightarrow> u32 option" where
  "subdir d l nm = (case entry_at_name d l nm of
     Some e \<Rightarrow> if de_is_dir e then Some (de_start_lba e) else None | None \<Rightarrow> None)"

fun descend :: "disk \<Rightarrow> u32 \<Rightarrow> u8 list list \<Rightarrow> u32 option" where
  "descend d l [] = Some l"
| "descend d l (n # ns) = (case subdir d l n of None \<Rightarrow> None | Some l' \<Rightarrow> descend d l' ns)"

definition path_target :: "disk \<Rightarrow> u8 list \<Rightarrow> (u32 \<times> u8 list) option" where
  "path_target d path = (case split_path path of
     None \<Rightarrow> None
   | Some cs \<Rightarrow> if cs = [] then None
       else map_option (\<lambda>l. (l, cstr (last cs))) (descend d ROOT_LBA (map cstr (butlast cs))))"

lemma entry_at_name_in:
  assumes "minifs_inv d D" "l \<in> D" "entry_at_name d l nm = Some e"
  shows "de_used e" "entry_ok D (next_free d) e" "cstr (de_name e) = nm"
proof -
  from assms(3) obtain i where i: "dir_lookup (sectors d l) nm = Some i" "e = decode_entry (sectors d l) i"
    by (auto simp: entry_at_name_def)
  then have "i < MAX_FILES" "has_name (sectors d l) nm i"
    unfolding dir_lookup_def first_index_upt_Some by blast+
  with i minifs_invD(8) [OF assms(1,2)] show "de_used e" "entry_ok D (next_free d) e" "cstr (de_name e) = nm"
    by (auto simp: has_name_def)
qed

lemma subdir_in: "minifs_inv d D \<Longrightarrow> l \<in> D \<Longrightarrow> subdir d l nm = Some l' \<Longrightarrow> l' \<in> D"
  using entry_at_name_in(2) [of d D l nm]
  by (auto simp: subdir_def entry_ok_def split: option.splits if_splits)

lemma walk_dirs_eq:
  assumes "minifs_inv d D"
  shows "l \<in> D \<Longrightarrow> \<forall>c \<in> set cs. component c \<Longrightarrow>
    walk_dirs d l cs = Some (descend d l (map cstr cs)) \<and> (\<forall>l'. descend d l (map cstr cs) = Some l' \<longrightarrow> l' \<in> D)"
proof (induction cs arbitrary: l)
  case (Cons c cs)
  have fe: "find_entry (sectors d l) c = Some (dir_lookup (sectors d l) (cstr c))"
    using Cons.prems componentD(1) minifs_invD(9) [OF assms] by (intro find_entry_eq) auto
  show ?case
  proof (cases "subdir d l (cstr c)")
    case None
    then show ?thesis using fe minifs_invD(1) [OF assms]
      by (auto simp: subdir_def entry_at_name_def split: option.splits if_splits)
  next
    case (Some l')
    from subdir_in [OF assms Cons.prems(1) Some] Cons.IH [of l'] Cons.prems(2) have
      "walk_dirs d l' cs = Some (descend d l' (map cstr cs))"
      "\<forall>m. descend d l' (map cstr cs) = Some m \<longrightarrow> m \<in> D" by auto
    with Some fe minifs_invD(1) [OF assms] show ?thesis
      by (auto simp: subdir_def entry_at_name_def split: option.splits if_splits)
  qed
qed simp

lemma resolve_parent_dir_eq:
  assumes inv: "minifs_inv d D" and t: "terminated path"
  shows "resolve_parent_dir d path = Some (map_option (\<lambda>(l, s). (l, name_field s)) (path_target d path))"
    and "path_target d path = Some (l, s) \<Longrightarrow> l \<in> D \<and> 0 \<notin> set s \<and> length s \<le> 19"
proof -
  from split_components_ok [OF t, of MAX_PATH_DEPTH] obtain cs where
    cs: "split_path path = Some cs" "\<forall>c \<in> set cs. component c" by (auto simp: split_path_def)
  have w: "walk_dirs d ROOT_LBA (butlast cs) = Some (descend d ROOT_LBA (map cstr (butlast cs)))"
    "\<forall>l'. descend d ROOT_LBA (map cstr (butlast cs)) = Some l' \<longrightarrow> l' \<in> D"
    using walk_dirs_eq [OF inv minifs_invD(3) [OF inv], of "butlast cs"] cs(2) in_set_butlastD [of _ cs] by auto
  have last: "component (last cs)" if "cs \<noteq> []" using that cs(2) by simp
  note cd = componentD [OF last]
  show "resolve_parent_dir d path = Some (map_option (\<lambda>(l, s). (l, name_field s)) (path_target d path))"
    using cs(1) w(1) copy_name_eq [OF cd]
    by (auto simp: resolve_parent_dir_def path_target_def split: option.splits)
  show "path_target d path = Some (l, s) \<Longrightarrow> l \<in> D \<and> 0 \<notin> set s \<and> length s \<le> 19"
    using cs(1) w(2) cd by (auto simp: path_target_def split: if_splits)
qed

lemma in_parent_eq:
  assumes "minifs_inv d D" and "terminated path"
  shows "in_parent d path failv k = (case path_target d path of
     None \<Rightarrow> Some failv | Some (l, s) \<Rightarrow> k l (sectors d l) (name_field s))"
  using resolve_parent_dir_eq(1) [OF assms] minifs_invD(1) [OF assms(1)]
  by (auto simp: in_parent_def split: option.splits)

lemma find_entry_target:
  assumes "minifs_inv d D" and "terminated path" and "path_target d path = Some (l, s)"
  shows "find_entry (sectors d l) (name_field s) = Some (dir_lookup (sectors d l) s)"
  using resolve_parent_dir_eq(2) [OF assms] minifs_invD(9) [OF assms(1)] find_entry_eq [of "sectors d l" "name_field s"]
  by simp

end
