(* ===== verification/Minifs_Files.thy ===== *)
theory Minifs_Files
  imports Minifs_Store
begin

text \<open>
  Reading, writing and deleting MiniFS files: what was written is read back, and no operation on one
  file changes what another path reads.
\<close>

section \<open>File contents\<close>

lemma read_run_healthy:
  assumes "\<forall>l. \<not> failing d l"
  shows "read_run disk_read d lba n = (map (\<lambda>j. sectors d (lba + word_of_nat j)) [0..<n], True)"
proof (induction n arbitrary: lba)
  case (Suc n)
  have "map (\<lambda>j. sectors d (lba + word_of_nat j)) [0..<Suc n] =
      sectors d lba # map (\<lambda>j. sectors d (lba + 1 + word_of_nat j)) [0..<n]"
    by (subst map_upt_Suc) (simp add: algebra_simps)
  with Suc.IH [of "lba + 1"] assms show ?case by (simp del: upt_Suc)
qed simp

definition file_bytes :: "disk \<Rightarrow> dir_entry \<Rightarrow> u8 list" where
  "file_bytes d e = take (unat (de_size e))
     (concat (map (\<lambda>j. sectors d (de_start_lba e + word_of_nat j)) [0..<unat (sectors_for (de_size e))]))"

definition read_entry :: "disk \<Rightarrow> u8 list \<Rightarrow> u32 \<Rightarrow> dir_entry option \<Rightarrow> (int \<times> u8 list) option" where
  "read_entry d out max_len r = (case r of
     None \<Rightarrow> Some (-1, out)
   | Some e \<Rightarrow> if de_is_dir e then Some (-1, out)
       else if de_size e > max_len then Some (-2, out)
       else if length (file_bytes d e) > length out then None
       else Some (int (unat (de_size e)), put_bytes 0 (file_bytes d e) out))"

lemma fs_read_file_eq:
  assumes "minifs_inv d D" and "terminated path"
  shows "fs_read_file path out max_len d = (case path_target d path of
     None \<Rightarrow> Some (-1, out) | Some (l, s) \<Rightarrow> read_entry d out max_len (entry_at_name d l s))"
proof -
  have h: "\<forall>l. \<not> failing d l" using minifs_invD(1) [OF assms(1)] by blast
  show ?thesis
    unfolding fs_read_file_def in_parent_eq [OF assms]
    using find_entry_target [OF assms]
    by (auto simp: read_entry_def entry_at_name_def Let_def read_run_healthy [OF h] file_bytes_def
        split: option.splits)
qed

lemma concat_nth_uniform:
  "\<forall>xs \<in> set xss. length xs = m \<Longrightarrow> 0 < m \<Longrightarrow> k < m * length xss \<Longrightarrow>
    concat xss ! k = xss ! (k div m) ! (k mod m)"
proof (induction xss arbitrary: k)
  case (Cons xs xss)
  show ?case
  proof (cases "k < m")
    case True
    with Cons.prems show ?thesis by (simp add: nth_append)
  next
    case False
    then have "k div m = Suc ((k - m) div m)" "k mod m = (k - m) mod m"
      using Cons.prems(2) by (simp_all add: le_div_geq le_mod_geq)
    with False Cons.IH [of "k - m"] Cons.prems show ?thesis by (simp add: nth_append)
  qed
qed simp

lemma sectors_for_unat:
  assumes "unat n + 511 < 2 ^ 32"
  shows "unat (sectors_for n) = (unat n + 511) div 512"
proof -
  have "unat (n + 511) = unat n + 511" using assms by (simp add: unat_word_ariths)
  then show ?thesis by (simp add: sectors_for_def unat_div)
qed

lemma ceil_512: "(n :: nat) \<le> 512 * ((n + 511) div 512)"
proof -
  have "512 * ((n + 511) div 512) + (n + 511) mod 512 = n + 511" by (rule mult_div_mod_eq)
  moreover have "(n + 511) mod 512 < 512" by simp
  ultimately show ?thesis by linarith
qed

lemma data_sectors_length:
  "length (data_sectors data len) = unat (sectors_for len)"
  "sc \<in> set (data_sectors data len) \<Longrightarrow> length sc = 512"
  by (auto simp: data_sectors_def Let_def)

lemma data_sectors_concat:
  assumes n: "unat len + 511 < 2 ^ 32" and len: "unat len \<le> length data"
  shows "take (unat len) (concat (data_sectors data len)) = take (unat len) data"
proof (rule nth_equalityI)
  let ?n = "unat (sectors_for len)"
  have uni: "\<forall>xs \<in> set (data_sectors data len). length xs = 512" using data_sectors_length(2) by blast
  have cl: "length (concat (data_sectors data len)) = 512 * ?n"
    using uni by (simp add: length_concat data_sectors_length(1) sum_list_triv cong: map_cong)
  have enough: "unat len \<le> 512 * ?n" unfolding sectors_for_unat [OF n] by (rule ceil_512)
  show "length (take (unat len) (concat (data_sectors data len))) = length (take (unat len) data)"
    using cl enough len by simp
  fix k
  assume "k < length (take (unat len) (concat (data_sectors data len)))"
  then have k: "k < unat len" by simp
  then have kn: "k div 512 < ?n" using enough by (simp add: less_mult_imp_div_less mult.commute)
  have "concat (data_sectors data len) ! k = data_sectors data len ! (k div 512) ! (k mod 512)"
    using concat_nth_uniform [OF uni, of k] k enough data_sectors_length(1) [of data len] by simp
  also have "\<dots> = take (unat len) data ! k"
  proof -
    let ?ch = "take 512 (drop (512 * (k div 512)) (take (unat len) data))"
    have "k mod 512 < length ?ch" using k len by (simp add: less_diff_conv)
    moreover have eq: "512 * (k div 512) + k mod 512 = k" by simp
    moreover have "512 * (k div 512) \<le> length (take (unat len) data)" using k len eq by simp
    ultimately have "?ch ! (k mod 512) = take (unat len) data ! (512 * (k div 512) + k mod 512)"
      by (simp only: nth_take mod_less_divisor zero_less_numeral nth_drop)
    then have "?ch ! (k mod 512) = take (unat len) data ! k" unfolding eq .
    with \<open>k mod 512 < length ?ch\<close> kn show ?thesis
      by (simp add: data_sectors_def Let_def nth_append)
  qed
  finally show "take (unat len) (concat (data_sectors data len)) ! k = take (unat len) data ! k"
    using k by simp
qed

section \<open>The superblock\<close>

lemma next_free_put8 [simp]: "length sb = 512 \<Longrightarrow> sb_next_free (put_bytes 8 (le32_encode v) sb) = v"
  by (simp add: sb_next_free_def)

lemma next_free_put4 [simp]: "length sb = 512 \<Longrightarrow> sb_next_free (put_bytes 4 (le32_encode v) sb) = sb_next_free sb"
  using get_put_disjoint [of 4 "le32_encode v" sb 8 4] by (simp add: sb_next_free_def)

lemma bump_file_count_eq:
  assumes "\<forall>l. \<not> failing d l"
  shows "bump_file_count d v = (d\<lparr>sectors := (sectors d)(SUPERBLOCK_LBA :=
     put_bytes 4 (le32_encode (sb_file_count (sectors d SUPERBLOCK_LBA) + v)) (sectors d SUPERBLOCK_LBA))\<rparr>, True)"
  using assms by (simp add: bump_file_count_def disk_write_def)

lemma alloc_lba_eq:
  assumes "\<forall>l. \<not> failing d l"
  shows "alloc_lba d n = (d\<lparr>sectors := (sectors d)(SUPERBLOCK_LBA :=
     put_bytes 8 (le32_encode (sb_next_free (sectors d SUPERBLOCK_LBA) + n)) (sectors d SUPERBLOCK_LBA))\<rparr>,
     Some (sb_next_free (sectors d SUPERBLOCK_LBA)))"
  using assms by (simp add: alloc_lba_def disk_write_def Let_def)

section \<open>Writing\<close>

text \<open>The state after a successful write, sector by sector.\<close>

definition written :: "disk \<Rightarrow> disk \<Rightarrow> u32 \<Rightarrow> nat \<Rightarrow> dir_entry \<Rightarrow> u8 list \<Rightarrow> bool" where
  "written d d' l i e data \<longleftrightarrow>
     (\<forall>x. \<not> failing d' x) \<and> (\<forall>x. length (sectors d' x) = 512) \<and>
     sectors d' l = put_bytes (32 * i) (encode_entry e) (sectors d l) \<and>
     (\<forall>j < unat (sectors_for (de_size e)). sectors d' (de_start_lba e + word_of_nat j) = data_sectors data (de_size e) ! j) \<and>
     (\<forall>x. x \<noteq> SUPERBLOCK_LBA \<longrightarrow> x \<noteq> l \<longrightarrow>
        (\<forall>j < unat (sectors_for (de_size e)). x \<noteq> de_start_lba e + word_of_nat j) \<longrightarrow> sectors d' x = sectors d x) \<and>
     next_free d' = next_free d + unat (sectors_for (de_size e))"

lemma unat_run:
  assumes "unat (a :: u32) + n \<le> 2 ^ 32 - 1" "j \<le> n"
  shows "unat (a + word_of_nat j) = unat a + j"
proof -
  have "unat (word_of_nat j :: u32) = j" using assms by (simp add: unsigned_of_nat take_bit_nat_eq_self)
  then show ?thesis using assms by (simp add: unat_word_ariths)
qed

lemma fs_write_file_run:
  assumes inv: "minifs_inv d D" and t: "terminated path" and p: "path_target d path = Some (l, s)"
    and new: "entry_at_name d l s = None" and i: "free_slot (sectors d l) = Some i"
    and room: "next_free d + unat (sectors_for len) < 2 ^ 32" and data: "unat len \<le> length data"
  shows "\<exists>d'. fs_write_file path data len d = Some (d', True) \<and>
    written d d' l i (new_entry (name_field s) (sb_next_free (sectors d SUPERBLOCK_LBA)) len False) data"
proof -
  let ?nf = "sb_next_free (sectors d SUPERBLOCK_LBA)"
  let ?n = "unat (sectors_for len)"
  let ?ss = "data_sectors data len"
  let ?e = "new_entry (name_field s) ?nf len False"
  have h: "\<forall>x. \<not> failing d x" using minifs_invD(1) [OF inv] by blast
  have lens: "\<And>x. length (sectors d x) = 512" using minifs_invD(2) [OF inv] by blast
  from resolve_parent_dir_eq(2) [OF inv t p] have l: "l \<in> D" and s: "0 \<notin> set s" "length s \<le> 19" by auto
  have nf: "unat ?nf = next_free d" by (simp add: next_free_def)
  have l500: "l \<noteq> SUPERBLOCK_LBA" using minifs_invD(5) [OF inv l] by (auto simp: SUPERBLOCK_LBA_def)
  define d1 where "d1 = d\<lparr>sectors := (sectors d)(SUPERBLOCK_LBA :=
     put_bytes 8 (le32_encode (?nf + sectors_for len)) (sectors d SUPERBLOCK_LBA))\<rparr>"
  define d2 where "d2 = fst (write_run disk_write d1 ?nf ?ss)"
  have up1: "\<forall>j < length ?ss. \<not> failing d1 (?nf + word_of_nat j)" using h by (simp add: d1_def)
  have w2: "write_run disk_write d1 ?nf ?ss = (d2, True)"
    using bdev.write_run_up [OF up1] by (simp add: d2_def prod_eq_iff)
  have h2: "\<forall>x. \<not> failing d2 x" using bdev.write_run_up [OF up1] h by (simp add: d2_def d1_def)
  have fr2: "sectors d2 x = sectors d1 x" if "\<forall>j < ?n. x \<noteq> ?nf + word_of_nat j" for x
    using bdev.write_run_frame [of ?ss x ?nf d1] that h h2
    by (simp add: d2_def data_sectors_length(1) d1_def)
  have "read_run disk_read d2 ?nf (length ?ss) = (?ss, True)"
    unfolding d2_def by (rule bdev.read_write_run [OF up1]) (use unsigned_less [of "sectors_for len"] in \<open>simp add: data_sectors_length(1)\<close>)
  then have "map (\<lambda>j. sectors d2 (?nf + word_of_nat j)) [0..<?n] = ?ss"
    using read_run_healthy [OF h2, of ?nf ?n] by (simp add: data_sectors_length(1))
  then have in2: "sectors d2 (?nf + word_of_nat j) = ?ss ! j" if "j < ?n" for j
    using that by (metis (no_types, lifting) add_0 diff_zero length_map length_upt nth_map nth_upt)
  have ur: "unat (?nf + word_of_nat j) = next_free d + j" if "j < ?n" for j
    using unat_run [of ?nf ?n j] nf room that by simp
  have out: "x \<noteq> ?nf + word_of_nat j" if "unat x < next_free d" "j < ?n" for x j
    using ur [OF that(2)] that(1) by auto
  have sb2: "sectors d2 SUPERBLOCK_LBA = put_bytes 8 (le32_encode (?nf + sectors_for len)) (sectors d SUPERBLOCK_LBA)"
    using fr2 [of SUPERBLOCK_LBA] out [of SUPERBLOCK_LBA] minifs_invD(4) [OF inv]
    by (simp add: d1_def SUPERBLOCK_LBA_def)
  have l2: "sectors d2 l = sectors d l"
    using fr2 [of l] out [of l] minifs_invD(6) [OF inv l] l500 by (simp add: d1_def)
  define d3 where "d3 = d2\<lparr>sectors := (sectors d2)(l := put_bytes (32 * i) (encode_entry ?e) (sectors d l))\<rparr>"
  define d4 where "d4 = fst (bump_file_count d3 1)"
  have h3: "\<forall>x. \<not> failing d3 x" using h2 by (simp add: d3_def)
  have d4: "bump_file_count d3 1 = (d4, True)" unfolding d4_def bump_file_count_eq [OF h3] by simp
  have s4: "sectors d4 = (sectors d3)(SUPERBLOCK_LBA := put_bytes 4
      (le32_encode (sb_file_count (sectors d3 SUPERBLOCK_LBA) + 1)) (sectors d3 SUPERBLOCK_LBA))"
    and h4: "\<forall>x. \<not> failing d4 x"
    unfolding d4_def bump_file_count_eq [OF h3] using h3 by simp_all
  have "find_entry (sectors d l) (name_field s) = Some None"
    using find_entry_target [OF inv t p] new by (simp add: entry_at_name_def)
  moreover have "copy_name (name_field s) = Some (name_field s)"
    using copy_name_eq [of "name_field s"] s by simp
  moreover have "link_entry d2 l (sectors d l) i ?e = (d4, True)"
    using h2 d4 by (simp add: link_entry_def disk_write_def d3_def)
  ultimately have run: "fs_write_file path data len d = Some (d4, True)"
    unfolding fs_write_file_def in_parent_eq [OF inv t]
    using p i data w2 by (simp add: alloc_lba_eq [OF h] d1_def)
  have il: "i < MAX_FILES" using i by (simp add: free_slot_def first_index_upt_Some)
  have sb3: "sectors d3 SUPERBLOCK_LBA = sectors d2 SUPERBLOCK_LBA" using l500 by (simp add: d3_def)
  have nf4: "next_free d4 = next_free d + ?n"
    using sb2 sb3 lens room by (simp add: next_free_def s4 unat_word_ariths)
  have inr: "sectors d4 (?nf + word_of_nat j) = ?ss ! j" if "j < ?n" for j
  proof -
    have "?nf + word_of_nat j \<noteq> l" "?nf + word_of_nat j \<noteq> SUPERBLOCK_LBA"
      using out [of l, OF _ that] out [of SUPERBLOCK_LBA, OF _ that] minifs_invD(4,6) [OF inv] l
      by (auto simp: SUPERBLOCK_LBA_def)
    then show ?thesis using in2 [OF that] by (simp add: s4 d3_def)
  qed
  have els: "sectors d4 x = sectors d x"
    if "x \<noteq> SUPERBLOCK_LBA" "x \<noteq> l" "\<forall>j < ?n. x \<noteq> ?nf + word_of_nat j" for x
    using that fr2 [OF that(3)] by (simp add: s4 d3_def d1_def)
  have sl: "sectors d4 l = put_bytes (32 * i) (encode_entry ?e) (sectors d l)"
    using l500 by (simp add: s4 d3_def)
  have len4: "length (sectors d4 x) = 512" for x
  proof -
    consider "x = SUPERBLOCK_LBA" | "x = l" | j where "j < ?n" "x = ?nf + word_of_nat j"
      | "x \<noteq> SUPERBLOCK_LBA" "x \<noteq> l" "\<forall>j < ?n. x \<noteq> ?nf + word_of_nat j" by blast
    then show ?thesis
    proof cases
      case 1 then show ?thesis using sb2 sb3 lens by (simp add: s4)
    next
      case 2 then show ?thesis using sl lens il s by (simp add: new_entry_def)
    next
      case 3
      then have "?ss ! j \<in> set ?ss" by (simp add: data_sectors_length(1))
      with 3 inr show ?thesis using data_sectors_length(2) by simp
    next
      case 4 then show ?thesis using els lens by simp
    qed
  qed
  have "written d d4 l i ?e data"
    unfolding written_def using h4 len4 sl inr els nf4 by (simp add: new_entry_def)
  with run show ?thesis by blast
qed

text \<open>A directory, a new name, a free slot and room for the data.\<close>

definition can_create :: "disk \<Rightarrow> u32 set \<Rightarrow> u32 \<Rightarrow> u8 list \<Rightarrow> nat \<Rightarrow> u32 \<Rightarrow> bool" where
  "can_create d D l s i len \<longleftrightarrow> minifs_inv d D \<and> l \<in> D \<and> 0 \<notin> set s \<and> length s \<le> 19 \<and>
     entry_at_name d l s = None \<and> free_slot (sectors d l) = Some i \<and>
     next_free d + unat (sectors_for len) < 2 ^ 32"

abbreviation fresh_entry :: "disk \<Rightarrow> u8 list \<Rightarrow> u32 \<Rightarrow> dir_entry" where
  "fresh_entry d s len \<equiv> new_entry (name_field s) (sb_next_free (sectors d SUPERBLOCK_LBA)) len False"

lemma can_createD:
  assumes "can_create d D l s i len"
  shows "minifs_inv d D" "l \<in> D" "0 \<notin> set s" "length s \<le> 19" "dir_lookup (sectors d l) s = None"
    "i < MAX_FILES" "\<not> de_used (decode_entry (sectors d l) i)"
    "unat (sb_next_free (sectors d SUPERBLOCK_LBA)) = next_free d"
    "j < unat (sectors_for len) \<Longrightarrow>
       unat (sb_next_free (sectors d SUPERBLOCK_LBA) + word_of_nat j) = next_free d + j"
  using assms unat_run [of "sb_next_free (sectors d SUPERBLOCK_LBA)" "unat (sectors_for len)" j]
  by (auto simp: can_create_def entry_at_name_def free_slot_def first_index_upt_Some next_free_def)

text \<open>Sectors below the allocation mark other than the superblock and the parent keep their content.\<close>

lemma written_old:
  assumes c: "can_create d D l s i len" and w: "written d d' l i (fresh_entry d s len) data"
    and x: "x \<noteq> SUPERBLOCK_LBA" "x \<noteq> l" "unat x < next_free d"
  shows "sectors d' x = sectors d x"
proof -
  have "x \<noteq> sb_next_free (sectors d SUPERBLOCK_LBA) + word_of_nat j" if "j < unat (sectors_for len)" for j
    using can_createD(9) [OF c that] x(3) by auto
  with w x(1,2) show ?thesis by (simp add: written_def new_entry_def)
qed

lemma written_dir:
  assumes c: "can_create d D l s i len" and w: "written d d' l i (fresh_entry d s len) data"
  shows "l' \<in> D \<Longrightarrow> l' \<noteq> l \<Longrightarrow> sectors d' l' = sectors d l'"
proof -
  assume l': "l' \<in> D" "l' \<noteq> l"
  note inv = can_createD(1) [OF c]
  have "l' \<noteq> SUPERBLOCK_LBA" using minifs_invD(5) [OF inv l'(1)] by (auto simp: SUPERBLOCK_LBA_def)
  then show ?thesis using written_old [OF c w _ l'(2)] minifs_invD(6) [OF inv l'(1)] by blast
qed

lemma written_entry:
  assumes c: "can_create d D l s i len" and w: "written d d' l i (fresh_entry d s len) data" and l': "l' \<in> D"
  shows "entry_at_name d' l' nm = (if l' = l \<and> nm = s then Some (fresh_entry d s len) else entry_at_name d l' nm)"
proof (cases "l' = l")
  case True
  let ?e = "fresh_entry d s len"
  note cd = can_createD [OF c]
  have e: "length (de_name ?e) = 20" "de_used ?e" "cstr (de_name ?e) = s"
    using cd(3,4) by (simp_all add: new_entry_def)
  have sl: "sectors d' l = put_bytes (32 * i) (encode_entry ?e) (sectors d l)" using w by (simp add: written_def)
  have len: "length (sectors d l) = 512" using minifs_invD(2) [OF cd(1)] by simp
  have lk: "dir_lookup (sectors d' l) nm = (if nm = s then Some i else dir_lookup (sectors d l) nm)"
    unfolding sl using dir_lookup_link [OF len e(1,2) cd(6,7)] cd(5) e(3) by simp
  have oth: "decode_entry (sectors d' l) k = decode_entry (sectors d l) k" if "dir_lookup (sectors d l) nm = Some k" for k
  proof -
    from that have "k < MAX_FILES" "has_name (sectors d l) nm k"
      unfolding dir_lookup_def first_index_upt_Some by blast+
    then show ?thesis unfolding sl using decode_encode_other [OF e(1) len cd(6)] cd(7)
      by (metis has_name_def)
  qed
  have here: "decode_entry (sectors d' l) i = ?e" unfolding sl by (rule decode_encode_here [OF e(1) len cd(6)])
  show ?thesis
  proof (cases "nm = s")
    case True
    then show ?thesis using lk here \<open>l' = l\<close> by (simp add: entry_at_name_def)
  next
    case False
    then show ?thesis using lk oth \<open>l' = l\<close>
      by (cases "dir_lookup (sectors d l) nm") (simp_all add: entry_at_name_def)
  qed
next
  case False
  then show ?thesis using written_dir [OF c w l'] by (simp add: entry_at_name_def)
qed

lemma written_subdir:
  assumes c: "can_create d D l s i len" and w: "written d d' l i (fresh_entry d s len) data" and "l' \<in> D"
  shows "subdir d' l' nm = subdir d l' nm"
proof -
  have "entry_at_name d l s = None" using c by (simp add: can_create_def)
  then show ?thesis using written_entry [OF assms] by (auto simp: subdir_def new_entry_def)
qed

lemma descend_cong:
  assumes "minifs_inv d D" and "\<And>l nm. l \<in> D \<Longrightarrow> subdir d' l nm = subdir d l nm"
  shows "l \<in> D \<Longrightarrow> descend d' l ns = descend d l ns"
proof (induction ns arbitrary: l)
  case (Cons n ns)
  then show ?case using assms(2) subdir_in [OF assms(1)] by (auto split: option.splits)
qed simp

lemma path_target_cong:
  assumes "minifs_inv d D" and "\<And>l nm. l \<in> D \<Longrightarrow> subdir d' l nm = subdir d l nm"
  shows "path_target d' q = path_target d q"
  using descend_cong [OF assms minifs_invD(3) [OF assms(1)]] by (simp add: path_target_def split: option.splits)

lemma entry_ok_mono: "entry_ok D n e \<Longrightarrow> n \<le> m \<Longrightarrow> entry_ok D m e"
  by (auto simp: entry_ok_def)

lemma file_bytes_cong:
  assumes ok: "entry_ok D n e" "\<not> de_is_dir e" and n: "n < 2 ^ 32"
    and same: "\<And>x. 502 \<le> unat x \<Longrightarrow> unat x < n \<Longrightarrow> x \<notin> D \<Longrightarrow> sectors d' x = sectors d x"
  shows "file_bytes d' e = file_bytes d e"
proof -
  have "sectors d' (de_start_lba e + word_of_nat j) = sectors d (de_start_lba e + word_of_nat j)"
    if "j < unat (sectors_for (de_size e))" for j
  proof -
    have "unat (de_start_lba e + word_of_nat j) = unat (de_start_lba e) + j"
      using unat_run [of "de_start_lba e" "unat (sectors_for (de_size e))" j] ok n that
      by (simp add: entry_ok_def)
    then show ?thesis using same ok that by (simp add: entry_ok_def)
  qed
  then have "map (\<lambda>j. sectors d' (de_start_lba e + word_of_nat j)) [0..<unat (sectors_for (de_size e))] =
      map (\<lambda>j. sectors d (de_start_lba e + word_of_nat j)) [0..<unat (sectors_for (de_size e))]"
    by (intro map_cong) auto
  then show ?thesis by (simp only: file_bytes_def)
qed

lemma written_bytes:
  assumes c: "can_create d D l s i len" and w: "written d d' l i (fresh_entry d s len) data"
    and e: "entry_ok D (next_free d) e" "\<not> de_is_dir e"
  shows "file_bytes d' e = file_bytes d e"
proof (rule file_bytes_cong [OF e])
  show "next_free d < 2 ^ 32" using c by (simp add: can_create_def)
  fix x :: u32
  assume x: "502 \<le> unat x" "unat x < next_free d" "x \<notin> D"
  then have "x \<noteq> SUPERBLOCK_LBA" "x \<noteq> l" using can_createD(2) [OF c] by (auto simp: SUPERBLOCK_LBA_def)
  then show "sectors d' x = sectors d x" using written_old [OF c w] x(2) by blast
qed

lemma unique_names_link:
  assumes len: "length sec = 512" and e: "length (de_name e) = 20" and i: "i < MAX_FILES"
    and fr: "\<not> de_used (decode_entry sec i)" and new: "dir_lookup sec (cstr (de_name e)) = None"
    and u: "unique_names sec"
  shows "unique_names (put_bytes (32 * i) (encode_entry e) sec)"
proof -
  let ?sec = "put_bytes (32 * i) (encode_entry e) sec"
  have h: "has_name ?sec nm j \<longrightarrow> (if j = i then nm = cstr (de_name e) else has_name sec nm j)"
    if "j < MAX_FILES" for j nm
    using decode_encode_here [OF e(1) len i] decode_encode_other [OF e(1) len i that]
    by (auto simp: has_name_def)
  have no: "\<not> has_name sec (cstr (de_name e)) j" if "j < MAX_FILES" for j
    using new that by (simp add: dir_lookup_def first_index_upt_None)
  show ?thesis unfolding unique_names_def
  proof (intro allI impI)
    fix a b :: nat and nm
    assume a: "a < MAX_FILES" "has_name ?sec nm a" and b: "b < MAX_FILES" "has_name ?sec nm b"
    from h [OF a(1)] a(2) have a': "if a = i then nm = cstr (de_name e) else has_name sec nm a" by blast
    from h [OF b(1)] b(2) have b': "if b = i then nm = cstr (de_name e) else has_name sec nm b" by blast
    show "a = b"
    proof (cases "nm = cstr (de_name e)")
      case True
      then show ?thesis using a' b' no [OF a(1)] no [OF b(1)] by (simp split: if_splits)
    next
      case False
      then have "has_name sec nm a" "has_name sec nm b" using a' b' by (simp_all split: if_splits)
      then show ?thesis using u a(1) b(1) unfolding unique_names_def by blast
    qed
  qed
qed

lemma written_inv:
  assumes c: "can_create d D l s i len" and w: "written d d' l i (fresh_entry d s len) data"
  shows "minifs_inv d' D"
proof -
  let ?e = "fresh_entry d s len"
  note cd = can_createD [OF c]
  note inv = cd(1)
  have nf: "next_free d' = next_free d + unat (sectors_for len)" using w by (simp add: written_def new_entry_def)
  have len: "length (sectors d l) = 512" using minifs_invD(2) [OF inv] by simp
  have e: "length (de_name ?e) = 20" "cstr (de_name ?e) = s" using cd(3,4) by (simp_all add: new_entry_def)
  have sl: "sectors d' l = put_bytes (32 * i) (encode_entry ?e) (sectors d l)" using w by (simp add: written_def)
  have eok: "entry_ok D (next_free d') ?e"
  proof -
    have "0 \<in> set (name_field s)" using cd(4) terminated_name_field [of s] by (simp add: terminated_def)
    moreover have "sb_next_free (sectors d SUPERBLOCK_LBA) + word_of_nat j \<notin> D" if "j < unat (sectors_for len)" for j
      using can_createD(9) [OF c that] minifs_invD(6) [OF inv] by (metis not_add_less1)
    ultimately show ?thesis using cd(8) minifs_invD(4) [OF inv] nf by (simp add: entry_ok_def new_entry_def)
  qed
  have dirs: "unique_names (sectors d' l') \<and> (\<forall>k < MAX_FILES. de_used (decode_entry (sectors d' l') k) \<longrightarrow>
      entry_ok D (next_free d') (decode_entry (sectors d' l') k))" if l': "l' \<in> D" for l'
  proof (cases "l' = l")
    case True
    have "unique_names (sectors d' l)"
      unfolding sl using minifs_invD(7) [OF inv cd(2)] cd(5) e
      by (intro unique_names_link [OF len e(1) cd(6,7)]) simp_all
    moreover have "entry_ok D (next_free d') (decode_entry (sectors d' l) k)"
      if k: "k < MAX_FILES" "de_used (decode_entry (sectors d' l) k)" for k
    proof (cases "k = i")
      case True
      then show ?thesis unfolding sl using decode_encode_here [OF e(1) len cd(6)] eok by simp
    next
      case False
      then have "decode_entry (sectors d' l) k = decode_entry (sectors d l) k"
        unfolding sl using decode_encode_other [OF e(1) len cd(6) k(1)] by simp
      then show ?thesis using k minifs_invD(8) [OF inv cd(2)] entry_ok_mono nf by (metis le_add1)
    qed
    ultimately show ?thesis using True by blast
  next
    case False
    then have "sectors d' l' = sectors d l'" by (rule written_dir [OF c w l'])
    then show ?thesis using minifs_invD(7,8) [OF inv l'] entry_ok_mono nf by (metis le_add1)
  qed
  have "\<forall>x \<in> D. 501 \<le> unat x \<and> unat x < next_free d'"
    unfolding nf using minifs_invD(5,6) [OF inv] by (simp add: trans_less_add1)
  with dirs w show ?thesis
    unfolding minifs_inv_def using minifs_invD(3,4) [OF inv] nf by (simp add: written_def)
qed

lemma written_read_same:
  assumes c: "can_create d D l s i len" and w: "written d d' l i (fresh_entry d s len) data"
    and n: "unat len + 511 < 2 ^ 32" "unat len \<le> length data"
  shows "file_bytes d' (fresh_entry d s len) = take (unat len) data"
proof -
  have "map (\<lambda>j. sectors d' (sb_next_free (sectors d SUPERBLOCK_LBA) + word_of_nat j)) [0..<unat (sectors_for len)] =
      data_sectors data len"
    using w by (intro nth_equalityI) (simp_all add: written_def new_entry_def data_sectors_length(1))
  then show ?thesis using data_sectors_concat [OF n] by (simp add: file_bytes_def new_entry_def)
qed

lemma write_cases:
  assumes inv: "minifs_inv d D" and t: "terminated path"
    and room: "next_free d + unat (sectors_for len) < 2 ^ 32" and data: "unat len \<le> length data"
  obtains "fs_write_file path data len d = Some (d, False)"
  | l s i d' where "path_target d path = Some (l, s)" "can_create d D l s i len"
      "fs_write_file path data len d = Some (d', True)" "written d d' l i (fresh_entry d s len) data"
proof (cases "path_target d path")
  case None
  then show ?thesis using that(1) by (simp add: fs_write_file_def in_parent_eq [OF inv t])
next
  case (Some ls)
  obtain l s where p: "path_target d path = Some (l, s)" using Some by (cases ls) auto
  note ok = resolve_parent_dir_eq(2) [OF inv t p]
  note fe = find_entry_target [OF inv t p]
  show ?thesis
  proof (cases "entry_at_name d l s = None \<and> free_slot (sectors d l) \<noteq> None")
    case True
    then obtain i where i: "free_slot (sectors d l) = Some i" by blast
    have c: "can_create d D l s i len" using inv ok True i room by (simp add: can_create_def)
    from True have "entry_at_name d l s = None" by simp
    from fs_write_file_run [OF inv t p this i room data] obtain d' where
      "fs_write_file path data len d = Some (d', True)" "written d d' l i (fresh_entry d s len) data"
      by (elim exE conjE)
    then show ?thesis by (rule that(2) [OF p c])
  next
    case False
    then show ?thesis using that(1) p fe
      by (auto simp: fs_write_file_def in_parent_eq [OF inv t] entry_at_name_def)
  qed
qed

section \<open>Deleting\<close>

lemma delete_run:
  assumes inv: "minifs_inv d D" and t: "terminated path" and p: "path_target d path = Some (l, s)"
    and i: "dir_lookup (sectors d l) s = Some i"
  shows "\<exists>d'. fs_delete_file path d = Some (d', True) \<and> (\<forall>x. \<not> failing d' x) \<and>
    (\<forall>x. length (sectors d' x) = 512) \<and> sectors d' l = (sectors d l)[32 * i + 28 := 0] \<and>
    (\<forall>x. x \<noteq> SUPERBLOCK_LBA \<longrightarrow> x \<noteq> l \<longrightarrow> sectors d' x = sectors d x) \<and> next_free d' = next_free d"
proof -
  have h: "\<forall>x. \<not> failing d x" using minifs_invD(1) [OF inv] by blast
  have lens: "\<And>x. length (sectors d x) = 512" using minifs_invD(2) [OF inv] by blast
  from resolve_parent_dir_eq(2) [OF inv t p] have l: "l \<in> D" by simp
  have l500: "l \<noteq> SUPERBLOCK_LBA" using minifs_invD(5) [OF inv l] by (auto simp: SUPERBLOCK_LBA_def)
  define d1 where "d1 = d\<lparr>sectors := (sectors d)(l := (sectors d l)[32 * i + 28 := 0])\<rparr>"
  have h1: "\<forall>x. \<not> failing d1 x" using h by (simp add: d1_def)
  define d2 where "d2 = fst (bump_file_count d1 (-1))"
  have b: "bump_file_count d1 (-1) = (d2, True)" unfolding d2_def bump_file_count_eq [OF h1] by simp
  have s2: "sectors d2 = (sectors d1)(SUPERBLOCK_LBA := put_bytes 4
      (le32_encode (sb_file_count (sectors d1 SUPERBLOCK_LBA) + -1)) (sectors d1 SUPERBLOCK_LBA))"
    and h2: "\<forall>x. \<not> failing d2 x"
    unfolding d2_def bump_file_count_eq [OF h1] using h1 by simp_all
  have "fs_delete_file path d = Some (d2, True)"
    unfolding fs_delete_file_def in_parent_eq [OF inv t]
    using p find_entry_target [OF inv t p] i h b by (simp add: disk_write_def d1_def)
  moreover have "length (sectors d2 x) = 512" for x
    using lens by (simp add: s2 d1_def)
  moreover have "next_free d2 = next_free d"
    using lens l500 by (simp add: next_free_def s2 d1_def)
  ultimately show ?thesis using h2 l500 by (intro exI [of _ d2]) (simp add: s2 d1_def)
qed

lemma unlink_entry:
  assumes len: "length (sectors d l) = 512" and u: "unique_names (sectors d l)"
    and i: "dir_lookup (sectors d l) s = Some i" and sl: "sectors d' l = (sectors d l)[32 * i + 28 := 0]"
  shows "entry_at_name d' l nm = (if nm = s then None else entry_at_name d l nm)"
proof -
  have il: "i < MAX_FILES" and hi: "has_name (sectors d l) s i"
    using i unfolding dir_lookup_def first_index_upt_Some by blast+
  have lk: "dir_lookup (sectors d' l) nm = (if nm = s then None else dir_lookup (sectors d l) nm)"
    unfolding sl by (rule dir_lookup_unlink [OF len u i])
  have "decode_entry (sectors d' l) k = decode_entry (sectors d l) k"
    if "nm \<noteq> s" "dir_lookup (sectors d l) nm = Some k" for k
  proof -
    from that(2) have k: "k < MAX_FILES" "has_name (sectors d l) nm k"
      unfolding dir_lookup_def first_index_upt_Some by blast+
    then have "k \<noteq> i" using hi that(1) by (auto simp: has_name_def)
    then show ?thesis unfolding sl using decode_unlink [OF len il k(1)] by simp
  qed
  then show ?thesis using lk by (cases "dir_lookup (sectors d l) nm") (auto simp: entry_at_name_def)
qed

lemma delete_inv:
  assumes inv: "minifs_inv d D" and l: "l \<in> D" and i: "i < MAX_FILES"
    and d': "\<forall>x. \<not> failing d' x" "\<forall>x. length (sectors d' x) = 512"
      "sectors d' l = (sectors d l)[32 * i + 28 := 0]"
      "\<forall>x. x \<noteq> SUPERBLOCK_LBA \<longrightarrow> x \<noteq> l \<longrightarrow> sectors d' x = sectors d x" "next_free d' = next_free d"
  shows "minifs_inv d' D"
proof -
  have len: "length (sectors d l) = 512" using minifs_invD(2) [OF inv] by simp
  have dec: "decode_entry (sectors d' l) k =
      (if k = i then (decode_entry (sectors d l) i)\<lparr>de_used := False\<rparr> else decode_entry (sectors d l) k)"
    if "k < MAX_FILES" for k
    unfolding d'(3) by (rule decode_unlink [OF len i that])
  have "unique_names (sectors d' x) \<and> (\<forall>k < MAX_FILES. de_used (decode_entry (sectors d' x) k) \<longrightarrow>
      entry_ok D (next_free d') (decode_entry (sectors d' x) k))" if x: "x \<in> D" for x
  proof (cases "x = l")
    case True
    have h: "has_name (sectors d' l) nm k \<longrightarrow> has_name (sectors d l) nm k" if "k < MAX_FILES" for nm k
      using dec [OF that] by (auto simp: has_name_def)
    have "unique_names (sectors d' l)"
      using minifs_invD(7) [OF inv l] h unfolding unique_names_def by blast
    moreover have "entry_ok D (next_free d') (decode_entry (sectors d' l) k)"
      if "k < MAX_FILES" "de_used (decode_entry (sectors d' l) k)" for k
      using that dec [OF that(1)] minifs_invD(8) [OF inv l that(1)] d'(5) by (simp split: if_splits)
    ultimately show ?thesis using True by blast
  next
    case False
    have "x \<noteq> SUPERBLOCK_LBA" using minifs_invD(5) [OF inv x] by (auto simp: SUPERBLOCK_LBA_def)
    then have "sectors d' x = sectors d x" using False d'(4) by blast
    then show ?thesis using minifs_invD(7,8) [OF inv x] d'(5) by simp
  qed
  then show ?thesis
    unfolding minifs_inv_def using d' minifs_invD(3-6) [OF inv] by simp
qed

section \<open>A fresh file system\<close>

definition blank_disk :: disk where
  "blank_disk = \<lparr>sectors = (\<lambda>l. replicate 512 0), failing = (\<lambda>l. False)\<rparr>"

lemma zero_sector_unused: "i < MAX_FILES \<Longrightarrow> \<not> de_used (decode_entry (replicate 512 0) i)"
  by (simp add: decode_entry_def)

lemma mkfs_inv:
  assumes "\<forall>l. \<not> failing d l" and "\<forall>l. length (sectors d l) = 512"
  shows "\<exists>d'. mkfs d = (d', True) \<and> minifs_inv d' {ROOT_LBA} \<and> sectors d' ROOT_LBA = replicate 512 0 \<and>
    next_free d' = 502"
proof -
  let ?sb = "put_bytes 0 (le32_encode MINIFS_MAGIC @ le32_encode 0 @ le32_encode DATA_START_LBA) (replicate 512 0)"
  let ?d' = "d\<lparr>sectors := (sectors d)(SUPERBLOCK_LBA := ?sb, ROOT_LBA := replicate 512 0)\<rparr>"
  have run: "mkfs d = (?d', True)" using assms(1) by (simp add: mkfs_def disk_write_def Let_def)
  have "sb_next_free ?sb = DATA_START_LBA"
    using get_put_inside [of 0 "le32_encode MINIFS_MAGIC @ le32_encode 0 @ le32_encode DATA_START_LBA" "replicate 512 0" 8 4]
    by (simp add: sb_next_free_def get_bytes_def)
  then have nf: "next_free ?d' = 502"
    by (simp add: next_free_def SUPERBLOCK_LBA_def ROOT_LBA_def DATA_START_LBA_def)
  have "unique_names (replicate 512 0)"
    unfolding unique_names_def has_name_def using zero_sector_unused by blast
  then have "minifs_inv ?d' {ROOT_LBA}"
    unfolding minifs_inv_def nf using assms zero_sector_unused by (simp add: ROOT_LBA_def)
  with run nf show ?thesis by simp
qed

lemma blank_fs:
  "\<exists>d. mkfs blank_disk = (d, True) \<and> minifs_inv d {ROOT_LBA} \<and> sectors d ROOT_LBA = replicate 512 0 \<and> next_free d = 502"
  by (rule mkfs_inv) (simp_all add: blank_disk_def)

lemma short_path: "c \<noteq> 0 \<Longrightarrow> c \<noteq> 47 \<Longrightarrow> path_target d [c, 0] = Some (ROOT_LBA, [c])"
proof -
  assume c: "c \<noteq> 0" "c \<noteq> 47"
  then have "split_components (Suc (Suc n)) [c, 0] = Some [[c, 0]]" for n by simp
  from this [of 6] have "split_path [c, 0] = Some [[c, 0]]" by (simp add: split_path_def)
  with c show ?thesis by (simp add: path_target_def)
qed

lemma blank_root:
  assumes "sectors d ROOT_LBA = replicate 512 0"
  shows "entry_at_name d ROOT_LBA nm = None" "free_slot (sectors d ROOT_LBA) = Some 0"
  using zero_sector_unused
  by (simp_all add: assms entry_at_name_def dir_lookup_def first_index_upt_None first_index_upt_Some
      has_name_def free_slot_def)

lemma delete_effect:
  assumes inv: "minifs_inv d D" and t: "terminated path" "terminated q"
    and p: "path_target d path = Some (l, s)" and e: "entry_at_name d l s = Some e" "\<not> de_is_dir e"
    and q: "path_target d q \<noteq> path_target d path"
  shows "\<exists>d'. fs_delete_file path d = Some (d', True) \<and> minifs_inv d' D \<and>
    fs_read_file path out max_len d' = Some (-1, out) \<and>
    fs_read_file q out max_len d' = fs_read_file q out max_len d"
proof -
  from e(1) obtain i where i: "dir_lookup (sectors d l) s = Some i" by (auto simp: entry_at_name_def)
  then have il: "i < MAX_FILES" unfolding dir_lookup_def first_index_upt_Some by blast
  from resolve_parent_dir_eq(2) [OF inv t(1) p] have l: "l \<in> D" by simp
  from delete_run [OF inv t(1) p i] obtain d' where run: "fs_delete_file path d = Some (d', True)"
    and d': "\<forall>x. \<not> failing d' x" "\<forall>x. length (sectors d' x) = 512"
      "sectors d' l = (sectors d l)[32 * i + 28 := 0]"
      "\<forall>x. x \<noteq> SUPERBLOCK_LBA \<longrightarrow> x \<noteq> l \<longrightarrow> sectors d' x = sectors d x" "next_free d' = next_free d" by blast
  have inv': "minifs_inv d' D" by (rule delete_inv [OF inv l il d'])
  have d500: "x \<noteq> SUPERBLOCK_LBA" if "x \<in> D" for x
    using minifs_invD(5) [OF inv that] by (auto simp: SUPERBLOCK_LBA_def)
  have ent: "entry_at_name d' l' nm = (if l' = l \<and> nm = s then None else entry_at_name d l' nm)" if "l' \<in> D" for l' nm
  proof (cases "l' = l")
    case True
    then show ?thesis
      using unlink_entry [OF minifs_invD(2) [OF inv] minifs_invD(7) [OF inv l] i d'(3)] by simp
  next
    case False
    then show ?thesis using d'(4) d500 [OF that] by (simp add: entry_at_name_def)
  qed
  have "subdir d' l' nm = subdir d l' nm" if "l' \<in> D" for l' nm
    using ent [OF that, of nm] e by (auto simp: subdir_def)
  then have pt: "path_target d' r = path_target d r" for r by (rule path_target_cong [OF inv])
  have "fs_read_file path out max_len d' = Some (-1, out)"
    using p pt ent [OF l] by (simp add: fs_read_file_eq [OF inv' t(1)] read_entry_def)
  moreover have "fs_read_file q out max_len d' = fs_read_file q out max_len d"
  proof (cases "path_target d q")
    case None
    then show ?thesis using pt by (simp add: fs_read_file_eq [OF inv' t(2)] fs_read_file_eq [OF inv t(2)])
  next
    case (Some ls)
    obtain l' s' where q': "path_target d q = Some (l', s')" using Some by (cases ls) auto
    have l': "l' \<in> D" using resolve_parent_dir_eq(2) [OF inv t(2) q'] by simp
    have ee: "entry_at_name d' l' s' = entry_at_name d l' s'" using ent [OF l', of s'] q' p q by auto
    have "read_entry d' out max_len (entry_at_name d l' s') = read_entry d out max_len (entry_at_name d l' s')"
    proof (cases "entry_at_name d l' s'")
      case (Some e')
      have "file_bytes d' e' = file_bytes d e'" if "\<not> de_is_dir e'"
      proof (rule file_bytes_cong [OF entry_at_name_in(2) [OF inv l' Some] that])
        show "next_free d < 2 ^ 32" using unsigned_less [of "sb_next_free (sectors d SUPERBLOCK_LBA)"]
          by (simp add: next_free_def)
        fix x :: u32
        assume "502 \<le> unat x" "x \<notin> D"
        then have "x \<noteq> SUPERBLOCK_LBA" "x \<noteq> l" using l by (auto simp: SUPERBLOCK_LBA_def)
        then show "sectors d' x = sectors d x" using d'(4) by blast
      qed
      then show ?thesis using Some by (simp add: read_entry_def)
    qed (simp add: read_entry_def)
    then show ?thesis using q' pt ee
      by (simp add: fs_read_file_eq [OF inv' t(2)] fs_read_file_eq [OF inv t(2)])
  qed
  ultimately show ?thesis using run inv' by blast
qed

section \<open>Properties\<close>



text \<open>
  C27. Writing one file does not disturb another. Whether the write succeeds or is refused, the file
  system stays well formed and every path that denotes another directory entry reads as before.
\<close>

theorem minifs_write_isolated:
  assumes "minifs_inv d D" and "terminated path" and "terminated q"
    and "path_target d q \<noteq> path_target d path"
    and "next_free d + unat (sectors_for len) < 2 ^ 32" and "unat len \<le> length data"
  shows "\<exists>d' ok. fs_write_file path data len d = Some (d', ok) \<and> minifs_inv d' D \<and>
    fs_read_file q out max_len d' = fs_read_file q out max_len d"
proof (rule write_cases [OF assms(1,2,5,6)])
  assume "fs_write_file path data len d = Some (d, False)"
  with assms(1) show ?thesis by blast
next
  fix l s i d'
  assume p: "path_target d path = Some (l, s)" and c: "can_create d D l s i len"
    and run: "fs_write_file path data len d = Some (d', True)" and w: "written d d' l i (fresh_entry d s len) data"
  note inv' = written_inv [OF c w]
  have pt: "path_target d' q = path_target d q"
    using path_target_cong [OF assms(1), of d'] written_subdir [OF c w] by simp
  have "fs_read_file q out max_len d' = fs_read_file q out max_len d"
  proof (cases "path_target d q")
    case None
    then show ?thesis using pt by (simp add: fs_read_file_eq [OF inv' assms(3)] fs_read_file_eq [OF assms(1,3)])
  next
    case (Some ls)
    obtain l' s' where q: "path_target d q = Some (l', s')" using Some by (cases ls) auto
    have l': "l' \<in> D" using resolve_parent_dir_eq(2) [OF assms(1,3) q] by simp
    have e: "entry_at_name d' l' s' = entry_at_name d l' s'"
      using written_entry [OF c w l', of s'] q p assms(4) by auto
    have "read_entry d' out max_len (entry_at_name d l' s') = read_entry d out max_len (entry_at_name d l' s')"
    proof (cases "entry_at_name d l' s'")
      case (Some e)
      then show ?thesis
        using written_bytes [OF c w entry_at_name_in(2) [OF assms(1) l' Some]] by (simp add: read_entry_def)
    qed (simp add: read_entry_def)
    then show ?thesis using q pt e
      by (simp add: fs_read_file_eq [OF inv' assms(3)] fs_read_file_eq [OF assms(1,3)])
  qed
  with run inv' show ?thesis by blast
qed

theorem minifs_write_isolated_witness:
  "\<exists>d d' ok. mkfs blank_disk = (d, True) \<and> fs_write_file [97, 0] [1, 2, 3] 3 d = Some (d', ok) \<and>
    fs_read_file [98, 0] [] 0 d' = fs_read_file [98, 0] [] 0 d"
proof -
  from blank_fs obtain d where d: "mkfs blank_disk = (d, True)" "minifs_inv d {ROOT_LBA}" "next_free d = 502" by blast
  have n: "unat (sectors_for 3) = 1" using sectors_for_unat [of 3] by simp
  have "\<exists>d' ok. fs_write_file [97, 0] [1, 2, 3] 3 d = Some (d', ok) \<and> minifs_inv d' {ROOT_LBA} \<and>
    fs_read_file [98, 0] [] 0 d' = fs_read_file [98, 0] [] 0 d"
    by (rule minifs_write_isolated [OF d(2)]) (simp_all add: d(3) n short_path)
  with d(1) show ?thesis by blast
qed

text \<open>
  C29. Deleting a file removes that file and nothing else. The deletion succeeds, the file system
  stays well formed, the path no longer reads, and every path that denotes another entry reads as
  before.
\<close>

theorem minifs_delete_file:
  assumes inv: "minifs_inv d D" and t: "terminated path" "terminated q"
    and p: "path_target d path = Some (l, s)" and e: "entry_at_name d l s = Some e" "\<not> de_is_dir e"
    and q: "path_target d q \<noteq> path_target d path"
  shows "\<exists>d'. fs_delete_file path d = Some (d', True) \<and> minifs_inv d' D \<and>
    fs_read_file path out max_len d' = Some (-1, out) \<and>
    fs_read_file q out max_len d' = fs_read_file q out max_len d"
  by (rule delete_effect [OF inv t p e q])

theorem minifs_delete_file_witness:
  "\<exists>d d'. fs_delete_file [97, 0] d = Some (d', True) \<and> fs_read_file [97, 0] [] 0 d' = Some (-1, []) \<and>
    fs_read_file [98, 0] [] 0 d' = fs_read_file [98, 0] [] 0 d"
proof -
  from blank_fs obtain d0 where d0: "minifs_inv d0 {ROOT_LBA}"
    "sectors d0 ROOT_LBA = replicate 512 0" "next_free d0 = 502" by blast
  have n: "unat (sectors_for 3) = 1" using sectors_for_unat [of 3] by simp
  have room: "next_free d0 + unat (sectors_for 3) < 2 ^ 32" by (simp add: d0(3) n)
  from fs_write_file_run [OF d0(1) _ short_path blank_root(1) [OF d0(2)] blank_root(2) [OF d0(2)] room, of 97 "[1, 2, 3]"]
  obtain d where w: "written d0 d ROOT_LBA 0 (fresh_entry d0 [97] 3) [1, 2, 3]" by auto
  have c: "can_create d0 {ROOT_LBA} ROOT_LBA [97] 0 3"
    using d0 blank_root [OF d0(2)] room by (simp add: can_create_def)
  have e: "entry_at_name d ROOT_LBA [97] = Some (fresh_entry d0 [97] 3)"
    using written_entry [OF c w, of ROOT_LBA "[97]"] by simp
  have "\<exists>d'. fs_delete_file [97, 0] d = Some (d', True) \<and> minifs_inv d' {ROOT_LBA} \<and>
    fs_read_file [97, 0] [] 0 d' = Some (-1, []) \<and> fs_read_file [98, 0] [] 0 d' = fs_read_file [98, 0] [] 0 d"
    by (rule minifs_delete_file [OF written_inv [OF c w] _ _ short_path e]) (simp_all add: short_path new_entry_def)
  then show ?thesis by blast
qed

end
