(* ===== verification/Tmpfs.thy ===== *)
theory Tmpfs
  imports Strings_Lib "HOL-Library.Monad_Syntax"
begin

text \<open>
  The RAM file system behind \<^verbatim>\<open>/temp\<close> (\<^verbatim>\<open>src/kernel/fs/tmpfs/tmpfs.c\<close>): eight named buffers of up to
  4096 bytes. As everywhere, a name is a C string and \<open>None\<close> is an access outside a buffer.
\<close>

section \<open>Model\<close>

abbreviation TMPFS_SLOTS :: nat where "TMPFS_SLOTS \<equiv> 8"
abbreviation TMPFS_MAX_SIZE :: nat where "TMPFS_MAX_SIZE \<equiv> 4096"

record tmpfs_entry =
  te_used :: bool
  te_name :: "u8 list"
  te_buffer :: "u8 list"
  te_size :: u32

fun tmpfs_scan :: "nat \<Rightarrow> tmpfs_entry list \<Rightarrow> u8 list \<Rightarrow> nat option option" where
  "tmpfs_scan i [] name = Some None"
| "tmpfs_scan i (e # es) name =
     (if te_used e then do {
        b \<leftarrow> streq (te_name e) name;
        if b then Some (Some i) else tmpfs_scan (Suc i) es name
      }
      else tmpfs_scan (Suc i) es name)"

definition tmpfs_find_entry :: "tmpfs_entry list \<Rightarrow> u8 list \<Rightarrow> nat option option" where
  "tmpfs_find_entry es name = tmpfs_scan 0 es name"

definition tmpfs_read :: "u8 list \<Rightarrow> u8 list \<Rightarrow> u32 \<Rightarrow> tmpfs_entry list \<Rightarrow> (int \<times> u8 list) option" where
  "tmpfs_read name buf max_len es = do {
     f \<leftarrow> tmpfs_find_entry es name;
     case f of
       None \<Rightarrow> Some (-1, buf)
     | Some i \<Rightarrow>
         let e = es ! i
         in if te_size e > max_len then Some (-2, buf)
            else if length (te_buffer e) < unat (te_size e) \<or> length buf < unat (te_size e) then None
            else Some (int (unat (te_size e)), put_bytes 0 (take (unat (te_size e)) (te_buffer e)) buf)
   }"

text \<open>The slot a write goes to: the entry of that name, or the first free one with the name copied in.\<close>

definition tmpfs_slot :: "u8 list \<Rightarrow> tmpfs_entry list \<Rightarrow> (tmpfs_entry list \<times> nat) option option" where
  "tmpfs_slot name es = do {
     f \<leftarrow> tmpfs_find_entry es name;
     case f of
       Some i \<Rightarrow> Some (Some (es, i))
     | None \<Rightarrow>
         (case first_index (\<lambda>e. \<not> te_used e) es of
            None \<Rightarrow> Some None
          | Some i \<Rightarrow> do {
              nm \<leftarrow> copy_cstr 19 name 0 (te_name (es ! i));
              Some (Some (es[i := (es ! i)\<lparr>te_name := nm, te_used := True\<rparr>], i))
            })
   }"

definition tmpfs_write :: "u8 list \<Rightarrow> u8 list \<Rightarrow> u32 \<Rightarrow> tmpfs_entry list \<Rightarrow> (tmpfs_entry list \<times> bool) option" where
  "tmpfs_write name data len es =
     (if unat len > TMPFS_MAX_SIZE then Some (es, False)
      else do {
        r \<leftarrow> tmpfs_slot name es;
        case r of
          None \<Rightarrow> Some (es, False)
        | Some (es', i) \<Rightarrow>
            let e = es' ! i
            in if length data < unat len \<or> length (te_buffer e) < unat len then None
               else Some (es'[i := e\<lparr>te_buffer := put_bytes 0 (take (unat len) data) (te_buffer e), te_size := len\<rparr>], True)
      })"

definition tmpfs_delete :: "u8 list \<Rightarrow> tmpfs_entry list \<Rightarrow> (tmpfs_entry list \<times> bool) option" where
  "tmpfs_delete name es = do {
     f \<leftarrow> tmpfs_find_entry es name;
     case f of
       None \<Rightarrow> Some (es, False)
     | Some i \<Rightarrow> Some (es[i := (es ! i)\<lparr>te_used := False\<rparr>], True)
   }"

definition tmpfs_list_entry ::
  "int \<Rightarrow> u8 list \<Rightarrow> tmpfs_entry list \<Rightarrow> (u8 list \<times> u32 \<times> bool) option option" where
  "tmpfs_list_entry index name_out es =
     (if index < 0 \<or> index \<ge> int TMPFS_SLOTS then Some None
      else do {
        e \<leftarrow> slot_at es index;
        if \<not> te_used e then Some None
        else do { nm \<leftarrow> copy_cstr 19 (te_name e) 0 name_out; Some (Some (nm, te_size e, False)) }
      })"

definition tmpfs_stat :: "u8 list \<Rightarrow> tmpfs_entry list \<Rightarrow> (u32 \<times> bool) option option" where
  "tmpfs_stat name es = do {
     f \<leftarrow> tmpfs_find_entry es name;
     Some (map_option (\<lambda>i. (te_size (es ! i), False)) f)
   }"

section \<open>Lookup\<close>

definition tmpfs_entry_ok :: "tmpfs_entry \<Rightarrow> bool" where
  "tmpfs_entry_ok e \<longleftrightarrow> length (te_name e) = 20 \<and> length (te_buffer e) = TMPFS_MAX_SIZE \<and>
     (te_used e \<longrightarrow> terminated (te_name e) \<and> length (cstr (te_name e)) \<le> 19 \<and> unat (te_size e) \<le> TMPFS_MAX_SIZE)"

definition tmpfs_inv :: "tmpfs_entry list \<Rightarrow> bool" where
  "tmpfs_inv es \<longleftrightarrow> length es = TMPFS_SLOTS \<and> (\<forall>e \<in> set es. tmpfs_entry_ok e)"

definition named :: "u8 list \<Rightarrow> tmpfs_entry \<Rightarrow> bool" where
  "named s e \<longleftrightarrow> te_used e \<and> cstr (te_name e) = s"

lemma named_iff: "te_used e \<Longrightarrow> named s e \<longleftrightarrow> cstr (te_name e) = s" "\<not> te_used e \<Longrightarrow> \<not> named s e"
  by (simp_all add: named_def)

lemma tmpfs_scan_eq:
  assumes "\<forall>e \<in> set es. te_used e \<longrightarrow> terminated (te_name e)" and "terminated name"
  shows "tmpfs_scan i es name = Some (map_option (\<lambda>k. i + k) (first_index (named (cstr name)) es))"
  using assms(1)
proof (induction es arbitrary: i)
  case (Cons e es)
  show ?case
  proof (cases "te_used e")
    case True
    then have "streq (te_name e) name = Some (cstr (te_name e) = cstr name)"
      using Cons.prems assms(2) by (intro streq_cstr) auto
    with True Cons show ?thesis
      by (cases "first_index (named (cstr name)) es") (simp_all add: named_iff)
  next
    case False
    with Cons show ?thesis
      by (cases "first_index (named (cstr name)) es") (simp_all add: named_iff)
  qed
qed simp

lemma tmpfs_find_entry_eq:
  assumes "tmpfs_inv es" and "terminated name"
  shows "tmpfs_find_entry es name = Some (first_index (named (cstr name)) es)"
proof -
  have "\<forall>e \<in> set es. te_used e \<longrightarrow> terminated (te_name e)"
    using assms(1) by (auto simp: tmpfs_inv_def tmpfs_entry_ok_def)
  from tmpfs_scan_eq [OF this assms(2), of 0] show ?thesis
    by (simp add: tmpfs_find_entry_def option.map_ident)
qed

lemma tmpfs_inv_update: "tmpfs_inv es \<Longrightarrow> tmpfs_entry_ok e \<Longrightarrow> tmpfs_inv (es[i := e])"
  by (auto simp: tmpfs_inv_def dest!: set_update_subset_insert [THEN subsetD])

lemma tmpfs_inv_nth: "tmpfs_inv es \<Longrightarrow> i < length es \<Longrightarrow> tmpfs_entry_ok (es ! i)"
  by (simp add: tmpfs_inv_def)

text \<open>
  The slot for a name: its entry, or a free one that now carries the name cut at 19 characters.
\<close>

lemma tmpfs_slot_cases:
  assumes inv: "tmpfs_inv es" and t: "terminated name"
  obtains "tmpfs_slot name es = Some None" "\<forall>e \<in> set es. te_used e \<and> \<not> named (cstr name) e"
  | i where "tmpfs_slot name es = Some (Some (es, i))" "first_index (named (cstr name)) es = Some i"
  | i where "first_index (named (cstr name)) es = None" "first_index (\<lambda>e. \<not> te_used e) es = Some i"
      "tmpfs_slot name es = Some (Some (es[i := (es ! i)\<lparr>te_name :=
         put_bytes 0 (take 19 (cstr name) @ [0]) (te_name (es ! i)), te_used := True\<rparr>], i))"
proof (cases "first_index (named (cstr name)) es")
  case (Some i)
  then show ?thesis using that(2) tmpfs_find_entry_eq [OF inv t] by (simp add: tmpfs_slot_def)
next
  case None
  show ?thesis
  proof (cases "first_index (\<lambda>e. \<not> te_used e) es")
    case None2: None
    with None have "tmpfs_slot name es = Some None"
      using tmpfs_find_entry_eq [OF inv t] by (simp add: tmpfs_slot_def)
    moreover have "\<forall>e \<in> set es. te_used e \<and> \<not> named (cstr name) e"
      using None None2 by (simp add: first_index_None)
    ultimately show ?thesis by (rule that(1))
  next
    case (Some i)
    have "i < length es" using first_index_SomeD [OF Some] by simp
    then have "length (te_name (es ! i)) = 20" using tmpfs_inv_nth [OF inv] by (simp add: tmpfs_entry_ok_def)
    then have "copy_cstr 19 name 0 (te_name (es ! i)) =
        Some (put_bytes 0 (take 19 (cstr name) @ [0]) (te_name (es ! i)))"
      using copy_cstr_eq [OF t, of 0 19] by simp
    with None Some show ?thesis using that(3) tmpfs_find_entry_eq [OF inv t] by (simp add: tmpfs_slot_def)
  qed
qed

section \<open>Writing\<close>

lemma tmpfs_write_run:
  assumes inv: "tmpfs_inv es" and t: "terminated name" and n: "length (cstr name) \<le> 19"
    and len: "unat len \<le> TMPFS_MAX_SIZE" "unat len \<le> length data"
    and room: "(\<exists>e \<in> set es. \<not> te_used e) \<or> (\<exists>e \<in> set es. named (cstr name) e)"
  shows "\<exists>i e. tmpfs_write name data len es = Some (es[i := e], True) \<and> i < length es \<and> tmpfs_entry_ok e \<and>
    first_index (named (cstr name)) (es[i := e]) = Some i \<and> (te_used (es ! i) \<longrightarrow> named (cstr name) (es ! i)) \<and>
    te_size e = len \<and> take (unat len) (te_buffer e) = take (unat len) data"
proof -
  have nz: "0 \<notin> set (take 19 (cstr name))" using zero_notin_cstr [of name] in_set_takeD by metis
  have upd: "tmpfs_entry_ok (e\<lparr>te_buffer := put_bytes 0 (take (unat len) data) (te_buffer e), te_size := len\<rparr>) \<and>
      take (unat len) (put_bytes 0 (take (unat len) data) (te_buffer e)) = take (unat len) data"
    if "tmpfs_entry_ok e" for e
    using that len by (auto simp: tmpfs_entry_ok_def put_bytes_def)
  show ?thesis
  proof (rule tmpfs_slot_cases [OF inv t])
    assume "\<forall>e \<in> set es. te_used e \<and> \<not> named (cstr name) e"
    with room show ?thesis by blast
  next
    fix i
    assume s: "tmpfs_slot name es = Some (Some (es, i))" and f: "first_index (named (cstr name)) es = Some i"
    let ?e = "(es ! i)\<lparr>te_buffer := put_bytes 0 (take (unat len) data) (te_buffer (es ! i)), te_size := len\<rparr>"
    note fd = first_index_SomeD [OF f]
    have ok: "tmpfs_entry_ok (es ! i)" using fd tmpfs_inv_nth [OF inv] by simp
    have nm: "named (cstr name) (es ! i)" using fd by simp
    have "first_index (named (cstr name)) (es[i := ?e]) = Some i"
      by (rule first_index_SomeI) (use fd in \<open>auto simp: named_def\<close>)
    then show ?thesis using s fd nm upd [OF ok] ok len
      by (intro exI [of _ i] exI [of _ ?e]) (simp add: tmpfs_write_def tmpfs_entry_ok_def Let_def)
  next
    fix i
    let ?base = "(es ! i)\<lparr>te_name := put_bytes 0 (take 19 (cstr name) @ [0]) (te_name (es ! i)), te_used := True,
        te_size := len\<rparr>"
    let ?e = "(es ! i)\<lparr>te_name := put_bytes 0 (take 19 (cstr name) @ [0]) (te_name (es ! i)), te_used := True,
        te_buffer := put_bytes 0 (take (unat len) data) (te_buffer (es ! i)), te_size := len\<rparr>"
    assume nf: "first_index (named (cstr name)) es = None" and f: "first_index (\<lambda>e. \<not> te_used e) es = Some i"
      and s: "tmpfs_slot name es = Some (Some (es[i := (es ! i)\<lparr>te_name :=
         put_bytes 0 (take 19 (cstr name) @ [0]) (te_name (es ! i)), te_used := True\<rparr>], i))"
    note fd = first_index_SomeD [OF f]
    have ok: "tmpfs_entry_ok (es ! i)" using fd tmpfs_inv_nth [OF inv] by simp
    have tm: "terminated (put_bytes 0 (take 19 (cstr name) @ [0]) (te_name (es ! i)))"
      by (simp add: put_bytes_def)
    have ok0: "tmpfs_entry_ok ?base" using ok n len nz tm by (simp add: tmpfs_entry_ok_def)
    have "cstr (te_name ?e) = cstr name" using n nz by simp
    then have "first_index (named (cstr name)) (es[i := ?e]) = Some i"
      using nf fd by (intro first_index_SomeI) (auto simp: named_def first_index_None)
    then show ?thesis using s fd upd [OF ok0] ok len
      by (intro exI [of _ i] exI [of _ ?e]) (simp add: tmpfs_write_def tmpfs_entry_ok_def Let_def)
  qed
qed

lemma first_index_update_other:
  "i < length xs \<Longrightarrow> \<not> P (xs ! i) \<Longrightarrow> \<not> P y \<Longrightarrow> first_index P (xs[i := y]) = first_index P xs"
proof (induction xs arbitrary: i)
  case (Cons x xs)
  then show ?case by (cases i) simp_all
qed simp

lemma tmpfs_read_eq:
  assumes "tmpfs_inv es" and "terminated name"
  shows "tmpfs_read name buf max_len es =
    (case first_index (named (cstr name)) es of
       None \<Rightarrow> Some (-1, buf)
     | Some i \<Rightarrow>
         if te_size (es ! i) > max_len then Some (-2, buf)
         else if length buf < unat (te_size (es ! i)) then None
         else Some (int (unat (te_size (es ! i))),
           put_bytes 0 (take (unat (te_size (es ! i))) (te_buffer (es ! i))) buf))"
proof (cases "first_index (named (cstr name)) es")
  case (Some i)
  note fd = first_index_SomeD [OF Some]
  then have "tmpfs_entry_ok (es ! i)" using tmpfs_inv_nth [OF assms(1)] by simp
  then have "unat (te_size (es ! i)) \<le> length (te_buffer (es ! i))"
    using fd by (simp add: tmpfs_entry_ok_def named_def)
  then show ?thesis using Some tmpfs_find_entry_eq [OF assms] by (simp add: tmpfs_read_def Let_def)
qed (simp add: tmpfs_read_def tmpfs_find_entry_eq [OF assms])

definition fresh_tmpfs :: "tmpfs_entry list" where
  "fresh_tmpfs = replicate 8 \<lparr>te_used = False, te_name = replicate 20 0, te_buffer = replicate 4096 0, te_size = 0\<rparr>"

lemma fresh_tmpfs_inv: "tmpfs_inv fresh_tmpfs"
  by (simp add: tmpfs_inv_def tmpfs_entry_ok_def fresh_tmpfs_def)

lemma fresh_tmpfs_free: "\<exists>e \<in> set fresh_tmpfs. \<not> te_used e" "first_index (\<lambda>e. \<not> te_used e) fresh_tmpfs = Some 0"
proof -
  show "\<exists>e \<in> set fresh_tmpfs. \<not> te_used e" by (simp add: fresh_tmpfs_def)
  show "first_index (\<lambda>e. \<not> te_used e) fresh_tmpfs = Some 0"
    by (rule first_index_SomeI) (simp_all add: fresh_tmpfs_def)
qed

section \<open>Properties\<close>

text \<open>
  A temporary file reads back as written. While a slot is free or the name exists, writing at most
  4096 bytes under a name of at most 19 characters succeeds, keeps the table well formed, and reading
  the name returns exactly those bytes; every other name reads as before.
\<close>

theorem tmpfs_write_read:
  assumes inv: "tmpfs_inv es" and t: "terminated name" and n: "length (cstr name) \<le> 19"
    and len: "unat len \<le> TMPFS_MAX_SIZE" "unat len \<le> length data"
    and room: "(\<exists>e \<in> set es. \<not> te_used e) \<or> (\<exists>e \<in> set es. named (cstr name) e)"
    and buf: "len \<le> max_len" "unat len \<le> length buf"
    and other: "terminated q" "cstr q \<noteq> cstr name"
  shows "\<exists>es'. tmpfs_write name data len es = Some (es', True) \<and> tmpfs_inv es' \<and>
    tmpfs_read name buf max_len es' = Some (int (unat len), put_bytes 0 (take (unat len) data) buf) \<and>
    tmpfs_read q out m es' = tmpfs_read q out m es"
proof -
  from tmpfs_write_run [OF inv t n len room] obtain i e
    where w: "tmpfs_write name data len es = Some (es[i := e], True)" and i: "i < length es"
      and ok: "tmpfs_entry_ok e" and f: "first_index (named (cstr name)) (es[i := e]) = Some i"
      and old: "te_used (es ! i) \<longrightarrow> named (cstr name) (es ! i)"
      and e: "te_size e = len" "take (unat len) (te_buffer e) = take (unat len) data"
    by (elim exE conjE)
  have inv': "tmpfs_inv (es[i := e])" by (rule tmpfs_inv_update [OF inv ok])
  have "named (cstr name) e" using first_index_SomeD [OF f] i by simp
  then have "\<not> named (cstr q) e" "\<not> named (cstr q) (es ! i)" using other(2) old by (auto simp: named_def)
  then have fq: "first_index (named (cstr q)) (es[i := e]) = first_index (named (cstr q)) es"
    using first_index_update_other [OF i] by blast
  have "es[i := e] ! k = es ! k" if "first_index (named (cstr q)) es = Some k" for k
    using first_index_SomeD [OF that] \<open>\<not> named (cstr q) (es ! i)\<close> by (cases "k = i") auto
  then have "tmpfs_read q out m (es[i := e]) = tmpfs_read q out m es"
    by (simp add: tmpfs_read_eq [OF inv' other(1)] tmpfs_read_eq [OF inv other(1)] fq split: option.split)
  moreover have "tmpfs_read name buf max_len (es[i := e]) =
      Some (int (unat len), put_bytes 0 (take (unat len) data) buf)"
    unfolding tmpfs_read_eq [OF inv' t] using f e i buf by (simp add: linorder_not_less [symmetric])
  ultimately show ?thesis using w inv' by blast
qed

theorem tmpfs_write_read_witness:
  "\<exists>es'. tmpfs_write [97, 0] [1, 2, 3] 3 fresh_tmpfs = Some (es', True) \<and>
    tmpfs_read [97, 0] [0, 0, 0, 0] 4 es' = Some (3, [1, 2, 3, 0])"
proof -
  have "\<exists>es'. tmpfs_write [97, 0] [1, 2, 3] 3 fresh_tmpfs = Some (es', True) \<and> tmpfs_inv es' \<and>
    tmpfs_read [97, 0] [0, 0, 0, 0] 4 es' =
      Some (int (unat (3 :: u32)), put_bytes 0 (take (unat (3 :: u32)) [1, 2, 3]) [0, 0, 0, 0]) \<and>
    tmpfs_read [98, 0] [] 0 es' = tmpfs_read [98, 0] [] 0 fresh_tmpfs"
    by (rule tmpfs_write_read [OF fresh_tmpfs_inv _ _ _ _ disjI1 [OF fresh_tmpfs_free(1)]]) simp_all
  then show ?thesis by (auto simp: put_bytes_def)
qed

text \<open>
  A temporary file with a long name is lost. Under a name of more than 19 characters the write
  reports success and occupies a slot, but the name is stored cut, so reading it back reports that it
  does not exist.
\<close>

theorem tmpfs_long_name_lost:
  assumes inv: "tmpfs_inv es" and t: "terminated name" and n: "length (cstr name) > 19"
    and len: "unat len \<le> TMPFS_MAX_SIZE" "unat len \<le> length data"
    and room: "first_index (\<lambda>e. \<not> te_used e) es = Some i"
  shows "\<exists>es'. tmpfs_write name data len es = Some (es', True) \<and> tmpfs_inv es' \<and> te_used (es' ! i) \<and>
    tmpfs_read name buf max_len es' = Some (-1, buf)"
proof -
  let ?nm = "put_bytes 0 (take 19 (cstr name) @ [0]) (te_name (es ! i))"
  let ?e = "(es ! i)\<lparr>te_name := ?nm, te_used := True,
      te_buffer := put_bytes 0 (take (unat len) data) (te_buffer (es ! i)), te_size := len\<rparr>"
  have nz: "0 \<notin> set (take 19 (cstr name))" using zero_notin_cstr [of name] in_set_takeD by metis
  have lost: "first_index (named (cstr name)) xs = None" if "tmpfs_inv xs" for xs
    using that n by (auto simp: first_index_None named_def tmpfs_inv_def tmpfs_entry_ok_def)
  note fd = first_index_SomeD [OF room]
  have ok: "tmpfs_entry_ok (es ! i)" using fd tmpfs_inv_nth [OF inv] by simp
  have s: "tmpfs_slot name es = Some (Some (es[i := (es ! i)\<lparr>te_name := ?nm, te_used := True\<rparr>], i))"
  proof (rule tmpfs_slot_cases [OF inv t])
    assume "\<forall>e \<in> set es. te_used e \<and> \<not> named (cstr name) e"
    then show ?thesis using fd by (meson nth_mem)
  qed (use room lost [OF inv] in simp_all)
  have w: "tmpfs_write name data len es = Some (es[i := ?e], True)"
    using s fd ok len by (simp add: tmpfs_write_def tmpfs_entry_ok_def Let_def)
  have tm: "terminated ?nm" by (simp add: put_bytes_def)
  have "tmpfs_entry_ok ?e" using ok len n nz tm by (simp add: tmpfs_entry_ok_def)
  then have inv': "tmpfs_inv (es[i := ?e])" by (rule tmpfs_inv_update [OF inv])
  show ?thesis using w inv' fd lost [OF inv'] by (simp add: tmpfs_read_eq [OF inv' t])
qed

theorem tmpfs_long_name_lost_witness:
  "\<exists>es'. tmpfs_write (replicate 20 97 @ [0]) [1] 1 fresh_tmpfs = Some (es', True) \<and> te_used (es' ! 0) \<and>
    tmpfs_read (replicate 20 97 @ [0]) [5] 1 es' = Some (-1, [5])"
proof -
  have c: "cstr (replicate 20 97 @ [0 :: u8]) = replicate 20 97"
    by (rule cstr_append_zero) simp
  have "\<exists>es'. tmpfs_write (replicate 20 97 @ [0]) [1] 1 fresh_tmpfs = Some (es', True) \<and> tmpfs_inv es' \<and>
    te_used (es' ! 0) \<and> tmpfs_read (replicate 20 97 @ [0]) [5] 1 es' = Some (-1, [5])"
    by (rule tmpfs_long_name_lost [OF fresh_tmpfs_inv _ _ _ _ fresh_tmpfs_free(2)]) (simp_all add: c)
  then show ?thesis by blast
qed

end
