(* ===== verification/Devfs.thy ===== *)
theory Devfs
  imports Strings_Lib Sched
begin

text \<open>
  The registry of devices (\<^verbatim>\<open>src/kernel/drivers/device_manager/device_manager.c\<close>) and the two
  file systems that show live kernel state: \<^verbatim>\<open>/devices\<close> (\<^verbatim>\<open>src/kernel/fs/devfs/devfs.c\<close>) and
  \<^verbatim>\<open>/processes\<close> (\<^verbatim>\<open>src/kernel/fs/procfs/procfs.c\<close>). A buffer argument is the list of bytes behind
  the caller's pointer, which may be longer or shorter than the \<^verbatim>\<open>max_len\<close> passed with it; a write
  outside the list is \<open>None\<close>.
\<close>

definition ascii :: "string \<Rightarrow> u8 list" where
  "ascii s = map of_char s"

definition literal :: "string \<Rightarrow> u8 list" where
  "literal s = ascii s @ [0]"

section \<open>Device registry\<close>

abbreviation MAX_DEVICES :: nat where "MAX_DEVICES \<equiv> 16"
definition DEVICE_CATEGORY_PCI :: int where "DEVICE_CATEGORY_PCI = 1"
definition DEVICE_CATEGORY_PLATFORM :: int where "DEVICE_CATEGORY_PLATFORM = 2"
definition DEVICE_CATEGORY_INPUT :: int where "DEVICE_CATEGORY_INPUT = 3"

record device_entry =
  dv_used :: bool
  dv_name :: "u8 list"
  dv_category :: int
  dv_info :: u32

record devices =
  g_devices :: "device_entry list"
  g_device_count :: int

fun name_matches :: "u8 list \<Rightarrow> u8 list \<Rightarrow> bool option" where
  "name_matches (x # a) (y # b) =
     (if x \<noteq> 0 \<and> y \<noteq> 0 then (if x \<noteq> y then Some False else name_matches a b) else Some (x = y))"
| "name_matches _ _ = None"

definition copy_bounded :: "u8 list \<Rightarrow> u8 list \<Rightarrow> nat \<Rightarrow> u8 list option" where
  "copy_bounded dst src cap = copy_cstr (cap - 1) src 0 dst"

fun existing_scan :: "nat \<Rightarrow> device_entry list \<Rightarrow> u8 list \<Rightarrow> int \<Rightarrow> nat option option" where
  "existing_scan i [] name category = Some None"
| "existing_scan i (e # es) name category =
     (if dv_used e \<and> dv_category e = category then do {
        b \<leftarrow> name_matches (dv_name e) name;
        if b then Some (Some i) else existing_scan (Suc i) es name category
      }
      else existing_scan (Suc i) es name category)"

definition find_existing :: "u8 list \<Rightarrow> int \<Rightarrow> devices \<Rightarrow> nat option option" where
  "find_existing name category s = existing_scan 0 (g_devices s) name category"

definition device_manager_register :: "u8 list \<Rightarrow> int \<Rightarrow> u32 \<Rightarrow> devices \<Rightarrow> (devices \<times> int) option" where
  "device_manager_register name category info s = do {
     existing \<leftarrow> find_existing name category s;
     case existing of
       Some i \<Rightarrow> Some (s\<lparr>g_devices := (g_devices s)[i := (g_devices s ! i)\<lparr>dv_info := info\<rparr>]\<rparr>, int i)
     | None \<Rightarrow>
         (case first_index (\<lambda>e. \<not> dv_used e) (g_devices s) of
            None \<Rightarrow> Some (s, -1)
          | Some i \<Rightarrow> do {
              nm \<leftarrow> copy_bounded (dv_name (g_devices s ! i)) name 32;
              Some (s\<lparr>g_devices := (g_devices s)[i := \<lparr>dv_used = True, dv_name = nm,
                        dv_category = category, dv_info = info\<rparr>],
                      g_device_count := g_device_count s + 1\<rparr>, int i)
            })
   }"

definition device_manager_get ::
  "int \<Rightarrow> u8 list \<Rightarrow> devices \<Rightarrow> (u8 list \<times> int \<times> u32) option option" where
  "device_manager_get index name_out s =
     (if index < 0 \<or> index \<ge> int MAX_DEVICES then Some None
      else do {
        e \<leftarrow> slot_at (g_devices s) index;
        if \<not> dv_used e then Some None
        else do {
          nm \<leftarrow> copy_bounded name_out (dv_name e) 32;
          Some (Some (nm, dv_category e, dv_info e))
        }
      })"

fun category_scan :: "int \<Rightarrow> int \<Rightarrow> int \<Rightarrow> device_entry list \<Rightarrow> device_entry option" where
  "category_scan category wanted seen [] = None"
| "category_scan category wanted seen (e # es) =
     (if dv_used e \<and> dv_category e = category
      then if seen = wanted then Some e else category_scan category wanted (seen + 1) es
      else category_scan category wanted seen es)"

definition device_manager_get_in_category ::
  "int \<Rightarrow> int \<Rightarrow> u8 list \<Rightarrow> devices \<Rightarrow> (u8 list \<times> u32) option option" where
  "device_manager_get_in_category category category_index name_out s =
     (if category_index < 0 then Some None
      else case category_scan category category_index 0 (g_devices s) of
             None \<Rightarrow> Some None
           | Some e \<Rightarrow> do { nm \<leftarrow> copy_bounded name_out (dv_name e) 32; Some (Some (nm, dv_info e)) })"

section \<open>Text into a caller's buffer\<close>

text \<open>
  \<^verbatim>\<open>while (text[m] != 0) { if (i >= max_len) return -1; buf[i] = text[m]; ... }\<close>. The first
  component of the result is the next index, \<open>None\<close> for the early return.
\<close>

fun put_text :: "u8 list \<Rightarrow> u32 \<Rightarrow> nat \<Rightarrow> u8 list \<Rightarrow> (nat option \<times> u8 list) option" where
  "put_text [] max_len i buf = Some (Some i, buf)"
| "put_text (c # cs) max_len i buf =
     (if of_nat i \<ge> max_len then Some (None, buf)
      else if i < length buf then put_text cs max_len (Suc i) (buf[i := c])
      else None)"

definition put_hex :: "u64 \<Rightarrow> nat \<Rightarrow> u8 list \<Rightarrow> (nat \<times> u8 list) option" where
  "put_hex v i buf = do { (out, n) \<leftarrow> format_hex v (drop i buf); Some (i + n, take i buf @ out) }"

definition put_end :: "u32 \<Rightarrow> nat \<Rightarrow> u8 list \<Rightarrow> (int \<times> u8 list) option" where
  "put_end max_len i buf =
     (if of_nat i \<ge> max_len then Some (-1, buf)
      else if i < length buf then Some (int i, buf[i := 0]) else None)"

text \<open>A label followed by a number, the shape of all these pseudo-files.\<close>

definition put_field :: "u8 list \<Rightarrow> u64 \<Rightarrow> u32 \<Rightarrow> nat \<Rightarrow> u8 list \<Rightarrow> (nat option \<times> u8 list) option" where
  "put_field label v max_len i buf = do {
     (r, buf) \<leftarrow> put_text label max_len i buf;
     case r of
       None \<Rightarrow> Some (None, buf)
     | Some i \<Rightarrow> do { (i, buf) \<leftarrow> put_hex v i buf; Some (Some i, buf) }
   }"

definition finish :: "u32 \<Rightarrow> nat option \<times> u8 list \<Rightarrow> (int \<times> u8 list) option" where
  "finish max_len r = (case r of (None, buf) \<Rightarrow> Some (-1, buf) | (Some i, buf) \<Rightarrow> put_end max_len i buf)"

section \<open>The device tree\<close>

fun sanitize_from :: "nat \<Rightarrow> u8 list \<Rightarrow> nat \<Rightarrow> u8 list \<Rightarrow> u8 list option" where
  "sanitize_from m [] i out = None"
| "sanitize_from m (c # raw) i out =
     (if i < length out
      then if c \<noteq> 0 \<and> m > 0 then sanitize_from (m - 1) raw (Suc i) (out[i := if c = 47 then 95 else c])
           else Some (out[i := 0])
      else None)"

definition sanitize_name :: "u8 list \<Rightarrow> u8 list \<Rightarrow> u8 list option" where
  "sanitize_name out raw = sanitize_from 31 raw 0 out"

definition category_for_subpath :: "u8 list \<Rightarrow> int option option" where
  "category_for_subpath subpath = do {
     pci \<leftarrow> streq subpath (literal ''pci'');
     if pci then Some (Some DEVICE_CATEGORY_PCI) else do {
       platform \<leftarrow> streq subpath (literal ''platform'');
       if platform then Some (Some DEVICE_CATEGORY_PLATFORM) else do {
         inp \<leftarrow> streq subpath (literal ''input'');
         Some (if inp then Some DEVICE_CATEGORY_INPUT else None)
       }
     }
   }"

fun find_slash :: "nat \<Rightarrow> u8 list \<Rightarrow> nat option option" where
  "find_slash k [] = None"
| "find_slash k (c # cs) =
     (if c = 0 then Some None else if c = 47 then Some (Some k) else find_slash (Suc k) cs)"

definition device_text :: "int \<Rightarrow> u32 \<Rightarrow> u32 \<Rightarrow> u8 list \<Rightarrow> (int \<times> u8 list) option" where
  "device_text category info max_len buf =
     (if category = DEVICE_CATEGORY_PCI then do {
        (r, buf) \<leftarrow> put_field (ascii ''vendor=0x'') (ucast (drop_bit 16 info)) max_len 0 buf;
        case r of
          None \<Rightarrow> Some (-1, buf)
        | Some i \<Rightarrow> do {
            f \<leftarrow> put_field (ascii '' device=0x'') (ucast (info AND 0xFFFF)) max_len i buf;
            finish max_len f
          }
      }
      else if category = DEVICE_CATEGORY_INPUT
      then do { f \<leftarrow> put_field (ascii ''irq=0x'') (ucast info) max_len 0 buf; finish max_len f }
      else do { f \<leftarrow> put_text (ascii ''platform device'') max_len 0 buf; finish max_len f })"

text \<open>The search loop ends because a category has at most sixteen devices.\<close>

lemma category_scan_bound:
  "category_scan category wanted seen es = Some e \<Longrightarrow> wanted < seen + int (length es) \<and> e \<in> set es \<and> dv_used e"
  by (induction category wanted seen es rule: category_scan.induct) (fastforce split: if_splits)+

lemma get_in_category_bound:
  "device_manager_get_in_category category idx out s = Some (Some r) \<Longrightarrow> 0 \<le> idx \<and> idx < int (length (g_devices s))"
  using category_scan_bound [of category idx 0 "g_devices s"]
  by (auto simp: device_manager_get_in_category_def split: if_splits option.splits)

function device_search ::
  "int \<Rightarrow> int \<Rightarrow> u8 list \<Rightarrow> u8 list \<Rightarrow> devices \<Rightarrow> u32 \<Rightarrow> u8 list \<Rightarrow> (int \<times> u8 list) option" where
  "device_search category idx raw wanted s max_len buf =
     (case device_manager_get_in_category category idx raw s of
        None \<Rightarrow> None
      | Some None \<Rightarrow> Some (-1, buf)
      | Some (Some (raw', info)) \<Rightarrow>
          (case sanitize_name (replicate 32 0) raw' of
             None \<Rightarrow> None
           | Some sanitized \<Rightarrow>
               (case streq sanitized wanted of
                  None \<Rightarrow> None
                | Some True \<Rightarrow> device_text category info max_len buf
                | Some False \<Rightarrow> device_search category (idx + 1) raw' wanted s max_len buf)))"
  by pat_completeness auto
termination
  by (relation "measure (\<lambda>(category, idx, raw, wanted, s, max_len, buf). nat (int (length (g_devices s)) - idx))")
     (auto dest!: get_in_category_bound)

declare device_search.simps [simp del]

definition device_read :: "u64 \<Rightarrow> devices \<Rightarrow> u8 list \<Rightarrow> u8 list \<Rightarrow> u32 \<Rightarrow> (int \<times> u8 list) option" where
  "device_read ticks s name buf max_len = do {
     t \<leftarrow> streq name (literal ''ticks'');
     if t then do { f \<leftarrow> put_field (ascii ''ticks: 0x'') ticks max_len 0 buf; finish max_len f }
     else do {
       slash \<leftarrow> find_slash 0 name;
       case slash of
         None \<Rightarrow> Some (-1, buf)
       | Some k \<Rightarrow> do {
           category \<leftarrow> category_for_subpath (take (min k 15) name @ [0]);
           case category of
             None \<Rightarrow> Some (-1, buf)
           | Some c \<Rightarrow> device_search c 0 (replicate 32 0) (drop (k + 1) name) s max_len buf
         }
     }
   }"

text \<open>Copying a string constant with its terminator.\<close>

definition put_cstr :: "u8 list \<Rightarrow> u8 list \<Rightarrow> u8 list option" where
  "put_cstr text out = (if length text < length out then Some (put_bytes 0 (text @ [0]) out) else None)"

definition devfs_list_entry ::
  "devices \<Rightarrow> u8 list \<Rightarrow> int \<Rightarrow> u8 list \<Rightarrow> (u8 list \<times> u32 \<times> bool) option option" where
  "devfs_list_entry s subpath index name_out =
     (case subpath of
        [] \<Rightarrow> None
      | c # _ \<Rightarrow>
          if c = 0 then
            if index = 0 then do { nm \<leftarrow> put_cstr (ascii ''ticks'') name_out; Some (Some (nm, 0, False)) }
            else if index \<ge> 1 \<and> index \<le> 3 then do {
              nm \<leftarrow> put_cstr ([ascii ''pci'', ascii ''platform'', ascii ''input''] ! nat (index - 1)) name_out;
              Some (Some (nm, 0, True))
            }
            else Some None
          else do {
            category \<leftarrow> category_for_subpath subpath;
            case category of
              None \<Rightarrow> Some None
            | Some cat \<Rightarrow> do {
                r \<leftarrow> device_manager_get_in_category cat index (replicate 32 0) s;
                case r of
                  None \<Rightarrow> Some None
                | Some (raw, info) \<Rightarrow> do { nm \<leftarrow> sanitize_name name_out raw; Some (Some (nm, 0, False)) }
              }
          })"

section \<open>The process tree\<close>

abbreviation MAX_PROCESSES :: nat where "MAX_PROCESSES \<equiv> 8"

definition write_name :: "u8 list \<Rightarrow> int \<Rightarrow> u8 list option" where
  "write_name out index = put_cstr (ascii ''proc'' @ [48 + word_of_int (index mod 10)]) out"

definition procfs_list_entry ::
  "process list \<Rightarrow> int \<Rightarrow> u8 list \<Rightarrow> (u8 list \<times> u32 \<times> bool) option option" where
  "procfs_list_entry ps index name_out =
     (if index < 0 \<or> index \<ge> int MAX_PROCESSES then Some None
      else do {
        p \<leftarrow> slot_at ps index;
        if \<not> p_used p then Some None
        else do { nm \<leftarrow> write_name name_out index; Some (Some (nm, 0, False)) }
      })"

definition procfs_read :: "process list \<Rightarrow> u8 list \<Rightarrow> u8 list \<Rightarrow> u32 \<Rightarrow> (int \<times> u8 list) option" where
  "procfs_read ps name buf max_len = do {
     pr \<leftarrow> starts_with name (literal ''proc'');
     if \<not> pr then Some (-1, buf)
     else if length name \<le> 4 then None
     else let index = sint (name ! 4) - 48
          in if index < 0 \<or> index \<ge> int MAX_PROCESSES then Some (-1, buf)
             else do {
               p \<leftarrow> slot_at ps index;
               if \<not> p_used p then Some (-1, buf)
               else do {
                 (r, buf) \<leftarrow> put_field (ascii ''task=0x'') (word_of_int (p_task p)) max_len 0 buf;
                 case r of
                   None \<Rightarrow> Some (-1, buf)
                 | Some i \<Rightarrow> do {
                     f \<leftarrow> put_field (ascii '' cr3=0x'') (p_cr3 p) max_len i buf;
                     finish max_len f
                   }
               }
             }
   }"

section \<open>How far a pseudo-file read can write\<close>

text \<open>
  A result that leaves everything from sixteen bytes behind the limit untouched, with a next index
  at most that far.
\<close>

definition within :: "u32 \<Rightarrow> u8 list \<Rightarrow> nat option \<times> u8 list \<Rightarrow> bool" where
  "within m buf r \<longleftrightarrow> length (snd r) = length buf \<and>
     drop (unat m + 16) (snd r) = drop (unat m + 16) buf \<and> (\<forall>i. fst r = Some i \<longrightarrow> i \<le> unat m + 16)"

definition contained :: "u32 \<Rightarrow> u8 list \<Rightarrow> int \<times> u8 list \<Rightarrow> bool" where
  "contained m buf r \<longleftrightarrow> length (snd r) = length buf \<and>
     drop (unat m + 16) (snd r) = drop (unat m + 16) buf \<and> (fst r = -1 \<or> 0 \<le> fst r \<and> nat (fst r) < unat m)"

lemma of_nat_limit: "i \<le> unat m + 16 \<Longrightarrow> unat (m :: u32) + 16 < 2 ^ 32 \<Longrightarrow> (of_nat i \<ge> m) = (i \<ge> unat m)"
  by (simp add: word_le_nat_alt unsigned_of_nat take_bit_nat_eq_self)

lemma put_text_within:
  assumes "unat m + 16 < 2 ^ 32" and "unat m + 16 \<le> length buf" and "i \<le> unat m + 16"
  shows "\<exists>r. put_text cs m i buf = Some r \<and> within m buf r \<and> (cs \<noteq> [] \<longrightarrow> (\<forall>j. fst r = Some j \<longrightarrow> j \<le> unat m))"
  using assms(2,3)
proof (induction cs arbitrary: i buf)
  case (Cons c cs)
  show ?case
  proof (cases "unat m \<le> i")
    case True
    then show ?thesis using of_nat_limit [OF Cons.prems(2) assms(1)] by (simp add: within_def)
  next
    case False
    have pre: "unat m + 16 \<le> length (buf[i := c])" "Suc i \<le> unat m + 16" using Cons.prems False by simp_all
    from Cons.IH [OF pre] obtain r where r: "put_text cs m (Suc i) (buf[i := c]) = Some r"
      "within m (buf[i := c]) r" "cs \<noteq> [] \<longrightarrow> (\<forall>j. fst r = Some j \<longrightarrow> j \<le> unat m)" by blast
    have "within m buf r" using r(2) False by (simp add: within_def)
    moreover have "\<forall>j. fst r = Some j \<longrightarrow> j \<le> unat m"
      using r(1,3) False by (cases "cs = []") auto
    ultimately show ?thesis using r(1) False Cons.prems of_nat_limit [OF Cons.prems(2) assms(1)] by simp
  qed
qed (simp add: within_def)

lemma put_hex_within:
  assumes "unat m + 16 \<le> length buf" and "i \<le> unat m"
  shows "\<exists>j buf'. put_hex v i buf = Some (j, buf') \<and> within m buf (Some j, buf')"
proof -
  have "put_hex v i buf = Some (i + length (print_hex v), take i buf @ put_bytes 0 (print_hex v) (drop i buf))"
    using assms by (simp add: put_hex_def format_hex_print_hex)
  then show ?thesis using assms print_hex_length [of v] by (simp add: within_def put_bytes_def)
qed

lemma put_field_within:
  assumes "unat m + 16 < 2 ^ 32" and "unat m + 16 \<le> length buf" and "i \<le> unat m + 16" and "label \<noteq> []"
  shows "\<exists>r. put_field label v m i buf = Some r \<and> within m buf r"
proof -
  from put_text_within [OF assms(1-3), of label] assms(4) obtain n b
    where r: "put_text label m i buf = Some (n, b)" "within m buf (n, b)" "\<forall>j. n = Some j \<longrightarrow> j \<le> unat m" by auto
  show ?thesis
  proof (cases n)
    case None
    with r show ?thesis by (simp add: put_field_def)
  next
    case (Some j)
    have len: "length b = length buf" using r(2) by (simp add: within_def)
    from put_hex_within [of m b j v] assms(2) len r(3) Some obtain k b'
      where h: "put_hex v j b = Some (k, b')" "within m b (Some k, b')" by auto
    then have "within m buf (Some k, b')" using r(2) by (simp add: within_def)
    with h(1) r(1) Some show ?thesis by (simp add: put_field_def)
  qed
qed

lemma finish_contained:
  assumes "unat m + 16 < 2 ^ 32" and "unat m + 16 \<le> length buf" and "within m buf r"
  shows "\<exists>q. finish m r = Some q \<and> contained m buf q"
proof (cases r)
  case (Pair n b)
  show ?thesis
  proof (cases n)
    case None
    with Pair assms(3) show ?thesis by (simp add: finish_def contained_def within_def)
  next
    case (Some i)
    have i: "i \<le> unat m + 16" "length b = length buf" "drop (unat m + 16) b = drop (unat m + 16) buf"
      using assms(3) Pair Some by (simp_all add: within_def)
    show ?thesis using Pair Some i assms(2) of_nat_limit [OF i(1) assms(1)]
      by (simp add: finish_def put_end_def contained_def)
  qed
qed

lemma two_fields_contained:
  assumes m: "unat m + 16 < 2 ^ 32" and len: "unat m + 16 \<le> length buf" and l: "l1 \<noteq> []" "l2 \<noteq> []"
  shows "\<exists>q. do { (r, buf) \<leftarrow> put_field l1 v1 m 0 buf;
      case r of None \<Rightarrow> Some (-1, buf) | Some i \<Rightarrow> do { f \<leftarrow> put_field l2 v2 m i buf; finish m f } } = Some q \<and>
    contained m buf q"
proof -
  from put_field_within [OF m len _ l(1), where i = 0 and v = v1] obtain n b
    where r: "put_field l1 v1 m 0 buf = Some (n, b)" "within m buf (n, b)" by auto
  show ?thesis
  proof (cases n)
    case None
    with r show ?thesis by (simp add: contained_def within_def)
  next
    case (Some i)
    have i: "i \<le> unat m + 16" "length b = length buf" "drop (unat m + 16) b = drop (unat m + 16) buf"
      using r(2) Some by (simp_all add: within_def)
    from put_field_within [OF m _ i(1) l(2), where buf = b and v = v2] len i(2) obtain r2
      where r2: "put_field l2 v2 m i b = Some r2" "within m b r2" by auto
    have "within m buf r2" using r2(2) i by (simp add: within_def)
    from finish_contained [OF m len this] r r2 Some show ?thesis by auto
  qed
qed

lemma ascii_labels:
  "ascii ''ticks: 0x'' \<noteq> []" "ascii ''vendor=0x'' \<noteq> []" "ascii '' device=0x'' \<noteq> []" "ascii ''irq=0x'' \<noteq> []"
  "ascii ''task=0x'' \<noteq> []" "ascii '' cr3=0x'' \<noteq> []"
  by (simp_all add: ascii_def)

lemma terminated_literal [simp]: "terminated (literal s)"
  by (simp add: literal_def)

lemma one_field_contained:
  assumes "unat m + 16 < 2 ^ 32" and "unat m + 16 \<le> length buf" and "l \<noteq> []"
  shows "\<exists>q. do { f \<leftarrow> put_field l v m 0 buf; finish m f } = Some q \<and> contained m buf q"
proof -
  from put_field_within [OF assms(1,2) _ assms(3), where i = 0 and v = v] obtain r
    where "put_field l v m 0 buf = Some r" "within m buf r" by auto
  with finish_contained [OF assms(1,2)] show ?thesis by simp
qed

lemma device_text_contained:
  assumes "unat m + 16 < 2 ^ 32" and "unat m + 16 \<le> length buf"
  shows "\<exists>q. device_text category info m buf = Some q \<and> contained m buf q"
proof -
  from put_text_within [OF assms, of 0 "ascii ''platform device''"] obtain r
    where r: "put_text (ascii ''platform device'') m 0 buf = Some r" "within m buf r" by auto
  show ?thesis
    using two_fields_contained [OF assms ascii_labels(2,3), of "ucast (drop_bit 16 info)" "ucast (info AND 0xFFFF)"]
      one_field_contained [OF assms ascii_labels(4), of "ucast info"] finish_contained [OF assms r(2)] r(1)
    unfolding device_text_def by (cases "category = DEVICE_CATEGORY_PCI"; cases "category = DEVICE_CATEGORY_INPUT") simp_all
qed

section \<open>The registry is well formed\<close>

definition device_ok :: "device_entry \<Rightarrow> bool" where
  "device_ok e \<longleftrightarrow> length (dv_name e) = 32 \<and> (dv_used e \<longrightarrow> terminated (dv_name e))"

definition device_key :: "device_entry \<Rightarrow> u8 list \<times> int" where
  "device_key e = (cstr (dv_name e), dv_category e)"

definition devices_inv :: "devices \<Rightarrow> bool" where
  "devices_inv s \<longleftrightarrow> length (g_devices s) = MAX_DEVICES \<and> (\<forall>e \<in> set (g_devices s). device_ok e) \<and>
     g_device_count s = int (length (filter dv_used (g_devices s))) \<and>
     distinct (map device_key (filter dv_used (g_devices s)))"

lemma name_matches_streq: "name_matches a b = streq a b"
  by (induction a b rule: streq.induct) auto

definition keyed :: "u8 list \<times> int \<Rightarrow> device_entry \<Rightarrow> bool" where
  "keyed k e \<longleftrightarrow> dv_used e \<and> device_key e = k"

lemma existing_scan_eq:
  assumes "\<forall>e \<in> set es. device_ok e" and "terminated name"
  shows "existing_scan i es name category = Some (map_option (\<lambda>k. i + k) (first_index (keyed (cstr name, category)) es))"
  using assms(1)
proof (induction es arbitrary: i)
  case (Cons e es)
  show ?case
  proof (cases "dv_used e \<and> dv_category e = category")
    case True
    then have "name_matches (dv_name e) name = Some (cstr (dv_name e) = cstr name)"
      using Cons.prems assms(2) by (simp add: name_matches_streq streq_cstr device_ok_def)
    moreover have "keyed (cstr name, category) e = (cstr (dv_name e) = cstr name)"
      using True by (simp add: keyed_def device_key_def)
    ultimately show ?thesis using True Cons
      by (cases "first_index (keyed (cstr name, category)) es") simp_all
  next
    case False
    then have "\<not> keyed (cstr name, category) e" by (auto simp: keyed_def device_key_def)
    then show ?thesis using False Cons by (cases "first_index (keyed (cstr name, category)) es") auto
  qed
qed simp

lemma sanitize_total:
  "terminated raw \<Longrightarrow> i + m < length out \<Longrightarrow>
    \<exists>out'. sanitize_from m raw i out = Some out' \<and> terminated out'"
proof (induction m raw i out rule: sanitize_from.induct)
  case (2 m c raw i out)
  show ?case
  proof (cases "c \<noteq> 0 \<and> m > 0")
    case True
    then show ?thesis using 2 by simp
  next
    case False
    have "0 \<in> set (out[i := 0])" using 2 by (intro set_update_memI) simp
    then show ?thesis using False 2 by (auto simp: terminated_def)
  qed
qed simp

lemma find_slash_total: "terminated name \<Longrightarrow> \<exists>r. find_slash k name = Some r"
  by (induction k name rule: find_slash.induct) auto

lemma find_slash_rest:
  "terminated name \<Longrightarrow> find_slash k name = Some (Some j) \<Longrightarrow> k \<le> j \<and> terminated (drop (Suc j - k) name)"
proof (induction k name rule: find_slash.induct)
  case (2 k c cs)
  show ?case
  proof (cases "c = 0 \<or> c = 47")
    case False
    then have "Suc k \<le> j \<and> terminated (drop (Suc j - Suc k) cs)" using 2 by simp
    moreover have "Suc j - k = Suc (Suc j - Suc k)" using calculation by (simp add: Suc_diff_le)
    ultimately show ?thesis by (simp only: drop_Suc_Cons) simp
  qed (use 2 in \<open>auto split: if_splits\<close>)
qed simp

lemma category_for_subpath_total: "terminated p \<Longrightarrow> \<exists>r. category_for_subpath p = Some r"
  by (simp add: category_for_subpath_def streq_cstr)

lemma get_in_category_total:
  assumes "devices_inv s" and "length raw = 32"
  shows "device_manager_get_in_category c i raw s = Some None \<or>
    (\<exists>nm info. device_manager_get_in_category c i raw s = Some (Some (nm, info)) \<and> length nm = 32 \<and> terminated nm)"
proof (cases "i < 0 \<or> category_scan c i 0 (g_devices s) = None")
  case False
  then obtain e where e: "category_scan c i 0 (g_devices s) = Some e" by auto
  note b = category_scan_bound [OF e]
  then have ok: "length (dv_name e) = 32" "terminated (dv_name e)"
    using assms(1) by (auto simp: devices_inv_def device_ok_def)
  have "copy_bounded raw (dv_name e) 32 = Some (put_bytes 0 (take 31 (cstr (dv_name e)) @ [0]) raw)"
    unfolding copy_bounded_def using copy_cstr_eq [OF ok(2), of 0 31 raw] assms(2) by simp
  then show ?thesis using False e assms(2) by (simp add: device_manager_get_in_category_def put_bytes_def)
qed (auto simp: device_manager_get_in_category_def)

lemma device_search_contained:
  assumes m: "unat m + 16 < 2 ^ 32" and len: "unat m + 16 \<le> length buf" and inv: "devices_inv s"
    and t: "terminated wanted"
  shows "length raw = 32 \<Longrightarrow> \<exists>q. device_search c i raw wanted s m buf = Some q \<and> contained m buf q"
proof (induction "nat (int (length (g_devices s)) - i)" arbitrary: i raw rule: less_induct)
  case less
  show ?case
  proof (cases "device_manager_get_in_category c i raw s = Some None")
    case True
    then show ?thesis by (subst device_search.simps) (simp add: contained_def)
  next
    case False
    with get_in_category_total [OF inv less.prems, of c i] obtain nm info
      where g: "device_manager_get_in_category c i raw s = Some (Some (nm, info))" "length nm = 32" "terminated nm"
      by blast
    from sanitize_total [OF g(3), of 0 31 "replicate 32 0"] obtain sn
      where sn: "sanitize_name (replicate 32 0) nm = Some sn" "terminated sn" by (auto simp: sanitize_name_def)
    have less': "nat (int (length (g_devices s)) - (i + 1)) < nat (int (length (g_devices s)) - i)"
      using get_in_category_bound [OF g(1)] by simp
    have step: "device_search c i raw wanted s m buf =
        (if cstr sn = cstr wanted then device_text c info m buf else device_search c (i + 1) nm wanted s m buf)"
      by (subst device_search.simps) (simp add: g(1) sn streq_cstr [OF sn(2) t])
    show ?thesis
      unfolding step using less.hyps [OF less' g(2)] device_text_contained [OF m len] by simp
  qed
qed

lemma device_read_contained:
  assumes m: "unat m + 16 < 2 ^ 32" and len: "unat m + 16 \<le> length buf" and inv: "devices_inv s"
    and t: "terminated name"
  shows "\<exists>q. device_read ticks s name buf m = Some q \<and> contained m buf q"
proof (cases "cstr name = cstr (literal ''ticks'')")
  case True
  then show ?thesis
    using one_field_contained [OF m len ascii_labels(1), of ticks] t by (simp add: device_read_def streq_cstr)
next
  case False
  from find_slash_total [OF t, of 0] obtain r where r: "find_slash 0 name = Some r" by blast
  show ?thesis
  proof (cases r)
    case None
    with False r t show ?thesis by (simp add: device_read_def streq_cstr contained_def)
  next
    case (Some k)
    have rest: "terminated (drop (Suc k) name)" using find_slash_rest [OF t, of 0 k] r Some by simp
    from category_for_subpath_total [of "take (min k 15) name @ [0]"] obtain c
      where c: "category_for_subpath (take (min k 15) name @ [0]) = Some c" by auto
    have "device_read ticks s name buf m = (case c of None \<Rightarrow> Some (-1, buf)
        | Some c \<Rightarrow> device_search c 0 (replicate 32 0) (drop (Suc k) name) s m buf)"
      using False r Some c t by (simp add: device_read_def streq_cstr)
    moreover have "contained m buf (-1, buf)" by (simp add: contained_def)
    ultimately show ?thesis
      using device_search_contained [OF m len inv rest, of "replicate 32 0"] by (cases c) simp_all
  qed
qed

lemma procfs_read_contained:
  assumes m: "unat m + 16 < 2 ^ 32" and len: "unat m + 16 \<le> length buf" and ps: "length ps = MAX_PROCESSES"
    and t: "terminated name"
  shows "\<exists>q. procfs_read ps name buf m = Some q \<and> contained m buf q"
proof (cases "starts_with name (literal ''proc'') = Some True")
  case False
  then have "procfs_read ps name buf m = Some (-1, buf)"
    using starts_with_cstr [OF t, of "literal ''proc''"] by (simp add: procfs_read_def)
  then show ?thesis by (simp add: contained_def)
next
  case True
  have "length (cstr (literal ''proc'')) = 4" by (simp add: literal_def ascii_def)
  moreover have "take (length (cstr (literal ''proc''))) (cstr name) = cstr (literal ''proc'')"
    using True starts_with_cstr [OF t, of "literal ''proc''"] by simp
  ultimately have "4 \<le> length (cstr name)" by (metis length_take min.cobounded1)
  moreover have "length (cstr name) < length name" using terminated_split [OF t] by (metis length_append add_less_cancel_left less_add_same_cancel1 length_Cons zero_less_Suc)
  ultimately have l: "\<not> length name \<le> 4" by simp
  let ?i = "sint (name ! 4) - 48"
  show ?thesis
  proof (cases "?i < 0 \<or> ?i \<ge> int MAX_PROCESSES")
    case bad: True
    then have "procfs_read ps name buf m = Some (-1, buf)"
      unfolding procfs_read_def Let_def True using l by auto
    then show ?thesis by (simp add: contained_def)
  next
    case ok: False
    then obtain p where p: "slot_at ps ?i = Some p" using ps by (simp add: slot_at_def)
    show ?thesis
    proof (cases "p_used p")
      case True2: True
      have "procfs_read ps name buf m = do { (r, buf) \<leftarrow> put_field (ascii ''task=0x'') (word_of_int (p_task p)) m 0 buf;
          case r of None \<Rightarrow> Some (-1, buf)
          | Some i \<Rightarrow> do { f \<leftarrow> put_field (ascii '' cr3=0x'') (p_cr3 p) m i buf; finish m f } }"
        unfolding procfs_read_def Let_def True using l ok p True2 by simp
      then show ?thesis using two_fields_contained [OF m len ascii_labels(5,6)] by simp
    next
      case False
      have "procfs_read ps name buf m = Some (-1, buf)"
        unfolding procfs_read_def Let_def True using l ok p False by simp
      then show ?thesis by (simp add: contained_def)
    qed
  qed
qed

lemma filter_update_fill:
  assumes "i < length xs" and "\<not> P (xs ! i)" and "P y"
  shows "\<exists>a b. filter P xs = a @ b \<and> filter P (xs[i := y]) = a @ y # b"
proof -
  have "filter P xs = filter P (take i xs @ xs ! i # drop (Suc i) xs)"
    using assms(1) by (simp only: id_take_nth_drop [symmetric])
  moreover have "filter P (xs[i := y]) = filter P (take i xs @ y # drop (Suc i) xs)"
    using assms(1) by (simp only: upd_conv_take_nth_drop)
  ultimately show ?thesis using assms(2,3) by auto
qed

lemma filter_map_update_same:
  assumes "i < length xs" and "P y = P (xs ! i)" and "f y = f (xs ! i)"
  shows "map f (filter P (xs[i := y])) = map f (filter P xs)"
  using assms
proof (induction xs arbitrary: i)
  case (Cons x xs)
  then show ?case by (cases i) auto
qed simp

section \<open>Properties\<close>

text \<open>
  C40. The device registry stays well formed. Registering a device under a name of at most 31
  characters keeps at most one entry per name and category and the count of devices in use; it returns
  the slot that holds the device with the given information, or \<^verbatim>\<open>-1\<close> without a change when all
  sixteen slots are taken by other devices.
\<close>

theorem device_register_inv:
  assumes inv: "devices_inv s" and t: "terminated name" and n: "length (cstr name) \<le> 31"
  shows "\<exists>s' r. device_manager_register name category info s = Some (s', r) \<and> devices_inv s' \<and>
    (r = -1 \<and> s' = s \<and> (\<forall>e \<in> set (g_devices s). dv_used e \<and> device_key e \<noteq> (cstr name, category)) \<or>
     (\<exists>e. slot_at (g_devices s') r = Some e \<and> dv_used e \<and> device_key e = (cstr name, category) \<and> dv_info e = info))"
proof -
  let ?es = "g_devices s" and ?k = "(cstr name, category)"
  have len: "length ?es = MAX_DEVICES" and ok: "\<And>e. e \<in> set ?es \<Longrightarrow> device_ok e"
    and cnt: "g_device_count s = int (length (filter dv_used ?es))"
    and dist: "distinct (map device_key (filter dv_used ?es))"
    using inv by (simp_all add: devices_inv_def)
  have find: "find_existing name category s = Some (first_index (keyed ?k) ?es)"
    using existing_scan_eq [of ?es name 0 category] ok t by (simp add: find_existing_def option.map_ident)
  show ?thesis
  proof (cases "first_index (keyed ?k) ?es")
    case (Some i)
    note fd = first_index_SomeD [OF Some]
    let ?e = "(?es ! i)\<lparr>dv_info := info\<rparr>" and ?s = "s\<lparr>g_devices := ?es[i := (?es ! i)\<lparr>dv_info := info\<rparr>]\<rparr>"
    have run: "device_manager_register name category info s = Some (?s, int i)"
      using find Some by (simp add: device_manager_register_def)
    have keys: "map device_key (filter dv_used (?es[i := ?e])) = map device_key (filter dv_used ?es)"
      by (rule filter_map_update_same) (use fd in \<open>simp_all add: device_key_def\<close>)
    then have "length (filter dv_used (?es[i := ?e])) = length (filter dv_used ?es)" by (metis length_map)
    moreover have "device_ok ?e" using ok [of "?es ! i"] fd by (simp add: device_ok_def)
    then have "\<forall>e \<in> set (?es[i := ?e]). device_ok e"
      using ok by (auto dest!: set_update_subset_insert [THEN subsetD])
    ultimately have "devices_inv ?s" using len cnt dist keys by (simp add: devices_inv_def)
    moreover have "slot_at (g_devices ?s) (int i) = Some ?e" using fd by (simp add: slot_at_def)
    ultimately show ?thesis using run fd
      by (intro exI [of _ ?s] exI [of _ "int i"]) (auto simp: keyed_def device_key_def)
  next
    case None
    then have fresh: "\<And>e. e \<in> set ?es \<Longrightarrow> dv_used e \<Longrightarrow> device_key e \<noteq> ?k"
      by (auto simp: first_index_None keyed_def)
    show ?thesis
    proof (cases "first_index (\<lambda>e. \<not> dv_used e) ?es")
      case None2: None
      then have "\<forall>e \<in> set ?es. dv_used e" by (simp add: first_index_None)
      then show ?thesis using find None None2 inv fresh
        by (intro exI [of _ s] exI [of _ "-1"]) (auto simp: device_manager_register_def)
    next
      case (Some i)
      note fd = first_index_SomeD [OF Some]
      let ?nm = "put_bytes 0 (take 31 (cstr name) @ [0]) (dv_name (?es ! i))"
      let ?e = "\<lparr>dv_used = True, dv_name = ?nm, dv_category = category, dv_info = info\<rparr>"
      let ?s = "s\<lparr>g_devices := ?es[i := ?e], g_device_count := g_device_count s + 1\<rparr>"
      have l: "length (dv_name (?es ! i)) = 32" using ok [of "?es ! i"] fd by (simp add: device_ok_def)
      have cp: "copy_bounded (dv_name (?es ! i)) name 32 = Some ?nm"
        unfolding copy_bounded_def using copy_cstr_eq [OF t, of 0 31] l by simp
      have key: "device_key ?e = ?k" using n by (simp add: device_key_def)
      have oke: "device_ok ?e" using l n by (simp add: device_ok_def put_bytes_def)
      have run: "device_manager_register name category info s = Some (?s, int i)"
        using find None Some cp by (simp add: device_manager_register_def)
      obtain a b where ab: "filter dv_used ?es = a @ b" "filter dv_used (?es[i := ?e]) = a @ ?e # b"
        using filter_update_fill [of i ?es dv_used ?e] fd by auto
      have "?k \<notin> device_key ` set (filter dv_used ?es)" by (auto dest: fresh)
      then have "distinct (map device_key (filter dv_used (?es[i := ?e])))"
        using dist key unfolding ab by auto
      moreover have "\<forall>e \<in> set (?es[i := ?e]). device_ok e"
        using ok oke by (auto dest!: set_update_subset_insert [THEN subsetD])
      ultimately have "devices_inv ?s" using len cnt ab by (simp add: devices_inv_def)
      moreover have "slot_at (g_devices ?s) (int i) = Some ?e" using fd by (simp add: slot_at_def)
      ultimately show ?thesis using run key by (intro exI [of _ ?s] exI [of _ "int i"]) auto
    qed
  qed
qed

lemma hex_loop_grows: "length t \<le> length (hex_loop n v t)"
  by (induction n v t rule: hex_loop.induct) auto

lemma hex_loop_nonempty: "v \<noteq> 0 \<Longrightarrow> hex_loop (Suc n) v [] \<noteq> []"
  using hex_loop_grows [of "[hex_digits ! unat (v mod 16)]" n "v div 16"] by (auto simp: word_neq_0_conv)

definition no_devices :: devices where
  "no_devices = \<lparr>g_devices = replicate 16 \<lparr>dv_used = False, dv_name = replicate 32 0, dv_category = 0, dv_info = 0\<rparr>,
     g_device_count = 0\<rparr>"

lemma no_devices_inv: "devices_inv no_devices"
  by (simp add: devices_inv_def no_devices_def device_ok_def)

theorem device_register_inv_witness:
  "\<exists>s' r. device_manager_register (literal ''PCI'') DEVICE_CATEGORY_PCI 7 no_devices = Some (s', r) \<and> devices_inv s'"
proof -
  have "terminated (literal ''PCI'')" "length (cstr (literal ''PCI'')) \<le> 31"
    by (simp_all add: literal_def ascii_def)
  from device_register_inv [OF no_devices_inv this, of DEVICE_CATEGORY_PCI 7] show ?thesis by (elim exE conjE) auto
qed

text \<open>
  A read of a pseudo-file can pass its limit by at most sixteen bytes. Whatever is registered and
  whatever the name, reading under \<^verbatim>\<open>/devices\<close> or \<^verbatim>\<open>/processes\<close> into a buffer with sixteen spare bytes
  behind \<^verbatim>\<open>max_len\<close> ends, leaves the bytes behind these untouched, and returns \<^verbatim>\<open>-1\<close> or a length
  below \<^verbatim>\<open>max_len\<close>.
\<close>

theorem pseudo_file_bounds:
  assumes "unat m + 16 < 2 ^ 32" and "unat m + 16 \<le> length buf" and "devices_inv s"
    and "length ps = MAX_PROCESSES" and "terminated name"
  shows "(\<exists>r buf'. device_read ticks s name buf m = Some (r, buf') \<and> length buf' = length buf \<and>
      drop (unat m + 16) buf' = drop (unat m + 16) buf \<and> (r = -1 \<or> 0 \<le> r \<and> nat r < unat m)) \<and>
    (\<exists>r buf'. procfs_read ps name buf m = Some (r, buf') \<and> length buf' = length buf \<and>
      drop (unat m + 16) buf' = drop (unat m + 16) buf \<and> (r = -1 \<or> 0 \<le> r \<and> nat r < unat m))"
  using device_read_contained [OF assms(1,2,3,5), of ticks] procfs_read_contained [OF assms(1,2,4,5)]
  by (auto simp: contained_def)

theorem pseudo_file_bounds_witness:
  "\<exists>r buf'. device_read 255 no_devices (literal ''ticks'') (replicate 48 0) 32 = Some (r, buf') \<and> length buf' = 48"
  using pseudo_file_bounds [OF _ _ no_devices_inv, of 32 "replicate 48 0"
      "replicate 8 \<lparr>p_used = False, p_cr3 = 0, p_task = 0, p_uid = 0, p_main_stack = 0, p_next_thread_stack = 0\<rparr>"
      "literal ''ticks''" 255] by auto

text \<open>
  The limit of a pseudo-file read is not kept. Reading \<^verbatim>\<open>/devices/ticks\<close> into a nine-byte buffer
  with \<^verbatim>\<open>max_len\<close> nine writes the digits of the tick count behind the end of the buffer, whatever the
  count is.
\<close>

theorem device_read_overruns:
  "length buf = 9 \<Longrightarrow> device_read ticks s (literal ''ticks'') buf 9 = None"
proof -
  assume l: "length buf = 9"
  obtain a b c d e f g h i where buf: "buf = [a, b, c, d, e, f, g, h, i]"
    using l by (auto simp: length_Suc_conv eval_nat_numeral)
  have "format_hex ticks [] = None"
  proof -
    have "hex_loop 16 ticks [] \<noteq> []" if "ticks \<noteq> 0"
      using hex_loop_nonempty [OF that, of 15] by simp
    then show ?thesis by (simp add: format_hex_def write_bytes_def hex_digits_def)
  qed
  then have "put_field (ascii ''ticks: 0x'') ticks 9 0 buf = None"
    by (simp add: put_field_def put_hex_def ascii_def buf word_le_nat_alt)
  moreover have "streq (literal ''ticks'') (literal ''ticks'') = Some True" by (simp add: streq_cstr)
  ultimately show ?thesis by (simp add: device_read_def)
qed

theorem device_read_overruns_witness:
  "device_read 5 no_devices (literal ''ticks'') (replicate 9 0) 9 = None"
  by (rule device_read_overruns) simp

end
