(* ===== verification/Vfs.thy ===== *)
theory Vfs
  imports Devfs Tmpfs Minifs_Files
begin

text \<open>
  The path namespace (\<^verbatim>\<open>src/kernel/fs/vfs/vfs.c\<close>): a table of mounts, the choice of the mount for a
  path, and the dispatch of each operation to MiniFS, the device and process trees, the temporary
  file system or FAT32. The FAT32 driver is an argument of the operations, on a state of its own.
  The local buffer \<^verbatim>\<open>full[200]\<close> is a list of 200 bytes, so a path that does not fit is \<open>None\<close>.
\<close>

section \<open>Mounts\<close>

definition BACKEND_MINIFS :: u32 where "BACKEND_MINIFS = 1"
definition BACKEND_DEVICE :: u32 where "BACKEND_DEVICE = 2"
definition BACKEND_PROCFS :: u32 where "BACKEND_PROCFS = 3"
definition BACKEND_TMPFS :: u32 where "BACKEND_TMPFS = 4"
definition BACKEND_MOUNTS :: u32 where "BACKEND_MOUNTS = 5"
definition BACKEND_FAT32 :: u32 where "BACKEND_FAT32 = 6"

lemmas backend_defs = BACKEND_MINIFS_def BACKEND_DEVICE_def BACKEND_PROCFS_def BACKEND_TMPFS_def
  BACKEND_MOUNTS_def BACKEND_FAT32_def

record mount =
  mt_prefix :: "u8 list"
  mt_backend :: u32
  mt_root :: "u8 list"
  mt_used :: bool

text \<open>The state below the namespace; \<open>'f\<close> is the state of the FAT32 volume.\<close>

record 'f fs =
  g_mounts :: "mount list"
  g_mount_count :: int
  fs_disk :: disk
  fs_tmpfs :: "tmpfs_entry list"
  fs_devices :: devices
  fs_fat :: 'f

record 'f fat32_ops =
  fat32_read_file :: "u8 list \<Rightarrow> u8 list \<Rightarrow> u32 \<Rightarrow> 'f \<Rightarrow> (int \<times> u8 list) option"
  fat32_write_file :: "u8 list \<Rightarrow> u8 list \<Rightarrow> u32 \<Rightarrow> 'f \<Rightarrow> ('f \<times> bool) option"
  fat32_list_entry :: "u8 list \<Rightarrow> int \<Rightarrow> u8 list \<Rightarrow> 'f \<Rightarrow> (u8 list \<times> u32 \<times> bool) option option"
  fat32_stat_file :: "u8 list \<Rightarrow> 'f \<Rightarrow> (u32 \<times> bool) option option"
  fat32_delete_file :: "u8 list \<Rightarrow> 'f \<Rightarrow> ('f \<times> bool) option"
  fat32_create_dir :: "u8 list \<Rightarrow> 'f \<Rightarrow> ('f \<times> bool) option"

definition copy_prefix :: "u8 list \<Rightarrow> u8 list option" where
  "copy_prefix src =
     (if terminated src \<or> 15 \<le> length src
      then let s = takeWhile (\<lambda>c. c \<noteq> 0) (take 15 src) in Some (s @ replicate (16 - length s) 0)
      else None)"

definition vfs_mount_at :: "u8 list \<Rightarrow> u32 \<Rightarrow> u8 list \<Rightarrow> 'f fs \<Rightarrow> ('f fs \<times> bool) option" where
  "vfs_mount_at prefix backend backend_root s =
     (if g_mount_count s \<ge> 8 then Some (s, False)
      else do {
        p \<leftarrow> copy_prefix prefix;
        r \<leftarrow> copy_prefix backend_root;
        ms \<leftarrow> slot_put (g_mounts s) (g_mount_count s)
               \<lparr>mt_prefix = p, mt_backend = backend, mt_root = r, mt_used = True\<rparr>;
        Some (s\<lparr>g_mounts := ms, g_mount_count := g_mount_count s + 1\<rparr>, True)
      })"

definition vfs_mount :: "u8 list \<Rightarrow> u32 \<Rightarrow> 'f fs \<Rightarrow> ('f fs \<times> bool) option" where
  "vfs_mount prefix backend s = vfs_mount_at prefix backend [0] s"

section \<open>Paths\<close>

text \<open>\<^verbatim>\<open>while (src[j] != 0) { out[i] = src[j]; i = i + 1; j = j + 1; }\<close>\<close>

fun append_cstr :: "u8 list \<Rightarrow> nat \<Rightarrow> u8 list \<Rightarrow> (nat \<times> u8 list) option" where
  "append_cstr [] i out = None"
| "append_cstr (c # src) i out =
     (if c = 0 then Some (i, out)
      else if i < length out then append_cstr src (Suc i) (out[i := c]) else None)"

definition byte_at :: "u8 list \<Rightarrow> nat \<Rightarrow> u8 option" where
  "byte_at s i = (if i < length s then Some (s ! i) else None)"

definition put_at :: "u8 list \<Rightarrow> nat \<Rightarrow> u8 \<Rightarrow> u8 list option" where
  "put_at s i c = (if i < length s then Some (s[i := c]) else None)"

definition combine_backend_path :: "u8 list \<Rightarrow> u8 list \<Rightarrow> u8 list \<Rightarrow> u8 list option" where
  "combine_backend_path out root rest = do {
     (i, out) \<leftarrow> append_cstr root 0 out;
     r0 \<leftarrow> byte_at root 0;
     s0 \<leftarrow> (if r0 \<noteq> 0 then byte_at rest 0 else Some 0);
     (i, out) \<leftarrow> (if r0 \<noteq> 0 \<and> s0 \<noteq> 0 then do { out \<leftarrow> put_at out i 47; Some (i + 1, out) } else Some (i, out));
     (i, out) \<leftarrow> append_cstr rest i out;
     put_at out i 0
   }"

fun mount_scan :: "nat \<Rightarrow> mount list \<Rightarrow> u8 list \<Rightarrow> nat option option" where
  "mount_scan i [] path = Some None"
| "mount_scan i (m # ms) path =
     (if mt_used m then do {
        b \<leftarrow> starts_with path (mt_prefix m);
        if b then Some (Some i) else mount_scan (Suc i) ms path
      }
      else mount_scan (Suc i) ms path)"

definition vfs_find_mount :: "u8 list \<Rightarrow> 'f fs \<Rightarrow> nat option option" where
  "vfs_find_mount path s = mount_scan 0 (take (nat (g_mount_count s)) (g_mounts s)) path"

definition vfs_strip_prefix :: "u8 list \<Rightarrow> mount \<Rightarrow> u8 list option" where
  "vfs_strip_prefix path m = do {
     n \<leftarrow> strlen (mt_prefix m);
     let rest = drop n path;
     c \<leftarrow> byte_at rest 0;
     Some (if c = 47 then drop 1 rest else rest)
   }"

text \<open>The opening lines of the operations: the mount and the rest of the path, or \<open>failv\<close> without one.\<close>

definition with_mount :: "u8 list \<Rightarrow> 'f fs \<Rightarrow> 'r \<Rightarrow> (mount \<Rightarrow> u8 list \<Rightarrow> 'r option) \<Rightarrow> 'r option" where
  "with_mount path s failv k = do {
     f \<leftarrow> vfs_find_mount path s;
     case f of
       None \<Rightarrow> Some failv
     | Some i \<Rightarrow> do { rest \<leftarrow> vfs_strip_prefix path (g_mounts s ! i); k (g_mounts s ! i) rest }
   }"

definition full_path :: "mount \<Rightarrow> u8 list \<Rightarrow> u8 list option" where
  "full_path m rest = combine_backend_path (replicate 200 0) (mt_root m) rest"

text \<open>\<^verbatim>\<open>fs_get_owner_mode(full, ...) && (mode & bit) != 0 && caller_uid != owner_uid && caller_uid != 0\<close>\<close>

definition refused :: "u8 \<Rightarrow> u8 list \<Rightarrow> u8 \<Rightarrow> disk \<Rightarrow> bool option" where
  "refused mode_bit full caller_uid d = do {
     om \<leftarrow> fs_get_owner_mode full d;
     Some (case om of
       None \<Rightarrow> False
     | Some (owner, mode) \<Rightarrow> mode AND mode_bit \<noteq> 0 \<and> caller_uid \<noteq> owner \<and> caller_uid \<noteq> 0)
   }"

section \<open>Operations\<close>

definition vfs_read ::
  "'f fat32_ops \<Rightarrow> kern \<Rightarrow> u8 list \<Rightarrow> u8 list \<Rightarrow> u32 \<Rightarrow> u8 \<Rightarrow> 'f fs \<Rightarrow> (int \<times> u8 list) option" where
  "vfs_read F k path buf max_len caller_uid s =
     with_mount path s (-1, buf) (\<lambda>m rest.
       if mt_backend m = BACKEND_MINIFS then do {
         full \<leftarrow> full_path m rest;
         no \<leftarrow> refused MODE_OWNER_ONLY_READ full caller_uid (fs_disk s);
         if no then Some (-1, buf) else fs_read_file full buf max_len (fs_disk s)
       }
       else if mt_backend m = BACKEND_DEVICE then device_read (g_tick_count k) (fs_devices s) rest buf max_len
       else if mt_backend m = BACKEND_PROCFS then procfs_read (g_processes k) rest buf max_len
       else if mt_backend m = BACKEND_TMPFS then tmpfs_read rest buf max_len (fs_tmpfs s)
       else if mt_backend m = BACKEND_FAT32 then fat32_read_file F rest buf max_len (fs_fat s)
       else Some (-1, buf))"

definition on_disk :: "'f fs \<Rightarrow> disk \<times> bool \<Rightarrow> 'f fs \<times> bool" where
  "on_disk s r = (s\<lparr>fs_disk := fst r\<rparr>, snd r)"

definition on_tmpfs :: "'f fs \<Rightarrow> tmpfs_entry list \<times> bool \<Rightarrow> 'f fs \<times> bool" where
  "on_tmpfs s r = (s\<lparr>fs_tmpfs := fst r\<rparr>, snd r)"

definition on_fat :: "'f fs \<Rightarrow> 'f \<times> bool \<Rightarrow> 'f fs \<times> bool" where
  "on_fat s r = (s\<lparr>fs_fat := fst r\<rparr>, snd r)"

definition vfs_write ::
  "'f fat32_ops \<Rightarrow> u8 list \<Rightarrow> u8 list \<Rightarrow> u32 \<Rightarrow> u8 \<Rightarrow> 'f fs \<Rightarrow> ('f fs \<times> bool) option" where
  "vfs_write F path data len caller_uid s =
     with_mount path s (s, False) (\<lambda>m rest.
       if mt_backend m = BACKEND_MINIFS then do {
         full \<leftarrow> full_path m rest;
         no \<leftarrow> refused MODE_OWNER_ONLY_WRITE full caller_uid (fs_disk s);
         if no then Some (s, False) else map_option (on_disk s) (fs_write_file full data len (fs_disk s))
       }
       else if mt_backend m = BACKEND_TMPFS then map_option (on_tmpfs s) (tmpfs_write rest data len (fs_tmpfs s))
       else if mt_backend m = BACKEND_FAT32 then map_option (on_fat s) (fat32_write_file F rest data len (fs_fat s))
       else Some (s, False))"

definition list_mount_entries :: "int \<Rightarrow> u8 list \<Rightarrow> 'f fs \<Rightarrow> (u8 list \<times> u32 \<times> bool) option option" where
  "list_mount_entries index name_out s =
     (if index < 0 \<or> index \<ge> g_mount_count s then Some None
      else do {
        m \<leftarrow> slot_at (g_mounts s) index;
        if \<not> mt_used m then Some None
        else do {
          (i, nm) \<leftarrow> append_cstr (drop 1 (mt_prefix m)) 0 name_out;
          nm \<leftarrow> put_at nm i 0;
          Some (Some (nm, 0, True))
        }
      })"

definition vfs_list_entry ::
  "'f fat32_ops \<Rightarrow> kern \<Rightarrow> u8 list \<Rightarrow> int \<Rightarrow> u8 list \<Rightarrow> 'f fs \<Rightarrow> (u8 list \<times> u32 \<times> bool) option option" where
  "vfs_list_entry F k dir_path index name_out s = do {
     c \<leftarrow> byte_at dir_path 0;
     if c = 0 then list_mount_entries index name_out s
     else with_mount dir_path s None (\<lambda>m rest.
       if mt_backend m = BACKEND_MINIFS then do {
         full \<leftarrow> full_path m rest;
         r \<leftarrow> fs_list_entry full index (fs_disk s);
         case r of
           None \<Rightarrow> Some None
         | Some (nm, sz, dir) \<Rightarrow>
             if length name_out < 20 then None else Some (Some (put_bytes 0 nm name_out, sz, dir))
       }
       else if mt_backend m = BACKEND_DEVICE then devfs_list_entry (fs_devices s) rest index name_out
       else if mt_backend m = BACKEND_PROCFS then procfs_list_entry (g_processes k) index name_out
       else if mt_backend m = BACKEND_TMPFS then tmpfs_list_entry index name_out (fs_tmpfs s)
       else if mt_backend m = BACKEND_MOUNTS then list_mount_entries index name_out s
       else if mt_backend m = BACKEND_FAT32 then fat32_list_entry F rest index name_out (fs_fat s)
       else Some None)
   }"

text \<open>
  The size and type the caller receives (\<open>None\<close> for the result \<^verbatim>\<open>false\<close>) and what is stored through
  the owner and mode pointers, which the last two backends fill before they look the name up.
\<close>

definition vfs_stat :: "'f fat32_ops \<Rightarrow> u8 list \<Rightarrow> 'f fs \<Rightarrow> ((u32 \<times> bool) option \<times> (u8 \<times> u8) option) option" where
  "vfs_stat F path s =
     with_mount path s (None, None) (\<lambda>m rest.
       if mt_backend m = BACKEND_MINIFS then do {
         full \<leftarrow> full_path m rest;
         r \<leftarrow> fs_stat_file full (fs_disk s);
         Some (case r of None \<Rightarrow> (None, None) | Some (sz, dir, owner, mode) \<Rightarrow> (Some (sz, dir), Some (owner, mode)))
       }
       else if mt_backend m = BACKEND_TMPFS then map_option (\<lambda>r. (r, Some (0, 0))) (tmpfs_stat rest (fs_tmpfs s))
       else if mt_backend m = BACKEND_FAT32 then map_option (\<lambda>r. (r, Some (0, 0))) (fat32_stat_file F rest (fs_fat s))
       else Some (None, None))"

definition vfs_delete :: "'f fat32_ops \<Rightarrow> u8 list \<Rightarrow> u8 \<Rightarrow> 'f fs \<Rightarrow> ('f fs \<times> bool) option" where
  "vfs_delete F path caller_uid s =
     with_mount path s (s, False) (\<lambda>m rest.
       if mt_backend m = BACKEND_MINIFS then do {
         full \<leftarrow> full_path m rest;
         no \<leftarrow> refused MODE_OWNER_ONLY_WRITE full caller_uid (fs_disk s);
         if no then Some (s, False) else map_option (on_disk s) (fs_delete_file full (fs_disk s))
       }
       else if mt_backend m = BACKEND_TMPFS then map_option (on_tmpfs s) (tmpfs_delete rest (fs_tmpfs s))
       else if mt_backend m = BACKEND_FAT32 then map_option (on_fat s) (fat32_delete_file F rest (fs_fat s))
       else Some (s, False))"

definition vfs_mkdir :: "'f fat32_ops \<Rightarrow> u8 list \<Rightarrow> 'f fs \<Rightarrow> ('f fs \<times> bool) option" where
  "vfs_mkdir F path s =
     with_mount path s (s, False) (\<lambda>m rest.
       if mt_backend m = BACKEND_MINIFS then do {
         full \<leftarrow> full_path m rest;
         map_option (on_disk s) (fs_create_dir full (fs_disk s))
       }
       else if mt_backend m = BACKEND_FAT32 then map_option (on_fat s) (fat32_create_dir F rest (fs_fat s))
       else Some (s, False))"

definition vfs_is_writable :: "u8 list \<Rightarrow> 'f fs \<Rightarrow> bool option" where
  "vfs_is_writable path s = do {
     f \<leftarrow> vfs_find_mount path s;
     Some (case f of
       None \<Rightarrow> False
     | Some i \<Rightarrow> mt_backend (g_mounts s ! i) \<in> {BACKEND_MINIFS, BACKEND_TMPFS, BACKEND_FAT32})
   }"

definition vfs_resolve_minifs_path :: "u8 list \<Rightarrow> u8 list \<Rightarrow> 'f fs \<Rightarrow> u8 list option option" where
  "vfs_resolve_minifs_path path out s = do {
     f \<leftarrow> vfs_find_mount path s;
     case f of
       None \<Rightarrow> Some None
     | Some i \<Rightarrow>
         if mt_backend (g_mounts s ! i) \<noteq> BACKEND_MINIFS then Some None
         else do {
           rest \<leftarrow> vfs_strip_prefix path (g_mounts s ! i);
           out \<leftarrow> combine_backend_path out (mt_root (g_mounts s ! i)) rest;
           Some (Some out)
         }
   }"

section \<open>Joining paths\<close>

definition join :: "u8 list \<Rightarrow> u8 list \<Rightarrow> u8 list" where
  "join root rest = root @ (if root \<noteq> [] \<and> rest \<noteq> [] then [47] else []) @ rest"

lemma append_cstr_eq:
  assumes "terminated src" and "i \<le> length out"
  shows "append_cstr src i out =
    (if i + length (cstr src) \<le> length out then Some (i + length (cstr src), put_bytes i (cstr src) out) else None)"
  using assms
proof (induction src i out rule: append_cstr.induct)
  case (2 c src i out)
  show ?case
  proof (cases "c = 0 \<or> \<not> i < length out")
    case False
    then have "append_cstr src (Suc i) (out[i := c]) =
        (if Suc i + length (cstr src) \<le> length out
         then Some (Suc i + length (cstr src), put_bytes (Suc i) (cstr src) (out[i := c])) else None)"
      using 2 by simp
    with False show ?thesis by (simp add: put_bytes_Cons)
  qed (use 2 in auto)
qed simp

lemma put_bytes_append:
  "i + length a + length b \<le> length out \<Longrightarrow>
    put_bytes (i + length a) b (put_bytes i a out) = put_bytes i (a @ b) out"
  by (simp add: put_bytes_def ac_simps)

lemma put_at_eq: "i < length out \<Longrightarrow> put_at out i c = Some (put_bytes i [c] out)"
  by (simp add: put_at_def put_bytes_def upd_conv_take_nth_drop)

lemma byte_at_0: "terminated s \<Longrightarrow> \<exists>c. byte_at s 0 = Some c \<and> (c = 0) = (cstr s = [])"
  by (cases s) (auto simp: byte_at_def)

lemma length_put_bytes_le: "off + length bs \<le> length buf \<Longrightarrow> length (put_bytes off bs buf) = length buf"
  by (simp add: put_bytes_def)

lemma combine_eq:
  assumes "terminated root" and "terminated rest"
  shows "combine_backend_path out root rest =
    (if length (join (cstr root) (cstr rest)) < length out
     then Some (put_bytes 0 (join (cstr root) (cstr rest) @ [0]) out) else None)"
proof -
  let ?r = "cstr root" and ?t = "cstr rest"
  let ?sep = "if ?r \<noteq> [] \<and> ?t \<noteq> [] then [47 :: u8] else []"
  from byte_at_0 [OF assms(1)] obtain r0 where r0: "byte_at root 0 = Some r0" "(r0 = 0) = (?r = [])" by blast
  from byte_at_0 [OF assms(2)] obtain s0 where s0: "byte_at rest 0 = Some s0" "(s0 = 0) = (?t = [])" by blast
  show ?thesis
  proof (cases "length ?r \<le> length out")
    case False
    then have "append_cstr root 0 out = None" using append_cstr_eq [OF assms(1), of 0 out] by simp
    with False show ?thesis by (simp add: combine_backend_path_def join_def)
  next
    case True
    let ?o1 = "put_bytes 0 ?r out"
    have a1: "append_cstr root 0 out = Some (length ?r, ?o1)" using append_cstr_eq [OF assms(1), of 0 out] True by simp
    have l1: "length ?o1 = length out" using True by (simp add: length_put_bytes_le)
    show ?thesis
    proof (cases "length ?r + length ?sep \<le> length out")
      case False
      then have sep: "?r \<noteq> [] \<and> ?t \<noteq> []" and "length ?r = length out" using True by (auto split: if_splits)
      then have "put_at ?o1 (length ?r) 47 = None" using l1 by (simp add: put_at_def)
      with sep a1 r0 s0 False show ?thesis by (auto simp: combine_backend_path_def join_def)
    next
      case fits: True
      let ?o2 = "put_bytes 0 (?r @ ?sep) out"
      have a2: "(if r0 \<noteq> 0 \<and> (if r0 \<noteq> 0 then s0 else 0) \<noteq> 0 then do { out \<leftarrow> put_at ?o1 (length ?r) 47; Some (length ?r + 1, out) }
          else Some (length ?r, ?o1)) = Some (length (?r @ ?sep), ?o2)"
        using fits r0(2) s0(2) l1 put_bytes_append [of 0 ?r "[47]" out] by (auto simp: put_at_eq)
      have l2: "length ?o2 = length out" using fits by (simp add: length_put_bytes_le)
      have a3: "append_cstr rest (length (?r @ ?sep)) ?o2 =
          (if length (?r @ ?sep) + length ?t \<le> length out
           then Some (length (join ?r ?t), put_bytes 0 (join ?r ?t) out) else None)"
        using append_cstr_eq [OF assms(2), of "length (?r @ ?sep)" ?o2] l2 fits put_bytes_append [of 0 "?r @ ?sep" ?t out]
        by (simp add: join_def)
      have s0': "(if r0 \<noteq> 0 then byte_at rest 0 else Some 0) = Some (if r0 \<noteq> 0 then s0 else 0)"
        using s0(1) by simp
      have c: "combine_backend_path out root rest =
          do { (i, out) \<leftarrow> append_cstr rest (length (?r @ ?sep)) ?o2; put_at out i 0 }"
        unfolding combine_backend_path_def by (simp only: a1 r0(1) s0' Option.bind.simps prod.case a2)
      have lj: "length (join ?r ?t) = length (?r @ ?sep) + length ?t" by (simp add: join_def)
      show ?thesis unfolding c a3 using lj put_bytes_append [of 0 "join ?r ?t" "[0]" out]
        by (auto simp: put_at_eq length_put_bytes_le) (simp_all add: put_at_def length_put_bytes_le)
    qed
  qed
qed

section \<open>Routing\<close>

definition mount_ok :: "mount \<Rightarrow> bool" where
  "mount_ok m \<longleftrightarrow> terminated (mt_prefix m) \<and> terminated (mt_root m) \<and> length (mt_prefix m) = 16 \<and> length (mt_root m) = 16"

definition mounts_ok :: "'f fs \<Rightarrow> bool" where
  "mounts_ok s \<longleftrightarrow> length (g_mounts s) = 8 \<and> 0 \<le> g_mount_count s \<and> g_mount_count s \<le> 8 \<and>
     (\<forall>m \<in> set (take (nat (g_mount_count s)) (g_mounts s)). mount_ok m)"

definition covers :: "u8 list \<Rightarrow> mount \<Rightarrow> bool" where
  "covers p m \<longleftrightarrow> mt_used m \<and> take (length (cstr (mt_prefix m))) p = cstr (mt_prefix m)"

text \<open>The first mount whose prefix starts the path, and what is left of the path below it.\<close>

definition mount_of :: "'f fs \<Rightarrow> u8 list \<Rightarrow> mount option" where
  "mount_of s path =
     map_option (\<lambda>i. g_mounts s ! i) (first_index (covers (cstr path)) (take (nat (g_mount_count s)) (g_mounts s)))"

definition below :: "mount \<Rightarrow> u8 list \<Rightarrow> u8 list" where
  "below m path = (let r = drop (length (cstr (mt_prefix m))) path in if hd r = 47 then tl r else r)"

lemma takeWhile_take: "takeWhile P (take n xs) = take n (takeWhile P xs)"
proof (induction xs arbitrary: n)
  case (Cons x xs)
  then show ?case by (cases n) auto
qed simp

lemma copy_prefix_ok:
  assumes "terminated src"
  shows "\<exists>p. copy_prefix src = Some p \<and> length p = 16 \<and> terminated p \<and> cstr p = take 15 (cstr src)"
proof -
  let ?s = "take 15 (cstr src)"
  have l: "length ?s \<le> 15" by simp
  have nz: "0 \<notin> set ?s" by (auto dest: in_set_takeD cstr_nonzero)
  have "cstr (?s @ replicate (Suc n) 0) = ?s" "terminated (?s @ replicate (Suc n) 0)" for n
    by (simp_all add: cstr_append_zero [OF nz])
  moreover have "16 - length ?s = Suc (15 - length ?s)" using l by simp
  ultimately have "cstr (?s @ replicate (16 - length ?s) 0) = ?s" "terminated (?s @ replicate (16 - length ?s) 0)"
    by metis+
  moreover have eq: "takeWhile (\<lambda>c. c \<noteq> 0) (take 15 src) = ?s" by (simp add: takeWhile_take cstr_def)
  moreover have "length (?s @ replicate (16 - length ?s) 0) = 16" using l by simp
  ultimately show ?thesis unfolding copy_prefix_def Let_def eq using assms by auto
qed

lemma vfs_mount_at_ok:
  assumes "mounts_ok s" and "terminated prefix" and "terminated root"
  shows "\<exists>s' ok. vfs_mount_at prefix backend root s = Some (s', ok) \<and> mounts_ok s' \<and> ok = (g_mount_count s < 8)"
proof (cases "g_mount_count s < 8")
  case True
  from copy_prefix_ok [OF assms(2)] obtain p where p: "copy_prefix prefix = Some p" "length p = 16" "terminated p" by blast
  from copy_prefix_ok [OF assms(3)] obtain r where r: "copy_prefix root = Some r" "length r = 16" "terminated r" by blast
  let ?m = "\<lparr>mt_prefix = p, mt_backend = backend, mt_root = r, mt_used = True\<rparr>"
  let ?i = "nat (g_mount_count s)"
  have i: "?i < length (g_mounts s)" and pos: "0 \<le> g_mount_count s" using assms(1) True by (auto simp: mounts_ok_def)
  have "take (Suc ?i) ((g_mounts s)[?i := ?m]) = take ?i (g_mounts s) @ [?m]"
    using i by (simp add: take_Suc_conv_app_nth)
  then have "mounts_ok (s\<lparr>g_mounts := (g_mounts s)[?i := ?m], g_mount_count := g_mount_count s + 1\<rparr>)"
    using assms(1) True p r pos by (auto simp: mounts_ok_def mount_ok_def nat_add_distrib)
  moreover have "slot_put (g_mounts s) (g_mount_count s) ?m = Some ((g_mounts s)[?i := ?m])"
    using i pos by (simp add: slot_put_def)
  ultimately show ?thesis using True p(1) r(1) by (auto simp: vfs_mount_at_def)
qed (use assms(1) in \<open>auto simp: vfs_mount_at_def\<close>)

lemma mount_scan_eq:
  assumes "\<forall>m \<in> set ms. mount_ok m" and "terminated path"
  shows "mount_scan i ms path = Some (map_option (\<lambda>k. i + k) (first_index (covers (cstr path)) ms))"
  using assms(1)
proof (induction ms arbitrary: i)
  case (Cons m ms)
  have c: "mt_used m \<Longrightarrow> starts_with path (mt_prefix m) = Some (covers (cstr path) m)"
    using Cons.prems starts_with_cstr [OF assms(2), of "mt_prefix m"] by (simp add: mount_ok_def covers_def)
  have "\<not> mt_used m \<Longrightarrow> \<not> covers (cstr path) m" by (simp add: covers_def)
  with c Cons show ?case
    by (cases "mt_used m"; cases "first_index (covers (cstr path)) ms"; cases "covers (cstr path) m") simp_all
qed simp

lemma strip_prefix_eq:
  assumes "mount_ok m" and "terminated path" and "covers (cstr path) m"
  shows "vfs_strip_prefix path m = Some (below m path) \<and> terminated (below m path)"
proof -
  let ?n = "length (cstr (mt_prefix m))"
  from terminated_split [OF assms(2)] obtain t where t: "path = cstr path @ 0 # t" by blast
  have n: "?n \<le> length (cstr path)" using assms(3) by (metis covers_def length_take min.cobounded1)
  have r: "drop ?n path = drop ?n (cstr path) @ 0 # t" using n by (subst t) simp
  then have tr: "terminated (drop ?n path)" and ne: "drop ?n path \<noteq> []" by simp_all
  have b0: "byte_at (drop ?n path) 0 = Some (hd (drop ?n path))" using ne by (simp add: byte_at_def hd_conv_nth)
  have "hd (drop ?n path) = 47 \<Longrightarrow> terminated (tl (drop ?n path))" using tr ne by (cases "drop ?n path") auto
  with assms(1) tr b0 show ?thesis
    by (simp add: vfs_strip_prefix_def strlen_cstr mount_ok_def below_def Let_def drop_Suc tl_drop)
qed

lemma mount_ofD:
  assumes "mounts_ok s" and "mount_of s path = Some m"
  shows "mount_ok m" "covers (cstr path) m"
proof -
  let ?ms = "take (nat (g_mount_count s)) (g_mounts s)"
  from assms(2) obtain i where i: "first_index (covers (cstr path)) ?ms = Some i" "m = g_mounts s ! i"
    by (auto simp: mount_of_def)
  note fd = first_index_SomeD [OF i(1)]
  moreover from fd have "m = ?ms ! i" using i(2) by simp
  ultimately show "mount_ok m" "covers (cstr path) m" using assms(1) nth_mem [of i ?ms] by (auto simp: mounts_ok_def)
qed

lemma find_mount_eq:
  assumes "mounts_ok s" and "terminated path"
  shows "vfs_find_mount path s = Some (first_index (covers (cstr path)) (take (nat (g_mount_count s)) (g_mounts s)))"
  using mount_scan_eq [of "take (nat (g_mount_count s)) (g_mounts s)" path 0] assms
  by (simp add: vfs_find_mount_def mounts_ok_def option.map_ident)

lemma with_mount_eq:
  assumes "mounts_ok s" and "terminated path"
  shows "with_mount path s failv k =
    (case mount_of s path of None \<Rightarrow> Some failv | Some m \<Rightarrow> k m (below m path))"
proof (cases "first_index (covers (cstr path)) (take (nat (g_mount_count s)) (g_mounts s))")
  case None
  then show ?thesis by (simp add: with_mount_def find_mount_eq [OF assms] mount_of_def)
next
  case (Some i)
  then have m: "mount_of s path = Some (g_mounts s ! i)" by (simp add: mount_of_def)
  show ?thesis using strip_prefix_eq [OF mount_ofD(1) [OF assms(1) m] assms(2) mount_ofD(2) [OF assms(1) m]] Some m
    by (simp add: with_mount_def find_mount_eq [OF assms])
qed

section \<open>Permissions\<close>

lemma owner_mode_eq:
  assumes "minifs_inv d D" and "terminated p"
  shows "fs_get_owner_mode p d = Some (case path_target d p of
    None \<Rightarrow> None | Some (l, nm) \<Rightarrow> map_option (\<lambda>e. (de_owner e, de_mode e)) (entry_at_name d l nm))"
  unfolding fs_get_owner_mode_def in_parent_eq [OF assms]
  by (auto simp: find_entry_target [OF assms] entry_at_name_def option.map_comp comp_def split: option.split)

text \<open>The directory entry a MiniFS path denotes, and the string MiniFS is given for a mounted path.\<close>

definition entry_of :: "disk \<Rightarrow> u8 list \<Rightarrow> dir_entry option" where
  "entry_of d p = (case path_target d p of None \<Rightarrow> None | Some (l, nm) \<Rightarrow> entry_at_name d l nm)"

definition backend_string :: "mount \<Rightarrow> u8 list \<Rightarrow> u8 list" where
  "backend_string m path = join (cstr (mt_root m)) (cstr (below m path))"

definition backend_path :: "mount \<Rightarrow> u8 list \<Rightarrow> u8 list" where
  "backend_path m path = put_bytes 0 (backend_string m path @ [0]) (replicate 200 0)"

lemma terminated_backend_path [simp]: "terminated (backend_path m path)"
  by (simp add: backend_path_def put_bytes_def)

definition may :: "u8 \<Rightarrow> u8 \<Rightarrow> dir_entry option \<Rightarrow> bool" where
  "may mode_bit uid eo = (case eo of
     None \<Rightarrow> True | Some e \<Rightarrow> de_mode e AND mode_bit = 0 \<or> uid = de_owner e \<or> uid = 0)"

lemma refused_eq:
  assumes "minifs_inv d D" and "terminated p"
  shows "refused mode_bit p uid d = Some (\<not> may mode_bit uid (entry_of d p))"
  unfolding refused_def owner_mode_eq [OF assms] by (simp add: may_def entry_of_def split: option.split prod.split)

lemma full_path_eq:
  assumes "mounts_ok s" and "terminated path" and "mount_of s path = Some m"
  shows "full_path m (below m path) =
    (if length (backend_string m path) < 200 then Some (backend_path m path) else None)"
proof -
  note m = mount_ofD [OF assms(1,3)]
  have "terminated (mt_root m)" "terminated (below m path)"
    using m strip_prefix_eq [OF m(1) assms(2) m(2)] by (simp_all add: mount_ok_def)
  then show ?thesis
    using combine_eq [of "mt_root m" "below m path" "replicate 200 0"]
    by (simp add: full_path_def backend_string_def backend_path_def)
qed

text \<open>The operations on a path that MiniFS serves.\<close>

lemma vfs_minifs:
  assumes s: "mounts_ok s" and t: "terminated path" and m: "mount_of s path = Some m" "mt_backend m = BACKEND_MINIFS"
    and len: "length (backend_string m path) < 200" and inv: "minifs_inv (fs_disk s) D"
  shows "vfs_read F k path buf max_len uid s =
      (if may MODE_OWNER_ONLY_READ uid (entry_of (fs_disk s) (backend_path m path))
       then fs_read_file (backend_path m path) buf max_len (fs_disk s) else Some (-1, buf))"
    and "vfs_write F path data n uid s =
      (if may MODE_OWNER_ONLY_WRITE uid (entry_of (fs_disk s) (backend_path m path))
       then map_option (on_disk s) (fs_write_file (backend_path m path) data n (fs_disk s)) else Some (s, False))"
    and "vfs_delete F path uid s =
      (if may MODE_OWNER_ONLY_WRITE uid (entry_of (fs_disk s) (backend_path m path))
       then map_option (on_disk s) (fs_delete_file (backend_path m path) (fs_disk s)) else Some (s, False))"
  using len m
  by (simp_all add: vfs_read_def vfs_write_def vfs_delete_def with_mount_eq [OF s t] full_path_eq [OF s t m(1)]
      refused_eq [OF inv])

lemma vfs_tmpfs:
  assumes s: "mounts_ok s" and t: "terminated path" and m: "mount_of s path = Some m" "mt_backend m = BACKEND_TMPFS"
  shows "vfs_read F k path buf max_len uid s = tmpfs_read (below m path) buf max_len (fs_tmpfs s)"
    and "vfs_write F path data n uid s = map_option (on_tmpfs s) (tmpfs_write (below m path) data n (fs_tmpfs s))"
  using m by (simp_all add: vfs_read_def vfs_write_def with_mount_eq [OF s t] backend_defs)

end
