(* ===== verification/File_Objects.thy ===== *)
theory File_Objects
  imports Vfs
begin

text \<open>
  Open files and directories: the tables behind the file and directory handles
  (\<^verbatim>\<open>src/proc/ipc/file/file.c\<close>, \<^verbatim>\<open>src/proc/ipc/directory/directory.c\<close>). A file object holds the whole
  file in a buffer with a cursor; closing an object opened for writing stores the buffer. Each
  operation is one step: the code claims a slot with interrupts off and fills it with interrupts on,
  but no other operation touches a claimed slot before its index is handed out.
\<close>

section \<open>Model\<close>

abbreviation FILE_OBJECT_SLOTS :: nat where "FILE_OBJECT_SLOTS \<equiv> 8"
definition FILE_MAX_SIZE :: u32 where "FILE_MAX_SIZE = 4096"
definition FILE_ACCESS_RDONLY :: int where "FILE_ACCESS_RDONLY = 0"
definition FILE_ACCESS_WRONLY :: int where "FILE_ACCESS_WRONLY = 1"
definition FILE_ACCESS_RDWR :: int where "FILE_ACCESS_RDWR = 2"

record open_file =
  of_used :: bool
  of_access :: int
  of_path :: "u8 list"
  of_buffer :: "u8 list"
  of_length :: u32
  of_cursor :: u32
  of_owner :: u8

definition in_system_mount :: "u8 list \<Rightarrow> bool option" where
  "in_system_mount path = starts_with path (literal ''/system'')"

definition strip_system_prefix :: "u8 list \<Rightarrow> u8 list \<Rightarrow> u8 list option" where
  "strip_system_prefix out path = do {
     c \<leftarrow> byte_at (drop 7 path) 0;
     (i, out) \<leftarrow> append_cstr (if c = 47 then drop 8 path else drop 7 path) 0 out;
     put_at out i 0
   }"

definition find_free_slot :: "open_file list \<Rightarrow> nat option" where
  "find_free_slot fs = first_index (\<lambda>f. \<not> of_used f) fs"

definition open_blocked :: "u8 list \<Rightarrow> int \<Rightarrow> u8 \<Rightarrow> 'f fs \<Rightarrow> bool option" where
  "open_blocked path access caller_uid s = do {
     sys \<leftarrow> in_system_mount path;
     if \<not> sys then Some False
     else do {
       stripped \<leftarrow> strip_system_prefix (replicate 128 0) path;
       om \<leftarrow> fs_get_owner_mode stripped (fs_disk s);
       Some (case om of
         None \<Rightarrow> False
       | Some (owner, mode) \<Rightarrow>
           (access \<noteq> FILE_ACCESS_WRONLY \<and> mode AND MODE_OWNER_ONLY_READ \<noteq> 0 \<or>
            access \<noteq> FILE_ACCESS_RDONLY \<and> mode AND MODE_OWNER_ONLY_WRITE \<noteq> 0) \<and>
           caller_uid \<noteq> owner \<and> caller_uid \<noteq> 0)
     }
   }"

definition file_object_open ::
  "'f fat32_ops \<Rightarrow> kern \<Rightarrow> u8 list \<Rightarrow> int \<Rightarrow> u8 \<Rightarrow> 'f fs \<Rightarrow> open_file list \<Rightarrow> (open_file list \<times> int) option" where
  "file_object_open F k path access caller_uid s fs = do {
     blocked \<leftarrow> open_blocked path access caller_uid s;
     if blocked then Some (fs, -2)
     else case find_free_slot fs of
       None \<Rightarrow> Some (fs, -1)
     | Some i \<Rightarrow> do {
         p \<leftarrow> copy_cstr 127 path 0 (of_path (fs ! i));
         let f = (fs ! i)\<lparr>of_used := True, of_path := p, of_access := access, of_cursor := 0, of_owner := caller_uid\<rparr>;
         if access = FILE_ACCESS_WRONLY then Some (fs[i := f\<lparr>of_length := 0\<rparr>], int i)
         else do {
           (n, buf) \<leftarrow> vfs_read F k path (of_buffer f) FILE_MAX_SIZE caller_uid s;
           if n < 0 then
             if access = FILE_ACCESS_RDWR then Some (fs[i := f\<lparr>of_buffer := buf, of_length := 0\<rparr>], int i)
             else Some (fs[i := f\<lparr>of_buffer := buf\<rparr>], -1)
           else Some (fs[i := f\<lparr>of_buffer := buf, of_length := word_of_int n\<rparr>], int i)
         }
       }
   }"

definition file_object_read :: "int \<Rightarrow> u8 list \<Rightarrow> u32 \<Rightarrow> open_file list \<Rightarrow> (open_file list \<times> u8 list \<times> u32) option" where
  "file_object_read i out max_len fs = do {
     f \<leftarrow> slot_at fs i;
     let remaining = of_length f - of_cursor f;
     let n = (if max_len < remaining then max_len else remaining);
     if unat (of_cursor f) + unat n > length (of_buffer f) \<or> unat n > length out then None
     else do {
       fs' \<leftarrow> slot_put fs i (f\<lparr>of_cursor := of_cursor f + n\<rparr>);
       Some (fs', put_bytes 0 (get_bytes (unat (of_cursor f)) (unat n) (of_buffer f)) out, n)
     }
   }"

definition file_object_write :: "int \<Rightarrow> u8 list \<Rightarrow> u32 \<Rightarrow> open_file list \<Rightarrow> (open_file list \<times> u32) option" where
  "file_object_write i data len fs = do {
     f \<leftarrow> slot_at fs i;
     let space = FILE_MAX_SIZE - of_cursor f;
     let n = (if len < space then len else space);
     if unat (of_cursor f) + unat n > length (of_buffer f) \<or> unat n > length data then None
     else do {
       let cursor = of_cursor f + n;
       fs' \<leftarrow> slot_put fs i (f\<lparr>of_buffer := put_bytes (unat (of_cursor f)) (take (unat n) data) (of_buffer f),
                of_cursor := cursor, of_length := (if cursor > of_length f then cursor else of_length f)\<rparr>);
       Some (fs', n)
     }
   }"

text \<open>A sum outside the signed 64-bit range is undefined in C and \<open>None\<close> here.\<close>

definition file_object_seek :: "int \<Rightarrow> u64 \<Rightarrow> int \<Rightarrow> open_file list \<Rightarrow> (open_file list \<times> int) option" where
  "file_object_seek i offset whence fs = do {
     f \<leftarrow> slot_at fs i;
     if of_access f = FILE_ACCESS_WRONLY \<or> whence \<notin> {0, 1, 2} then Some (fs, -1)
     else let base = (if whence = 0 then 0 else if whence = 1 then int (unat (of_cursor f)) else int (unat (of_length f)));
              new_pos = base + sint offset
          in if new_pos \<ge> 2 ^ 63 then None
             else if new_pos < 0 \<or> new_pos > int (unat (of_length f)) then Some (fs, -1)
             else do { fs' \<leftarrow> slot_put fs i (f\<lparr>of_cursor := word_of_int new_pos\<rparr>); Some (fs', new_pos) }
   }"

definition file_commit :: "'f fat32_ops \<Rightarrow> open_file \<Rightarrow> 'f fs \<Rightarrow> ('f fs \<times> bool) option" where
  "file_commit F f s = do {
     is_system \<leftarrow> in_system_mount (of_path f);
     if is_system then do {
       stripped \<leftarrow> strip_system_prefix (replicate 128 0) (of_path f);
       (d, _) \<leftarrow> fs_delete_file stripped (fs_disk s);
       (s, ok) \<leftarrow> vfs_write F (of_path f) (of_buffer f) (of_length f) (of_owner f) (s\<lparr>fs_disk := d\<rparr>);
       if ok then do { (d, _) \<leftarrow> fs_set_owner stripped (of_owner f) 0 (fs_disk s); Some (s\<lparr>fs_disk := d\<rparr>, ok) }
       else Some (s, ok)
     }
     else vfs_write F (of_path f) (of_buffer f) (of_length f) (of_owner f) s
   }"

definition file_object_close ::
  "'f fat32_ops \<Rightarrow> int \<Rightarrow> 'f fs \<Rightarrow> open_file list \<Rightarrow> ('f fs \<times> open_file list \<times> bool) option" where
  "file_object_close F i s fs = do {
     f \<leftarrow> slot_at fs i;
     (s, ok) \<leftarrow> (if of_access f \<noteq> FILE_ACCESS_RDONLY then file_commit F f s else Some (s, True));
     fs' \<leftarrow> slot_put fs i (f\<lparr>of_used := False\<rparr>);
     Some (s, fs', ok)
   }"

section \<open>Directories\<close>

abbreviation DIRECTORY_SLOTS :: nat where "DIRECTORY_SLOTS \<equiv> 8"

record open_directory =
  od_used :: bool
  od_path :: "u8 list"
  od_cursor :: int

definition directory_object_open :: "u8 list \<Rightarrow> open_directory list \<Rightarrow> (open_directory list \<times> int) option" where
  "directory_object_open dir_path ds =
     (case first_index (\<lambda>d. \<not> od_used d) ds of
        None \<Rightarrow> Some (ds, -1)
      | Some i \<Rightarrow> do {
          p \<leftarrow> copy_cstr 127 dir_path 0 (od_path (ds ! i));
          Some (ds[i := \<lparr>od_used = True, od_path = p, od_cursor = 0\<rparr>], int i)
        })"

definition directory_object_read_next ::
  "'f fat32_ops \<Rightarrow> kern \<Rightarrow> int \<Rightarrow> u8 list \<Rightarrow> 'f fs \<Rightarrow> open_directory list \<Rightarrow>
   (open_directory list \<times> (u8 list \<times> u32 \<times> bool) option) option" where
  "directory_object_read_next F k i name_out s ds = do {
     d \<leftarrow> slot_at ds i;
     r \<leftarrow> vfs_list_entry F k (od_path d) (od_cursor d) name_out s;
     case r of
       None \<Rightarrow> Some (ds, None)
     | Some e \<Rightarrow> do { ds' \<leftarrow> slot_put ds i (d\<lparr>od_cursor := od_cursor d + 1\<rparr>); Some (ds', Some e) }
   }"

definition directory_object_close :: "int \<Rightarrow> open_directory list \<Rightarrow> (open_directory list \<times> bool) option" where
  "directory_object_close i ds = do {
     d \<leftarrow> slot_at ds i;
     ds' \<leftarrow> slot_put ds i (d\<lparr>od_used := False\<rparr>);
     Some (ds', True)
   }"

section \<open>A file object is a byte string with a position\<close>

definition file_ok :: "open_file \<Rightarrow> bool" where
  "file_ok f \<longleftrightarrow> length (of_path f) = 128 \<and> terminated (of_path f) \<and> length (of_buffer f) = 4096 \<and>
     unat (of_length f) \<le> 4096 \<and> of_cursor f \<le> of_length f"

definition files_inv :: "open_file list \<Rightarrow> bool" where
  "files_inv fs \<longleftrightarrow> length fs = FILE_OBJECT_SLOTS \<and> (\<forall>f \<in> set fs. file_ok f)"

definition contents :: "open_file \<Rightarrow> u8 list" where
  "contents f = take (unat (of_length f)) (of_buffer f)"

definition position :: "open_file \<Rightarrow> nat" where
  "position f = unat (of_cursor f)"

lemma file_okD:
  assumes "file_ok f"
  shows "length (of_buffer f) = 4096" "unat (of_length f) \<le> 4096" "unat (of_cursor f) \<le> unat (of_length f)"
    "length (contents f) = unat (of_length f)" "position f \<le> length (contents f)"
  using assms by (auto simp: file_ok_def contents_def position_def word_le_nat_alt)

lemma files_inv_at: "files_inv fs \<Longrightarrow> 0 \<le> i \<Longrightarrow> i < 8 \<Longrightarrow> slot_at fs i = Some (fs ! nat i) \<and> file_ok (fs ! nat i)"
  by (simp add: files_inv_def slot_at_def)

lemma files_inv_put:
  "files_inv fs \<Longrightarrow> 0 \<le> i \<Longrightarrow> i < 8 \<Longrightarrow> file_ok f \<Longrightarrow>
    slot_put fs i f = Some (fs[nat i := f]) \<and> files_inv (fs[nat i := f])"
  by (auto simp: files_inv_def slot_put_def dest!: set_update_subset_insert [THEN subsetD])

lemma min_word: "(if a < b then a else b) = (min a b :: u32)"
  by (auto simp: min_def not_less)

lemma unat_min: "unat (min a b :: u32) = min (unat a) (unat b)"
  by (auto simp: min_def word_le_nat_alt)

lemma unat_diff_le: "(b :: u32) \<le> a \<Longrightarrow> unat (a - b) = unat a - unat b"
  by (rule unat_sub)

lemma unat_add_small: "unat (a :: u32) + unat b \<le> 4096 \<Longrightarrow> unat (a + b) = unat a + unat b"
  by (simp add: unat_word_ariths)

lemma read_file:
  assumes "files_inv fs" and "0 \<le> i" "i < 8" and "unat max_len \<le> length out" and "f = fs ! nat i"
  shows "\<exists>f'. file_object_read i out max_len fs =
      Some (fs[nat i := f'], put_bytes 0 (take (unat max_len) (drop (position f) (contents f))) out,
        of_cursor f' - of_cursor f) \<and>
    file_ok f' \<and> contents f' = contents f \<and> of_used f' = of_used f \<and>
    position f' = min (position f + unat max_len) (length (contents f))"
proof -
  have at: "slot_at fs i = Some f" "file_ok f" using files_inv_at [OF assms(1-3)] assms(5) by simp_all
  note ok = file_okD [OF at(2)]
  let ?n = "min max_len (of_length f - of_cursor f)"
  have le: "of_cursor f \<le> of_length f" using at(2) by (simp add: file_ok_def)
  have n: "unat ?n = min (unat max_len) (unat (of_length f) - unat (of_cursor f))"
    by (simp add: unat_min unat_diff_le [OF le])
  let ?f = "f\<lparr>of_cursor := of_cursor f + ?n\<rparr>"
  have cur: "unat (of_cursor f + ?n) = unat (of_cursor f) + unat ?n"
    by (rule unat_add_small) (use ok n in simp)
  have okf: "file_ok ?f" using at(2) cur n ok by (simp add: file_ok_def word_le_nat_alt)
  have bytes: "get_bytes (unat (of_cursor f)) (unat ?n) (of_buffer f) =
      take (unat max_len) (drop (position f) (contents f))"
    by (simp add: get_bytes_def contents_def position_def n drop_take take_take min.commute)
  have "file_object_read i out max_len fs = Some (fs[nat i := ?f],
      put_bytes 0 (take (unat max_len) (drop (position f) (contents f))) out, ?n)"
    using at(1) files_inv_put [OF assms(1-3) okf] n ok assms(4)
    by (simp add: file_object_read_def Let_def min_word bytes [symmetric])
  then show ?thesis using okf cur n ok
    by (intro exI [of _ ?f]) (simp add: contents_def position_def)
qed

lemma write_file:
  assumes "files_inv fs" and "0 \<le> i" "i < 8" and "unat len \<le> length data" and "f = fs ! nat i"
    and n: "n = min (unat len) (4096 - position f)"
  shows "\<exists>f'. file_object_write i data len fs = Some (fs[nat i := f'], word_of_nat n) \<and> file_ok f' \<and>
    contents f' = take (position f) (contents f) @ take n data @ drop (position f + n) (contents f) \<and>
    position f' = position f + n \<and> of_used f' = of_used f \<and> of_path f' = of_path f \<and>
    of_access f' = of_access f \<and> of_owner f' = of_owner f"
proof -
  have at: "slot_at fs i = Some f" "file_ok f" using files_inv_at [OF assms(1-3)] assms(5) by simp_all
  note ok = file_okD [OF at(2)]
  let ?n = "min len (FILE_MAX_SIZE - of_cursor f)"
  have "of_cursor f \<le> FILE_MAX_SIZE" using ok by (simp add: FILE_MAX_SIZE_def word_le_nat_alt)
  then have un: "unat ?n = n" using n by (simp add: unat_min unat_diff_le position_def) (simp add: FILE_MAX_SIZE_def)
  let ?c = "of_cursor f + ?n"
  have cur: "unat ?c = position f + n"
    using unat_add_small [of "of_cursor f" ?n] un n ok by (simp add: position_def)
  let ?f = "f\<lparr>of_buffer := put_bytes (position f) (take n data) (of_buffer f), of_cursor := ?c,
      of_length := (if ?c > of_length f then ?c else of_length f)\<rparr>"
  have fits: "position f + n \<le> 4096" "length (take n data) = n" using n ok assms(4) by (simp_all add: position_def)
  have okf: "file_ok ?f" using at(2) cur fits ok
    by (auto simp: file_ok_def word_le_nat_alt word_less_nat_alt put_bytes_def)
  have len: "unat (of_length ?f) = max (position f + n) (unat (of_length f))"
    using cur by (auto simp: word_less_nat_alt max_def)
  have "contents ?f = take (unat (of_length ?f)) (put_bytes (position f) (take n data) (of_buffer f))"
    by (simp add: contents_def)
  also have "\<dots> = take (position f) (contents f) @ take n data @ drop (position f + n) (contents f)"
    unfolding len using ok fits by (auto simp: put_bytes_def contents_def position_def drop_take max_def)
  finally have con: "contents ?f = take (position f) (contents f) @ take n data @ drop (position f + n) (contents f)" .
  have "file_object_write i data len fs = Some (fs[nat i := ?f], ?n)"
    using at(1) files_inv_put [OF assms(1-3) okf] un n ok assms(4) fits
    by (simp add: file_object_write_def Let_def min_word position_def)
  moreover have "?n = word_of_nat n" unfolding un [symmetric] by simp
  ultimately show ?thesis using okf cur con by (intro exI [of _ ?f]) (simp add: position_def)
qed

lemma seek_file:
  assumes "files_inv fs" and "0 \<le> i" "i < 8" and "f = fs ! nat i" and "sint off < 2 ^ 62"
    and pos: "pos = (if whence = 0 then 0 else if whence = 1 then int (position f) else int (length (contents f))) + sint off"
  shows "if of_access f = FILE_ACCESS_WRONLY \<or> whence \<notin> {0, 1, 2} \<or> pos < 0 \<or> pos > int (length (contents f))
    then file_object_seek i off whence fs = Some (fs, -1)
    else \<exists>f'. file_object_seek i off whence fs = Some (fs[nat i := f'], pos) \<and> file_ok f' \<and>
      contents f' = contents f \<and> int (position f') = pos"
proof -
  have at: "slot_at fs i = Some f" "file_ok f" using files_inv_at [OF assms(1-3)] assms(4) by simp_all
  note ok = file_okD [OF at(2)]
  have lc: "int (length (contents f)) \<le> 4096" using ok(2,4) by linarith
  moreover have "int (position f) \<le> int (length (contents f))" using ok(5) by linarith
  ultimately have small: "\<not> pos \<ge> 2 ^ 63" using assms(5) pos by (auto split: if_splits)
  let ?f = "f\<lparr>of_cursor := word_of_int pos\<rparr>"
  show ?thesis
  proof (cases "of_access f = FILE_ACCESS_WRONLY \<or> whence \<notin> {0, 1, 2}")
    case True
    then show ?thesis using at(1) by (auto simp: file_object_seek_def)
  next
    case False
    let ?base = "if whence = 0 then 0 else if whence = 1 then int (unat (of_cursor f)) else int (unat (of_length f))"
    have p: "?base + sint off = pos" using pos ok(4) by (simp add: position_def)
    have run: "file_object_seek i off whence fs =
        (if pos < 0 \<or> pos > int (length (contents f)) then Some (fs, -1)
         else do { fs' \<leftarrow> slot_put fs i ?f; Some (fs', pos) })"
      unfolding file_object_seek_def Let_def using at(1) False p small ok(4) by simp
    show ?thesis
    proof (cases "pos < 0 \<or> pos > int (length (contents f))")
      case True
      then show ?thesis using run False by simp
    next
      case inside: False
      have up: "unat (word_of_int pos :: u32) = nat pos"
      proof -
        have "0 \<le> pos" "pos \<le> 4096" using inside lc by linarith+
        then show ?thesis by (simp add: unsigned_of_int take_bit_int_eq_self)
      qed
      have "nat pos \<le> unat (of_length f)" using inside ok(4) by linarith
      then have "file_ok ?f" using at(2) up by (simp add: file_ok_def word_le_nat_alt)
      moreover have "contents ?f = contents f" by (simp add: contents_def)
      moreover have "int (position ?f) = pos"
      proof -
        have "position ?f = nat pos" using up by (simp add: position_def)
        then show ?thesis using inside by linarith
      qed
      moreover have "file_object_seek i off whence fs = Some (fs[nat i := ?f], pos)"
        using run inside files_inv_put [OF assms(1-3) \<open>file_ok ?f\<close>] by simp
      ultimately have "\<exists>f'. file_object_seek i off whence fs = Some (fs[nat i := f'], pos) \<and> file_ok f' \<and>
          contents f' = contents f \<and> int (position f') = pos" by blast
      then show ?thesis using False inside by simp
    qed
  qed
qed

definition fresh_files :: "open_file list" where
  "fresh_files = replicate 8 \<lparr>of_used = False, of_access = 0, of_path = replicate 128 0,
     of_buffer = replicate 4096 0, of_length = 0, of_cursor = 0, of_owner = 0\<rparr>"

lemma fresh_files_inv: "files_inv fresh_files"
  by (simp add: files_inv_def file_ok_def fresh_files_def terminated_def)

section \<open>Properties\<close>



section \<open>Files and directories under the temporary mount\<close>

lemma cstr_below:
  assumes "terminated path" and "covers (cstr path) m"
  shows "cstr (below m path) = (let r = drop (length (cstr (mt_prefix m))) (cstr path) in
    if r \<noteq> [] \<and> hd r = 47 then tl r else r)"
proof -
  let ?n = "length (cstr (mt_prefix m))"
  from terminated_split [OF assms(1)] obtain t where t: "path = cstr path @ 0 # t" by blast
  have n: "?n \<le> length (cstr path)" using assms(2) by (metis covers_def length_take min.cobounded1)
  let ?r = "drop ?n (cstr path)"
  have r: "drop ?n path = ?r @ 0 # t" using n by (subst t) simp
  have nz: "0 \<notin> set ?r" by (auto dest: in_set_dropD cstr_nonzero)
  then have nz': "0 \<notin> set (tl ?r)" by (cases ?r) auto
  show ?thesis
  proof (cases ?r)
    case Nil
    then show ?thesis using r by (simp add: below_def Let_def)
  next
    case (Cons c cs)
    then show ?thesis using r nz nz' cstr_append_zero [of ?r t] cstr_append_zero [of cs t]
      by (auto simp: below_def Let_def)
  qed
qed

lemma below_cong:
  assumes "terminated p" "terminated q" "cstr p = cstr q" "covers (cstr p) m"
  shows "cstr (below m p) = cstr (below m q)"
  using cstr_below [OF assms(1,4)] cstr_below [OF assms(2), of m] assms(3,4) by simp

definition outside_system :: "u8 list \<Rightarrow> bool" where
  "outside_system path \<longleftrightarrow> take 7 (cstr path) \<noteq> ascii ''/system''"

lemma in_system_mount_eq: "terminated path \<Longrightarrow> in_system_mount path = Some (\<not> outside_system path)"
proof -
  assume t: "terminated path"
  have l: "cstr (literal ''/system'') = ascii ''/system''" by (simp add: literal_def ascii_def)
  then have "length (cstr (literal ''/system'')) = 7" by (simp add: ascii_def)
  with starts_with_cstr [OF t terminated_literal, of "''/system''"] l show ?thesis
    by (simp add: in_system_mount_def outside_system_def)
qed

lemma open_not_blocked: "terminated path \<Longrightarrow> outside_system path \<Longrightarrow> open_blocked path access uid s = Some False"
  by (simp add: open_blocked_def in_system_mount_eq)

lemma mount_of_cong: "cstr p = cstr q \<Longrightarrow> mount_of s p = mount_of s q"
  by (simp add: mount_of_def)

lemma copy_path:
  assumes "terminated path" and "length (cstr path) \<le> 127" and "length dst = 128"
  shows "\<exists>p. copy_cstr 127 path 0 dst = Some p \<and> cstr p = cstr path \<and> terminated p \<and> length p = 128"
proof -
  have "copy_cstr 127 path 0 dst = Some (put_bytes 0 (cstr path @ [0]) dst)"
    using copy_cstr_eq [OF assms(1), of 0 127 dst] assms(2,3) by simp
  moreover have "terminated (put_bytes 0 (cstr path @ [0]) dst)" by (simp add: put_bytes_def)
  ultimately show ?thesis using assms(2,3) by (simp add: length_put_bytes_le)
qed

lemma open_for_writing:
  assumes "files_inv fs" and "find_free_slot fs = Some i" and "terminated path" "outside_system path"
    and "length (cstr path) \<le> 127"
  shows "\<exists>f. file_object_open F k path FILE_ACCESS_WRONLY uid s fs = Some (fs[i := f], int i) \<and> i < 8 \<and> file_ok f \<and>
    of_used f \<and> of_access f = FILE_ACCESS_WRONLY \<and> cstr (of_path f) = cstr path \<and> contents f = [] \<and> position f = 0"
proof -
  note fd = first_index_SomeD [OF assms(2) [unfolded find_free_slot_def]]
  have ok: "file_ok (fs ! i)" and i: "i < 8" using fd assms(1) by (simp_all add: files_inv_def)
  from copy_path [OF assms(3,5), of "of_path (fs ! i)"] ok obtain p
    where p: "copy_cstr 127 path 0 (of_path (fs ! i)) = Some p" "cstr p = cstr path" "terminated p" "length p = 128"
    by (auto simp: file_ok_def)
  let ?f = "(fs ! i)\<lparr>of_used := True, of_path := p, of_access := FILE_ACCESS_WRONLY, of_cursor := 0, of_owner := uid,
      of_length := 0\<rparr>"
  have "file_ok ?f" using ok p by (simp add: file_ok_def)
  then show ?thesis using p i assms(2)
    by (intro exI [of _ ?f])
      (simp add: file_object_open_def open_not_blocked [OF assms(3,4)] contents_def position_def Let_def)
qed

lemma commit_temp:
  assumes s: "mounts_ok s" "tmpfs_inv (fs_tmpfs s)" and f: "terminated (of_path f)" "outside_system (of_path f)"
    and m: "mount_of s (of_path f) = Some m" "mt_backend m = BACKEND_TMPFS"
  shows "file_commit F f s =
    map_option (on_tmpfs s) (tmpfs_write (below m (of_path f)) (of_buffer f) (of_length f) (fs_tmpfs s))"
  using f vfs_tmpfs(2) [OF s(1) f(1) m] by (simp add: file_commit_def in_system_mount_eq)

lemma open_for_reading:
  assumes fs: "files_inv fs" and free: "find_free_slot fs = Some i" and t: "terminated path" "outside_system path"
    and len: "length (cstr path) \<le> 127" and s: "mounts_ok s" "tmpfs_inv (fs_tmpfs s)"
    and m: "mount_of s path = Some m" "mt_backend m = BACKEND_TMPFS"
    and r: "first_index (named (cstr (below m path))) (fs_tmpfs s) = Some j"
  shows "\<exists>f. file_object_open F k path FILE_ACCESS_RDONLY uid s fs = Some (fs[i := f], int i) \<and> i < 8 \<and> file_ok f \<and>
    contents f = take (unat (te_size (fs_tmpfs s ! j))) (te_buffer (fs_tmpfs s ! j)) \<and> position f = 0"
proof -
  note fd = first_index_SomeD [OF free [unfolded find_free_slot_def]]
  have ok: "file_ok (fs ! i)" and i: "i < 8" using fd fs by (simp_all add: files_inv_def)
  from copy_path [OF t(1) len, of "of_path (fs ! i)"] ok obtain p
    where p: "copy_cstr 127 path 0 (of_path (fs ! i)) = Some p" "terminated p" "length p = 128"
    by (auto simp: file_ok_def)
  note mo = mount_ofD [OF s(1) m(1)]
  have tb: "terminated (below m path)" using strip_prefix_eq [OF mo(1) t(1) mo(2)] by simp
  let ?e = "fs_tmpfs s ! j"
  note ej = first_index_SomeD [OF r]
  have e: "unat (te_size ?e) \<le> 4096" "length (te_buffer ?e) = 4096"
    using ej tmpfs_inv_nth [OF s(2), of j] by (auto simp: tmpfs_entry_ok_def named_def)
  have lb: "length (of_buffer (fs ! i)) = 4096" using ok by (simp add: file_ok_def)
  let ?buf = "put_bytes 0 (take (unat (te_size ?e)) (te_buffer ?e)) (of_buffer (fs ! i))"
  have rd: "vfs_read F k path (of_buffer (fs ! i)) FILE_MAX_SIZE uid s = Some (int (unat (te_size ?e)), ?buf)"
    unfolding vfs_tmpfs(1) [OF s(1) t(1) m] tmpfs_read_eq [OF s(2) tb] using r e lb
    by (simp add: FILE_MAX_SIZE_def word_less_nat_alt)
  let ?f = "(fs ! i)\<lparr>of_used := True, of_path := p, of_access := FILE_ACCESS_RDONLY, of_cursor := 0, of_owner := uid,
      of_buffer := ?buf, of_length := te_size ?e\<rparr>"
  have "length ?buf = 4096" using e lb by (simp add: length_put_bytes_le)
  then have "file_ok ?f" using p e by (simp add: file_ok_def)
  moreover have "contents ?f = take (unat (te_size ?e)) (te_buffer ?e)"
    using e by (simp add: contents_def put_bytes_def)
  moreover have "file_object_open F k path FILE_ACCESS_RDONLY uid s fs = Some (fs[i := ?f], int i)"
    using p(1) free rd
    by (simp add: file_object_open_def open_not_blocked [OF t] Let_def FILE_ACCESS_RDONLY_def FILE_ACCESS_WRONLY_def)
  ultimately show ?thesis using i by (intro exI [of _ ?f]) (simp add: position_def)
qed

lemma free_slot_again:
  assumes "find_free_slot fs = Some i" and "\<not> of_used f"
  shows "find_free_slot (fs[i := f]) = Some i"
  unfolding find_free_slot_def using first_index_SomeD [OF assms(1) [unfolded find_free_slot_def]] assms(2)
  by (intro first_index_SomeI) auto

lemma close_temp:
  assumes fs: "files_inv fs" "i < 8" and f: "f = fs ! i" "of_access f = FILE_ACCESS_WRONLY" "outside_system (of_path f)"
    and s: "mounts_ok s" "tmpfs_inv (fs_tmpfs s)" and m: "mount_of s (of_path f) = Some m" "mt_backend m = BACKEND_TMPFS"
    and w: "tmpfs_write (below m (of_path f)) (of_buffer f) (of_length f) (fs_tmpfs s) = Some (es, True)"
  shows "file_object_close F (int i) s fs = Some (s\<lparr>fs_tmpfs := es\<rparr>, fs[i := f\<lparr>of_used := False\<rparr>], True) \<and>
    files_inv (fs[i := f\<lparr>of_used := False\<rparr>])"
proof -
  have ok: "file_ok f" "slot_at fs (int i) = Some f" using files_inv_at [OF fs(1), of "int i"] fs(2) f(1) by auto
  then have t: "terminated (of_path f)" by (simp add: file_ok_def)
  have c: "file_commit F f s = Some (s\<lparr>fs_tmpfs := es\<rparr>, True)"
    using w by (simp add: commit_temp [OF s t f(3) m] on_tmpfs_def)
  have "file_ok (f\<lparr>of_used := False\<rparr>)" using ok(1) by (simp add: file_ok_def)
  from files_inv_put [OF fs(1) _ _ this, of "int i"] fs(2) have
    "slot_put fs (int i) (f\<lparr>of_used := False\<rparr>) = Some (fs[i := f\<lparr>of_used := False\<rparr>])"
    "files_inv (fs[i := f\<lparr>of_used := False\<rparr>])" by auto
  then show ?thesis using ok(2) c f(2)
    by (simp add: file_object_close_def FILE_ACCESS_RDONLY_def FILE_ACCESS_WRONLY_def)
qed


text \<open>A namespace with the temporary mount, for the examples.\<close>

definition temp_fs :: "unit fs" where
  "temp_fs = \<lparr>g_mounts = \<lparr>mt_prefix = ascii ''/temp'' @ replicate 11 0, mt_backend = BACKEND_TMPFS, mt_root = replicate 16 0,
       mt_used = True\<rparr> # replicate 7 \<lparr>mt_prefix = replicate 16 0, mt_backend = 0, mt_root = replicate 16 0, mt_used = False\<rparr>,
     g_mount_count = 1, fs_disk = blank_disk, fs_tmpfs = fresh_tmpfs, fs_devices = no_devices, fs_fat = ()\<rparr>"

lemma temp_fs_ok: "mounts_ok temp_fs" "tmpfs_inv (fs_tmpfs temp_fs)"
  by (simp_all add: temp_fs_def mounts_ok_def mount_ok_def fresh_tmpfs_inv terminated_def ascii_def)

lemma temp_prefix: "cstr (mt_prefix (hd (g_mounts temp_fs))) = ascii ''/temp''"
  by (simp add: temp_fs_def ascii_def cstr_def)

lemma temp_length: "length (ascii ''/temp'') = 5"
  by (simp add: ascii_def)

text \<open>A FAT32 volume without files.\<close>

definition no_fat :: "unit fat32_ops" where
  "no_fat = \<lparr>fat32_read_file = (\<lambda>_ buf _ _. Some (-1, buf)), fat32_write_file = (\<lambda>_ _ _ v. Some (v, False)),
     fat32_list_entry = (\<lambda>_ _ _ _. Some None), fat32_stat_file = (\<lambda>_ _. Some None),
     fat32_delete_file = (\<lambda>_ v. Some (v, False)), fat32_create_dir = (\<lambda>_ v. Some (v, False))\<rparr>"

lemma temp_fs_mount:
  "mount_of temp_fs (literal (''/temp/'' @ nm)) = Some (hd (g_mounts temp_fs))"
proof -
  have "take 5 (cstr (literal (''/temp/'' @ nm))) = ascii ''/temp''" by (simp add: literal_def ascii_def)
  then have "covers (cstr (literal (''/temp/'' @ nm))) (hd (g_mounts temp_fs))"
    unfolding covers_def temp_prefix by (simp add: temp_fs_def temp_length)
  moreover have "take (nat (g_mount_count temp_fs)) (g_mounts temp_fs) = [hd (g_mounts temp_fs)]"
    "g_mounts temp_fs ! 0 = hd (g_mounts temp_fs)" by (simp_all add: temp_fs_def)
  ultimately show ?thesis by (simp add: mount_of_def)
qed

lemma temp_below: "below (hd (g_mounts temp_fs)) (literal (''/temp/'' @ nm)) = literal nm"
  unfolding below_def temp_prefix by (simp add: literal_def ascii_def)

lemma temp_backend: "mt_backend (hd (g_mounts temp_fs)) = BACKEND_TMPFS"
  by (simp add: temp_fs_def)


lemma filter_update_drop:
  assumes "i < length xs" and "P (xs ! i)" and "\<not> P y"
  shows "length (filter P (xs[i := y])) = length (filter P xs) - 1"
  using filter_update_fill [of i "xs[i := y]" P "xs ! i"] assms by auto

text \<open>
  A failed open for reading leaks its slot. Opening a file for reading that the temporary mount
  does not have returns \<^verbatim>\<open>-1\<close> but leaves one slot of the open-file table in use for good: each such
  call lowers the number of free slots by one, down to zero.
\<close>

theorem file_open_leaks:
  assumes fs: "files_inv fs" and p: "terminated path" "outside_system path"
    and s: "mounts_ok s" "tmpfs_inv (fs_tmpfs s)" and m: "mount_of s path = Some m" "mt_backend m = BACKEND_TMPFS"
    and missing: "\<forall>e \<in> set (fs_tmpfs s). \<not> named (cstr (below m path)) e"
  shows "\<exists>fs'. file_object_open F k path FILE_ACCESS_RDONLY uid s fs = Some (fs', -1) \<and> files_inv fs' \<and>
    length (filter (\<lambda>f. \<not> of_used f) fs') = length (filter (\<lambda>f. \<not> of_used f) fs) - 1"
proof (cases "find_free_slot fs")
  case None
  then have "filter (\<lambda>f. \<not> of_used f) fs = []" by (auto simp: find_free_slot_def first_index_None filter_empty_conv)
  then show ?thesis using None fs by (simp add: file_object_open_def open_not_blocked [OF p])
next
  case (Some i)
  note fd = first_index_SomeD [OF Some [unfolded find_free_slot_def]]
  have ok: "file_ok (fs ! i)" and i: "i < 8" using fd fs by (simp_all add: files_inv_def)
  have cp: "copy_cstr 127 path 0 (of_path (fs ! i)) = Some (put_bytes 0 (take 127 (cstr path) @ [0]) (of_path (fs ! i)))"
    by (rule copy_cstr_eq [OF p(1)]) (use ok in \<open>simp add: file_ok_def\<close>)
  note mo = mount_ofD [OF s(1) m(1)]
  have tb: "terminated (below m path)" using strip_prefix_eq [OF mo(1) p(1) mo(2)] by simp
  have "first_index (named (cstr (below m path))) (fs_tmpfs s) = None" using missing by (simp add: first_index_None)
  then have rd: "vfs_read F k path (of_buffer (fs ! i)) FILE_MAX_SIZE uid s = Some (-1, of_buffer (fs ! i))"
    unfolding vfs_tmpfs(1) [OF s(1) p(1) m] tmpfs_read_eq [OF s(2) tb] by simp
  let ?p = "put_bytes 0 (take 127 (cstr path) @ [0]) (of_path (fs ! i))"
  let ?f = "(fs ! i)\<lparr>of_used := True, of_path := ?p, of_access := FILE_ACCESS_RDONLY, of_cursor := 0, of_owner := uid\<rparr>"
  have "terminated ?p" by (simp add: put_bytes_def)
  moreover have "length ?p = 128" using ok by (simp add: length_put_bytes_le file_ok_def)
  ultimately have "file_ok ?f" using ok by (simp add: file_ok_def)
  then have "files_inv (fs[i := ?f])" using files_inv_put [OF fs, of "int i"] i by simp
  moreover have "file_object_open F k path FILE_ACCESS_RDONLY uid s fs = Some (fs[i := ?f], -1)"
    using cp Some rd
    by (simp add: file_object_open_def open_not_blocked [OF p] Let_def FILE_ACCESS_RDONLY_def FILE_ACCESS_WRONLY_def
        FILE_ACCESS_RDWR_def)
  moreover have "length (filter (\<lambda>f. \<not> of_used f) (fs[i := ?f])) = length (filter (\<lambda>f. \<not> of_used f) fs) - 1"
    by (rule filter_update_drop) (use fd in auto)
  ultimately show ?thesis by blast
qed

theorem file_open_leaks_witness:
  "\<exists>fs'. file_object_open no_fat (sample_kern 1) (literal ''/temp/a'') FILE_ACCESS_RDONLY 5 temp_fs fresh_files = Some (fs', -1) \<and>
    length (filter (\<lambda>f. \<not> of_used f) fs') = 7"
proof -
  have p: "outside_system (literal ''/temp/a'')" by (simp add: outside_system_def literal_def ascii_def)
  have missing: "\<forall>e \<in> set (fs_tmpfs temp_fs). \<not> named (cstr (below (hd (g_mounts temp_fs)) (literal ''/temp/a''))) e"
    by (simp add: temp_fs_def fresh_tmpfs_def named_def)
  have "length (filter (\<lambda>f. \<not> of_used f) fresh_files) = 8" by (simp add: fresh_files_def)
  with file_open_leaks [OF fresh_files_inv terminated_literal p temp_fs_ok temp_fs_mount [of "''a''", simplified]
      temp_backend missing, of no_fat "sample_kern 1" 5] show ?thesis by auto
qed

text \<open>
  A gap ends a directory listing. When the entry at the cursor of an open directory of the
  temporary mount is unused, reading the next entry reports the end of the listing and leaves the
  cursor where it is, so entries behind the gap are never listed.
\<close>

theorem directory_listing_stops:
  assumes s: "mounts_ok s" and d: "slot_at ds i = Some d" "terminated (od_path d)" "cstr (od_path d) \<noteq> []"
    and m: "mount_of s (od_path d) = Some m" "mt_backend m = BACKEND_TMPFS"
    and c: "slot_at (fs_tmpfs s) (od_cursor d) = Some e" "\<not> te_used e"
  shows "directory_object_read_next F k i name_out s ds = Some (ds, None)"
proof -
  from byte_at_0 [OF d(2)] d(3) obtain b where b: "byte_at (od_path d) 0 = Some b" "b \<noteq> 0" by auto
  have "tmpfs_list_entry (od_cursor d) name_out (fs_tmpfs s) = Some None"
    using c by (simp add: tmpfs_list_entry_def)
  then have "vfs_list_entry F k (od_path d) (od_cursor d) name_out s = Some None"
    using b m by (simp add: vfs_list_entry_def with_mount_eq [OF s d(2)] backend_defs)
  then show ?thesis using d(1) by (simp add: directory_object_read_next_def)
qed

theorem directory_listing_stops_witness:
  "directory_object_read_next no_fat (sample_kern 1) 0 (replicate 20 0)
      (temp_fs\<lparr>fs_tmpfs := fresh_tmpfs[1 := (fresh_tmpfs ! 1)\<lparr>te_used := True\<rparr>]\<rparr>)
      [\<lparr>od_used = True, od_path = literal ''/temp/'', od_cursor = 0\<rparr>] =
    Some ([\<lparr>od_used = True, od_path = literal ''/temp/'', od_cursor = 0\<rparr>], None)"
proof (rule directory_listing_stops [where m = "hd (g_mounts temp_fs)" and e = "fresh_tmpfs ! 0"])
  show "mounts_ok (temp_fs\<lparr>fs_tmpfs := fresh_tmpfs[1 := (fresh_tmpfs ! 1)\<lparr>te_used := True\<rparr>]\<rparr>)"
    using temp_fs_ok(1) by (simp add: mounts_ok_def)
  show "mount_of (temp_fs\<lparr>fs_tmpfs := fresh_tmpfs[1 := (fresh_tmpfs ! 1)\<lparr>te_used := True\<rparr>]\<rparr>)
      (od_path \<lparr>od_used = True, od_path = literal ''/temp/'', od_cursor = 0\<rparr>) = Some (hd (g_mounts temp_fs))"
    using temp_fs_mount [of "[]"] by (simp add: mount_of_def)
qed (simp_all add: temp_backend literal_def ascii_def fresh_tmpfs_def slot_at_def)

end
