(* ===== verification/Fs_Calls.thy ===== *)
theory Fs_Calls
  imports File_Objects Process
begin

text \<open>
  The system calls on paths, files and directories (\<^verbatim>\<open>src/kernel/syscall/handlers/vfs.c\<close>, \<^verbatim>\<open>file.c\<close>,
  \<^verbatim>\<open>directory.c\<close>) on the state of the kernel together with the file systems and the tables of open
  files and directories. A pointer argument is an address of the caller; the object behind it is the
  run of mapped bytes from there, read up to a bound that exceeds every local buffer of the code, so
  cutting longer objects changes no result.
\<close>

section \<open>State and user memory\<close>

record 'f machine =
  m_kern :: kern
  m_fs :: "'f fs"
  m_files :: "open_file list"
  m_dirs :: "open_directory list"

fun user_bytes :: "kern \<Rightarrow> u64 \<Rightarrow> nat \<Rightarrow> u8 list" where
  "user_bytes k a 0 = []"
| "user_bytes k a (Suc n) =
     (case cpu_translate k a of None \<Rightarrow> [] | Some p \<Rightarrow> k_phys k p # user_bytes k (a + 1) n)"

definition user_string :: "kern \<Rightarrow> u64 \<Rightarrow> u8 list" where
  "user_string k a = user_bytes k a 4096"

text \<open>Storing a buffer back: only bytes the call changed are written.\<close>

fun write_back :: "u64 \<Rightarrow> u8 list \<Rightarrow> u8 list \<Rightarrow> kern \<Rightarrow> kern option" where
  "write_back a (old # olds) (new # news) k = do {
     p \<leftarrow> cpu_translate k a;
     write_back (a + 1) olds news (if old = new then k else k\<lparr>k_phys := (k_phys k)(p := new)\<rparr>)
   }"
| "write_back a _ _ k = Some k"

definition le64_decode :: "u8 list \<Rightarrow> u64" where
  "le64_decode bs = word_rcat (rev bs)"

definition failed_call :: "'f machine \<Rightarrow> ('f machine \<times> u64) option" where
  "failed_call M = Some (M, -1)"

definition caller_uid :: "kern \<Rightarrow> u8 option" where
  "caller_uid k = do {
     p \<leftarrow> caller_process k;
     if p < 0 then Some 0 else map_option p_uid (slot_at (g_processes k) p)
   }"

section \<open>Calls on paths\<close>

definition sys_vfs_read :: "'f fat32_ops \<Rightarrow> u64 \<Rightarrow> u64 \<Rightarrow> u64 \<Rightarrow> 'f machine \<Rightarrow> ('f machine \<times> u64) option" where
  "sys_vfs_read F a1 a2 a3 M = (let k = m_kern M; len = (ucast a3 :: u32); buf = user_bytes k a2 (unat len + 32) in do {
     uid \<leftarrow> caller_uid k;
     (n, buf') \<leftarrow> vfs_read F k (user_string k a1) buf len uid (m_fs M);
     k' \<leftarrow> write_back a2 buf buf' k;
     Some (M\<lparr>m_kern := k'\<rparr>, if n < 0 then -1 else word_of_int n)
   })"

definition sys_vfs_write :: "'f fat32_ops \<Rightarrow> u64 \<Rightarrow> u64 \<Rightarrow> u64 \<Rightarrow> 'f machine \<Rightarrow> ('f machine \<times> u64) option" where
  "sys_vfs_write F a1 a2 a3 M = (let k = m_kern M; len = (ucast a3 :: u32) in do {
     uid \<leftarrow> caller_uid k;
     (s, ok) \<leftarrow> vfs_write F (user_string k a1) (user_bytes k a2 (unat len)) len uid (m_fs M);
     Some (M\<lparr>m_fs := s\<rparr>, if ok then a3 else -1)
   })"

text \<open>The packed argument block of call 37: path, index, and where name, size and type go.\<close>

definition sys_vfs_list :: "'f fat32_ops \<Rightarrow> u64 \<Rightarrow> 'f machine \<Rightarrow> ('f machine \<times> u64) option" where
  "sys_vfs_list F a1 M = (let k = m_kern M in do {
     args \<leftarrow> read_mem k a1 36;
     let name_out = le64_decode (get_bytes 12 8 args);
     let buf = user_bytes k name_out 64;
     r \<leftarrow> vfs_list_entry F k (user_string k (le64_decode (get_bytes 0 8 args)))
           (sint (le32_decode (get_bytes 8 4 args))) buf (m_fs M);
     case r of
       None \<Rightarrow> Some (M, 0)
     | Some (buf', sz, dir) \<Rightarrow> do {
         k \<leftarrow> write_back name_out buf buf' k;
         k \<leftarrow> write_mem (le64_decode (get_bytes 20 8 args)) (le32_encode sz) k;
         k \<leftarrow> write_mem (le64_decode (get_bytes 28 8 args)) [if dir then 1 else 0] k;
         Some (M\<lparr>m_kern := k\<rparr>, 1)
       }
   })"

definition sys_fs_delete :: "u64 \<Rightarrow> 'f machine \<Rightarrow> ('f machine \<times> u64) option" where
  "sys_fs_delete a1 M = do {
     (d, ok) \<leftarrow> fs_delete_file (user_string (m_kern M) a1) (fs_disk (m_fs M));
     Some (M\<lparr>m_fs := (m_fs M)\<lparr>fs_disk := d\<rparr>\<rparr>, if ok then 1 else 0)
   }"

definition sys_fs_create_dir :: "u64 \<Rightarrow> 'f machine \<Rightarrow> ('f machine \<times> u64) option" where
  "sys_fs_create_dir a1 M = do {
     (d, ok) \<leftarrow> fs_create_dir (user_string (m_kern M) a1) (fs_disk (m_fs M));
     Some (M\<lparr>m_fs := (m_fs M)\<lparr>fs_disk := d\<rparr>\<rparr>, if ok then 1 else 0)
   }"

definition sys_fs_set_owner :: "u64 \<Rightarrow> u64 \<Rightarrow> 'f machine \<Rightarrow> ('f machine \<times> u64) option" where
  "sys_fs_set_owner a1 a2 M = do {
     uid \<leftarrow> caller_uid (m_kern M);
     (d, ok) \<leftarrow> fs_set_owner (user_string (m_kern M) a1) (ucast a2) uid (fs_disk (m_fs M));
     Some (M\<lparr>m_fs := (m_fs M)\<lparr>fs_disk := d\<rparr>\<rparr>, if ok then 0 else -1)
   }"

definition sys_fs_set_mode :: "u64 \<Rightarrow> u64 \<Rightarrow> 'f machine \<Rightarrow> ('f machine \<times> u64) option" where
  "sys_fs_set_mode a1 a2 M = do {
     uid \<leftarrow> caller_uid (m_kern M);
     (d, ok) \<leftarrow> fs_set_mode (user_string (m_kern M) a1) (ucast a2) uid (fs_disk (m_fs M));
     Some (M\<lparr>m_fs := (m_fs M)\<lparr>fs_disk := d\<rparr>\<rparr>, if ok then 0 else -1)
   }"

definition sys_vfs_stat :: "'f fat32_ops \<Rightarrow> u64 \<Rightarrow> 'f machine \<Rightarrow> ('f machine \<times> u64) option" where
  "sys_vfs_stat F a1 M = (let k = m_kern M in do {
     args \<leftarrow> read_mem k a1 40;
     (found, om) \<leftarrow> vfs_stat F (user_string k (le64_decode (get_bytes 0 8 args))) (m_fs M);
     k \<leftarrow> (case om of
           None \<Rightarrow> Some k
         | Some (owner, mode) \<Rightarrow> do {
             k \<leftarrow> write_mem (le64_decode (get_bytes 24 8 args)) [owner] k;
             write_mem (le64_decode (get_bytes 32 8 args)) [mode] k
           });
     case found of
       None \<Rightarrow> failed_call (M\<lparr>m_kern := k\<rparr>)
     | Some (sz, dir) \<Rightarrow> do {
         k \<leftarrow> write_mem (le64_decode (get_bytes 8 8 args)) (le32_encode sz) k;
         k \<leftarrow> write_mem (le64_decode (get_bytes 16 8 args)) [if dir then 1 else 0] k;
         Some (M\<lparr>m_kern := k\<rparr>, 0)
       }
   })"

definition sys_vfs_delete :: "'f fat32_ops \<Rightarrow> u64 \<Rightarrow> 'f machine \<Rightarrow> ('f machine \<times> u64) option" where
  "sys_vfs_delete F a1 M = do {
     uid \<leftarrow> caller_uid (m_kern M);
     (s, ok) \<leftarrow> vfs_delete F (user_string (m_kern M) a1) uid (m_fs M);
     Some (M\<lparr>m_fs := s\<rparr>, if ok then 0 else -1)
   }"

definition syscall_vfs ::
  "'f fat32_ops \<Rightarrow> u64 \<Rightarrow> u64 \<Rightarrow> u64 \<Rightarrow> u64 \<Rightarrow> 'f machine \<Rightarrow> ('f machine \<times> u64) option option" where
  "syscall_vfs F num a1 a2 a3 M =
     (if num = 4 then Some (sys_vfs_read F a1 a2 a3 M)
      else if num = 5 then Some (sys_vfs_write F a1 a2 a3 M)
      else if num = 37 then Some (sys_vfs_list F a1 M)
      else if num = 38 then Some (sys_fs_delete a1 M)
      else if num = 39 then Some (sys_fs_create_dir a1 M)
      else if num = 50 then Some (sys_fs_set_owner a1 a2 M)
      else if num = 51 then Some (sys_fs_set_mode a1 a2 M)
      else if num = 97 then Some (sys_vfs_stat F a1 M)
      else if num = 98 then Some (sys_vfs_delete F a1 M)
      else None)"

section \<open>Calls on file handles\<close>

definition with_object ::
  "'f machine \<Rightarrow> u64 \<Rightarrow> int \<Rightarrow> int \<Rightarrow> (int \<Rightarrow> int \<Rightarrow> ('f machine \<times> u64) option) \<Rightarrow> ('f machine \<times> u64) option" where
  "with_object M a need type f = do {
     p \<leftarrow> caller_process (m_kern M);
     g \<leftarrow> handle_grants (k_objects (m_kern M)) p (c_int a) need type;
     case g of None \<Rightarrow> failed_call M | Some d \<Rightarrow> f p d
   }"

text \<open>Releasing the object and the handle of a closed file or directory.\<close>

definition release_handle :: "int \<Rightarrow> int \<Rightarrow> kern \<Rightarrow> kern option" where
  "release_handle p h k = do {
     hn \<leftarrow> handle_at (k_objects k) p h;
     os \<leftarrow> free_object (h_object hn) (k_objects k);
     os \<leftarrow> free_handle p h os;
     Some (k\<lparr>k_objects := os\<rparr>)
   }"

definition open_rights :: "int \<Rightarrow> int" where
  "open_rights access =
     (if access \<noteq> FILE_ACCESS_WRONLY then RIGHT_READ else 0) OR (if access \<noteq> FILE_ACCESS_RDONLY then RIGHT_WRITE else 0)"

definition sys_file_open :: "'f fat32_ops \<Rightarrow> u64 \<Rightarrow> u64 \<Rightarrow> 'f machine \<Rightarrow> ('f machine \<times> u64) option" where
  "sys_file_open F a1 a2 M = (let k = m_kern M in do {
     p \<leftarrow> caller_process k;
     if p < 0 then failed_call M
     else do {
       pr \<leftarrow> slot_at (g_processes k) p;
       (fs, slot) \<leftarrow> file_object_open F k (user_string k a1) (c_int a2) (p_uid pr) (m_fs M) (m_files M);
       let M1 = M\<lparr>m_files := fs\<rparr>;
       if slot < 0 then Some (M1, word_of_int slot)
       else let (os, ob) = alloc_object OBJ_FILE slot (k_objects k) in
         if ob < 0 then do {
           (s, fs, _) \<leftarrow> file_object_close F slot (m_fs M) fs;
           failed_call (M\<lparr>m_kern := k\<lparr>k_objects := os\<rparr>, m_fs := s, m_files := fs\<rparr>)
         }
         else do {
           (os, h) \<leftarrow> alloc_handle p ob (open_rights (c_int a2)) os;
           if h < 0 then do {
             os \<leftarrow> free_object ob os;
             (s, fs, _) \<leftarrow> file_object_close F slot (m_fs M) fs;
             failed_call (M\<lparr>m_kern := k\<lparr>k_objects := os\<rparr>, m_fs := s, m_files := fs\<rparr>)
           }
           else Some (M1\<lparr>m_kern := k\<lparr>k_objects := os\<rparr>\<rparr>, word_of_int h)
         }
     }
   })"

definition sys_file_read :: "u64 \<Rightarrow> u64 \<Rightarrow> u64 \<Rightarrow> 'f machine \<Rightarrow> ('f machine \<times> u64) option" where
  "sys_file_read a1 a2 a3 M =
     with_object M a1 RIGHT_READ OBJ_FILE (\<lambda>p slot.
       let k = m_kern M; len = (ucast a3 :: u32); buf = user_bytes k a2 (unat len)
       in do {
         (fs, buf', n) \<leftarrow> file_object_read slot buf len (m_files M);
         k' \<leftarrow> write_back a2 buf buf' k;
         Some (M\<lparr>m_kern := k', m_files := fs\<rparr>, ucast n)
       })"

definition sys_file_write :: "u64 \<Rightarrow> u64 \<Rightarrow> u64 \<Rightarrow> 'f machine \<Rightarrow> ('f machine \<times> u64) option" where
  "sys_file_write a1 a2 a3 M =
     with_object M a1 RIGHT_WRITE OBJ_FILE (\<lambda>p slot.
       let len = (ucast a3 :: u32)
       in do {
         (fs, n) \<leftarrow> file_object_write slot (user_bytes (m_kern M) a2 (unat len)) len (m_files M);
         Some (M\<lparr>m_files := fs\<rparr>, ucast n)
       })"

definition sys_file_seek :: "u64 \<Rightarrow> u64 \<Rightarrow> u64 \<Rightarrow> 'f machine \<Rightarrow> ('f machine \<times> u64) option" where
  "sys_file_seek a1 a2 a3 M =
     with_object M a1 RIGHT_READ OBJ_FILE (\<lambda>p slot. do {
       (fs, pos) \<leftarrow> file_object_seek slot a2 (c_int a3) (m_files M);
       Some (M\<lparr>m_files := fs\<rparr>, word_of_int pos)
     })"

definition sys_file_close :: "'f fat32_ops \<Rightarrow> u64 \<Rightarrow> 'f machine \<Rightarrow> ('f machine \<times> u64) option" where
  "sys_file_close F a1 M =
     with_object M a1 0 OBJ_FILE (\<lambda>p slot. do {
       (s, fs, ok) \<leftarrow> file_object_close F slot (m_fs M) (m_files M);
       k \<leftarrow> release_handle p (c_int a1) (m_kern M);
       Some (M\<lparr>m_kern := k, m_fs := s, m_files := fs\<rparr>, if ok then 0 else -1)
     })"

definition syscall_file ::
  "'f fat32_ops \<Rightarrow> u64 \<Rightarrow> u64 \<Rightarrow> u64 \<Rightarrow> u64 \<Rightarrow> 'f machine \<Rightarrow> ('f machine \<times> u64) option option" where
  "syscall_file F num a1 a2 a3 M =
     (if num = 44 then Some (sys_file_open F a1 a2 M)
      else if num = 45 then Some (sys_file_read a1 a2 a3 M)
      else if num = 46 then Some (sys_file_write a1 a2 a3 M)
      else if num = 47 then Some (sys_file_seek a1 a2 a3 M)
      else if num = 48 then Some (sys_file_close F a1 M)
      else None)"

section \<open>Calls on directory handles\<close>

definition sys_directory_open :: "u64 \<Rightarrow> 'f machine \<Rightarrow> ('f machine \<times> u64) option" where
  "sys_directory_open a1 M = (let k = m_kern M in do {
     p \<leftarrow> caller_process k;
     if p < 0 then failed_call M
     else do {
       (ds, slot) \<leftarrow> directory_object_open (user_string k a1) (m_dirs M);
       if slot < 0 then failed_call (M\<lparr>m_dirs := ds\<rparr>)
       else let (os, ob) = alloc_object OBJ_DIRECTORY slot (k_objects k) in
         if ob < 0 then do {
           (ds, _) \<leftarrow> directory_object_close slot ds;
           failed_call (M\<lparr>m_kern := k\<lparr>k_objects := os\<rparr>, m_dirs := ds\<rparr>)
         }
         else do {
           (os, h) \<leftarrow> alloc_handle p ob RIGHT_READ os;
           if h < 0 then do {
             os \<leftarrow> free_object ob os;
             (ds, _) \<leftarrow> directory_object_close slot ds;
             failed_call (M\<lparr>m_kern := k\<lparr>k_objects := os\<rparr>, m_dirs := ds\<rparr>)
           }
           else Some (M\<lparr>m_kern := k\<lparr>k_objects := os\<rparr>, m_dirs := ds\<rparr>, word_of_int h)
         }
     }
   })"

definition sys_directory_read :: "'f fat32_ops \<Rightarrow> u64 \<Rightarrow> u64 \<Rightarrow> 'f machine \<Rightarrow> ('f machine \<times> u64) option" where
  "sys_directory_read F a1 a2 M =
     with_object M a1 RIGHT_READ OBJ_DIRECTORY (\<lambda>p slot. let k = m_kern M in do {
       args \<leftarrow> read_mem k a2 24;
       let name_out = le64_decode (get_bytes 0 8 args);
       let buf = user_bytes k name_out 64;
       (ds, r) \<leftarrow> directory_object_read_next F k slot buf (m_fs M) (m_dirs M);
       case r of
         None \<Rightarrow> failed_call (M\<lparr>m_dirs := ds\<rparr>)
       | Some (buf', sz, dir) \<Rightarrow> do {
           k \<leftarrow> write_back name_out buf buf' k;
           k \<leftarrow> write_mem (le64_decode (get_bytes 8 8 args)) (le32_encode sz) k;
           k \<leftarrow> write_mem (le64_decode (get_bytes 16 8 args)) [if dir then 1 else 0] k;
           Some (M\<lparr>m_kern := k, m_dirs := ds\<rparr>, 0)
         }
     })"

definition sys_directory_close :: "u64 \<Rightarrow> 'f machine \<Rightarrow> ('f machine \<times> u64) option" where
  "sys_directory_close a1 M =
     with_object M a1 0 OBJ_DIRECTORY (\<lambda>p slot. do {
       (ds, ok) \<leftarrow> directory_object_close slot (m_dirs M);
       k \<leftarrow> release_handle p (c_int a1) (m_kern M);
       Some (M\<lparr>m_kern := k, m_dirs := ds\<rparr>, if ok then 0 else -1)
     })"

definition syscall_directory ::
  "'f fat32_ops \<Rightarrow> u64 \<Rightarrow> u64 \<Rightarrow> u64 \<Rightarrow> u64 \<Rightarrow> 'f machine \<Rightarrow> ('f machine \<times> u64) option option" where
  "syscall_directory F num a1 a2 a3 M =
     (if num = 87 then Some (sys_directory_open a1 M)
      else if num = 88 then Some (sys_directory_read F a1 a2 M)
      else if num = 89 then Some (sys_directory_close a1 M)
      else None)"

section \<open>A machine for the examples\<close>

text \<open>A text at address 0 of a process of user 5, zeros behind it.\<close>

definition holding :: "u8 list \<Rightarrow> kern" where
  "holding bs = (sample_kern 0)\<lparr>
     g_tasks := (g_tasks (sample_kern 0))[0 := (sample_task True)\<lparr>t_process := 1\<rparr>],
     g_processes := (g_processes (sample_kern 0))[1 := (g_processes (sample_kern 0) ! 1)\<lparr>p_used := True, p_uid := 5\<rparr>],
     k_phys := (\<lambda>p. if unat p < length bs then bs ! unat p else 0)\<rparr>"

lemma holding_uid: "caller_uid (holding bs) = Some 5"
  by (simp add: caller_uid_def caller_process_def holding_def sample_kern_def slot_at_def)

lemma holding_bytes:
  "j + n \<le> 8192 \<Longrightarrow> user_bytes (holding bs) (word_of_nat j) n =
    map (\<lambda>i. if i < length bs then bs ! i else 0) [j..<j + n]"
proof (induction n arbitrary: j)
  case (Suc n)
  have u: "unat (word_of_nat j :: u64) = j" using Suc.prems by (simp add: unsigned_of_nat take_bit_nat_eq_self)
  have "(word_of_nat j :: u64) < 0x40000000" using Suc.prems by (simp add: word_less_nat_alt u)
  then have t: "cpu_translate (holding bs) (word_of_nat j) = Some (word_of_nat j)" by (simp add: cpu_translate_def)
  have nx: "word_of_nat j + 1 = (word_of_nat (Suc j) :: u64)" by simp
  have up: "[j..<j + Suc n] = j # [Suc j..<Suc j + n]" by (simp add: upt_conv_Cons del: upt_Suc)
  have b: "k_phys (holding bs) (word_of_nat j) = (if j < length bs then bs ! j else 0)"
    by (simp add: holding_def u)
  have "Suc j + n \<le> 8192" using Suc.prems by simp
  from Suc.IH [OF this] show ?case
    by (simp only: user_bytes.simps t option.case nx up b list.map)
qed simp

lemma holding_string: "length bs \<le> 4096 \<Longrightarrow> user_string (holding bs) 0 = bs @ replicate (4096 - length bs) 0"
  unfolding user_string_def using holding_bytes [of 0 4096 bs]
  by (intro nth_equalityI) (auto simp: nth_append)

text \<open>A MiniFS disk with one empty file, named \<^verbatim>\<open>a\<close>, of user 7 and closed to all others.\<close>

definition owned_entry :: dir_entry where
  "owned_entry = \<lparr>de_name = 97 # replicate 19 0, de_start_lba = 502, de_size = 0, de_used = True, de_is_dir = False,
     de_owner = 7, de_mode = 3\<rparr>"

definition owned_disk :: disk where
  "owned_disk = \<lparr>sectors = (\<lambda>l. if l = SUPERBLOCK_LBA then put_bytes 8 (le32_encode 502) (replicate 512 0)
       else if l = ROOT_LBA then put_bytes (32 * 0) (encode_entry owned_entry) (replicate 512 0) else replicate 512 0),
     failing = (\<lambda>l. False)\<rparr>"

lemma owned_root:
  "i < MAX_FILES \<Longrightarrow> decode_entry (sectors owned_disk ROOT_LBA) i =
    (if i = 0 then owned_entry else decode_entry (replicate 512 0) i)"
proof -
  assume i: "i < MAX_FILES"
  have l: "length (de_name owned_entry) = 20" by (simp add: owned_entry_def)
  have r: "sectors owned_disk ROOT_LBA = put_bytes (32 * 0) (encode_entry owned_entry) (replicate 512 0)"
    by (simp add: owned_disk_def SUPERBLOCK_LBA_def ROOT_LBA_def)
  show ?thesis unfolding r
    using decode_encode_here [OF l, of "replicate 512 0" 0] decode_encode_other [OF l, of "replicate 512 0" 0 i] i by simp
qed

lemma owned_inv: "minifs_inv owned_disk {ROOT_LBA}"
proof -
  have nf: "next_free owned_disk = 502" by (simp add: next_free_def owned_disk_def)
  have used: "de_used (decode_entry (sectors owned_disk ROOT_LBA) i) \<longleftrightarrow> i = 0" if "i < MAX_FILES" for i
    using that owned_root [OF that] zero_sector_unused [OF that] by (simp add: owned_entry_def)
  have "unique_names (sectors owned_disk ROOT_LBA)" using used by (auto simp: unique_names_def has_name_def)
  moreover have "entry_ok {ROOT_LBA} 502 owned_entry" by (simp add: entry_ok_def owned_entry_def sectors_for_def)
  moreover have "length (sectors owned_disk l) = 512" for l
    by (simp add: owned_disk_def put_bytes_def encode_entry_def owned_entry_def)
  moreover have "de_used (decode_entry (sectors owned_disk ROOT_LBA) i) \<longrightarrow>
      entry_ok {ROOT_LBA} 502 (decode_entry (sectors owned_disk ROOT_LBA) i)" if "i < MAX_FILES" for i
    using used [OF that] owned_root [OF that] calculation(2) by (cases "i = 0") simp_all
  ultimately show ?thesis using nf by (simp add: minifs_inv_def ROOT_LBA_def) (simp add: owned_disk_def)
qed

lemma owned_lookup: "entry_at_name owned_disk ROOT_LBA [97] = Some owned_entry"
proof -
  have "dir_lookup (sectors owned_disk ROOT_LBA) [97] = Some 0"
    unfolding dir_lookup_def first_index_upt_Some by (simp add: has_name_def owned_root) (simp add: owned_entry_def)
  then show ?thesis by (simp add: entry_at_name_def owned_root)
qed

lemma letter_path: "c \<noteq> 0 \<Longrightarrow> c \<noteq> 47 \<Longrightarrow> path_target d (c # 0 # r) = Some (ROOT_LBA, [c])"
proof -
  assume c: "c \<noteq> 0" "c \<noteq> 47"
  then have "split_components (Suc (Suc n)) (c # 0 # r) = Some [[c, 0]]" for n by simp
  from this [of 6] have "split_path (c # 0 # r) = Some [[c, 0]]" by (simp add: split_path_def)
  with c show ?thesis by (simp add: path_target_def)
qed

definition system_fs :: "unit fs" where
  "system_fs = temp_fs\<lparr>g_mounts := (g_mounts temp_fs)[0 := \<lparr>mt_prefix = ascii ''/system'' @ replicate 9 0,
     mt_backend = BACKEND_MINIFS, mt_root = replicate 16 0, mt_used = True\<rparr>], fs_disk := owned_disk\<rparr>"

definition system_machine :: "u8 list \<Rightarrow> unit machine" where
  "system_machine bs = \<lparr>m_kern = holding bs, m_fs = system_fs, m_files = fresh_files, m_dirs = []\<rparr>"

lemma system_fs_ok: "mounts_ok system_fs" "minifs_inv (fs_disk system_fs) {ROOT_LBA}"
  "mt_backend (hd (g_mounts system_fs)) = BACKEND_MINIFS"
  using owned_inv by (simp_all add: system_fs_def temp_fs_def mounts_ok_def mount_ok_def terminated_def ascii_def)

lemma system_prefix: "cstr (mt_prefix (hd (g_mounts system_fs))) = ascii ''/system''" "cstr (mt_root (hd (g_mounts system_fs))) = []"
  by (simp_all add: system_fs_def temp_fs_def ascii_def)

lemma system_path:
  assumes "length nm \<le> 4000" and nz: "0 \<notin> set (ascii nm)"
  shows "terminated (user_string (holding (ascii (''/system/'' @ nm))) 0)"
    and "mount_of system_fs (user_string (holding (ascii (''/system/'' @ nm))) 0) = Some (hd (g_mounts system_fs))"
    and "backend_string (hd (g_mounts system_fs)) (user_string (holding (ascii (''/system/'' @ nm))) 0) = ascii nm"
proof -
  let ?t = "ascii (''/system/'' @ nm)"
  have len: "length ?t \<le> 4096" "length ?t = length nm + 8" using assms(1) by (simp_all add: ascii_def)
  define r where "r = replicate (4095 - length ?t) (0 :: u8)"
  have u: "user_string (holding ?t) 0 = ?t @ 0 # r"
    using holding_string [OF len(1)] len assms(1) by (simp add: r_def replicate_Suc [symmetric] Suc_diff_le del: replicate_Suc)
  have c: "cstr (?t @ 0 # r) = ?t" by (rule cstr_append_zero) (use nz in \<open>simp add: ascii_def\<close>)
  show "terminated (user_string (holding ?t) 0)" unfolding u by simp
  have l7: "length (ascii ''/system'') = 7" by (simp add: ascii_def)
  have "covers (cstr (?t @ 0 # r)) (hd (g_mounts system_fs))"
    unfolding covers_def system_prefix(1) c l7 by (simp add: system_fs_def temp_fs_def ascii_def)
  moreover have "take (nat (g_mount_count system_fs)) (g_mounts system_fs) = [hd (g_mounts system_fs)]"
    "g_mounts system_fs ! 0 = hd (g_mounts system_fs)" by (simp_all add: system_fs_def temp_fs_def)
  ultimately show "mount_of system_fs (user_string (holding ?t) 0) = Some (hd (g_mounts system_fs))"
    unfolding u by (simp add: mount_of_def)
  have "below (hd (g_mounts system_fs)) (?t @ 0 # r) = ascii nm @ 0 # r"
    unfolding below_def system_prefix(1) l7 by (simp add: ascii_def)
  then show "backend_string (hd (g_mounts system_fs)) (user_string (holding ?t) 0) = ascii nm"
    unfolding u backend_string_def system_prefix(2) using cstr_append_zero [OF nz] by (simp add: join_def)
qed

section \<open>Who may use a path\<close>

lemma write_back_same: "write_back a (user_bytes k a n) (user_bytes k a n) k = Some k"
  by (induction n arbitrary: a) (auto split: option.split)

lemmas syscall_vfs_nums = syscall_vfs_def sys_vfs_read_def sys_vfs_write_def sys_vfs_delete_def Let_def

text \<open>
  C15. The calls on paths keep owner-only files from others. When the path of a read, write or delete
  leads to a MiniFS entry that only its owner may read (or write), a caller who is neither the owner
  nor root gets \<^verbatim>\<open>-1\<close>, and neither the caller's memory nor any file system changes.
\<close>

theorem path_calls_enforce_owner:
  assumes s: "mounts_ok (m_fs M)" "minifs_inv (fs_disk (m_fs M)) D"
    and path: "path = user_string (m_kern M) a1" "terminated path"
    and m: "mount_of (m_fs M) path = Some m" "mt_backend m = BACKEND_MINIFS" "length (backend_string m path) < 200"
    and e: "entry_of (fs_disk (m_fs M)) (backend_path m path) = Some e"
    and uid: "caller_uid (m_kern M) = Some uid" "uid \<noteq> 0" "uid \<noteq> de_owner e"
  shows "(de_mode e AND MODE_OWNER_ONLY_READ \<noteq> 0 \<longrightarrow> syscall_vfs F 4 a1 a2 a3 M = Some (Some (M, -1))) \<and>
    (de_mode e AND MODE_OWNER_ONLY_WRITE \<noteq> 0 \<longrightarrow>
      syscall_vfs F 5 a1 a2 a3 M = Some (Some (M, -1)) \<and> syscall_vfs F 98 a1 a2 a3 M = Some (Some (M, -1)))"
  using e uid
  by (simp add: path(1) [symmetric] syscall_vfs_nums vfs_minifs [OF s(1) path(2) m s(2)] may_def write_back_same)

theorem path_calls_enforce_owner_witness:
  "syscall_vfs no_fat 98 0 0 0 (system_machine (ascii ''/system/a'')) =
    Some (Some (system_machine (ascii ''/system/a''), -1))"
proof -
  have sp: "terminated (user_string (holding (ascii ''/system/a'')) 0)"
    "mount_of system_fs (user_string (holding (ascii ''/system/a'')) 0) = Some (hd (g_mounts system_fs))"
    "backend_string (hd (g_mounts system_fs)) (user_string (holding (ascii ''/system/a'')) 0) = ascii ''a''"
    using system_path [of "''a''"] by (simp_all add: ascii_def)
  have "backend_path (hd (g_mounts system_fs)) (user_string (holding (ascii ''/system/a'')) 0) = 97 # 0 # replicate 198 0"
    unfolding backend_path_def sp(3) by (simp add: ascii_def put_bytes_def)
  then have e: "entry_of (fs_disk (m_fs (system_machine (ascii ''/system/a''))))
      (backend_path (hd (g_mounts system_fs)) (user_string (holding (ascii ''/system/a'')) 0)) = Some owned_entry"
    using owned_lookup by (simp add: entry_of_def letter_path system_machine_def system_fs_def)
  have uid: "caller_uid (m_kern (system_machine (ascii ''/system/a''))) = Some 5" "(5 :: u8) \<noteq> de_owner owned_entry"
    by (simp_all add: system_machine_def holding_uid owned_entry_def)
  have k: "m_kern (system_machine bs) = holding bs" "m_fs (system_machine bs) = system_fs" for bs
    by (simp_all add: system_machine_def)
  have a1: "length (ascii ''a'') = 1" by (simp add: ascii_def)
  from path_calls_enforce_owner [OF _ _ _ _ _ _ _ e uid(1) _ uid(2), of "{ROOT_LBA}" 0 no_fat 0 0] show ?thesis
    using sp system_fs_ok a1 by (simp add: k owned_entry_def MODE_OWNER_ONLY_WRITE_def)
qed

text \<open>
  C32. The old delete call asks nobody. Call 38 removes any MiniFS file by its path, whoever the caller
  is and whatever owner and mode the file has: afterwards the file can no longer be read.
\<close>

theorem delete_call_unchecked:
  assumes "minifs_inv (fs_disk (m_fs M)) D" and "path = user_string (m_kern M) a1" "terminated path"
    and "path_target (fs_disk (m_fs M)) path = Some (l, nm)"
    and "entry_at_name (fs_disk (m_fs M)) l nm = Some e" "\<not> de_is_dir e"
  shows "\<exists>d'. syscall_vfs F 38 a1 a2 a3 M = Some (Some (M\<lparr>m_fs := (m_fs M)\<lparr>fs_disk := d'\<rparr>\<rparr>, 1)) \<and>
    minifs_inv d' D \<and> fs_read_file path out max_len d' = Some (-1, out)"
proof -
  have "path_target (fs_disk (m_fs M)) [0] \<noteq> path_target (fs_disk (m_fs M)) path"
    using assms(4) by (simp add: path_target_def split_path_def eval_nat_numeral)
  from delete_effect [OF assms(1,3) _ assms(4,5,6) this, of out max_len] obtain d'
    where "fs_delete_file path (fs_disk (m_fs M)) = Some (d', True)" "minifs_inv d' D"
      "fs_read_file path out max_len d' = Some (-1, out)" by auto
  with assms(2) show ?thesis by (intro exI [of _ d']) (simp add: syscall_vfs_def sys_fs_delete_def)
qed

theorem delete_call_unchecked_witness:
  "\<exists>d'. syscall_vfs no_fat 38 0 0 0 (system_machine [97]) =
      Some (Some ((system_machine [97])\<lparr>m_fs := system_fs\<lparr>fs_disk := d'\<rparr>\<rparr>, 1)) \<and>
    caller_uid (m_kern (system_machine [97])) = Some 5 \<and> de_owner owned_entry = 7 \<and>
    de_mode owned_entry AND MODE_OWNER_ONLY_WRITE \<noteq> 0"
proof -
  have k: "m_kern (system_machine [97]) = holding [97]" "m_fs (system_machine [97]) = system_fs" "fs_disk system_fs = owned_disk"
    by (simp_all add: system_machine_def system_fs_def)
  have u: "user_string (holding [97]) 0 = 97 # 0 # replicate 4094 0"
    using holding_string [of "[97]"] replicate_Suc [of 4094 "0 :: u8"] by simp
  have "\<exists>d'. syscall_vfs no_fat 38 0 0 0 (system_machine [97]) =
        Some (Some ((system_machine [97])\<lparr>m_fs := (m_fs (system_machine [97]))\<lparr>fs_disk := d'\<rparr>\<rparr>, 1)) \<and>
      minifs_inv d' {ROOT_LBA} \<and> fs_read_file (97 # 0 # replicate 4094 0) [] 0 d' = Some (-1, [])"
    by (rule delete_call_unchecked [where l = ROOT_LBA and nm = "[97]" and e = owned_entry])
      (simp_all add: k owned_inv owned_lookup u letter_path, simp add: owned_entry_def)
  then show ?thesis by (auto simp: k holding_uid owned_entry_def MODE_OWNER_ONLY_WRITE_def)
qed

text \<open>
  C34. A long path overruns a kernel buffer. A path under a MiniFS mount whose part below the mount,
  joined with the mount's own directory, has 200 characters or more makes the read, write and delete
  calls write behind the 200-byte local array, before any permission is looked at.
\<close>

theorem path_call_overruns:
  assumes s: "mounts_ok (m_fs M)" and path: "path = user_string (m_kern M) a1" "terminated path"
    and m: "mount_of (m_fs M) path = Some m" "mt_backend m = BACKEND_MINIFS" "200 \<le> length (backend_string m path)"
    and uid: "caller_uid (m_kern M) = Some uid"
  shows "syscall_vfs F 4 a1 a2 a3 M = Some None \<and> syscall_vfs F 5 a1 a2 a3 M = Some None \<and>
    syscall_vfs F 98 a1 a2 a3 M = Some None"
proof -
  have "full_path m (below m path) = None" using full_path_eq [OF s path(2) m(1)] m(3) by simp
  then show ?thesis using path(2) m uid
    by (simp add: path(1) [symmetric] syscall_vfs_nums vfs_read_def vfs_write_def vfs_delete_def with_mount_eq [OF s])
qed

theorem path_call_overruns_witness:
  "syscall_vfs no_fat 4 0 0 0 (system_machine (ascii (''/system/'' @ replicate 200 (CHR ''a'')))) = Some None"
proof -
  let ?t = "ascii (''/system/'' @ replicate 200 (CHR ''a''))"
  have k: "m_kern (system_machine ?t) = holding ?t" "m_fs (system_machine ?t) = system_fs"
    by (simp_all add: system_machine_def)
  have sp: "terminated (user_string (holding ?t) 0)" "mount_of system_fs (user_string (holding ?t) 0) = Some (hd (g_mounts system_fs))"
    "backend_string (hd (g_mounts system_fs)) (user_string (holding ?t) 0) = ascii (replicate 200 (CHR ''a''))"
    by (rule system_path; simp add: ascii_def)+
  have "syscall_vfs no_fat 4 0 0 0 (system_machine ?t) = Some None \<and> syscall_vfs no_fat 5 0 0 0 (system_machine ?t) = Some None \<and>
      syscall_vfs no_fat 98 0 0 0 (system_machine ?t) = Some None"
    by (rule path_call_overruns [where m = "hd (g_mounts system_fs)" and uid = 5, OF _ refl])
      (simp_all only: k sp system_fs_ok holding_uid, simp add: ascii_def)
  then show ?thesis ..
qed

end
