(* ===== verification/Hash.thy ===== *)
theory Hash
  imports Prelude "HOL-Library.Monad_Syntax"
begin

text \<open>
  The hash functions (\<^verbatim>\<open>src/kernel/security/hash/\<close>): SHA-256 and SHA-1 with their streaming
  interface, HMAC over both and PBKDF2. The two hashes share the structure of context, update and
  final; it is modelled once, with the block function as an argument, and the theory shows in the
  locale \<open>merkle_damgard\<close> that streaming in any pieces computes the published one-shot function.
\<close>

section \<open>Streaming\<close>

record hash_ctx =
  hc_state :: "u32 list"
  hc_bits :: u64 \<comment> \<open>\<^verbatim>\<open>bit_count\<close>\<close>
  hc_buffer :: "u8 list"
  hc_len :: u32 \<comment> \<open>\<^verbatim>\<open>buffer_len\<close>\<close>

type_synonym block_fn = "u32 list \<Rightarrow> u8 list \<Rightarrow> u32 list"

text \<open>The loop of \<^verbatim>\<open>sha256_update\<close> and \<^verbatim>\<open>sha1_update\<close> over the bytes of the data.\<close>

fun absorb :: "block_fn \<Rightarrow> u8 list \<Rightarrow> hash_ctx \<Rightarrow> hash_ctx option" where
  "absorb P [] c = Some c"
| "absorb P (b # bs) c =
     (if unat (hc_len c) < length (hc_buffer c) then
        let buf = (hc_buffer c)[unat (hc_len c) := b];
            n = hc_len c + 1;
            c' = c\<lparr>hc_buffer := buf, hc_len := n, hc_bits := hc_bits c + 8\<rparr>
        in absorb P bs (if n = 64 then c'\<lparr>hc_state := P (hc_state c') buf, hc_len := 0\<rparr> else c')
      else None)"

definition hash_update :: "block_fn \<Rightarrow> u8 list \<Rightarrow> u32 \<Rightarrow> hash_ctx \<Rightarrow> hash_ctx option" where
  "hash_update P data len c = (if unat len \<le> length data then absorb P (take (unat len) data) c else None)"

text \<open>The zero bytes of the padding, until the buffer holds 56 bytes.\<close>

partial_function (option) pad_loop :: "block_fn \<Rightarrow> hash_ctx \<Rightarrow> hash_ctx option" where
  "pad_loop P c = (if hc_len c = 56 then Some c else Option.bind (hash_update P [0] 1 c) (pad_loop P))"

declare pad_loop.simps [code]

definition length_bytes :: "u64 \<Rightarrow> u8 list" where
  "length_bytes n = map (\<lambda>i. ucast (drop_bit (56 - i * 8) n)) [0..<8]"

definition word_bytes :: "u32 \<Rightarrow> u8 list" where
  "word_bytes w = [ucast (drop_bit 24 w), ucast (drop_bit 16 w), ucast (drop_bit 8 w), ucast w]"

definition hash_final :: "block_fn \<Rightarrow> nat \<Rightarrow> hash_ctx \<Rightarrow> u8 list option" where
  "hash_final P words c = do {
     let message_bit_count = hc_bits c;
     c \<leftarrow> hash_update P [0x80] 1 c;
     c \<leftarrow> pad_loop P c;
     c \<leftarrow> hash_update P (length_bytes message_bit_count) 8 c;
     Some (concat (map word_bytes (take words (hc_state c))))
   }"

definition be_word :: "u8 list \<Rightarrow> nat \<Rightarrow> u32" where
  "be_word block t = push_bit 24 (ucast (block ! (t * 4))) OR push_bit 16 (ucast (block ! (t * 4 + 1))) OR
     push_bit 8 (ucast (block ! (t * 4 + 2))) OR ucast (block ! (t * 4 + 3))"

section \<open>SHA-256\<close>

text \<open>The rows of the table \<^verbatim>\<open>K\<close>.\<close>

definition sha256_K :: "u32 list" where
  "sha256_K = concat [
    [0x428a2f98, 0x71374491, 0xb5c0fbcf, 0xe9b5dba5],
    [0x3956c25b, 0x59f111f1, 0x923f82a4, 0xab1c5ed5],
    [0xd807aa98, 0x12835b01, 0x243185be, 0x550c7dc3],
    [0x72be5d74, 0x80deb1fe, 0x9bdc06a7, 0xc19bf174],
    [0xe49b69c1, 0xefbe4786, 0x0fc19dc6, 0x240ca1cc],
    [0x2de92c6f, 0x4a7484aa, 0x5cb0a9dc, 0x76f988da],
    [0x983e5152, 0xa831c66d, 0xb00327c8, 0xbf597fc7],
    [0xc6e00bf3, 0xd5a79147, 0x06ca6351, 0x14292967],
    [0x27b70a85, 0x2e1b2138, 0x4d2c6dfc, 0x53380d13],
    [0x650a7354, 0x766a0abb, 0x81c2c92e, 0x92722c85],
    [0xa2bfe8a1, 0xa81a664b, 0xc24b8b70, 0xc76c51a3],
    [0xd192e819, 0xd6990624, 0xf40e3585, 0x106aa070],
    [0x19a4c116, 0x1e376c08, 0x2748774c, 0x34b0bcb5],
    [0x391c0cb3, 0x4ed8aa4a, 0x5b9cca4f, 0x682e6ff3],
    [0x748f82ee, 0x78a5636f, 0x84c87814, 0x8cc70208],
    [0x90befffa, 0xa4506ceb, 0xbef9a3f7, 0xc67178f2]]"

definition rotr :: "u32 \<Rightarrow> nat \<Rightarrow> u32" where
  "rotr x n = drop_bit n x OR push_bit (32 - n) x"

definition sha256_extend :: "u32 list \<Rightarrow> nat \<Rightarrow> u32 list" where
  "sha256_extend w t =
     (let s0 = rotr (w ! (t - 15)) 7 XOR rotr (w ! (t - 15)) 18 XOR drop_bit 3 (w ! (t - 15));
          s1 = rotr (w ! (t - 2)) 17 XOR rotr (w ! (t - 2)) 19 XOR drop_bit 10 (w ! (t - 2))
      in w @ [w ! (t - 16) + s0 + w ! (t - 7) + s1])"

definition sha256_schedule :: "u8 list \<Rightarrow> u32 list" where
  "sha256_schedule block = foldl sha256_extend (map (be_word block) [0..<16]) [16..<64]"

type_synonym sha256_regs = "u32 \<times> u32 \<times> u32 \<times> u32 \<times> u32 \<times> u32 \<times> u32 \<times> u32"

definition sha256_round :: "u32 list \<Rightarrow> sha256_regs \<Rightarrow> nat \<Rightarrow> sha256_regs" where
  "sha256_round w r t = (case r of (a, b, c, d, e, f, g, h) \<Rightarrow>
     let big_s1 = rotr e 6 XOR rotr e 11 XOR rotr e 25;
         ch = (e AND f) XOR (NOT e AND g);
         t1 = h + big_s1 + ch + sha256_K ! t + w ! t;
         big_s0 = rotr a 2 XOR rotr a 13 XOR rotr a 22;
         maj = (a AND b) XOR (a AND c) XOR (b AND c);
         t2 = big_s0 + maj
     in (t1 + t2, a, b, c, d + t1, e, f, g))"

definition sha256_process_block :: block_fn where
  "sha256_process_block s block =
     (case foldl (sha256_round (sha256_schedule block)) (s ! 0, s ! 1, s ! 2, s ! 3, s ! 4, s ! 5, s ! 6, s ! 7) [0..<64] of
        (a, b, c, d, e, f, g, h) \<Rightarrow>
          [s ! 0 + a, s ! 1 + b, s ! 2 + c, s ! 3 + d, s ! 4 + e, s ! 5 + f, s ! 6 + g, s ! 7 + h])"

definition sha256_iv :: "u32 list" where
  "sha256_iv = [0x6a09e667, 0xbb67ae85, 0x3c6ef372, 0xa54ff53a, 0x510e527f, 0x9b05688c, 0x1f83d9ab, 0x5be0cd19]"

text \<open>\<^verbatim>\<open>sha256_init\<close> leaves the bytes of the buffer as they are.\<close>

definition hash_init :: "u32 list \<Rightarrow> u8 list \<Rightarrow> hash_ctx" where
  "hash_init iv garbage = \<lparr>hc_state = iv, hc_bits = 0, hc_buffer = garbage, hc_len = 0\<rparr>"

definition sha256_init :: "u8 list \<Rightarrow> hash_ctx" where
  "sha256_init = hash_init sha256_iv"

definition sha256_update :: "u8 list \<Rightarrow> u32 \<Rightarrow> hash_ctx \<Rightarrow> hash_ctx option" where
  "sha256_update = hash_update sha256_process_block"

definition sha256_final :: "hash_ctx \<Rightarrow> u8 list option" where
  "sha256_final = hash_final sha256_process_block 8"

section \<open>SHA-1\<close>

definition rotl :: "u32 \<Rightarrow> nat \<Rightarrow> u32" where
  "rotl x n = push_bit n x OR drop_bit (32 - n) x"

definition sha1_extend :: "u32 list \<Rightarrow> nat \<Rightarrow> u32 list" where
  "sha1_extend w t = w @ [rotl (w ! (t - 3) XOR w ! (t - 8) XOR w ! (t - 14) XOR w ! (t - 16)) 1]"

definition sha1_schedule :: "u8 list \<Rightarrow> u32 list" where
  "sha1_schedule block = foldl sha1_extend (map (be_word block) [0..<16]) [16..<80]"

definition sha1_round ::
  "u32 list \<Rightarrow> u32 \<times> u32 \<times> u32 \<times> u32 \<times> u32 \<Rightarrow> nat \<Rightarrow> u32 \<times> u32 \<times> u32 \<times> u32 \<times> u32" where
  "sha1_round w r t = (case r of (a, b, c, d, e) \<Rightarrow>
     let (f, k) =
           (if t < 20 then ((b AND c) OR (NOT b AND d), 0x5a827999)
            else if t < 40 then (b XOR c XOR d, 0x6ed9eba1)
            else if t < 60 then ((b AND c) OR (b AND d) OR (c AND d), 0x8f1bbcdc)
            else (b XOR c XOR d, 0xca62c1d6));
         temp = rotl a 5 + f + e + k + w ! t
     in (temp, a, rotl b 30, c, d))"

definition sha1_process_block :: block_fn where
  "sha1_process_block s block =
     (case foldl (sha1_round (sha1_schedule block)) (s ! 0, s ! 1, s ! 2, s ! 3, s ! 4) [0..<80] of
        (a, b, c, d, e) \<Rightarrow> [s ! 0 + a, s ! 1 + b, s ! 2 + c, s ! 3 + d, s ! 4 + e])"

definition sha1_iv :: "u32 list" where
  "sha1_iv = [0x67452301, 0xefcdab89, 0x98badcfe, 0x10325476, 0xc3d2e1f0]"

definition sha1_init :: "u8 list \<Rightarrow> hash_ctx" where
  "sha1_init = hash_init sha1_iv"

definition sha1_update :: "u8 list \<Rightarrow> u32 \<Rightarrow> hash_ctx \<Rightarrow> hash_ctx option" where
  "sha1_update = hash_update sha1_process_block"

definition sha1_final :: "hash_ctx \<Rightarrow> u8 list option" where
  "sha1_final = hash_final sha1_process_block 5"

section \<open>HMAC and PBKDF2\<close>

text \<open>A context started on the stack, fed with pieces and finished.\<close>

fun feed :: "block_fn \<Rightarrow> (u8 list \<times> u32) list \<Rightarrow> hash_ctx \<Rightarrow> hash_ctx option" where
  "feed P [] c = Some c"
| "feed P ((data, len) # ps) c = do { c \<leftarrow> hash_update P data len c; feed P ps c }"

definition hash_of :: "block_fn \<Rightarrow> u32 list \<Rightarrow> (u8 list \<times> u32) list \<Rightarrow> u8 list option" where
  "hash_of P iv ps = do { c \<leftarrow> feed P ps (hash_init iv (replicate 64 0)); hash_final P (length iv) c }"

definition hmac_key_block :: "block_fn \<Rightarrow> u32 list \<Rightarrow> u8 list \<Rightarrow> u32 \<Rightarrow> u8 list option" where
  "hmac_key_block P iv key key_len = do {
     k \<leftarrow> (if key_len > 64 then hash_of P iv [(key, key_len)]
           else if unat key_len \<le> length key then Some (take (unat key_len) key) else None);
     Some (k @ replicate (64 - length k) 0)
   }"

definition hmac :: "block_fn \<Rightarrow> u32 list \<Rightarrow> u8 list \<Rightarrow> u32 \<Rightarrow> u8 list \<Rightarrow> u32 \<Rightarrow> u8 list option" where
  "hmac P iv key key_len data data_len = do {
     key_block \<leftarrow> hmac_key_block P iv key key_len;
     let ipad_key = map (\<lambda>b. b XOR 0x36) key_block;
     let opad_key = map (\<lambda>b. b XOR 0x5c) key_block;
     inner_digest \<leftarrow> hash_of P iv [(ipad_key, 64), (data, data_len)];
     hash_of P iv [(opad_key, 64), (inner_digest, 4 * word_of_nat (length iv))]
   }"

definition hmac_sha256 :: "u8 list \<Rightarrow> u32 \<Rightarrow> u8 list \<Rightarrow> u32 \<Rightarrow> u8 list option" where
  "hmac_sha256 = hmac sha256_process_block sha256_iv"

definition hmac_sha1 :: "u8 list \<Rightarrow> u32 \<Rightarrow> u8 list \<Rightarrow> u32 \<Rightarrow> u8 list option" where
  "hmac_sha1 = hmac sha1_process_block sha1_iv"

text \<open>The rounds \<^verbatim>\<open>1 .. iterations - 1\<close> of a block, with the last digest and the running sum.\<close>

fun pbkdf2_iterate :: "u8 list \<Rightarrow> u32 \<Rightarrow> nat \<Rightarrow> u8 list \<Rightarrow> u8 list \<Rightarrow> u8 list option" where
  "pbkdf2_iterate pass pass_len 0 u out = Some out"
| "pbkdf2_iterate pass pass_len (Suc n) u out = do {
     u \<leftarrow> hmac_sha1 pass pass_len u 20;
     pbkdf2_iterate pass pass_len n u (map2 (XOR) out u)
   }"

definition pbkdf2_block :: "u8 list \<Rightarrow> u32 \<Rightarrow> u8 list \<Rightarrow> u32 \<Rightarrow> u32 \<Rightarrow> u32 \<Rightarrow> u8 list option" where
  "pbkdf2_block pass pass_len salt salt_len iterations block_index =
     (if unat salt_len > length salt \<or> unat salt_len > 64 then None
      else do {
        u \<leftarrow> hmac_sha1 pass pass_len (take (unat salt_len) salt @ word_bytes block_index) (salt_len + 4);
        pbkdf2_iterate pass pass_len (unat iterations - 1) u u
      })"

text \<open>The loop over the blocks of the output; \<open>left\<close> is \<^verbatim>\<open>out_len - produced\<close>.\<close>

fun pbkdf2_loop :: "(u32 \<Rightarrow> u8 list option) \<Rightarrow> u32 \<Rightarrow> nat \<Rightarrow> u8 list option" where
  "pbkdf2_loop blk block_index left =
     (if left = 0 then Some []
      else do {
        b \<leftarrow> blk block_index;
        bs \<leftarrow> pbkdf2_loop blk (block_index + 1) (left - min left 20);
        Some (take (min left 20) b @ bs)
      })"

declare pbkdf2_loop.simps [simp del]

definition pbkdf2_sha1 :: "u8 list \<Rightarrow> u32 \<Rightarrow> u8 list \<Rightarrow> u32 \<Rightarrow> u32 \<Rightarrow> u32 \<Rightarrow> u8 list option" where
  "pbkdf2_sha1 pass pass_len salt salt_len iterations out_len =
     pbkdf2_loop (pbkdf2_block pass pass_len salt salt_len iterations) 1 (unat out_len)"

section \<open>The published functions\<close>

definition block_at :: "u8 list \<Rightarrow> nat \<Rightarrow> u8 list" where
  "block_at m i = get_bytes (64 * i) 64 m"

definition chain :: "block_fn \<Rightarrow> u32 list \<Rightarrow> u8 list \<Rightarrow> u32 list" where
  "chain P iv m = foldl P iv (map (block_at m) [0..<length m div 64])"

text \<open>A one bit, zeros up to eight bytes before a block boundary, the length in bits.\<close>

definition md_pad :: "u8 list \<Rightarrow> u8 list" where
  "md_pad m = m @ [0x80] @ replicate ((119 - length m mod 64) mod 64) 0 @ length_bytes (word_of_nat (8 * length m))"

definition digest :: "block_fn \<Rightarrow> u32 list \<Rightarrow> u8 list \<Rightarrow> u8 list" where
  "digest P iv m = concat (map word_bytes (chain P iv (md_pad m)))"

definition hmac_spec :: "(u8 list \<Rightarrow> u8 list) \<Rightarrow> u8 list \<Rightarrow> u8 list \<Rightarrow> u8 list" where
  "hmac_spec H key m =
     (let k = (if length key > 64 then H key else key); k0 = k @ replicate (64 - length k) 0
      in H (map (\<lambda>b. b XOR 0x5c) k0 @ H (map (\<lambda>b. b XOR 0x36) k0 @ m)))"

text \<open>The blocks of RFC 2898 over a pseudorandom function: the sum of the iterates of the function.\<close>

primrec pbkdf2_U :: "(u8 list \<Rightarrow> u8 list) \<Rightarrow> u8 list \<Rightarrow> nat \<Rightarrow> u8 list" where
  "pbkdf2_U mac seed 0 = mac seed"
| "pbkdf2_U mac seed (Suc j) = mac (pbkdf2_U mac seed j)"

definition pbkdf2_T :: "(u8 list \<Rightarrow> u8 list) \<Rightarrow> u8 list \<Rightarrow> nat \<Rightarrow> u32 \<Rightarrow> u8 list" where
  "pbkdf2_T mac salt c i =
     (let U = pbkdf2_U mac (salt @ word_bytes i) in foldl (map2 (XOR)) (U 0) (map U [1..<c]))"

definition pbkdf2_spec :: "(u8 list \<Rightarrow> u8 list) \<Rightarrow> u8 list \<Rightarrow> nat \<Rightarrow> nat \<Rightarrow> u8 list" where
  "pbkdf2_spec mac salt c n = take n (concat (map (\<lambda>i. pbkdf2_T mac salt c (word_of_nat (i + 1))) [0..<(n + 19) div 20]))"

section \<open>Streaming computes the chain\<close>

definition absorbed :: "block_fn \<Rightarrow> u32 list \<Rightarrow> u8 list \<Rightarrow> hash_ctx \<Rightarrow> bool" where
  "absorbed P iv m c \<longleftrightarrow> length (hc_buffer c) = 64 \<and> unat (hc_len c) = length m mod 64 \<and>
     take (length m mod 64) (hc_buffer c) = drop (64 * (length m div 64)) m \<and>
     hc_state c = chain P iv m \<and> hc_bits c = word_of_nat (8 * length m)"

lemma length_length_bytes [simp]: "length (length_bytes n) = 8"
  by (simp add: length_bytes_def)

lemma length_word_bytes [simp]: "length (word_bytes w) = 4"
  by (simp add: word_bytes_def)

lemma div64_step:
  "n mod 64 = 63 \<Longrightarrow> Suc n div 64 = Suc (n div 64) \<and> Suc n mod 64 = 0"
  "n mod 64 \<noteq> 63 \<Longrightarrow> Suc n div 64 = n div 64 \<and> Suc n mod 64 = Suc (n mod 64)" for n :: nat
  by (auto simp: div_Suc mod_Suc)

lemma chain_append_partial:
  assumes "length m div 64 = length (m @ e) div 64"
  shows "chain P iv (m @ e) = chain P iv m"
proof -
  have eq: "map (block_at (m @ e)) [0..<length m div 64] = map (block_at m) [0..<length m div 64]"
    by (auto simp: block_at_def get_bytes_def)
  show ?thesis by (simp only: chain_def assms [symmetric] eq)
qed

lemma chain_append_block:
  assumes "length m mod 64 = 63"
  shows "chain P iv (m @ [b]) = P (chain P iv m) (drop (64 * (length m div 64)) m @ [b])"
proof -
  let ?q = "length m div 64"
  have q: "length (m @ [b]) div 64 = Suc ?q" using div64_step(1) [OF assms] by simp
  have l: "length m = 64 * ?q + 63" using assms by (metis mult_div_mod_eq)
  have old: "map (block_at (m @ [b])) [0..<?q] = map (block_at m) [0..<?q]"
    by (auto simp: block_at_def get_bytes_def)
  have "block_at (m @ [b]) ?q = drop (64 * ?q) m @ [b]"
    using l by (simp add: block_at_def get_bytes_def)
  then show ?thesis unfolding chain_def q by (simp only: upt_Suc_append map_append old foldl_append) simp
qed

lemma absorb_Cons: "absorb P (b # bs) c = Option.bind (absorb P [b] c) (absorb P bs)"
  by (simp add: Let_def)

lemma absorb_byte:
  assumes "absorbed P iv m c"
  shows "\<exists>c'. absorb P [b] c = Some c' \<and> absorbed P iv (m @ [b]) c'"
proof -
  let ?r = "length m mod 64" and ?q = "length m div 64"
  have len: "length (hc_buffer c) = 64" and r: "unat (hc_len c) = ?r"
    and buf: "take ?r (hc_buffer c) = drop (64 * ?q) m" and st: "hc_state c = chain P iv m"
    and bits: "hc_bits c = word_of_nat (8 * length m)"
    using assms by (simp_all add: absorbed_def)
  have r64: "?r < 64" by simp
  have n: "unat (hc_len c + 1) = ?r + 1"
    using r r64 by (simp add: unat_word_ariths)
  have "hc_len c + 1 = 64 \<longleftrightarrow> unat (hc_len c + 1) = unat (64 :: u32)" by (simp only: word_unat_eq_iff)
  then have full: "hc_len c + 1 = 64 \<longleftrightarrow> ?r = 63" unfolding n by simp
  have upd: "take (Suc ?r) ((hc_buffer c)[?r := b]) = drop (64 * ?q) m @ [b]"
    using len r64 buf by (simp add: take_Suc_conv_app_nth)
  have bits': "hc_bits c + 8 = word_of_nat (8 * length (m @ [b]))" by (simp add: bits)
  show ?thesis
  proof (cases "?r = 63")
    case True
    let ?c = "c\<lparr>hc_buffer := (hc_buffer c)[?r := b], hc_len := 0, hc_bits := hc_bits c + 8,
        hc_state := P (hc_state c) ((hc_buffer c)[?r := b])\<rparr>"
    have "(hc_buffer c)[?r := b] = drop (64 * ?q) m @ [b]" using upd True len by simp
    then have "hc_state ?c = chain P iv (m @ [b])" using chain_append_block [OF True] st by simp
    moreover have "length (m @ [b]) mod 64 = 0" "length (m @ [b]) div 64 = Suc ?q" using div64_step(1) [OF True] by simp_all
    moreover have "length m + 1 = 64 * Suc ?q" using True mult_div_mod_eq [of 64 "length m"] by simp
    ultimately have "absorbed P iv (m @ [b]) ?c" using len bits' by (simp add: absorbed_def)
    moreover have "absorb P [b] c = Some ?c" using r r64 len full True by (simp add: Let_def)
    ultimately show ?thesis by blast
  next
    case False
    let ?c = "c\<lparr>hc_buffer := (hc_buffer c)[?r := b], hc_len := hc_len c + 1, hc_bits := hc_bits c + 8\<rparr>"
    have m': "length (m @ [b]) mod 64 = Suc ?r" "length (m @ [b]) div 64 = ?q" using div64_step(2) [OF False] by simp_all
    have "chain P iv (m @ [b]) = chain P iv m" by (rule chain_append_partial) (use m'(2) in simp)
    moreover have "64 * ?q \<le> length m" by simp
    ultimately have "absorbed P iv (m @ [b]) ?c" using m' n len upd bits' st by (simp add: absorbed_def)
    moreover have "absorb P [b] c = Some ?c" using r r64 len full False by (simp add: Let_def)
    ultimately show ?thesis by blast
  qed
qed

lemma absorb_list:
  "absorbed P iv m c \<Longrightarrow> \<exists>c'. absorb P bs c = Some c' \<and> absorbed P iv (m @ bs) c'"
proof (induction bs arbitrary: m c)
  case (Cons b bs)
  from absorb_byte [OF Cons.prems] obtain c1 where c1: "absorb P [b] c = Some c1" "absorbed P iv (m @ [b]) c1" by blast
  from Cons.IH [OF c1(2)] c1(1) show ?case by (subst absorb_Cons) auto
qed simp

lemma update_absorbs:
  "absorbed P iv m c \<Longrightarrow> unat len \<le> length data \<Longrightarrow>
    \<exists>c'. hash_update P data len c = Some c' \<and> absorbed P iv (m @ take (unat len) data) c'"
  using absorb_list by (simp add: hash_update_def)

lemma pad_zeros:
  fixes r :: nat
  assumes "r < 64"
  shows "(120 - r) mod 64 = (if r \<le> 56 then 56 - r else 120 - r)"
proof (cases "r \<le> 56")
  case True
  then have "120 - r = 64 + (56 - r)" by simp
  then have "(120 - r) mod 64 = (56 - r) mod 64" by (simp only: mod_add_self1)
  then show ?thesis using True by simp
qed (use assms in simp)

lemma pad_zeros_step:
  fixes r :: nat
  assumes "r < 64" and "Suc k = (120 - r) mod 64"
  shows "k = (120 - (if r = 63 then 0 else Suc r)) mod 64"
  using assms pad_zeros [of r] pad_zeros [of "Suc r"] by (auto split: if_splits)

lemma pad_absorbs:
  "absorbed P iv m c \<Longrightarrow> k = (120 - length m mod 64) mod 64 \<Longrightarrow>
    \<exists>c'. pad_loop P c = Some c' \<and> absorbed P iv (m @ replicate k 0) c'"
proof (induction k arbitrary: m c)
  case 0
  have "length m mod 64 < 64" by simp
  then have "length m mod 64 = 56" using 0(2) pad_zeros [of "length m mod 64"] by (simp split: if_splits)
  then have "unat (hc_len c) = unat (56 :: u32)" using 0(1) by (simp add: absorbed_def)
  then have "hc_len c = 56" by (simp only: word_unat_eq_iff)
  then show ?case using 0(1) by (subst pad_loop.simps) simp
next
  case (Suc k)
  have lt: "length m mod 64 < 64" by simp
  have ne56: "length m mod 64 \<noteq> 56" using Suc.prems(2) by auto
  have "unat (hc_len c) \<noteq> unat (56 :: u32)" using ne56 Suc.prems(1) by (simp add: absorbed_def)
  then have ne: "hc_len c \<noteq> 56" by auto
  from update_absorbs [OF Suc.prems(1), of 1 "[0]"] obtain c1
    where c1: "hash_update P [0] 1 c = Some c1" "absorbed P iv (m @ [0]) c1" by auto
  have "length (m @ [0]) mod 64 = (if length m mod 64 = 63 then 0 else Suc (length m mod 64))"
    using div64_step [of "length m"] by simp
  then have "k = (120 - length (m @ [0]) mod 64) mod 64" using pad_zeros_step [OF lt Suc.prems(2)] by (simp only:)
  from Suc.IH [OF c1(2) this] obtain c' where "pad_loop P c1 = Some c'" "absorbed P iv ((m @ [0]) @ replicate k 0) c'" by blast
  then show ?case using c1(1) ne by (subst pad_loop.simps) simp
qed

lemma length_chain: "(\<And>s b. length s = n \<Longrightarrow> length (P s b) = n) \<Longrightarrow> length iv = n \<Longrightarrow> length (chain P iv m) = n"
proof -
  assume P: "\<And>s b. length s = n \<Longrightarrow> length (P s b) = n"
  have "length s = n \<Longrightarrow> length (foldl P s bs) = n" for s bs by (induction bs arbitrary: s) (simp_all add: P)
  then show "length iv = n \<Longrightarrow> length (chain P iv m) = n" by (simp add: chain_def)
qed

text \<open>The contract of a block function and what streaming, hashing and HMAC compute with it.\<close>

locale merkle_damgard =
  fixes P :: block_fn and iv :: "u32 list"
  assumes words: "length s = length iv \<Longrightarrow> length (P s b) = length iv"
    and small: "length iv \<le> 8"
begin

lemma length_digest: "length (digest P iv m) = 4 * length iv"
proof -
  have "length (concat (map word_bytes ws)) = 4 * length ws" for ws by (induction ws) simp_all
  then show ?thesis unfolding digest_def using length_chain [of "length iv" P iv] words by simp
qed

lemma final_digest:
  assumes "absorbed P iv m c"
  shows "hash_final P (length iv) c = Some (digest P iv m)"
proof -
  from update_absorbs [OF assms, of 1 "[0x80]"] obtain c1
    where c1: "hash_update P [0x80] 1 c = Some c1" "absorbed P iv (m @ [0x80]) c1" by auto
  let ?k = "(120 - length (m @ [0x80]) mod 64) mod 64"
  from pad_absorbs [OF c1(2) refl] obtain c2
    where c2: "pad_loop P c1 = Some c2" "absorbed P iv ((m @ [0x80]) @ replicate ?k 0) c2" by blast
  from update_absorbs [OF c2(2), of 8 "length_bytes (hc_bits c)"] obtain c3
    where c3: "hash_update P (length_bytes (hc_bits c)) 8 c2 = Some c3"
      "absorbed P iv (((m @ [0x80]) @ replicate ?k 0) @ length_bytes (hc_bits c)) c3" by auto
  have lt: "length m mod 64 < 64" by simp
  have "length (m @ [0x80]) mod 64 = (if length m mod 64 = 63 then 0 else Suc (length m mod 64))"
    using div64_step [of "length m"] by simp
  then have "?k = (119 - length m mod 64) mod 64" using lt by (cases "length m mod 64 = 63") simp_all
  moreover have "hc_bits c = word_of_nat (8 * length m)" using assms by (simp add: absorbed_def)
  ultimately have "((m @ [0x80]) @ replicate ?k 0) @ length_bytes (hc_bits c) = md_pad m"
    unfolding md_pad_def by (simp only: append_assoc)
  then have "absorbed P iv (md_pad m) c3" using c3(2) by (simp only:)
  then have "hc_state c3 = chain P iv (md_pad m)" by (simp add: absorbed_def)
  moreover have "length (chain P iv (md_pad m)) = length iv" by (rule length_chain [OF words]) simp_all
  ultimately show ?thesis using c1(1) c2(1) c3(1) by (simp add: hash_final_def digest_def)
qed

lemma init_absorbed: "length g = 64 \<Longrightarrow> absorbed P iv [] (hash_init iv g)"
  by (simp add: absorbed_def hash_init_def chain_def)

lemma feed_absorbs:
  "absorbed P iv m c \<Longrightarrow> \<forall>(d, n) \<in> set ps. unat n \<le> length d \<Longrightarrow>
    \<exists>c'. feed P ps c = Some c' \<and> absorbed P iv (m @ concat (map (\<lambda>(d, n). take (unat n) d) ps)) c'"
proof (induction ps arbitrary: m c)
  case (Cons p ps)
  obtain d n where p: "p = (d, n)" by fastforce
  from update_absorbs [OF Cons.prems(1), of n d] Cons.prems(2) p obtain c1
    where c1: "hash_update P d n c = Some c1" "absorbed P iv (m @ take (unat n) d) c1" by auto
  from Cons.IH [OF c1(2)] Cons.prems(2) c1(1) p show ?case by auto
qed simp

lemma stream_digest:
  assumes "length g = 64" and "\<forall>(d, n) \<in> set ps. unat n \<le> length d"
  shows "\<exists>c. feed P ps (hash_init iv g) = Some c \<and>
    hash_final P (length iv) c = Some (digest P iv (concat (map (\<lambda>(d, n). take (unat n) d) ps)))"
  using feed_absorbs [OF init_absorbed [OF assms(1)] assms(2)] final_digest by auto

lemma hash_of_digest:
  "\<forall>(d, n) \<in> set ps. unat n \<le> length d \<Longrightarrow>
    hash_of P iv ps = Some (digest P iv (concat (map (\<lambda>(d, n). take (unat n) d) ps)))"
  using stream_digest [of "replicate 64 0" ps] by (auto simp: hash_of_def)

lemma hmac_correct:
  assumes "unat key_len \<le> length key" and "unat data_len \<le> length data"
  shows "hmac P iv key key_len data data_len =
    Some (hmac_spec (digest P iv) (take (unat key_len) key) (take (unat data_len) data))"
proof -
  let ?key = "take (unat key_len) key"
  let ?k = "if length ?key > 64 then digest P iv ?key else ?key"
  have long: "key_len > 64 \<longleftrightarrow> length ?key > 64" using assms(1) by (simp add: word_less_nat_alt)
  have kb: "hmac_key_block P iv key key_len = Some (?k @ replicate (64 - length ?k) 0)"
    unfolding hmac_key_block_def long using hash_of_digest [of "[(key, key_len)]"] assms(1) by simp
  let ?k0 = "?k @ replicate (64 - length ?k) 0"
  have "length ?k \<le> 64" using length_digest [of ?key] small by auto
  then have l0: "length ?k0 = 64" by simp
  let ?i = "map (\<lambda>b. b XOR 0x36) ?k0" and ?o = "map (\<lambda>b. b XOR 0x5c) ?k0"
  let ?in = "digest P iv (?i @ take (unat data_len) data)"
  have inner: "hash_of P iv [(?i, 64), (data, data_len)] = Some ?in"
    using hash_of_digest [of "[(?i, 64), (data, data_len)]"] assms(2) l0 by simp
  have n: "unat (4 * word_of_nat (length iv) :: u32) = 4 * length iv"
    using small by (simp add: unat_word_ariths unsigned_of_nat take_bit_nat_eq_self)
  have outer: "hash_of P iv [(?o, 64), (?in, 4 * word_of_nat (length iv))] = Some (digest P iv (?o @ ?in))"
    using hash_of_digest [of "[(?o, 64), (?in, 4 * word_of_nat (length iv))]"] l0 n length_digest by simp
  show ?thesis unfolding hmac_def kb Let_def hmac_spec_def
    by (simp only: bind.bind_lunit inner outer)
qed

end

lemma length_sha256_process: "length (sha256_process_block s b) = 8"
  by (simp add: sha256_process_block_def split: prod.split)

lemma length_sha1_process: "length (sha1_process_block s b) = 5"
  by (simp add: sha1_process_block_def split: prod.split)

lemma length_sha256_iv: "length sha256_iv = 8"
  by (simp add: sha256_iv_def)

interpretation sha256: merkle_damgard sha256_process_block sha256_iv
  by unfold_locales (simp_all add: length_sha256_process sha256_iv_def)

interpretation sha1: merkle_damgard sha1_process_block sha1_iv
  by unfold_locales (simp_all add: length_sha1_process sha1_iv_def)

section \<open>SHA-256 as published\<close>

text \<open>
  The message schedule and the round function of FIPS 180-4, over the rotation of words: the schedule
  by its recurrence, where the code fills an array from left to right.
\<close>

definition sigma0 :: "u32 \<Rightarrow> u32" where
  "sigma0 x = word_rotr 7 x XOR word_rotr 18 x XOR drop_bit 3 x"

definition sigma1 :: "u32 \<Rightarrow> u32" where
  "sigma1 x = word_rotr 17 x XOR word_rotr 19 x XOR drop_bit 10 x"

definition Sigma0 :: "u32 \<Rightarrow> u32" where
  "Sigma0 x = word_rotr 2 x XOR word_rotr 13 x XOR word_rotr 22 x"

definition Sigma1 :: "u32 \<Rightarrow> u32" where
  "Sigma1 x = word_rotr 6 x XOR word_rotr 11 x XOR word_rotr 25 x"

definition Ch :: "u32 \<Rightarrow> u32 \<Rightarrow> u32 \<Rightarrow> u32" where
  "Ch x y z = (x AND y) XOR (NOT x AND z)"

definition Maj :: "u32 \<Rightarrow> u32 \<Rightarrow> u32 \<Rightarrow> u32" where
  "Maj x y z = (x AND y) XOR (x AND z) XOR (y AND z)"

fun fips_W :: "u8 list \<Rightarrow> nat \<Rightarrow> u32" where
  "fips_W M t =
     (if t < 16 then word_rcat (get_bytes (4 * t) 4 M)
      else sigma1 (fips_W M (t - 2)) + fips_W M (t - 7) + sigma0 (fips_W M (t - 15)) + fips_W M (t - 16))"

declare fips_W.simps [simp del]

definition fips_round :: "u8 list \<Rightarrow> sha256_regs \<Rightarrow> nat \<Rightarrow> sha256_regs" where
  "fips_round M = (\<lambda>(a, b, c, d, e, f, g, h) t.
     let T1 = h + Sigma1 e + Ch e f g + sha256_K ! t + fips_W M t; T2 = Sigma0 a + Maj a b c
     in (T1 + T2, a, b, c, d + T1, e, f, g))"

definition fips_block :: block_fn where
  "fips_block H M = (case foldl (fips_round M) (H ! 0, H ! 1, H ! 2, H ! 3, H ! 4, H ! 5, H ! 6, H ! 7) [0..<64] of
     (a, b, c, d, e, f, g, h) \<Rightarrow> map2 (+) [a, b, c, d, e, f, g, h] H)"

definition fips_sha256 :: "u8 list \<Rightarrow> u8 list" where
  "fips_sha256 = digest fips_block sha256_iv"

lemma rotr_word: "0 < n \<Longrightarrow> n < 32 \<Longrightarrow> rotr x n = word_rotr n x"
proof (rule bit_word_eqI)
  fix i assume n: "0 < n" "n < 32" and "i < LENGTH(32)"
  then have i: "i < 32" by simp
  show "bit (rotr x n) i = bit (word_rotr n x) i"
  proof (cases "i + n < 32")
    case True
    then show ?thesis using i n by (auto simp: rotr_def bit_simps add.commute)
  next
    case False
    then have "(i + n) mod 32 = i + n - 32" using i n by (simp add: mod_if)
    then show ?thesis using i n False bit_imp_le_length [of x "n + i"] by (auto simp: rotr_def bit_simps add.commute)
  qed
qed

lemma word_rcat_bytes:
  "word_rcat [a, b, c, d :: u8] =
     (push_bit 24 (ucast a) OR push_bit 16 (ucast b) OR push_bit 8 (ucast c) OR ucast d :: u32)"
proof -
  have step: "push_bit n (ucast x) OR w = push_bit n (ucast x) + w" if "take_bit n w = w" for n and x :: u8 and w :: u32
  proof (rule disjunctive_add_eq_or [symmetric])
    have "bit w i \<Longrightarrow> i < n" for i by (metis that bit_take_bit_iff)
    then show "push_bit n (ucast x) AND w = 0" by (auto intro!: bit_word_eqI simp: bit_simps simp flip: not_le)
  qed
  note uc = bit_u8_u32
  have small: "take_bit 8 (ucast d :: u32) = ucast d"
    "take_bit 16 (push_bit 8 (ucast c) OR ucast d :: u32) = push_bit 8 (ucast c) OR ucast d"
    "take_bit 24 (push_bit 16 (ucast b) OR push_bit 8 (ucast c) OR ucast d :: u32) =
      push_bit 16 (ucast b) OR push_bit 8 (ucast c) OR ucast d"
    by (auto intro!: bit_word_eqI simp: bit_or_iff bit_push_bit_iff bit_take_bit_iff uc)
  have "word_rcat [a, b, c, d] = (ucast d + 2 ^ 8 * (ucast c + 2 ^ 8 * (ucast b + 2 ^ 8 * ucast a)) :: u32)"
    by (simp add: word_rcat_def)
  then show ?thesis unfolding step [OF small(3)] unfolding step [OF small(2)] unfolding step [OF small(1)]
    by (simp add: push_bit_eq_mult algebra_simps)
qed

lemma be_word_rcat:
  assumes "4 * t + 4 \<le> length M"
  shows "be_word M t = word_rcat (get_bytes (4 * t) 4 M)"
proof -
  have "get_bytes (4 * t) 4 M = [M ! (t * 4), M ! (t * 4 + 1), M ! (t * 4 + 2), M ! (t * 4 + 3)]"
    using assms by (auto simp: get_bytes_def list_eq_iff_nth_eq less_Suc_eq_0_disj numeral_eq_Suc mult.commute)
  then show ?thesis by (simp only: be_word_def word_rcat_bytes)
qed

lemma sha256_schedule_W:
  assumes "length M = 64" and "n \<le> 48"
  shows "foldl sha256_extend (map (be_word M) [0..<16]) [16..<16 + n] = map (fips_W M) [0..<16 + n]"
  using assms(2)
proof (induction n)
  case 0
  show ?case using assms(1) by (auto simp: be_word_rcat fips_W.simps)
next
  case (Suc n)
  have "fips_W M (16 + n) = fips_W M n + sigma0 (fips_W M (n + 1)) + fips_W M (n + 9) + sigma1 (fips_W M (n + 14))"
    by (subst fips_W.simps) (simp add: add.commute add.left_commute)
  then have ext: "sha256_extend (map (fips_W M) [0..<16 + n]) (16 + n) = map (fips_W M) [0..<16 + n] @ [fips_W M (16 + n)]"
    by (simp add: sha256_extend_def rotr_word sigma0_def sigma1_def Let_def add.commute del: upt_Suc)
  have "[16..<16 + Suc n] = [16..<16 + n] @ [16 + n]" "[0..<16 + Suc n] = [0..<16 + n] @ [16 + n]"
    unfolding add_Suc_right by (simp_all only: upt_Suc_append le_add1 zero_le)
  with Suc ext show ?case by (simp only: foldl_append) simp
qed

lemma fips_block_eq:
  assumes "length s = 8" and "length b = 64"
  shows "sha256_process_block s b = fips_block s b"
proof -
  have W: "sha256_schedule b = map (fips_W b) [0..<64]"
    using sha256_schedule_W [OF assms(2), of 48] by (simp add: sha256_schedule_def)
  have round: "sha256_round (sha256_schedule b) r t = fips_round b r t" if "t < 64" for r t
    using that unfolding W
    by (simp add: sha256_round_def fips_round_def rotr_word Sigma0_def Sigma1_def Ch_def Maj_def split: prod.split)
  have "foldl (sha256_round (sha256_schedule b)) r [0..<64] = foldl (fips_round b) r [0..<64]" for r
    by (rule foldl_cong) (simp_all add: round)
  moreover have "s = map ((!) s) [0..<8]" using assms(1) by (metis map_nth)
  then have "s = [s ! 0, s ! 1, s ! 2, s ! 3, s ! 4, s ! 5, s ! 6, s ! 7]" by (simp add: upt_rec eval_nat_numeral)
  then have "map2 (+) ws s = map2 (+) ws [s ! 0, s ! 1, s ! 2, s ! 3, s ! 4, s ! 5, s ! 6, s ! 7]" for ws
    by (rule arg_cong)
  ultimately show ?thesis unfolding sha256_process_block_def fips_block_def
    by (simp add: add.commute split: prod.split)
qed

lemma fips_digest: "digest sha256_process_block sha256_iv m = fips_sha256 m"
proof -
  have "foldl sha256_process_block s bs = foldl fips_block s bs"
    if "length s = 8" "\<forall>b \<in> set bs. length b = 64" for s bs
    using that
  proof (induction bs arbitrary: s)
    case (Cons b bs)
    then have "length (sha256_process_block s b) = 8" by (simp add: length_sha256_process)
    with Cons show ?case by (simp add: fips_block_eq [symmetric])
  qed simp
  moreover have "length (block_at x i) = 64" if "i < length x div 64" for x i
    using that by (auto simp: block_at_def get_bytes_def)
  ultimately show ?thesis by (simp add: fips_sha256_def digest_def chain_def sha256_iv_def)
qed

section \<open>Correctness\<close>

text \<open>
  C10. sha256_init, any number of calls of sha256_update that cut a message into pieces of any sizes, and
  sha256_final return, and compute the SHA-256 of FIPS 180-4 of the whole message, whatever bytes the
  buffer of the context holds at the start.
\<close>

theorem sha256_streaming_fips:
  assumes "length garbage = 64" and "\<forall>(data, len) \<in> set pieces. unat len \<le> length data"
  shows "\<exists>c. feed sha256_process_block pieces (sha256_init garbage) = Some c \<and>
    sha256_final c = Some (fips_sha256 (concat (map (\<lambda>(data, len). take (unat len) data) pieces)))"
  using sha256.stream_digest [OF assms] 
  by (simp add: sha256_init_def sha256_final_def fips_digest length_sha256_iv)

theorem sha256_streaming_fips_witness:
  "\<exists>c. feed sha256_process_block [([0x61], 1), ([0x62, 0x63, 0x64], 2)] (sha256_init (replicate 64 7)) = Some c \<and>
    sha256_final c = Some (fips_sha256 [0x61, 0x62, 0x63])"
  using sha256_streaming_fips [of "replicate 64 7" "[([0x61], 1), ([0x62, 0x63, 0x64], 2)]"] by simp

text \<open>
  hmac_sha256 returns for every key and message it can read, and is the HMAC of RFC 2104 over the
  SHA-256 of FIPS 180-4: keys longer than a block are hashed first, shorter ones are padded.
\<close>

theorem hmac_sha256_rfc2104:
  assumes "unat key_len \<le> length key" and "unat data_len \<le> length data"
  shows "hmac_sha256 key key_len data data_len =
    Some (hmac_spec fips_sha256 (take (unat key_len) key) (take (unat data_len) data))"
  using sha256.hmac_correct [OF assms] fips_digest by (simp add: hmac_sha256_def hmac_spec_def)

theorem hmac_sha256_rfc2104_witness:
  "hmac_sha256 (replicate 70 1) 70 [1, 2, 3] 2 = Some (hmac_spec fips_sha256 (replicate 70 1) [1, 2])"
  using hmac_sha256_rfc2104 [of 70 "replicate 70 1" 2 "[1, 2, 3]"] by simp

lemma length_sha1_iv: "length sha1_iv = 5"
  by (simp add: sha1_iv_def)

lemma hmac_sha1_correct:
  assumes "unat key_len \<le> length key" and "unat data_len = length data"
  shows "hmac_sha1 key key_len data data_len = Some (hmac_spec (digest sha1_process_block sha1_iv) (take (unat key_len) key) data)"
  using sha1.hmac_correct [OF assms(1), of data_len data] assms(2) by (simp add: hmac_sha1_def)

lemma length_hmac_sha1: "length (hmac_spec (digest sha1_process_block sha1_iv) key m) = 20"
  by (simp add: hmac_spec_def Let_def sha1.length_digest length_sha1_iv)

abbreviation hmac_sha1_spec :: "u8 list \<Rightarrow> u8 list \<Rightarrow> u8 list" where
  "hmac_sha1_spec \<equiv> hmac_spec (digest sha1_process_block sha1_iv)"

lemma length_pbkdf2_U: "length (pbkdf2_U (hmac_sha1_spec key) seed j) = 20"
  by (cases j) (simp_all add: length_hmac_sha1)

lemma pbkdf2_iterate_correct:
  assumes "unat pass_len \<le> length pass"
  shows "pbkdf2_iterate pass pass_len n (pbkdf2_U (hmac_sha1_spec (take (unat pass_len) pass)) seed j) out =
    Some (foldl (map2 (XOR)) out (map (pbkdf2_U (hmac_sha1_spec (take (unat pass_len) pass)) seed) [Suc j..<Suc j + n]))"
proof (induction n arbitrary: j out)
  case (Suc n)
  let ?U = "pbkdf2_U (hmac_sha1_spec (take (unat pass_len) pass)) seed"
  have "hmac_sha1 pass pass_len (?U j) 20 = Some (?U (Suc j))"
    using hmac_sha1_correct [OF assms, of 20 "?U j"] by (simp add: length_pbkdf2_U)
  moreover have "[Suc j..<Suc j + Suc n] = Suc j # [Suc (Suc j)..<Suc (Suc j) + n]" by (simp add: upt_rec)
  ultimately show ?case using Suc [of "Suc j"] by simp
qed simp

lemma pbkdf2_block_correct:
  assumes "unat pass_len \<le> length pass" and "unat salt_len \<le> length salt" and "unat salt_len \<le> 64"
  shows "pbkdf2_block pass pass_len salt salt_len iterations i =
    Some (pbkdf2_T (hmac_sha1_spec (take (unat pass_len) pass)) (take (unat salt_len) salt) (unat iterations) i)"
proof -
  let ?mac = "hmac_sha1_spec (take (unat pass_len) pass)" and ?seed = "take (unat salt_len) salt @ word_bytes i"
  have "unat (salt_len + 4) = length ?seed" using assms(2,3) by (simp add: unat_word_ariths)
  then have "hmac_sha1 pass pass_len ?seed (salt_len + 4) = Some (pbkdf2_U ?mac ?seed 0)"
    using hmac_sha1_correct [OF assms(1)] by simp
  moreover have "[1..<unat iterations] = [Suc 0..<Suc 0 + (unat iterations - 1)]" by (cases "unat iterations") simp_all
  ultimately show ?thesis
    using assms(2,3) pbkdf2_iterate_correct [OF assms(1), of "unat iterations - 1" ?seed 0]
    by (simp add: pbkdf2_block_def pbkdf2_T_def Let_def)
qed

lemma pbkdf2_loop_blocks:
  assumes "\<And>i. \<exists>b. blk i = Some b \<and> length b = 20"
  shows "pbkdf2_loop blk (word_of_nat i) n =
    Some (take n (concat (map (\<lambda>j. the (blk (word_of_nat (i + j)))) [0..<(n + 19) div 20])))"
proof (induction n arbitrary: i rule: less_induct)
  case (less n)
  show ?case
  proof (cases "n = 0")
    case False
    obtain b where b: "blk (word_of_nat i) = Some b" "length b = 20" using assms by blast
    let ?m = "n - min n 20"
    have q: "(n + 19) div 20 = Suc ((?m + 19) div 20)" using False by (cases "n \<le> 20") (auto simp: div_if)
    have tl: "map (\<lambda>j. the (blk (word_of_nat (i + j)))) [0..<(n + 19) div 20] =
        b # map (\<lambda>j. the (blk (word_of_nat (Suc i + j)))) [0..<(?m + 19) div 20]"
      unfolding q upt_conv_Cons [OF zero_less_Suc] by (simp add: b map_Suc_upt [symmetric] ac_simps del: upt_Suc)
    have "pbkdf2_loop blk (word_of_nat i + 1) ?m =
        Some (take ?m (concat (map (\<lambda>j. the (blk (word_of_nat (Suc i + j)))) [0..<(?m + 19) div 20])))"
      using less [of ?m "Suc i"] False by (simp add: add.commute)
    then show ?thesis unfolding tl using False b by (subst pbkdf2_loop.simps) (auto simp: min_def)
  qed (simp add: pbkdf2_loop.simps)
qed

text \<open>
  pbkdf2_sha1 returns for every passphrase, every salt of at most 64 bytes and every iteration count
  and output length, and computes the key of RFC 2898 over HMAC-SHA1: the first out_len bytes of the
  blocks 1, 2, ..., each the exclusive or of the iterates of the HMAC.
\<close>

theorem pbkdf2_sha1_rfc2898:
  assumes "unat pass_len \<le> length pass" and "unat salt_len \<le> length salt" and "unat salt_len \<le> 64"
  shows "pbkdf2_sha1 pass pass_len salt salt_len iterations out_len =
    Some (pbkdf2_spec (hmac_spec (digest sha1_process_block sha1_iv) (take (unat pass_len) pass))
      (take (unat salt_len) salt) (unat iterations) (unat out_len))"
proof -
  let ?T = "pbkdf2_T (hmac_sha1_spec (take (unat pass_len) pass)) (take (unat salt_len) salt) (unat iterations)"
  have len: "length (foldl (map2 (XOR)) u us) = 20" if "length u = 20" "\<forall>x \<in> set us. length x = 20" for u :: "u8 list" and us
    using that by (induction us arbitrary: u) simp_all
  have "length (?T i) = 20" for i
    unfolding pbkdf2_T_def Let_def by (rule len) (auto simp: length_pbkdf2_U length_hmac_sha1)
  then have "pbkdf2_loop (pbkdf2_block pass pass_len salt salt_len iterations) (word_of_nat 1) (unat out_len) =
      Some (take (unat out_len) (concat (map (\<lambda>j. ?T (word_of_nat (1 + j))) [0..<(unat out_len + 19) div 20])))"
    by (subst pbkdf2_loop_blocks) (simp_all add: pbkdf2_block_correct [OF assms])
  then show ?thesis by (simp add: pbkdf2_sha1_def pbkdf2_spec_def)
qed

theorem pbkdf2_sha1_rfc2898_witness:
  "pbkdf2_sha1 [1, 2, 3] 3 [4, 5] 2 4096 32 =
    Some (pbkdf2_spec (hmac_spec (digest sha1_process_block sha1_iv) [1, 2, 3]) [4, 5] 4096 32)"
  using pbkdf2_sha1_rfc2898 [of 3 "[1, 2, 3]" 2 "[4, 5]" 4096 32] by simp

section \<open>The constants\<close>

text \<open>
  The comments of the source say where its constants come from: the fractional parts of the cube
  roots of the first 64 primes and of the square roots of the first 8. The lemmas compute the tables
  anew: \<open>k / 2 ^ 32\<close> is the fraction of the \<open>e\<close>-th root of \<open>p\<close>, cut after 32 bits.
\<close>

definition primes64 :: "int list" where
  "primes64 = [
    2, 3, 5, 7, 11, 13, 17, 19, 23, 29, 31, 37, 41, 43, 47, 53,
    59, 61, 67, 71, 73, 79, 83, 89, 97, 101, 103, 107, 109, 113, 127, 131,
    137, 139, 149, 151, 157, 163, 167, 173, 179, 181, 191, 193, 197, 199, 211, 223,
    227, 229, 233, 239, 241, 251, 257, 263, 269, 271, 277, 281, 283, 293, 307, 311]"

definition root_fraction :: "nat \<Rightarrow> int \<Rightarrow> u32 \<Rightarrow> bool" where
  "root_fraction e p k \<longleftrightarrow>
     (let x = int (length (takeWhile (\<lambda>q. q ^ e \<le> p) [1, 2, 3, 4, 5, 6, 7])) * 2 ^ 32 + uint k
      in x ^ e \<le> p * 2 ^ (32 * e) \<and> p * 2 ^ (32 * e) < (x + 1) ^ e)"

lemma sha256_K_cube_roots: "list_all2 (root_fraction 3) primes64 sha256_K"
  by (simp add: primes64_def sha256_K_def root_fraction_def Let_def)

lemma sha256_iv_square_roots: "list_all2 (root_fraction 2) (take 8 primes64) sha256_iv"
  by (simp add: primes64_def sha256_iv_def root_fraction_def Let_def)

end
