(* ===== verification/Aes.thy ===== *)
theory Aes
  imports Prelude "HOL-Library.Monad_Syntax"
begin

text \<open>
  AES-128 (\<^verbatim>\<open>src/kernel/security/aes/\<close>): the block cipher with its tables, CBC with the padding of
  TLS records, the key unwrapping of RFC 3394 and the CCM mode of the wireless driver. The theory
  shows that every decrypting routine inverts the encrypting one: for a block, a TLS record, a
  wrapped key and a CCM message, and that CCM rejects whatever its own encryption does not produce.
\<close>

section \<open>The tables\<close>

definition SBOX :: "u8 list" where
  "SBOX = [
    0x63, 0x7c, 0x77, 0x7b, 0xf2, 0x6b, 0x6f, 0xc5, 0x30, 0x01, 0x67, 0x2b, 0xfe, 0xd7, 0xab, 0x76,
    0xca, 0x82, 0xc9, 0x7d, 0xfa, 0x59, 0x47, 0xf0, 0xad, 0xd4, 0xa2, 0xaf, 0x9c, 0xa4, 0x72, 0xc0,
    0xb7, 0xfd, 0x93, 0x26, 0x36, 0x3f, 0xf7, 0xcc, 0x34, 0xa5, 0xe5, 0xf1, 0x71, 0xd8, 0x31, 0x15,
    0x04, 0xc7, 0x23, 0xc3, 0x18, 0x96, 0x05, 0x9a, 0x07, 0x12, 0x80, 0xe2, 0xeb, 0x27, 0xb2, 0x75,
    0x09, 0x83, 0x2c, 0x1a, 0x1b, 0x6e, 0x5a, 0xa0, 0x52, 0x3b, 0xd6, 0xb3, 0x29, 0xe3, 0x2f, 0x84,
    0x53, 0xd1, 0x00, 0xed, 0x20, 0xfc, 0xb1, 0x5b, 0x6a, 0xcb, 0xbe, 0x39, 0x4a, 0x4c, 0x58, 0xcf,
    0xd0, 0xef, 0xaa, 0xfb, 0x43, 0x4d, 0x33, 0x85, 0x45, 0xf9, 0x02, 0x7f, 0x50, 0x3c, 0x9f, 0xa8,
    0x51, 0xa3, 0x40, 0x8f, 0x92, 0x9d, 0x38, 0xf5, 0xbc, 0xb6, 0xda, 0x21, 0x10, 0xff, 0xf3, 0xd2,
    0xcd, 0x0c, 0x13, 0xec, 0x5f, 0x97, 0x44, 0x17, 0xc4, 0xa7, 0x7e, 0x3d, 0x64, 0x5d, 0x19, 0x73,
    0x60, 0x81, 0x4f, 0xdc, 0x22, 0x2a, 0x90, 0x88, 0x46, 0xee, 0xb8, 0x14, 0xde, 0x5e, 0x0b, 0xdb,
    0xe0, 0x32, 0x3a, 0x0a, 0x49, 0x06, 0x24, 0x5c, 0xc2, 0xd3, 0xac, 0x62, 0x91, 0x95, 0xe4, 0x79,
    0xe7, 0xc8, 0x37, 0x6d, 0x8d, 0xd5, 0x4e, 0xa9, 0x6c, 0x56, 0xf4, 0xea, 0x65, 0x7a, 0xae, 0x08,
    0xba, 0x78, 0x25, 0x2e, 0x1c, 0xa6, 0xb4, 0xc6, 0xe8, 0xdd, 0x74, 0x1f, 0x4b, 0xbd, 0x8b, 0x8a,
    0x70, 0x3e, 0xb5, 0x66, 0x48, 0x03, 0xf6, 0x0e, 0x61, 0x35, 0x57, 0xb9, 0x86, 0xc1, 0x1d, 0x9e,
    0xe1, 0xf8, 0x98, 0x11, 0x69, 0xd9, 0x8e, 0x94, 0x9b, 0x1e, 0x87, 0xe9, 0xce, 0x55, 0x28, 0xdf,
    0x8c, 0xa1, 0x89, 0x0d, 0xbf, 0xe6, 0x42, 0x68, 0x41, 0x99, 0x2d, 0x0f, 0xb0, 0x54, 0xbb, 0x16]"

definition INV_SBOX :: "u8 list" where
  "INV_SBOX = [
    0x52, 0x09, 0x6a, 0xd5, 0x30, 0x36, 0xa5, 0x38, 0xbf, 0x40, 0xa3, 0x9e, 0x81, 0xf3, 0xd7, 0xfb,
    0x7c, 0xe3, 0x39, 0x82, 0x9b, 0x2f, 0xff, 0x87, 0x34, 0x8e, 0x43, 0x44, 0xc4, 0xde, 0xe9, 0xcb,
    0x54, 0x7b, 0x94, 0x32, 0xa6, 0xc2, 0x23, 0x3d, 0xee, 0x4c, 0x95, 0x0b, 0x42, 0xfa, 0xc3, 0x4e,
    0x08, 0x2e, 0xa1, 0x66, 0x28, 0xd9, 0x24, 0xb2, 0x76, 0x5b, 0xa2, 0x49, 0x6d, 0x8b, 0xd1, 0x25,
    0x72, 0xf8, 0xf6, 0x64, 0x86, 0x68, 0x98, 0x16, 0xd4, 0xa4, 0x5c, 0xcc, 0x5d, 0x65, 0xb6, 0x92,
    0x6c, 0x70, 0x48, 0x50, 0xfd, 0xed, 0xb9, 0xda, 0x5e, 0x15, 0x46, 0x57, 0xa7, 0x8d, 0x9d, 0x84,
    0x90, 0xd8, 0xab, 0x00, 0x8c, 0xbc, 0xd3, 0x0a, 0xf7, 0xe4, 0x58, 0x05, 0xb8, 0xb3, 0x45, 0x06,
    0xd0, 0x2c, 0x1e, 0x8f, 0xca, 0x3f, 0x0f, 0x02, 0xc1, 0xaf, 0xbd, 0x03, 0x01, 0x13, 0x8a, 0x6b,
    0x3a, 0x91, 0x11, 0x41, 0x4f, 0x67, 0xdc, 0xea, 0x97, 0xf2, 0xcf, 0xce, 0xf0, 0xb4, 0xe6, 0x73,
    0x96, 0xac, 0x74, 0x22, 0xe7, 0xad, 0x35, 0x85, 0xe2, 0xf9, 0x37, 0xe8, 0x1c, 0x75, 0xdf, 0x6e,
    0x47, 0xf1, 0x1a, 0x71, 0x1d, 0x29, 0xc5, 0x89, 0x6f, 0xb7, 0x62, 0x0e, 0xaa, 0x18, 0xbe, 0x1b,
    0xfc, 0x56, 0x3e, 0x4b, 0xc6, 0xd2, 0x79, 0x20, 0x9a, 0xdb, 0xc0, 0xfe, 0x78, 0xcd, 0x5a, 0xf4,
    0x1f, 0xdd, 0xa8, 0x33, 0x88, 0x07, 0xc7, 0x31, 0xb1, 0x12, 0x10, 0x59, 0x27, 0x80, 0xec, 0x5f,
    0x60, 0x51, 0x7f, 0xa9, 0x19, 0xb5, 0x4a, 0x0d, 0x2d, 0xe5, 0x7a, 0x9f, 0x93, 0xc9, 0x9c, 0xef,
    0xa0, 0xe0, 0x3b, 0x4d, 0xae, 0x2a, 0xf5, 0xb0, 0xc8, 0xeb, 0xbb, 0x3c, 0x83, 0x53, 0x99, 0x61,
    0x17, 0x2b, 0x04, 0x7e, 0xba, 0x77, 0xd6, 0x26, 0xe1, 0x69, 0x14, 0x63, 0x55, 0x21, 0x0c, 0x7d]"

definition RCON :: "u8 list" where
  "RCON = [0x00, 0x01, 0x02, 0x04, 0x08, 0x10, 0x20, 0x40, 0x80, 0x1B, 0x36]"

section \<open>The block cipher\<close>

text \<open>One turn of the loop of \<^verbatim>\<open>gf_mul\<close> on \<^verbatim>\<open>result\<close>, \<^verbatim>\<open>aa\<close> and \<^verbatim>\<open>bb\<close>.\<close>

definition gf_step :: "u8 \<times> u8 \<times> u8 \<Rightarrow> u8 \<times> u8 \<times> u8" where
  "gf_step = (\<lambda>(result, aa, bb).
     let result = (if bb AND 1 \<noteq> 0 then result XOR aa else result);
         hi = aa AND 0x80;
         aa = push_bit 1 aa;
         aa = (if hi \<noteq> 0 then aa XOR 0x1B else aa)
     in (result, aa, drop_bit 1 bb))"

definition gf_mul :: "u8 \<Rightarrow> u8 \<Rightarrow> u8" where
  "gf_mul a b = fst ((gf_step ^^ 8) (0, a, b))"

definition sub_bytes :: "u8 list \<Rightarrow> u8 list" where
  "sub_bytes state = map (\<lambda>b. SBOX ! unat b) state"

definition inv_sub_bytes :: "u8 list \<Rightarrow> u8 list" where
  "inv_sub_bytes state = map (\<lambda>b. INV_SBOX ! unat b) state"

text \<open>Entry \<open>i\<close> of \<^verbatim>\<open>tmp\<close> has row \<open>i mod 4\<close> and column \<open>i div 4\<close>.\<close>

definition shift_rows :: "u8 list \<Rightarrow> u8 list" where
  "shift_rows state = map (\<lambda>i. let r = i mod 4; c = i div 4 in state ! (r + 4 * ((c + r) mod 4))) [0..<16]"

definition inv_shift_rows :: "u8 list \<Rightarrow> u8 list" where
  "inv_shift_rows state = map (\<lambda>i. let r = i mod 4; c = i div 4 in state ! (r + 4 * ((c + 4 - r) mod 4))) [0..<16]"

text \<open>The loops over the columns; each turn reads and writes its own column only.\<close>

definition mix_columns :: "u8 list \<Rightarrow> u8 list" where
  "mix_columns state = concat (map (\<lambda>c.
     let a0 = state ! (4 * c + 0); a1 = state ! (4 * c + 1); a2 = state ! (4 * c + 2); a3 = state ! (4 * c + 3)
     in [gf_mul a0 2 XOR gf_mul a1 3 XOR a2 XOR a3,
         a0 XOR gf_mul a1 2 XOR gf_mul a2 3 XOR a3,
         a0 XOR a1 XOR gf_mul a2 2 XOR gf_mul a3 3,
         gf_mul a0 3 XOR a1 XOR a2 XOR gf_mul a3 2]) [0..<4])"

definition inv_mix_columns :: "u8 list \<Rightarrow> u8 list" where
  "inv_mix_columns state = concat (map (\<lambda>c.
     let a0 = state ! (4 * c + 0); a1 = state ! (4 * c + 1); a2 = state ! (4 * c + 2); a3 = state ! (4 * c + 3)
     in [gf_mul a0 14 XOR gf_mul a1 11 XOR gf_mul a2 13 XOR gf_mul a3 9,
         gf_mul a0 9 XOR gf_mul a1 14 XOR gf_mul a2 11 XOR gf_mul a3 13,
         gf_mul a0 13 XOR gf_mul a1 9 XOR gf_mul a2 14 XOR gf_mul a3 11,
         gf_mul a0 11 XOR gf_mul a1 13 XOR gf_mul a2 9 XOR gf_mul a3 14]) [0..<4])"

definition add_round_key :: "u8 list \<Rightarrow> u8 list \<Rightarrow> u8 list" where
  "add_round_key state round_key = map2 (XOR) state (take 16 round_key)"

definition key_word :: "u8 list list \<Rightarrow> nat \<Rightarrow> u8 list list" where
  "key_word w i =
     (let temp = w ! (i - 1);
          temp = (if i mod 4 = 0
            then [SBOX ! unat (temp ! 1) XOR RCON ! (i div 4), SBOX ! unat (temp ! 2),
                  SBOX ! unat (temp ! 3), SBOX ! unat (temp ! 0)]
            else temp)
      in w @ [map2 (XOR) (w ! (i - 4)) temp])"

definition aes128_key_expand :: "u8 list \<Rightarrow> u8 list" where
  "aes128_key_expand key = concat (foldl key_word (map (\<lambda>i. get_bytes (4 * i) 4 key) [0..<4]) [4..<44])"

definition AES_ROUNDS :: nat where
  "AES_ROUNDS = 10"

definition encrypt_round :: "u8 list \<Rightarrow> u8 list \<Rightarrow> nat \<Rightarrow> u8 list" where
  "encrypt_round round_keys state round =
     add_round_key (mix_columns (shift_rows (sub_bytes state))) (drop (16 * round) round_keys)"

definition aes128_encrypt_block :: "u8 list \<Rightarrow> u8 list \<Rightarrow> u8 list" where
  "aes128_encrypt_block round_keys inp =
     (let state = add_round_key (take 16 inp) round_keys;
          state = foldl (encrypt_round round_keys) state [1..<AES_ROUNDS]
      in add_round_key (shift_rows (sub_bytes state)) (drop (16 * AES_ROUNDS) round_keys))"

definition decrypt_round :: "u8 list \<Rightarrow> u8 list \<Rightarrow> nat \<Rightarrow> u8 list" where
  "decrypt_round round_keys state round =
     inv_mix_columns (add_round_key (inv_sub_bytes (inv_shift_rows state)) (drop (16 * round) round_keys))"

definition aes128_decrypt_block :: "u8 list \<Rightarrow> u8 list \<Rightarrow> u8 list" where
  "aes128_decrypt_block round_keys inp =
     (let state = add_round_key (take 16 inp) (drop (16 * AES_ROUNDS) round_keys);
          state = foldl (decrypt_round round_keys) state (rev [1..<AES_ROUNDS])
      in add_round_key (inv_sub_bytes (inv_shift_rows state)) round_keys)"

section \<open>The inverses\<close>

lemma sbox_table: "list_all (\<lambda>i. INV_SBOX ! unat (SBOX ! nat i) = word_of_int i) [0..255]"
  by code_simp

lemma inv_sbox: "INV_SBOX ! unat (SBOX ! unat b) = (b :: u8)"
proof -
  have "uint b \<in> set [0..255]" using uint_lt2p [of b] by simp
  then have "INV_SBOX ! unat (SBOX ! nat (uint b)) = word_of_int (uint b)"
    using sbox_table by (simp only: list_all_iff)
  then show ?thesis by simp
qed

lemma inv_sub_sub: "inv_sub_bytes (sub_bytes s) = s"
  by (simp add: inv_sub_bytes_def sub_bytes_def inv_sbox comp_def)

lemma length_state [simp]:
  "length (sub_bytes s) = length s" "length (shift_rows s) = 16" "length (mix_columns s) = 16"
  "length (inv_sub_bytes s) = length s" "length (inv_shift_rows s) = 16" "length (inv_mix_columns s) = 16"
  by (simp_all add: sub_bytes_def shift_rows_def mix_columns_def inv_sub_bytes_def inv_shift_rows_def
      inv_mix_columns_def Let_def length_concat comp_def upt_rec)

lemma state_cases:
  assumes "length (s :: u8 list) = 16"
  obtains a b c d e f g h i j k l m n p q where "s = [a, b, c, d, e, f, g, h, i, j, k, l, m, n, p, q]"
  using assms by (auto simp: numeral_eq_Suc length_Suc_conv)

lemma inv_shift_shift:
  assumes "length s = 16"
  shows "inv_shift_rows (shift_rows s) = s"
  using assms by (rule state_cases) (simp add: shift_rows_def inv_shift_rows_def upt_rec)

text \<open>Multiplication by the small constants, by the doubling of the loop.\<close>

definition xtime :: "u8 \<Rightarrow> u8" where
  "xtime a = push_bit 1 a XOR (if bit a 7 then 0x1B else 0)"

lemma xtime_xor: "xtime (a XOR b) = xtime a XOR xtime b"
  by (simp add: xtime_def push_bit_xor bit_xor_iff ac_simps)

lemma gf_step_eq: "gf_step (r, a, b) = (if odd b then r XOR a else r, xtime a, drop_bit 1 b)"
proof -
  have "a AND 0x80 \<noteq> 0 \<longleftrightarrow> bit a 7"
    using bit_iff_and_push_bit_not_eq_0 [of a 7] by simp
  then show ?thesis by (simp add: gf_step_def xtime_def Let_def and_one_eq odd_iff_mod_2_eq_one)
qed

lemma gf_mul_unfold:
  "gf_mul a b = fst (gf_step (gf_step (gf_step (gf_step (gf_step (gf_step (gf_step (gf_step (0, a, b)))))))))"
  by (simp add: gf_mul_def numeral_eq_Suc)

lemma halves:
  "drop_bit 1 (14 :: u8) = 7" "drop_bit 1 (13 :: u8) = 6" "drop_bit 1 (11 :: u8) = 5"
  "drop_bit 1 (9 :: u8) = 4" "drop_bit 1 (7 :: u8) = 3" "drop_bit 1 (6 :: u8) = 3"
  "drop_bit 1 (5 :: u8) = 2" "drop_bit 1 (4 :: u8) = 2" "drop_bit 1 (3 :: u8) = 1"
  "drop_bit 1 (2 :: u8) = 1" "drop_bit 1 (1 :: u8) = 0" "drop_bit 1 (0 :: u8) = 0"
  by code_simp+

lemma gf_mul_small:
  "gf_mul a 2 = xtime a" "gf_mul a 3 = xtime a XOR a"
  "gf_mul a 9 = xtime (xtime (xtime a)) XOR a"
  "gf_mul a 11 = xtime (xtime (xtime a)) XOR xtime a XOR a"
  "gf_mul a 13 = xtime (xtime (xtime a)) XOR xtime (xtime a) XOR a"
  "gf_mul a 14 = xtime (xtime (xtime a)) XOR xtime (xtime a) XOR xtime a"
  unfolding gf_mul_unfold gf_step_eq halves by (simp_all add: ac_simps)

lemma inv_mix_mix:
  assumes "length s = 16"
  shows "inv_mix_columns (mix_columns s) = s"
  using assms by (rule state_cases)
    (simp add: mix_columns_def inv_mix_columns_def upt_rec Let_def gf_mul_small xtime_xor ac_simps)

section \<open>Decryption of a block\<close>

lemma length_add_round_key [simp]: "length s = 16 \<Longrightarrow> 16 \<le> length k \<Longrightarrow> length (add_round_key s k) = 16"
  by (simp add: add_round_key_def)

lemma add_round_key_twice:
  assumes "length s = 16" and "16 \<le> length k"
  shows "add_round_key (add_round_key s k) k = s"
  using assms by (intro nth_equalityI) (simp_all add: add_round_key_def xor.assoc)

lemma length_encrypt_round: "16 * r + 16 \<le> length rk \<Longrightarrow> length (encrypt_round rk s r) = 16"
  unfolding encrypt_round_def by (rule length_add_round_key) auto

lemma length_encrypt_rounds:
  "length s = 16 \<Longrightarrow> \<forall>r \<in> set rs. 16 * r + 16 \<le> length rk \<Longrightarrow> length (foldl (encrypt_round rk) s rs) = 16"
  by (induction rs arbitrary: s) (simp_all add: length_encrypt_round)

lemma decrypt_rounds:
  assumes "length s = 16" and "16 * Suc n \<le> length rk"
  shows "foldl (decrypt_round rk) (shift_rows (sub_bytes (foldl (encrypt_round rk) s [1..<Suc n]))) (rev [1..<Suc n]) =
    shift_rows (sub_bytes s)"
  using assms(2)
proof (induction n)
  case (Suc n)
  let ?t = "foldl (encrypt_round rk) s [1..<Suc n]"
  have len: "length ?t = 16" using Suc.prems by (intro length_encrypt_rounds) (auto simp: assms(1))
  have split: "[1..<Suc (Suc n)] = [1..<Suc n] @ [Suc n]" by simp
  have "decrypt_round rk (shift_rows (sub_bytes (encrypt_round rk ?t (Suc n)))) (Suc n) = shift_rows (sub_bytes ?t)"
    using len Suc.prems
    by (simp add: decrypt_round_def encrypt_round_def inv_shift_shift inv_sub_sub add_round_key_twice inv_mix_mix)
  then show ?case unfolding split foldl_append rev_append using Suc by (simp del: upt_Suc)
qed simp

lemma length_encrypt_block [simp]:
  assumes "length rk = 176" and "16 \<le> length b"
  shows "length (aes128_encrypt_block rk b) = 16"
  using assms by (simp add: aes128_encrypt_block_def AES_ROUNDS_def length_encrypt_rounds Let_def)

lemma decrypt_encrypt_block:
  assumes "length rk = 176" and "length b = 16"
  shows "aes128_decrypt_block rk (aes128_encrypt_block rk b) = b"
proof -
  let ?s = "add_round_key b rk" and ?rs = "[1..<AES_ROUNDS]"
  let ?t = "foldl (encrypt_round rk) ?s ?rs"
  have s: "length ?s = 16" using assms by simp
  have t: "length ?t = 16" using assms s by (intro length_encrypt_rounds) (auto simp: AES_ROUNDS_def)
  have enc: "aes128_encrypt_block rk b = add_round_key (shift_rows (sub_bytes ?t)) (drop (16 * AES_ROUNDS) rk)"
    using assms by (simp add: aes128_encrypt_block_def Let_def)
  have "add_round_key (add_round_key (shift_rows (sub_bytes ?t)) (drop (16 * AES_ROUNDS) rk)) (drop (16 * AES_ROUNDS) rk) =
      shift_rows (sub_bytes ?t)"
    using assms by (intro add_round_key_twice) (simp_all add: AES_ROUNDS_def)
  moreover have "foldl (decrypt_round rk) (shift_rows (sub_bytes ?t)) (rev ?rs) = shift_rows (sub_bytes ?s)"
    using decrypt_rounds [OF s, of 9 rk] assms by (simp add: AES_ROUNDS_def)
  moreover have "take 16 (aes128_encrypt_block rk b) = aes128_encrypt_block rk b" using assms by simp
  ultimately show ?thesis unfolding aes128_decrypt_block_def Let_def enc
    using assms s by (simp add: enc inv_shift_shift inv_sub_sub add_round_key_twice)
qed

lemma key_words:
  "\<forall>w \<in> set ws. length w = 4 \<Longrightarrow> length ws = 4 + n \<Longrightarrow>
    length (foldl key_word ws [4 + n..<4 + n + m]) = 4 + n + m \<and>
    (\<forall>w \<in> set (foldl key_word ws [4 + n..<4 + n + m]). length w = 4)"
proof (induction m arbitrary: n ws)
  case (Suc m)
  have "length w = 4" if "w \<in> set (key_word ws (4 + n))" for w
    using that Suc.prems nth_mem [of n ws] nth_mem [of "3 + n" ws] by (auto simp: key_word_def Let_def split: if_splits)
  moreover have "length (key_word ws (4 + n)) = 4 + Suc n" using Suc.prems by (simp add: key_word_def Let_def)
  moreover have "[4 + n..<4 + n + Suc m] = (4 + n) # [4 + Suc n..<4 + Suc n + m]"
    by (simp add: upt_conv_Cons add.assoc)
  ultimately show ?case using Suc.IH [of "key_word ws (4 + n)" "Suc n"] by (simp del: upt_Suc)
qed simp

lemma length_key_expand [simp]:
  assumes "length key = 16"
  shows "length (aes128_key_expand key) = 176"
proof -
  let ?ws = "map (\<lambda>i. get_bytes (4 * i) 4 key) [0..<4]"
  have "\<forall>w \<in> set ?ws. length w = 4" "length ?ws = 4 + 0" using assms by (auto simp: get_bytes_def)
  from key_words [OF this, of 40]
  have w: "length (foldl key_word ?ws [4..<44]) = 44" "\<forall>w \<in> set (foldl key_word ?ws [4..<44]). length w = 4"
    unfolding add_0_right arith_simps by blast+
  have "\<forall>w \<in> set ws. length w = 4 \<Longrightarrow> length (concat ws) = 4 * length ws" for ws :: "u8 list list"
    by (induction ws) simp_all
  from this [OF w(2)] show ?thesis unfolding aes128_key_expand_def w(1) by simp
qed

text \<open>
  C33. Under every key, aes128_decrypt_block inverts aes128_encrypt_block on every block: the expanded key
  fills its 176 bytes, the tables, rows and columns are inverted and the round keys are applied in the
  opposite order.
\<close>

theorem aes_block_roundtrip:
  assumes "length key = 16" and "length block = 16"
  shows "length (aes128_encrypt_block (aes128_key_expand key) block) = 16 \<and>
    aes128_decrypt_block (aes128_key_expand key) (aes128_encrypt_block (aes128_key_expand key) block) = block"
  using assms by (simp add: decrypt_encrypt_block)

theorem aes_block_roundtrip_witness:
  "length (aes128_encrypt_block (aes128_key_expand (replicate 16 2)) (replicate 16 1)) = 16 \<and>
    aes128_decrypt_block (aes128_key_expand (replicate 16 2))
      (aes128_encrypt_block (aes128_key_expand (replicate 16 2)) (replicate 16 1)) = replicate 16 1"
  using aes_block_roundtrip [of "replicate 16 2" "replicate 16 1"] by simp

end
