(* ===== verification/Aes_Modes.thy ===== *)
theory Aes_Modes
  imports Aes "HOL-Library.Signed_Division"
begin

text \<open>
  The modes over the block cipher: CBC and the padded records of TLS (\<^verbatim>\<open>aes.c\<close>), the key unwrapping
  of RFC 3394 (\<^verbatim>\<open>aes_keywrap.c\<close>) and CCM as the wireless driver uses it (\<^verbatim>\<open>aes_ccm.c\<close>). A buffer
  that a function fills is part of its result; \<open>None\<close> is an access outside of a buffer.
\<close>

section \<open>CBC\<close>

definition AES_PKCS7_MAX_LEN :: int where
  "AES_PKCS7_MAX_LEN = 4096"

fun cbc_encrypt_loop :: "u8 list \<Rightarrow> u8 list \<Rightarrow> u8 list \<Rightarrow> nat \<Rightarrow> u8 list" where
  "cbc_encrypt_loop round_keys prev inp 0 = []"
| "cbc_encrypt_loop round_keys prev inp (Suc blocks) =
     (let block = map2 (XOR) (take 16 inp) prev;
          out = aes128_encrypt_block round_keys block
      in out @ cbc_encrypt_loop round_keys out (drop 16 inp) blocks)"

definition aes128_cbc_encrypt :: "u8 list \<Rightarrow> u8 list \<Rightarrow> u8 list \<Rightarrow> int \<Rightarrow> u8 list option" where
  "aes128_cbc_encrypt round_keys iv inp in_len =
     (let blocks = nat (in_len div 16)
      in if 16 * blocks \<le> length inp then Some (cbc_encrypt_loop round_keys (take 16 iv) inp blocks) else None)"

fun cbc_decrypt_loop :: "u8 list \<Rightarrow> u8 list \<Rightarrow> u8 list \<Rightarrow> nat \<Rightarrow> u8 list" where
  "cbc_decrypt_loop round_keys prev inp 0 = []"
| "cbc_decrypt_loop round_keys prev inp (Suc blocks) =
     (let decrypted = aes128_decrypt_block round_keys (take 16 inp)
      in map2 (XOR) decrypted prev @ cbc_decrypt_loop round_keys (take 16 inp) (drop 16 inp) blocks)"

definition aes128_cbc_decrypt :: "u8 list \<Rightarrow> u8 list \<Rightarrow> u8 list \<Rightarrow> int \<Rightarrow> u8 list option" where
  "aes128_cbc_decrypt round_keys iv inp in_len =
     (let blocks = nat (in_len div 16)
      in if 16 * blocks \<le> length inp then Some (cbc_decrypt_loop round_keys (take 16 iv) inp blocks) else None)"

text \<open>
  The result is the value returned and the bytes written to \<^verbatim>\<open>out\<close>. The sums of the lengths are of
  type \<^verbatim>\<open>int\<close> and overflow for lengths near its bound; a negative length makes the store of the last
  pad byte fall before the array.
\<close>

definition aes128_cbc_encrypt_tls :: "u8 list \<Rightarrow> u8 list \<Rightarrow> u8 list \<Rightarrow> int \<Rightarrow> int \<Rightarrow> (int \<times> u8 list) option" where
  "aes128_cbc_encrypt_tls round_keys iv inp in_len out_capacity =
     (if in_len + 16 \<ge> 2 ^ 31 then None
      else let pad_len = (16 - ((in_len + 1) smod 16)) smod 16; total = in_len + pad_len + 1
      in if total > out_capacity \<or> total > AES_PKCS7_MAX_LEN then Some (-1, [])
      else if in_len < 0 \<or> nat in_len > length inp then None
      else do {
        let padded = take (nat in_len) inp @ replicate (nat (total - 1 - in_len)) (word_of_int pad_len) @ [word_of_int pad_len];
        out \<leftarrow> aes128_cbc_encrypt round_keys iv padded total;
        Some (total, out)
      })"

definition aes128_cbc_decrypt_tls :: "u8 list \<Rightarrow> u8 list \<Rightarrow> u8 list \<Rightarrow> int \<Rightarrow> (int \<times> u8 list) option" where
  "aes128_cbc_decrypt_tls round_keys iv inp in_len =
     (if in_len \<le> 0 \<or> in_len smod 16 \<noteq> 0 \<or> in_len > AES_PKCS7_MAX_LEN then Some (-1, [])
      else do {
        decrypted \<leftarrow> aes128_cbc_decrypt round_keys iv inp in_len;
        let pad_len = decrypted ! nat (in_len - 1);
        if pad_len > 15 \<or> uint pad_len + 1 > in_len then Some (-1, [])
        else if \<not> list_all (\<lambda>b. b = pad_len) (get_bytes (nat (in_len - 1 - uint pad_len)) (unat pad_len) decrypted) then Some (-1, [])
        else let plain_len = in_len - uint pad_len - 1 in Some (plain_len, take (nat plain_len) decrypted)
      })"

section \<open>Key unwrapping\<close>

definition DEFAULT_IV :: "u8 list" where
  "DEFAULT_IV = [0xA6, 0xA6, 0xA6, 0xA6, 0xA6, 0xA6, 0xA6, 0xA6]"

definition xor_t :: "u8 list \<Rightarrow> u64 \<Rightarrow> u8 list" where
  "xor_t a t = map2 (XOR) a (map (\<lambda>i. ucast (drop_bit (56 - i * 8) t)) [0..<8])"

text \<open>The body of the inner loop on \<^verbatim>\<open>a\<close> and \<^verbatim>\<open>out\<close>; the product and the sum are of type \<^verbatim>\<open>u32\<close>.\<close>

definition unwrap_step :: "u8 list \<Rightarrow> u32 \<Rightarrow> u8 list \<times> u8 list \<Rightarrow> u32 \<times> nat \<Rightarrow> u8 list \<times> u8 list" where
  "unwrap_step round_keys n = (\<lambda>(a, out) (j, idx).
     let t = ucast (n * j + word_of_nat idx);
         a = xor_t a t;
         block = a @ get_bytes ((idx - 1) * 8) 8 out;
         decrypted = aes128_decrypt_block round_keys block
     in (take 8 decrypted, put_bytes ((idx - 1) * 8) (drop 8 decrypted) out))"

definition unwrap_turns :: "nat \<Rightarrow> (u32 \<times> nat) list" where
  "unwrap_turns n = concat (map (\<lambda>j. map (Pair j) (rev [1..<Suc n])) [5, 4, 3, 2, 1, 0])"

definition aes_key_unwrap :: "u8 list \<Rightarrow> u8 list \<Rightarrow> u32 \<Rightarrow> u8 list \<Rightarrow> (bool \<times> u8 list) option" where
  "aes_key_unwrap round_keys wrapped wrapped_len out =
     (if wrapped_len < 16 \<or> wrapped_len mod 8 \<noteq> 0 then Some (False, out)
      else let n = wrapped_len div 8 - 1
      in if length wrapped < unat wrapped_len \<or> length out < 8 * unat n then None
      else let out = (if 8 * unat n < 2 ^ 31 then put_bytes 0 (get_bytes 8 (8 * unat n) wrapped) out else out);
               (a, out) = foldl (unwrap_step round_keys n) (take 8 wrapped, out) (unwrap_turns (unat n))
           in Some (a = DEFAULT_IV, out))"

section \<open>CCM\<close>

definition build_b0 :: "u8 list \<Rightarrow> u32 \<Rightarrow> bool \<Rightarrow> u8 list" where
  "build_b0 nonce msg_len has_aad =
     [(if has_aad then 0x40 else 0) OR push_bit 3 3 OR 1] @ take 13 nonce @ [ucast (drop_bit 8 msg_len), ucast msg_len]"

definition build_a :: "u8 list \<Rightarrow> u32 \<Rightarrow> u8 list" where
  "build_a nonce counter = [0x01] @ take 13 nonce @ [ucast (drop_bit 8 counter), ucast counter]"

definition xor_block :: "u8 list \<Rightarrow> u8 list \<Rightarrow> u8 list" where
  "xor_block dst src = map2 (XOR) dst src"

text \<open>
  The loops over the additional data and over the message: the bytes already in the block, as many
  of the data as fit, zeros, one encryption. The block starts with two bytes for the additional data
  and empty in every other turn.
\<close>

function mac_loop :: "u8 list \<Rightarrow> u8 list \<Rightarrow> u8 list \<Rightarrow> u8 list \<Rightarrow> u8 list" where
  "mac_loop round_keys x filled data =
     (if data = [] \<or> 16 \<le> length filled then x
      else let chunk = take (16 - length filled) data;
               block = filled @ chunk @ replicate (16 - length filled - length chunk) 0
           in mac_loop round_keys (aes128_encrypt_block round_keys (xor_block x block)) [] (drop (16 - length filled) data))"
  by auto
termination
  by (relation "measure (\<lambda>(_, _, _, data). length data)") (auto simp flip: length_greater_0_conv)

declare mac_loop.simps [simp del]

definition cbc_mac :: "u8 list \<Rightarrow> u8 list \<Rightarrow> u8 list \<Rightarrow> u32 \<Rightarrow> u8 list \<Rightarrow> u32 \<Rightarrow> u8 list" where
  "cbc_mac round_keys nonce aad aad_len msg msg_len =
     (let x = aes128_encrypt_block round_keys (build_b0 nonce msg_len (aad_len > 0));
          x = (if aad_len > 0
            then mac_loop round_keys x [ucast (drop_bit 8 aad_len), ucast aad_len] (take (unat aad_len) aad) else x)
      in mac_loop round_keys x [] (take (unat msg_len) msg))"

function ctr_loop :: "u8 list \<Rightarrow> u8 list \<Rightarrow> u32 \<Rightarrow> u8 list \<Rightarrow> u8 list" where
  "ctr_loop round_keys nonce counter data =
     (if data = [] then []
      else let s = aes128_encrypt_block round_keys (build_a nonce counter)
           in map2 (XOR) (take 16 data) s @ ctr_loop round_keys nonce (counter + 1) (drop 16 data))"
  by auto
termination
  by (relation "measure (\<lambda>(_, _, _, data). length data)") (auto simp flip: length_greater_0_conv)

declare ctr_loop.simps [simp del]

definition ctr_crypt :: "u8 list \<Rightarrow> u8 list \<Rightarrow> u8 list \<Rightarrow> u32 \<Rightarrow> u8 list" where
  "ctr_crypt round_keys nonce inp len = ctr_loop round_keys nonce 1 (take (unat len) inp)"

definition mic_mask :: "u8 list \<Rightarrow> u8 list \<Rightarrow> u8 list" where
  "mic_mask round_keys nonce = take 8 (aes128_encrypt_block round_keys (build_a nonce 0))"

definition aes_ccm_encrypt ::
  "u8 list \<Rightarrow> u8 list \<Rightarrow> u8 list \<Rightarrow> u32 \<Rightarrow> u8 list \<Rightarrow> u32 \<Rightarrow> (u8 list \<times> u8 list) option" where
  "aes_ccm_encrypt round_keys nonce aad aad_len plaintext len =
     (if unat aad_len > length aad \<or> unat len > length plaintext then None
      else let mac = cbc_mac round_keys nonce aad aad_len plaintext len;
               out = ctr_crypt round_keys nonce plaintext len
           in Some (out, map2 (XOR) (take 8 mac) (mic_mask round_keys nonce)))"

definition aes_ccm_decrypt ::
  "u8 list \<Rightarrow> u8 list \<Rightarrow> u8 list \<Rightarrow> u32 \<Rightarrow> u8 list \<Rightarrow> u32 \<Rightarrow> u8 list \<Rightarrow> (bool \<times> u8 list) option" where
  "aes_ccm_decrypt round_keys nonce aad aad_len ciphertext len mic_in =
     (if unat aad_len > length aad \<or> unat len > length ciphertext then None
      else let out = ctr_crypt round_keys nonce ciphertext len;
               mac = cbc_mac round_keys nonce aad aad_len out len
           in Some (map2 (XOR) (take 8 mac) (mic_mask round_keys nonce) = take 8 mic_in, out))"

section \<open>CBC and TLS records\<close>

lemma xor_twice: "length a \<le> length b \<Longrightarrow> map2 (XOR) (map2 (XOR) a b) b = (a :: u8 list)"
  by (intro nth_equalityI) (simp_all add: xor.assoc)

lemma length_cbc_encrypt_loop:
  "length rk = 176 \<Longrightarrow> length prev = 16 \<Longrightarrow> 16 * n \<le> length inp \<Longrightarrow> length (cbc_encrypt_loop rk prev inp n) = 16 * n"
  by (induction n arbitrary: prev inp) (simp_all add: Let_def)

lemma cbc_decrypt_encrypt:
  "length rk = 176 \<Longrightarrow> length prev = 16 \<Longrightarrow> 16 * n \<le> length inp \<Longrightarrow>
    cbc_decrypt_loop rk prev (cbc_encrypt_loop rk prev inp n) n = take (16 * n) inp"
proof (induction n arbitrary: prev inp)
  case (Suc n)
  let ?c = "aes128_encrypt_block rk (map2 (XOR) (take 16 inp) prev)"
  have c: "length ?c = 16" using Suc.prems by simp
  have "aes128_decrypt_block rk ?c = map2 (XOR) (take 16 inp) prev" using Suc.prems by (simp add: decrypt_encrypt_block)
  moreover have "cbc_decrypt_loop rk ?c (cbc_encrypt_loop rk ?c (drop 16 inp) n) n = take (16 * n) (drop 16 inp)"
    using Suc.prems c by (intro Suc.IH) simp_all
  moreover have "take (16 * Suc n) inp = take 16 inp @ take (16 * n) (drop 16 inp)" by (simp add: take_add)
  ultimately show ?case using c Suc.prems by (simp add: Let_def xor_twice)
qed simp

lemma pad_total:
  fixes n :: int
  assumes "0 \<le> n"
  shows "(16 - (n + 1) smod 16) smod 16 = 15 - n mod 16" (is ?pad)
    and "n + (16 - (n + 1) smod 16) smod 16 + 1 = 16 * (n div 16 + 1)"
proof -
  have "(n + 1) smod 16 = (n + 1) mod 16" using assms by (simp add: smod_int_alt_def)
  moreover have "(16 - (n + 1) mod 16) smod 16 = (16 - (n + 1) mod 16) mod 16" by (simp add: smod_int_alt_def sgn_if)
  moreover have r: "0 \<le> n mod 16" "n mod 16 < 16" and n: "n = 16 * (n div 16) + n mod 16" by simp_all
  have "(n + 1) mod 16 = (if n mod 16 = 15 then 0 else n mod 16 + 1)"
    using r by (subst mod_add_left_eq [symmetric]) (simp add: mod_pos_pos_trivial)
  then have "16 - (n + 1) mod 16 = (if n mod 16 = 15 then 16 else 15 - n mod 16)" by simp
  moreover have "(15 - n mod 16) mod 16 = 15 - n mod 16" using r by (intro mod_pos_pos_trivial) auto
  ultimately show pad: ?pad by (auto split: if_splits)
  have "n + (15 - r) + 1 = 16 * (q + 1)" if "n = 16 * q + r" for q r using that by simp
  from this [OF n] show "n + (16 - (n + 1) smod 16) smod 16 + 1 = 16 * (n div 16 + 1)" unfolding pad .
qed

lemma encrypt_tls_record:
  assumes rk: "length rk = 176" and iv: "length iv = 16" and cap: "16 * (int (length m) div 16 + 1) \<le> cap"
    and max: "16 * (int (length m) div 16 + 1) \<le> 4096"
  defines "pad \<equiv> 15 - length m mod 16"
  shows "aes128_cbc_encrypt_tls rk iv m (int (length m)) cap =
    Some (16 * (int (length m) div 16 + 1),
      cbc_encrypt_loop rk iv (m @ replicate pad (word_of_nat pad) @ [word_of_nat pad]) (length m div 16 + 1))"
proof -
  let ?n = "int (length m)"
  let ?p = "(16 - ((?n + 1) smod 16)) smod 16"
  have tot: "?n + ?p + 1 = 16 * (?n div 16 + 1)" by (rule pad_total(2)) simp
  have p: "?p = int pad" using pad_total(1) [of ?n] by (simp add: pad_def of_nat_diff zmod_int)
  have small: "?n + 16 < 2 ^ 31" using tot p max by simp
  have blocks: "nat (16 * (?n div 16 + 1) div 16) = length m div 16 + 1" by (simp add: nat_add_distrib nat_div_distrib)
  have len: "length (m @ replicate pad (word_of_nat pad) @ [word_of_nat pad :: u8]) = 16 * (length m div 16 + 1)"
  proof -
    have "int (length m + pad + 1) = int (16 * (length m div 16 + 1))" using tot p by (simp add: zdiv_int)
    then show ?thesis by (simp only: of_nat_eq_iff) simp
  qed
  let ?padded = "m @ replicate pad (word_of_nat pad) @ [word_of_nat pad]"
  have enc: "aes128_cbc_encrypt rk iv ?padded (16 * (?n div 16 + 1)) = Some (cbc_encrypt_loop rk iv ?padded (length m div 16 + 1))"
    unfolding aes128_cbc_encrypt_def Let_def blocks len using iv by (simp only: le_refl if_True take_all)
  have "nat (16 * (?n div 16 + 1) - 1 - ?n) = pad" using tot p by simp
  then show ?thesis
    unfolding aes128_cbc_encrypt_tls_def Let_def tot using small cap max enc
    by (simp add: AES_PKCS7_MAX_LEN_def p del: cbc_encrypt_loop.simps)
qed

text \<open>The length of the record of a message of \<open>n\<close> bytes: one pad byte at least, then a multiple of the block.\<close>

definition record_len :: "nat \<Rightarrow> int" where
  "record_len n = 16 * (int n div 16 + 1)"

lemma record_padded:
  fixes m :: "u8 list"
  defines "pad \<equiv> 15 - length m mod 16"
  shows "length (m @ replicate pad (word_of_nat pad) @ [word_of_nat pad]) = 16 * (length m div 16 + 1)"
    and "record_len (length m) = int (length m + pad + 1)"
proof -
  have "n + (15 - r) + 1 = 16 * (q + 1)" if "n = 16 * q + r" "r < 16" for n q r :: nat using that by simp
  from this [of "length m" "length m div 16" "length m mod 16"]
  have eq: "length m + pad + 1 = 16 * (length m div 16 + 1)" unfolding pad_def by simp
  then show "length (m @ replicate pad (word_of_nat pad) @ [word_of_nat pad]) = 16 * (length m div 16 + 1)" by simp
  show "record_len (length m) = int (length m + pad + 1)" unfolding eq by (simp add: record_len_def zdiv_int)
qed

lemma decrypt_tls_record:
  assumes "aes128_cbc_decrypt rk iv out n = Some (m @ replicate pad (word_of_nat pad) @ [word_of_nat pad])"
    and "n = int (length m + pad + 1)" and "n \<le> 4096" and "n mod 16 = 0" and "pad \<le> 15"
  shows "aes128_cbc_decrypt_tls rk iv out n = Some (int (length m), m)"
proof -
  have w: "unat (word_of_nat pad :: u8) = pad" using assms(5) by (simp add: unsigned_of_nat take_bit_nat_eq_self)
  then have u: "uint (word_of_nat pad :: u8) = int pad" by (metis uint_nat)
  have "n smod 16 = 0" using assms(2,4) by (simp add: smod_int_alt_def)
  moreover have "\<not> (15 :: u8) < word_of_nat pad" using assms(5) w by (simp add: word_less_nat_alt)
  moreover have "nat (n - 1) = length m + pad" "nat (n - 1 - int pad) = length m" using assms(2) by simp_all
  ultimately show ?thesis unfolding aes128_cbc_decrypt_tls_def assms(1)
    using assms(2,3) w u by (simp add: AES_PKCS7_MAX_LEN_def Let_def nth_append get_bytes_def list_all_iff)
qed

text \<open>
  C36. Every TLS record that aes128_cbc_encrypt_tls produces is decrypted by aes128_cbc_decrypt_tls to the
  same bytes, for every message, key and initialisation vector; the record is the next multiple of the
  block size, and the call fails exactly where that exceeds the output buffer or 4096 bytes.
\<close>

theorem tls_record_roundtrip:
  assumes "length rk = 176" and "length iv = 16" and "length m < 2 ^ 31 - 16"
  shows "if record_len (length m) \<le> min cap 4096
    then \<exists>out. aes128_cbc_encrypt_tls rk iv m (int (length m)) cap = Some (record_len (length m), out) \<and>
      int (length out) = record_len (length m) \<and>
      aes128_cbc_decrypt_tls rk iv out (record_len (length m)) = Some (int (length m), m)
    else aes128_cbc_encrypt_tls rk iv m (int (length m)) cap = Some (-1, [])"
proof (cases "record_len (length m) \<le> min cap 4096")
  case True
  let ?pad = "15 - length m mod 16" and ?n = "length m div 16 + 1" and ?len = "record_len (length m)"
  let ?padded = "m @ replicate ?pad (word_of_nat ?pad) @ [word_of_nat ?pad :: u8]"
  let ?out = "cbc_encrypt_loop rk iv ?padded ?n"
  have enc: "aes128_cbc_encrypt_tls rk iv m (int (length m)) cap = Some (?len, ?out)"
    unfolding record_len_def by (rule encrypt_tls_record [OF assms(1,2)]) (use True in \<open>simp_all add: record_len_def\<close>)
  note plen = record_padded(1) [of m] and rec = record_padded(2) [of m]
  have olen: "length ?out = 16 * ?n" by (rule length_cbc_encrypt_loop) (use assms(1,2) plen in simp_all)
  have tot: "?len = int (16 * ?n)" by (simp add: record_len_def zdiv_int)
  have blocks: "nat (?len div 16) = ?n" by (simp add: record_len_def nat_add_distrib nat_div_distrib)
  have dec: "aes128_cbc_decrypt rk iv ?out ?len = Some ?padded"
    unfolding aes128_cbc_decrypt_def Let_def blocks olen
    using cbc_decrypt_encrypt [OF assms(1,2), of ?n ?padded] plen assms(2) by (simp only: le_refl if_True take_all)
  have "?len mod 16 = 0" by (simp add: record_len_def)
  with dec rec True have "aes128_cbc_decrypt_tls rk iv ?out ?len = Some (int (length m), m)"
    by (intro decrypt_tls_record [of _ _ _ _ _ ?pad]) simp_all
  moreover have "int (length ?out) = ?len" by (simp only: olen tot)
  ultimately show ?thesis unfolding if_P [OF True] using enc by blast
next
  case False
  have small: "\<not> 2 ^ 31 \<le> int (length m) + 16" using assms(3) by simp
  have len: "int (length m) + (16 - (int (length m) + 1) smod 16) smod 16 + 1 = record_len (length m)"
    unfolding record_len_def by (rule pad_total(2)) simp
  have "record_len (length m) > cap \<or> record_len (length m) > AES_PKCS7_MAX_LEN"
    using False by (auto simp: AES_PKCS7_MAX_LEN_def)
  then show ?thesis unfolding if_not_P [OF False] aes128_cbc_encrypt_tls_def Let_def len if_not_P [OF small] by simp
qed

theorem tls_record_roundtrip_witness:
  "\<exists>out. aes128_cbc_encrypt_tls (replicate 176 3) (replicate 16 1) [1, 2, 3] 3 64 = Some (16, out) \<and> length out = 16 \<and>
    aes128_cbc_decrypt_tls (replicate 176 3) (replicate 16 1) out 16 = Some (3, [1, 2, 3])"
  using tls_record_roundtrip [of "replicate 176 3" "replicate 16 1" "[1, 2, 3]" 64] by (auto simp: record_len_def)

section \<open>Unwrapping inverts wrapping\<close>

text \<open>The wrapping of RFC 3394, 2.2.1: six passes over the blocks of the key.\<close>

definition wrap_step :: "u8 list \<Rightarrow> u32 \<Rightarrow> u8 list \<times> u8 list \<Rightarrow> u32 \<times> nat \<Rightarrow> u8 list \<times> u8 list" where
  "wrap_step rk n = (\<lambda>(a, r) (j, i).
     let b = aes128_encrypt_block rk (a @ get_bytes ((i - 1) * 8) 8 r)
     in (xor_t (take 8 b) (ucast (n * j + word_of_nat i)), put_bytes ((i - 1) * 8) (drop 8 b) r))"

definition wrap_turns :: "nat \<Rightarrow> (u32 \<times> nat) list" where
  "wrap_turns n = concat (map (\<lambda>j. map (Pair j) [1..<Suc n]) [0, 1, 2, 3, 4, 5])"

definition aes_key_wrap :: "u8 list \<Rightarrow> u8 list \<Rightarrow> u8 list" where
  "aes_key_wrap rk key =
     (let n = length key div 8; (a, r) = foldl (wrap_step rk (word_of_nat n)) (DEFAULT_IV, key) (wrap_turns n) in a @ r)"

lemma unwrap_turns_rev: "unwrap_turns n = rev (wrap_turns n)"
  by (simp add: unwrap_turns_def wrap_turns_def rev_map)

lemma foldl_inverse:
  assumes "\<And>s x. I s \<Longrightarrow> x \<in> set xs \<Longrightarrow> I (f s x) \<and> g (f s x) x = s" and "I s"
  shows "I (foldl f s xs) \<and> foldl g (foldl f s xs) (rev xs) = s"
  using assms
proof (induction xs arbitrary: s)
  case (Cons x xs)
  then have "I (f s x)" "g (f s x) x = s" by simp_all
  with Cons.IH [of "f s x"] Cons.prems(1) show ?case by simp
qed simp

lemma xor_t_twice: "length a = 8 \<Longrightarrow> xor_t (xor_t a t) t = a"
  by (simp add: xor_t_def xor_twice)

lemma length_xor_t [simp]: "length a = 8 \<Longrightarrow> length (xor_t a t) = 8"
  by (simp add: xor_t_def)

lemma put_get_bytes: "off + n \<le> length r \<Longrightarrow> length b = n \<Longrightarrow>
    put_bytes off (get_bytes off n r) (put_bytes off b r) = r"
  by (rule nth_equalityI) (auto simp: nth_put_bytes get_bytes_def)

lemma unwrap_wrap_step:
  assumes "length rk = 176" and "length a = 8" and "length r = 8 * k" and "1 \<le> i" and "i \<le> k"
  shows "unwrap_step rk n (wrap_step rk n (a, r) (j, i)) (j, i) = (a, r)"
    and "length (fst (wrap_step rk n (a, r) (j, i))) = 8" and "length (snd (wrap_step rk n (a, r) (j, i))) = 8 * k"
proof -
  have off: "(i - 1) * 8 + 8 \<le> length r" using assms(3-5) by simp
  let ?b = "aes128_encrypt_block rk (a @ get_bytes ((i - 1) * 8) 8 r)"
  have blk: "length (a @ get_bytes ((i - 1) * 8) 8 r) = 16" using off assms(2) by simp
  then have b: "length ?b = 16" using assms(1) by simp
  have dec: "aes128_decrypt_block rk ?b = a @ get_bytes ((i - 1) * 8) 8 r" by (rule decrypt_encrypt_block [OF assms(1) blk])
  have "xor_t (xor_t (take 8 ?b) t) t @ get_bytes ((i - 1) * 8) 8 (put_bytes ((i - 1) * 8) (drop 8 ?b) r) = ?b" for t
    using b off by (simp add: xor_t_twice)
  then show "unwrap_step rk n (wrap_step rk n (a, r) (j, i)) (j, i) = (a, r)"
    using b off assms(2) by (simp add: unwrap_step_def wrap_step_def Let_def dec [unfolded One_nat_def] put_get_bytes)
  show "length (fst (wrap_step rk n (a, r) (j, i))) = 8" "length (snd (wrap_step rk n (a, r) (j, i))) = 8 * k"
    using b off assms(2,3) by (simp_all add: wrap_step_def Let_def)
qed

text \<open>
  aes_key_unwrap accepts every key wrapped as RFC 3394 says and returns that key, for keys of any
  number of 8-byte blocks up to the bound of the copying loop, whatever the output buffer holds.
\<close>

theorem key_unwrap_inverts_wrap:
  assumes "length rk = 176" and "length key = 8 * k" and "1 \<le> k" and "k < 2 ^ 28" and "length out = 8 * k"
  shows "length (aes_key_wrap rk key) = 8 * (k + 1) \<and>
    aes_key_unwrap rk (aes_key_wrap rk key) (word_of_nat (8 * (k + 1))) out = Some (True, key)"
proof -
  let ?n = "word_of_nat k :: u32" and ?I = "\<lambda>(a :: u8 list, r :: u8 list). length a = 8 \<and> length r = 8 * k"
  let ?w = "foldl (wrap_step rk ?n) (DEFAULT_IV, key) (wrap_turns k)"
  have "?I ?w \<and> foldl (unwrap_step rk ?n) ?w (rev (wrap_turns k)) = (DEFAULT_IV, key)"
  proof (rule foldl_inverse)
    fix s x assume "?I s" and x: "x \<in> set (wrap_turns k)"
    then obtain a r where s: "s = (a, r)" "length a = 8" "length r = 8 * k" by (cases s) auto
    from x obtain j i where ji: "x = (j, i)" "1 \<le> i" "i \<le> k" by (auto simp: wrap_turns_def)
    show "?I (wrap_step rk ?n s x) \<and> unwrap_step rk ?n (wrap_step rk ?n s x) x = s"
      using unwrap_wrap_step [OF assms(1) s(2,3) ji(2,3), of ?n j] unfolding s(1) ji(1) by (simp add: case_prod_beta)
  qed (simp add: DEFAULT_IV_def assms(2))
  moreover obtain a r where w: "?w = (a, r)" by fastforce
  ultimately have len: "length a = 8" "length r = 8 * k"
    and un: "foldl (unwrap_step rk ?n) (a, r) (rev (wrap_turns k)) = (DEFAULT_IV, key)" by simp_all
  have wrap: "aes_key_wrap rk key = a @ r" using w assms(2) by (simp add: aes_key_wrap_def Let_def)
  then have "length (aes_key_wrap rk key) = 8 * (k + 1)" using len by simp
  moreover define l :: u32 where "l = word_of_nat (8 * (k + 1))"
  have l: "unat l = 8 * (k + 1)" unfolding l_def using assms(4) by (subst unsigned_of_nat) (simp add: take_bit_nat_eq_self)
  have "unat (l mod 8) = 0" unfolding unat_mod l by simp
  then have m: "l mod 8 = 0" by (simp only: unat_eq_0)
  have g: "\<not> l < 16" using l assms(3) by (simp add: word_less_nat_alt)
  have un': "unat ?n = k" using assms(4) by (simp add: unsigned_of_nat take_bit_nat_eq_self)
  have "l div 8 = word_of_nat (k + 1)" unfolding word_arith_nat_div l by simp
  then have n: "l div 8 - 1 = ?n" by simp
  moreover have "put_bytes 0 r out = r" using len(2) assms(5) by (simp add: put_bytes_def)
  then have "aes_key_unwrap rk (aes_key_wrap rk key) l out = Some (True, key)"
    using g m l len assms(4,5) un unfolding wrap aes_key_unwrap_def n un' Let_def
    by (simp add: get_bytes_def unwrap_turns_rev)
  ultimately show ?thesis by (simp only: l_def)
qed

theorem key_unwrap_inverts_wrap_witness:
  "length (aes_key_wrap (replicate 176 5) (replicate 16 7)) = 24 \<and>
    aes_key_unwrap (replicate 176 5) (aes_key_wrap (replicate 176 5) (replicate 16 7)) 24 (replicate 16 0) =
      Some (True, replicate 16 7)"
  using key_unwrap_inverts_wrap [of "replicate 176 5" "replicate 16 7" 2 "replicate 16 0"] by simp

section \<open>CCM\<close>

lemma length_build_a: "length nonce = 13 \<Longrightarrow> length (build_a nonce i) = 16"
  by (simp add: build_a_def)

lemma ctr_loop_involution:
  assumes "length rk = 176" and "length nonce = 13"
  shows "length (ctr_loop rk nonce i d) = length d \<and> ctr_loop rk nonce i (ctr_loop rk nonce i d) = d"
proof (induction d arbitrary: i rule: length_induct)
  case (1 d)
  let ?s = "aes128_encrypt_block rk (build_a nonce i)"
  let ?r = "ctr_loop rk nonce (i + 1) (drop 16 d)" and ?h = "map2 (XOR) (take 16 d) ?s"
  show ?case
  proof (cases "d = []")
    case False
    have s: "length ?s = 16" using assms by (simp add: length_build_a)
    have "length (drop 16 d) < length d" using False by (simp add: diff_less)
    with 1 have r: "length ?r = length (drop 16 d)" "ctr_loop rk nonce (i + 1) ?r = drop 16 d" by blast+
    have c: "ctr_loop rk nonce i d = ?h @ ?r" using False by (simp add: ctr_loop.simps [of rk nonce i d] Let_def)
    have len: "length (?h @ ?r) = length d" using r(1) s by simp
    have tk: "take 16 (?h @ ?r) = ?h \<and> drop 16 (?h @ ?r) = ?r" using r(1) s by (cases "16 \<le> length d") simp_all
    have "?h @ ?r \<noteq> []" using len False by auto
    then have "ctr_loop rk nonce i (?h @ ?r) = map2 (XOR) ?h ?s @ ctr_loop rk nonce (i + 1) ?r"
      by (subst ctr_loop.simps) (simp only: tk if_False Let_def)
    then show ?thesis unfolding c using len r(2) s by (simp add: xor_twice)
  qed (simp add: ctr_loop.simps)
qed

text \<open>
  C35. aes_ccm_decrypt accepts a ciphertext with its integrity code exactly if aes_ccm_encrypt produces the
  two from the plaintext that is returned, and it returns the plaintext of every encrypted message: a
  message is never accepted with another code, other additional data or another plaintext than the
  ones that encrypt to it.
\<close>

theorem ccm_accepts_exactly_encryptions:
  assumes "length rk = 176" and "length nonce = 13" and "unat aad_len \<le> length aad" and "length c = unat len"
    and "length mic = 8"
  shows "\<exists>ok p. aes_ccm_decrypt rk nonce aad aad_len c len mic = Some (ok, p) \<and> length p = unat len \<and>
    (ok \<longleftrightarrow> aes_ccm_encrypt rk nonce aad aad_len p len = Some (c, mic)) \<and>
    (\<forall>m. length m = unat len \<and> aes_ccm_encrypt rk nonce aad aad_len m len = Some (c, mic) \<longrightarrow> ok \<and> p = m)"
proof -
  note inv = ctr_loop_involution [OF assms(1,2), of 1]
  let ?p = "ctr_loop rk nonce 1 c"
  let ?code = "\<lambda>m. map2 (XOR) (take 8 (cbc_mac rk nonce aad aad_len m len)) (mic_mask rk nonce)"
  have dec: "aes_ccm_decrypt rk nonce aad aad_len c len mic = Some (?code ?p = mic, ?p)"
    using assms(3-5) by (simp add: aes_ccm_decrypt_def ctr_crypt_def Let_def)
  have enc: "aes_ccm_encrypt rk nonce aad aad_len m len = Some (ctr_loop rk nonce 1 m, ?code m)" if "length m = unat len" for m
    using assms(3) that by (simp add: aes_ccm_encrypt_def ctr_crypt_def Let_def)
  have len: "length ?p = unat len" using inv assms(4) by simp
  have 1: "?code ?p = mic \<longleftrightarrow> aes_ccm_encrypt rk nonce aad aad_len ?p len = Some (c, mic)"
    unfolding enc [OF len] using inv by simp
  have 2: "?p = m \<and> ?code ?p = mic" if "length m = unat len" "aes_ccm_encrypt rk nonce aad aad_len m len = Some (c, mic)" for m
  proof -
    have "ctr_loop rk nonce 1 m = c" "?code m = mic" using that enc by simp_all
    then show ?thesis using inv [of m] by auto
  qed
  show ?thesis using dec len 1 2 by blast
qed

theorem ccm_accepts_exactly_encryptions_witness:
  "\<exists>ok p. aes_ccm_decrypt (replicate 176 5) (replicate 13 1) [9] 1 [1, 2, 3] 3 (replicate 8 0) = Some (ok, p) \<and> length p = 3 \<and>
    (ok \<longleftrightarrow> aes_ccm_encrypt (replicate 176 5) (replicate 13 1) [9] 1 p 3 = Some ([1, 2, 3], replicate 8 0))"
  using ccm_accepts_exactly_encryptions [of "replicate 176 5" "replicate 13 1" 1 "[9]" "[1, 2, 3]" 3 "replicate 8 0"]
  by simp blast

end
