(* ===== verification/Inflate.thy ===== *)
theory Inflate
  imports Prelude "HOL-Library.Monad_Syntax" "HOL-Library.Sublist"
begin

text \<open>
  The DEFLATE decompressor (\<^verbatim>\<open>src/kernel/inflate/inflate.c\<close>): the bit reader, canonical Huffman
  tables, stored, fixed and dynamic blocks and the copies of earlier output. \<open>None\<close> is an access
  outside of an array, the use of an uninitialised table entry, or a loop that does not end.
\<close>

section \<open>The bit reader\<close>

record bitreader =
  br_data :: "u8 list"
  br_len :: u32
  br_byte :: u32 \<comment> \<open>\<^verbatim>\<open>byte_pos\<close>\<close>
  br_bit :: u8 \<comment> \<open>\<^verbatim>\<open>bit_pos\<close>\<close>
  br_error :: bool

definition br_getbit :: "bitreader \<Rightarrow> (u32 \<times> bitreader) option" where
  "br_getbit br =
     (if br_byte br \<ge> br_len br then Some (0, br\<lparr>br_error := True\<rparr>)
      else if unat (br_byte br) \<ge> length (br_data br) then None
      else let b = ucast (drop_bit (unat (br_bit br)) (br_data br ! unat (br_byte br))) AND 1;
               br = br\<lparr>br_bit := br_bit br + 1\<rparr>
           in Some (b, if br_bit br = 8 then br\<lparr>br_bit := 0, br_byte := br_byte br + 1\<rparr> else br))"

fun getbits_loop :: "bitreader \<Rightarrow> nat \<Rightarrow> nat \<Rightarrow> u32 \<Rightarrow> (u32 \<times> bitreader) option" where
  "getbits_loop br i 0 v = Some (v, br)"
| "getbits_loop br i (Suc n) v = do {
     (b, br) \<leftarrow> br_getbit br;
     getbits_loop br (Suc i) n (v OR push_bit i b)
   }"

definition br_getbits :: "bitreader \<Rightarrow> nat \<Rightarrow> (u32 \<times> bitreader) option" where
  "br_getbits br n = getbits_loop br 0 n 0"

definition br_align :: "bitreader \<Rightarrow> bitreader" where
  "br_align br = (if br_bit br \<noteq> 0 then br\<lparr>br_bit := 0, br_byte := br_byte br + 1\<rparr> else br)"

section \<open>Huffman tables\<close>

text \<open>The array \<^verbatim>\<open>symbol\<close> is not initialised: an entry that was not stored is \<open>None\<close>.\<close>

record huffman_table =
  ht_count :: "int list"
  ht_symbol :: "int option list"

fun count_loop :: "u8 list \<Rightarrow> int list \<Rightarrow> int list option" where
  "count_loop [] c = Some c"
| "count_loop (l # ls) c = (if unat l < length c then count_loop ls (c[unat l := c ! unat l + 1]) else None)"

definition offset_loop :: "int list \<Rightarrow> int list" where
  "offset_loop count = foldl (\<lambda>os len. os[len + 1 := os ! len + count ! len]) (replicate 17 0) [1..<16]"

fun symbol_loop :: "u8 list \<Rightarrow> int \<Rightarrow> int list \<Rightarrow> int option list \<Rightarrow> int option list option" where
  "symbol_loop [] i os sy = Some sy"
| "symbol_loop (l # ls) i os sy =
     (if l = 0 then symbol_loop ls (i + 1) os sy
      else if unat l < length os \<and> 0 \<le> os ! unat l \<and> nat (os ! unat l) < length sy
      then symbol_loop ls (i + 1) (os[unat l := os ! unat l + 1]) (sy[nat (os ! unat l) := Some i])
      else None)"

definition huffman_build :: "u8 list \<Rightarrow> nat \<Rightarrow> huffman_table option" where
  "huffman_build lengths num_symbols =
     (if num_symbols > length lengths then None
      else do {
        count \<leftarrow> count_loop (take num_symbols lengths) (replicate 16 0);
        (let count = count[0 := 0] in do {
           sy \<leftarrow> symbol_loop (take num_symbols lengths) 0 (offset_loop count) (replicate 288 None);
           Some \<lparr>ht_count = count, ht_symbol = sy\<rparr>
         })
      })"

text \<open>The loop of \<^verbatim>\<open>huffman_decode\<close> over the lengths that remain.\<close>

fun decode_loop :: "huffman_table \<Rightarrow> bitreader \<Rightarrow> int \<Rightarrow> int \<Rightarrow> int \<Rightarrow> nat list \<Rightarrow> (int \<times> bitreader) option" where
  "decode_loop h br code start index [] = Some (-1, br)"
| "decode_loop h br code start index (len # lens) = do {
     (b, br) \<leftarrow> br_getbit br;
     (let code = code OR uint b in
        if br_error br then Some (-1, br)
        else if len \<ge> length (ht_count h) then None
        else let count = ht_count h ! len in
          if code - start < count
          then (let k = index + (code - start) in
             if k < 0 \<or> nat k \<ge> length (ht_symbol h) then None
             else do { s \<leftarrow> ht_symbol h ! nat k; Some (s, br) })
          else decode_loop h br (push_bit 1 code) (push_bit 1 (start + count)) (index + count) lens)
   }"

definition huffman_decode :: "huffman_table \<Rightarrow> bitreader \<Rightarrow> (int \<times> bitreader) option" where
  "huffman_decode h br = decode_loop h br 0 0 0 [1..<16]"

definition LENGTH_BASE :: "u32 list" where
  "LENGTH_BASE = [3, 4, 5, 6, 7, 8, 9, 10, 11, 13, 15, 17, 19, 23, 27,
     31, 35, 43, 51, 59, 67, 83, 99, 115, 131, 163, 195, 227, 258]"

definition LENGTH_EXTRA :: "nat list" where
  "LENGTH_EXTRA = [0, 0, 0, 0, 0, 0, 0, 0, 1, 1, 1, 1, 2, 2, 2,
     2, 3, 3, 3, 3, 4, 4, 4, 4, 5, 5, 5, 5, 0]"

definition DIST_BASE :: "u32 list" where
  "DIST_BASE = [1, 2, 3, 4, 5, 7, 9, 13, 17, 25, 33, 49, 65, 97, 129,
     193, 257, 385, 513, 769, 1025, 1537, 2049, 3073, 4097, 6145, 8193, 12289, 16385, 24577]"

definition DIST_EXTRA :: "nat list" where
  "DIST_EXTRA = [0, 0, 0, 0, 1, 1, 2, 2, 3, 3, 4, 4, 5, 5, 6,
     6, 7, 7, 8, 8, 9, 9, 10, 10, 11, 11, 12, 12, 13, 13]"

definition CL_ORDER :: "nat list" where
  "CL_ORDER = [16, 17, 18, 0, 8, 7, 9, 6, 10, 5, 11, 4, 12, 3, 13, 2, 14, 1, 15]"

definition fixed_lit_lengths :: "u8 list" where
  "fixed_lit_lengths = replicate 144 8 @ replicate 112 9 @ replicate 24 7 @ replicate 8 8"

definition build_fixed_tables :: "(huffman_table \<times> huffman_table) option" where
  "build_fixed_tables = do {
     lit \<leftarrow> huffman_build fixed_lit_lengths 288;
     dist \<leftarrow> huffman_build (replicate 30 5) 30;
     Some (lit, dist)
   }"

section \<open>Dynamic tables\<close>

fun cl_loop :: "bitreader \<Rightarrow> nat list \<Rightarrow> u8 list \<Rightarrow> (u8 list \<times> bitreader) option" where
  "cl_loop br [] cl = Some (cl, br)"
| "cl_loop br (k # ks) cl = do {
     (v, br) \<leftarrow> br_getbits br 3;
     if k < length cl then cl_loop br ks (cl[k := ucast v]) else None
   }"

text \<open>
  The loop that fills \<^verbatim>\<open>lengths\<close>; the entries stored so far are the list \<open>ls\<close>, whose length is \<open>n\<close>.
  The repetitions stop at \<open>n_total\<close>.
\<close>

definition repeat_length :: "nat \<Rightarrow> u32 \<Rightarrow> u8 \<Rightarrow> u8 list \<Rightarrow> u8 list" where
  "repeat_length n_total rep b ls = ls @ replicate (min (unat rep) (n_total - length ls)) b"

partial_function (option) lengths_loop ::
  "huffman_table \<Rightarrow> nat \<Rightarrow> bitreader \<Rightarrow> u8 list \<Rightarrow> (u8 list option \<times> bitreader) option" where
  "lengths_loop cl n_total br ls =
     (if length ls \<ge> n_total then Some (Some ls, br)
      else Option.bind (huffman_decode cl br) (\<lambda>(symb, br).
        if symb < 0 then Some (None, br)
        else if symb < 16 then
          (if br_error br then Some (None, br) else lengths_loop cl n_total br (ls @ [word_of_int symb]))
        else if symb = 16 then
          (if ls = [] then Some (None, br)
           else Option.bind (br_getbits br 2) (\<lambda>(v, br).
             if br_error br then Some (None, br)
             else lengths_loop cl n_total br (repeat_length n_total (v + 3) (last ls) ls)))
        else if symb = 17 then
          Option.bind (br_getbits br 3) (\<lambda>(v, br).
            if br_error br then Some (None, br)
            else lengths_loop cl n_total br (repeat_length n_total (v + 3) 0 ls))
        else
          Option.bind (br_getbits br 7) (\<lambda>(v, br).
            if br_error br then Some (None, br)
            else lengths_loop cl n_total br (repeat_length n_total (v + 11) 0 ls))))"

declare lengths_loop.simps [code]

text \<open>The array \<^verbatim>\<open>lengths\<close> has room for 288 + 30 entries.\<close>

definition read_dynamic_tables :: "bitreader \<Rightarrow> ((huffman_table \<times> huffman_table) option \<times> bitreader) option" where
  "read_dynamic_tables br = do {
     (v, br) \<leftarrow> br_getbits br 5;
     (let hlit = unat (v + 257) in do {
     (v, br) \<leftarrow> br_getbits br 5;
     (let hdist = unat (v + 1) in do {
     (v, br) \<leftarrow> br_getbits br 4;
     (let hclen = unat (v + 4) in
     if br_error br then Some (None, br)
     else if hclen > length CL_ORDER then None
     else do {
       (cl_lengths, br) \<leftarrow> cl_loop br (take hclen CL_ORDER) (replicate 19 0);
       if br_error br then Some (None, br)
       else do {
         cl \<leftarrow> huffman_build cl_lengths 19;
         (let n_total = hlit + hdist in
         if n_total > 288 + 30 then Some (None, br)
         else do {
           (ls, br) \<leftarrow> lengths_loop cl n_total br [];
           (case ls of
              None \<Rightarrow> Some (None, br)
            | Some ls \<Rightarrow> do {
                lit \<leftarrow> huffman_build ls hlit;
                dist \<leftarrow> huffman_build (drop hlit ls) hdist;
                Some (Some (lit, dist), br)
              })
         })
       }
     })})})
   }"

section \<open>Blocks\<close>

definition out_put :: "u8 list \<Rightarrow> u32 \<Rightarrow> u8 \<Rightarrow> u8 list option" where
  "out_put dst pos b = (if unat pos < length dst then Some (dst[unat pos := b]) else None)"

fun stored_loop :: "nat \<Rightarrow> bitreader \<Rightarrow> u8 list \<Rightarrow> u32 \<Rightarrow> (u8 list \<times> u32 \<times> bitreader) option" where
  "stored_loop 0 br dst pos = Some (dst, pos, br)"
| "stored_loop (Suc n) br dst pos =
     (if unat (br_byte br) \<ge> length (br_data br) then None
      else do {
        dst \<leftarrow> out_put dst pos (br_data br ! unat (br_byte br));
        stored_loop n (br\<lparr>br_byte := br_byte br + 1\<rparr>) dst (pos + 1)
      })"

definition inflate_block_stored ::
  "bitreader \<Rightarrow> u8 list \<Rightarrow> u32 \<Rightarrow> u32 \<Rightarrow> (bool \<times> u8 list \<times> u32 \<times> bitreader) option" where
  "inflate_block_stored br dst dst_cap pos =
     (let br = br_align br in
      if br_byte br + 4 > br_len br then Some (False, dst, pos, br)
      else if unat (br_byte br) + 4 > length (br_data br) then None
      else let p = unat (br_byte br);
               lenv = ucast (br_data br ! p) OR push_bit 8 (ucast (br_data br ! (p + 1))) :: u32;
               nlen = ucast (br_data br ! (p + 2)) OR push_bit 8 (ucast (br_data br ! (p + 3)))
           in if NOT lenv AND 0xFFFF \<noteq> nlen then Some (False, dst, pos, br)
      else let br = br\<lparr>br_byte := br_byte br + 4\<rparr> in
           if br_byte br + lenv > br_len br then Some (False, dst, pos, br)
      else if pos + lenv > dst_cap then Some (False, dst, pos, br)
      else do {
        (dst, pos, br) \<leftarrow> stored_loop (unat lenv) br dst pos;
        Some (True, dst, pos, br)
      })"

fun copy_loop :: "nat \<Rightarrow> u8 list \<Rightarrow> u32 \<Rightarrow> u32 \<Rightarrow> (u8 list \<times> u32) option" where
  "copy_loop 0 dst pos src = Some (dst, pos)"
| "copy_loop (Suc n) dst pos src =
     (if unat src \<ge> length dst then None
      else do { dst \<leftarrow> out_put dst pos (dst ! unat src); copy_loop n dst (pos + 1) (src + 1) })"

text \<open>The body of the loop after a length symbol: the distance, its checks and the copy.\<close>

definition inflate_match ::
  "huffman_table \<Rightarrow> bitreader \<Rightarrow> int \<Rightarrow> u8 list \<Rightarrow> u32 \<Rightarrow> u32 \<Rightarrow> (bool \<times> u8 list \<times> u32 \<times> bitreader) option" where
  "inflate_match dist br symb dst dst_cap pos =
     (let lidx = nat (symb - 257) in
      if lidx \<ge> 29 then Some (False, dst, pos, br)
      else do {
        (v, br) \<leftarrow> br_getbits br (LENGTH_EXTRA ! lidx);
        (let len = LENGTH_BASE ! lidx + v in do {
        (dsym, br) \<leftarrow> huffman_decode dist br;
        if dsym < 0 \<or> dsym \<ge> 30 then Some (False, dst, pos, br)
        else do {
          (v, br) \<leftarrow> br_getbits br (DIST_EXTRA ! nat dsym);
          (let distance = DIST_BASE ! nat dsym + v in
             if br_error br \<or> distance > pos \<or> pos + len > dst_cap then Some (False, dst, pos, br)
             else do {
               (dst, pos) \<leftarrow> copy_loop (unat len) dst pos (pos - distance);
               Some (True, dst, pos, br)
             })
        }})
      })"

partial_function (option) inflate_block_huffman ::
  "bitreader \<Rightarrow> huffman_table \<Rightarrow> huffman_table \<Rightarrow> u8 list \<Rightarrow> u32 \<Rightarrow> u32 \<Rightarrow> (bool \<times> u8 list \<times> u32 \<times> bitreader) option" where
  "inflate_block_huffman br lit dist dst dst_cap pos =
     Option.bind (huffman_decode lit br) (\<lambda>(symb, br).
       if symb < 0 then Some (False, dst, pos, br)
       else if symb < 256 then
         (if pos \<ge> dst_cap then Some (False, dst, pos, br)
          else Option.bind (out_put dst pos (word_of_int symb)) (\<lambda>dst.
            inflate_block_huffman br lit dist dst dst_cap (pos + 1)))
       else if symb = 256 then Some (True, dst, pos, br)
       else Option.bind (inflate_match dist br symb dst dst_cap pos) (\<lambda>(ok, dst, pos, br).
         if ok then inflate_block_huffman br lit dist dst dst_cap pos else Some (False, dst, pos, br)))"

declare inflate_block_huffman.simps [code]

text \<open>The body of the loop of \<^verbatim>\<open>inflate\<close> for one block of type \<^verbatim>\<open>btype\<close>.\<close>

definition inflate_block ::
  "u32 \<Rightarrow> bitreader \<Rightarrow> u8 list \<Rightarrow> u32 \<Rightarrow> u32 \<Rightarrow> (bool \<times> u8 list \<times> u32 \<times> bitreader) option" where
  "inflate_block btype br dst dst_cap pos =
     (if btype = 0 then inflate_block_stored br dst dst_cap pos
      else if btype = 1 then do {
        (lit, dist) \<leftarrow> build_fixed_tables;
        inflate_block_huffman br lit dist dst dst_cap pos
      }
      else if btype = 2 then do {
        (t, br) \<leftarrow> read_dynamic_tables br;
        (case t of
           None \<Rightarrow> Some (False, dst, pos, br)
         | Some (lit, dist) \<Rightarrow> inflate_block_huffman br lit dist dst dst_cap pos)
      }
      else Some (False, dst, pos, br))"

partial_function (option) inflate_loop ::
  "bitreader \<Rightarrow> u8 list \<Rightarrow> u32 \<Rightarrow> u32 \<Rightarrow> (bool \<times> u8 list \<times> u32) option" where
  "inflate_loop br dst dst_cap pos =
     (if br_error br then Some (False, dst, pos)
      else Option.bind (br_getbit br) (\<lambda>(b, br).
        Option.bind (br_getbits br 2) (\<lambda>(btype, br).
          if br_error br then Some (False, dst, pos)
          else Option.bind (inflate_block btype br dst dst_cap pos) (\<lambda>(ok, dst, pos, br).
            if \<not> ok then Some (False, dst, pos)
            else if b \<noteq> 0 then Some (True, dst, pos)
            else inflate_loop br dst dst_cap pos))))"

declare inflate_loop.simps [code]

text \<open>The result: success, the output buffer and the value of \<^verbatim>\<open>out_len\<close>, which is written on success only.\<close>

definition inflate :: "u8 list \<Rightarrow> u32 \<Rightarrow> u8 list \<Rightarrow> u32 \<Rightarrow> (u32 option \<times> u8 list) option" where
  "inflate src src_len dst dst_cap = do {
     (ok, dst, pos) \<leftarrow> inflate_loop
       \<lparr>br_data = src, br_len = src_len, br_byte = 0, br_bit = 0, br_error = False\<rparr> dst dst_cap 0;
     Some (if ok then Some pos else None, dst)
   }"

section \<open>The bits that remain\<close>

definition byte_bits :: "u8 \<Rightarrow> bool list" where
  "byte_bits b = map (bit b) [0..<8]"

text \<open>The bits of the input from the position of the reader on, the low bit of each byte first.\<close>

definition rest :: "bitreader \<Rightarrow> bool list" where
  "rest br = drop (unat (br_bit br)) (concat (map byte_bits (drop (unat (br_byte br)) (br_data br))))"

definition br_ok :: "bitreader \<Rightarrow> bool" where
  "br_ok br \<longleftrightarrow> length (br_data br) = unat (br_len br) \<and> unat (br_byte br) \<le> unat (br_len br) \<and>
     unat (br_bit br) < 8 \<and> (br_byte br = br_len br \<longrightarrow> br_bit br = 0)"

text \<open>The reader has moved forward over some bits of the same input.\<close>

definition reads :: "bitreader \<Rightarrow> bitreader \<Rightarrow> bool" where
  "reads br br' \<longleftrightarrow> br_ok br' \<and> br_data br' = br_data br \<and> br_len br' = br_len br \<and>
     (br_error br \<longrightarrow> br_error br') \<and> suffix (rest br') (rest br)"

lemma reads_refl: "br_ok br \<Longrightarrow> reads br br"
  by (simp add: reads_def)

lemma reads_trans: "reads a b \<Longrightarrow> reads b c \<Longrightarrow> reads a c"
  by (auto simp: reads_def intro: suffix_order.trans)

lemma reads_le: "reads a b \<Longrightarrow> length (rest b) \<le> length (rest a)"
  by (auto simp: reads_def intro: suffix_length_le)

lemma length_byte_bits [simp]: "length (byte_bits b) = 8"
  by (simp add: byte_bits_def)

lemma rest_cases:
  assumes "br_ok br"
  shows "rest br = [] \<and> br_byte br = br_len br \<or>
    unat (br_byte br) < length (br_data br) \<and>
    rest br = bit (br_data br ! unat (br_byte br)) (unat (br_bit br)) #
      rest (if br_bit br + 1 = 8 then br\<lparr>br_bit := 0, br_byte := br_byte br + 1\<rparr> else br\<lparr>br_bit := br_bit br + 1\<rparr>)"
proof (cases "br_byte br = br_len br")
  case True
  then show ?thesis using assms by (simp add: br_ok_def rest_def)
next
  case False
  let ?p = "unat (br_byte br)" and ?i = "unat (br_bit br)"
  have "?p \<noteq> unat (br_len br)" using False word_unat_eq_iff by blast
  then have p: "?p < length (br_data br)" using assms by (simp add: br_ok_def)
  have i: "?i < 8" using assms by (simp add: br_ok_def)
  let ?b = "br_data br ! ?p" and ?tl = "concat (map byte_bits (drop (Suc ?p) (br_data br)))"
  have d: "concat (map byte_bits (drop ?p (br_data br))) = byte_bits ?b @ ?tl"
    using p by (simp add: Cons_nth_drop_Suc [symmetric])
  have r: "rest br = bit ?b ?i # drop (Suc ?i) (byte_bits ?b) @ ?tl"
    unfolding rest_def d using i by (simp add: byte_bits_def Cons_nth_drop_Suc [symmetric])
  have "unat (br_byte br + 1) = Suc ?p"
    by (rule unat_plus_one [of _ "br_len br"]) (use p assms in \<open>simp add: br_ok_def word_less_nat_alt\<close>)
  moreover have ib: "unat (br_bit br + 1) = Suc ?i" by (rule unat_plus_one [of _ 8]) (use i in \<open>simp add: word_less_nat_alt\<close>)
  moreover have "br_bit br + 1 = 8 \<longleftrightarrow> Suc ?i = 8" unfolding ib [symmetric] word_unat_eq_iff by simp
  ultimately show ?thesis using p i r d by (auto simp: rest_def)
qed

lemma getbit_Nil:
  assumes "br_ok br" and "rest br = []"
  shows "br_getbit br = Some (0, br\<lparr>br_error := True\<rparr>)"
  using rest_cases [OF assms(1)] assms(2) by (simp add: br_getbit_def)

lemma getbit_Cons:
  assumes "br_ok br" and "rest br = b # bs"
  shows "\<exists>br'. br_getbit br = Some (of_bool b, br') \<and> reads br br' \<and> rest br' = bs \<and> br_error br' = br_error br"
proof -
  let ?br' = "if br_bit br + 1 = 8 then br\<lparr>br_bit := 0, br_byte := br_byte br + 1\<rparr> else br\<lparr>br_bit := br_bit br + 1\<rparr>"
  have p: "unat (br_byte br) < length (br_data br)" and b: "b = bit (br_data br ! unat (br_byte br)) (unat (br_bit br))"
    and bs: "rest ?br' = bs"
    using rest_cases [OF assms(1)] assms(2) by auto
  have lt: "br_byte br < br_len br" using p assms(1) by (simp add: br_ok_def word_less_nat_alt)
  have byte: "unat (br_byte br + 1) = Suc (unat (br_byte br))" by (rule unat_plus_one [OF lt])
  have ib: "unat (br_bit br + 1) = Suc (unat (br_bit br))"
    by (rule unat_plus_one [of _ 8]) (use assms(1) in \<open>simp add: br_ok_def word_less_nat_alt\<close>)
  have eight: "br_bit br + 1 = 8 \<longleftrightarrow> Suc (unat (br_bit br)) = 8" unfolding ib [symmetric] word_unat_eq_iff by simp
  have "ucast (drop_bit n x) AND (1 :: u32) = of_bool (bit x n)" for x :: u8 and n
    by (cases "bit x n"; intro bit_word_eqI) (auto simp: bit_simps intro: gr0I)
  then have "br_getbit br = Some (of_bool b, ?br')"
    using lt p b by (simp add: br_getbit_def Let_def not_le [symmetric])
  moreover have "br_ok ?br'"
    using assms(1) lt byte ib eight p by (auto simp: br_ok_def)
  ultimately show ?thesis using bs assms(2) by (auto simp: reads_def suffix_def)
qed

lemma reads_error: "br_ok br \<Longrightarrow> reads br (br\<lparr>br_error := True\<rparr>)"
  by (simp add: reads_def br_ok_def rest_def)

lemma getbit_total:
  assumes "br_ok br"
  shows "\<exists>b br'. br_getbit br = Some (b, br') \<and> (b = 0 \<or> b = 1) \<and> reads br br' \<and>
    (\<not> br_error br' \<longrightarrow> length (rest br') < length (rest br))"
proof (cases "rest br")
  case Nil
  then show ?thesis using getbit_Nil [OF assms] reads_error [OF assms] by simp
next
  case (Cons b bs)
  from getbit_Cons [OF assms this] Cons show ?thesis by (cases b) auto
qed

lemma getbits_loop_total:
  "br_ok br \<Longrightarrow> i + n \<le> 32 \<Longrightarrow> unat v < 2 ^ i \<Longrightarrow>
    \<exists>v' br'. getbits_loop br i n v = Some (v', br') \<and> unat v' < 2 ^ (i + n) \<and> reads br br'"
proof (induction n arbitrary: br i v)
  case 0
  then show ?case by (simp add: reads_refl)
next
  case (Suc n)
  from getbit_total [OF Suc.prems(1)] obtain b br1
    where 1: "br_getbit br = Some (b, br1)" "b = 0 \<or> b = 1" "reads br br1" by blast
  have "take_bit (Suc i) (v OR push_bit i b) = v OR push_bit i b"
  proof (rule bit_word_eqI)
    fix k assume "k < LENGTH(32)"
    have "take_bit i v = v" using Suc.prems(3) by (simp add: word_unat_eq_iff unsigned_take_bit_eq take_bit_nat_eq_self)
    then have "bit v k \<Longrightarrow> k < i" by (metis bit_take_bit_iff)
    then show "bit (take_bit (Suc i) (v OR push_bit i b)) k = bit (v OR push_bit i b) k"
      using 1(2) by (auto simp: bit_simps)
  qed
  then have "unat (v OR push_bit i b) < 2 ^ Suc i" by (metis take_bit_nat_less_exp unsigned_take_bit_eq)
  moreover have "br_ok br1" using 1(3) by (simp add: reads_def)
  ultimately obtain v' br' where "getbits_loop br1 (Suc i) n (v OR push_bit i b) = Some (v', br')"
    "unat v' < 2 ^ (Suc i + n)" "reads br1 br'" using Suc.IH [of br1 "Suc i" "v OR push_bit i b"] Suc.prems(2) by auto
  then show ?case using 1 by (auto intro: reads_trans)
qed

lemma getbits_total:
  assumes "br_ok br" and "n \<le> 32"
  shows "\<exists>v br'. br_getbits br n = Some (v, br') \<and> unat v < 2 ^ n \<and> reads br br'"
  using getbits_loop_total [OF assms(1), of 0 n 0] assms(2) by (simp add: br_getbits_def)

lemma getbits_loop_value:
  "br_ok br \<Longrightarrow> rest br = bs @ r \<Longrightarrow>
    \<exists>br'. getbits_loop br i (length bs) v = Some (v OR push_bit i (horner_sum of_bool 2 bs), br') \<and>
      reads br br' \<and> rest br' = r \<and> br_error br' = br_error br"
proof (induction bs arbitrary: br i v)
  case Nil
  then show ?case by (simp add: reads_refl)
next
  case (Cons b bs)
  from getbit_Cons [OF Cons.prems(1), of b "bs @ r"] Cons.prems(2) obtain br1
    where 1: "br_getbit br = Some (of_bool b, br1)" "reads br br1" "rest br1 = bs @ r" "br_error br1 = br_error br" by auto
  have "br_ok br1" using 1(2) by (simp add: reads_def)
  from Cons.IH [OF this 1(3), of "Suc i" "v OR push_bit i (of_bool b)"] obtain br'
    where 2: "getbits_loop br1 (Suc i) (length bs) (v OR push_bit i (of_bool b)) =
        Some ((v OR push_bit i (of_bool b)) OR push_bit (Suc i) (horner_sum of_bool 2 bs), br')"
      "reads br1 br'" "rest br' = r" "br_error br' = br_error br1" by blast
  have "horner_sum of_bool 2 (b # bs) = of_bool b OR push_bit 1 (horner_sum of_bool 2 bs :: u32)"
    by (cases b) (simp_all add: one_or_eq mult.commute)
  then have "push_bit i (horner_sum of_bool 2 (b # bs)) = push_bit i (of_bool b) OR push_bit (Suc i) (horner_sum of_bool 2 bs :: u32)"
    by (simp only: push_bit_or push_bit_push_bit) simp
  then show ?case using 1 2 by (auto intro: reads_trans simp: or.assoc)
qed

lemma getbits_value:
  assumes "br_ok br" and "rest br = map (bit a) [0..<n] @ r"
  shows "\<exists>br'. br_getbits br n = Some (take_bit n a, br') \<and> reads br br' \<and> rest br' = r \<and> br_error br' = br_error br"
  using getbits_loop_value [OF assms, of 0 0] by (simp add: br_getbits_def horner_sum_bit_eq_take_bit)

section \<open>The tables\<close>

text \<open>Where the symbols of a code length start in the table, and the place of a symbol among them.\<close>

definition offset_of :: "nat list \<Rightarrow> nat \<Rightarrow> nat" where
  "offset_of ls l = (\<Sum>k = 1..<l. count_list ls k)"

definition rank_of :: "nat list \<Rightarrow> nat \<Rightarrow> nat" where
  "rank_of ls j = count_list (take j ls) (ls ! j)"

definition table_for :: "nat list \<Rightarrow> huffman_table \<Rightarrow> bool" where
  "table_for ls h \<longleftrightarrow> length (ht_count h) = 16 \<and> length (ht_symbol h) = 288 \<and>
     (\<forall>l. 1 \<le> l \<and> l < 16 \<longrightarrow> ht_count h ! l = int (count_list ls l)) \<and>
     (\<forall>j < length ls. ls ! j \<noteq> 0 \<longrightarrow> ht_symbol h ! (offset_of ls (ls ! j) + rank_of ls j) = Some (int j))"

lemma count_list_take_Suc: "j < length ls \<Longrightarrow> count_list (take (Suc j) ls) l = count_list (take j ls) l + of_bool (ls ! j = l)"
  by (simp add: take_Suc_conv_app_nth)

lemma count_list_take_le: "count_list (take j ls) l \<le> count_list ls l"
  by (metis append_take_drop_id count_list_append le_add1)

lemma count_list_take_mono: "i \<le> j \<Longrightarrow> count_list (take i ls) l \<le> count_list (take j ls) l"
  by (metis count_list_take_le min.absorb1 take_take)

lemma rank_less: "j < length ls \<Longrightarrow> rank_of ls j < count_list ls (ls ! j)"
  using count_list_take_Suc [of j ls "ls ! j"] count_list_take_le [of "Suc j" ls "ls ! j"] by (simp add: rank_of_def)

lemma rank_exists: "r < count_list ls l \<Longrightarrow> \<exists>j < length ls. ls ! j = l \<and> rank_of ls j = r"
proof (induction ls rule: rev_induct)
  case (snoc x xs)
  have r: "j < length xs \<Longrightarrow> rank_of (xs @ [x]) j = rank_of xs j" for j by (simp add: rank_of_def nth_append)
  show ?case
  proof (cases "r < count_list xs l")
    case True
    then obtain j where "j < length xs" "xs ! j = l" "rank_of xs j = r" using snoc.IH by blast
    then show ?thesis using r by (intro exI [of _ j]) (simp add: nth_append)
  next
    case False
    then have "x = l \<and> r = count_list xs l" using snoc.prems by (simp split: if_splits)
    then show ?thesis by (intro exI [of _ "length xs"]) (simp add: rank_of_def)
  qed
qed simp

lemma offset_Suc: "1 \<le> l \<Longrightarrow> offset_of ls (Suc l) = offset_of ls l + count_list ls l"
  by (simp add: offset_of_def)

lemma offset_mono: "l \<le> m \<Longrightarrow> offset_of ls l \<le> offset_of ls m"
  unfolding offset_of_def by (rule sum_mono2) auto

lemma place_inj:
  assumes "i < length ls" and "j < length ls" and "ls ! i \<noteq> 0" and "ls ! j \<noteq> 0"
    and "offset_of ls (ls ! i) + rank_of ls i = offset_of ls (ls ! j) + rank_of ls j"
  shows "i = j"
proof -
  have lt: "\<not> ls ! i < ls ! j" if "i < length ls" "ls ! i \<noteq> 0"
    "offset_of ls (ls ! i) + rank_of ls i = offset_of ls (ls ! j) + rank_of ls j" for i j
  proof
    assume "ls ! i < ls ! j"
    then have "offset_of ls (ls ! i) + count_list ls (ls ! i) \<le> offset_of ls (ls ! j)"
      using offset_mono [of "Suc (ls ! i)" "ls ! j" ls] offset_Suc [of "ls ! i" ls] that(2) by simp
    then show False using rank_less [OF that(1)] that(3) by simp
  qed
  have eq: "ls ! i = ls ! j" using lt [of i j] lt [of j i] assms by (metis nat_neq_iff)
  then have r: "rank_of ls i = rank_of ls j" using assms(5) by simp
  have "\<not> a < b" if "a < length ls" "ls ! a = ls ! b" "rank_of ls a = rank_of ls b" for a b
  proof
    assume "a < b"
    then have "count_list (take (Suc a) ls) (ls ! a) \<le> count_list (take b ls) (ls ! a)" by (intro count_list_take_mono) simp
    then show False using that count_list_take_Suc [of a ls "ls ! a"] by (simp add: rank_of_def)
  qed
  from this [of i j] this [of j i] show "i = j" using eq r assms by (metis nat_neq_iff)
qed

lemma sum_counts_le: "(\<Sum>k = a..<b. count_list ls k) \<le> length (ls :: nat list)"
proof (induction ls)
  case (Cons x xs)
  have "(\<Sum>k = a..<b. count_list (x # xs) k) = (\<Sum>k = a..<b. of_bool (x = k) + count_list xs k)" by (intro sum.cong) auto
  also have "\<dots> = (\<Sum>k = a..<b. of_bool (x = k)) + (\<Sum>k = a..<b. count_list xs k)" by (rule sum.distrib)
  also have "(\<Sum>k = a..<b. of_bool (x = k)) \<le> (1 :: nat)" by (simp add: of_bool_def sum.delta)
  finally show ?case using Cons by simp
qed simp

lemma place_less:
  assumes "j < length ls" and "ls ! j \<noteq> 0"
  shows "offset_of ls (ls ! j) + rank_of ls j < length ls"
proof -
  have "offset_of ls (ls ! j) + rank_of ls j < offset_of ls (Suc (ls ! j))" using rank_less [OF assms(1)] assms(2) by (simp add: offset_Suc)
  also have "\<dots> \<le> length ls" unfolding offset_of_def by (rule sum_counts_le)
  finally show ?thesis .
qed

lemma count_loop_eq:
  "\<forall>l \<in> set ls. unat l < length c \<Longrightarrow>
    \<exists>c'. count_loop ls c = Some c' \<and> length c' = length c \<and> (\<forall>k < length c. c' ! k = c ! k + int (count_list (map unat ls) k))"
proof (induction ls arbitrary: c)
  case (Cons l ls)
  let ?c = "c[unat l := c ! unat l + 1]"
  from Cons.IH [of ?c] Cons.prems obtain c' where "count_loop ls ?c = Some c'" "length c' = length c"
    "\<forall>k < length c. c' ! k = ?c ! k + int (count_list (map unat ls) k)" by auto
  then show ?case using Cons.prems by (auto simp: nth_list_update)
qed simp

lemma offset_loop_eq:
  assumes "length c = 16"
  shows "length (offset_loop c) = 17" and "1 \<le> l \<Longrightarrow> l \<le> 16 \<Longrightarrow> offset_loop c ! l = (\<Sum>k = 1..<l. c ! k)"
proof -
  let ?f = "\<lambda>os len. os[len + 1 := os ! len + c ! len]"
  have *: "length (foldl ?f (replicate 17 0) [1..<Suc n]) = 17 \<and>
      (\<forall>l. 1 \<le> l \<and> l \<le> Suc n \<longrightarrow> foldl ?f (replicate 17 0) [1..<Suc n] ! l = (\<Sum>k = 1..<l. c ! k))" if "n \<le> 15" for n
    using that
  proof (induction n)
    case (Suc n)
    have split: "[1..<Suc (Suc n)] = [1..<Suc n] @ [Suc n]" by simp
    have "(\<Sum>k = 1..<Suc (Suc n). c ! k) = (\<Sum>k = 1..<Suc n. c ! k) + c ! Suc n" by simp
    with Suc show ?case unfolding split foldl_append by (auto simp: nth_list_update le_Suc_eq simp del: upt_Suc)
  qed (auto simp: le_Suc_eq)
  from * [of 15] show "length (offset_loop c) = 17" by (simp add: offset_loop_def)
  from * [of 15] show "1 \<le> l \<Longrightarrow> l \<le> 16 \<Longrightarrow> offset_loop c ! l = (\<Sum>k = 1..<l. c ! k)" by (simp add: offset_loop_def)
qed

lemma symbol_loop_eq:
  fixes L :: "u8 list"
  defines "ls \<equiv> map unat L"
  assumes "length L \<le> length sy" and "\<forall>l \<in> set L. unat l < 16" and "length os = 17" and "i \<le> length L"
    and "\<forall>l. 1 \<le> l \<and> l < 16 \<longrightarrow> os ! l = int (offset_of ls l + count_list (take i ls) l)"
    and "\<forall>j < i. ls ! j \<noteq> 0 \<longrightarrow> sy ! (offset_of ls (ls ! j) + rank_of ls j) = Some (int j)"
  shows "\<exists>sy'. symbol_loop (drop i L) (int i) os sy = Some sy' \<and> length sy' = length sy \<and>
    (\<forall>j < length L. ls ! j \<noteq> 0 \<longrightarrow> sy' ! (offset_of ls (ls ! j) + rank_of ls j) = Some (int j))"
  using assms(2,4-)
proof (induction "length L - i" arbitrary: i os sy)
  case 0
  then show ?case by simp
next
  case (Suc n)
  then have i: "i < length L" by simp
  let ?l = "unat (L ! i)" and ?os = "os[unat (L ! i) := os ! unat (L ! i) + 1]"
  let ?k = "offset_of ls (ls ! i) + rank_of ls i"
  have lsi: "ls ! i = ?l" "length ls = length L" using i by (simp_all add: ls_def)
  have l16: "?l < 16" using assms(3) i by simp
  have d: "drop i L = L ! i # drop (Suc i) L" using i by (simp add: Cons_nth_drop_Suc)
  have tk: "count_list (take (Suc i) ls) l = count_list (take i ls) l + of_bool (?l = l)" for l
    using count_list_take_Suc [of i ls l] i lsi by simp
  show ?case
  proof (cases "L ! i = 0")
    case True
    have l: "\<forall>l. 1 \<le> l \<and> l < 16 \<longrightarrow> os ! l = int (offset_of ls l + count_list (take (Suc i) ls) l)"
      using Suc.prems(4) tk True by auto
    have s: "\<forall>j < Suc i. ls ! j \<noteq> 0 \<longrightarrow> sy ! (offset_of ls (ls ! j) + rank_of ls j) = Some (int j)"
      using Suc.prems(5) lsi True by (auto simp: less_Suc_eq)
    have "n = length L - Suc i" using Suc.hyps(2) by simp
    from Suc.hyps(1) [OF this Suc.prems(1,2) _ l s] i show ?thesis using True by (simp add: d add.commute)
  next
    case False
    then have l0: "?l \<noteq> 0" by (simp add: unat_eq_0)
    have k: "?k < length L" using place_less [of i ls] i lsi l0 by simp
    have osl: "os ! ?l = int ?k" using Suc.prems(4) l0 l16 lsi by (simp add: rank_of_def)
    let ?sy = "sy[?k := Some (int i)]"
    have l: "\<forall>l. 1 \<le> l \<and> l < 16 \<longrightarrow> ?os ! l = int (offset_of ls l + count_list (take (Suc i) ls) l)"
      using Suc.prems(2,4) tk l16 by (auto simp: nth_list_update)
    have s: "\<forall>j < Suc i. ls ! j \<noteq> 0 \<longrightarrow> ?sy ! (offset_of ls (ls ! j) + rank_of ls j) = Some (int j)"
    proof (intro allI impI)
      fix j assume j: "j < Suc i" "ls ! j \<noteq> 0"
      show "?sy ! (offset_of ls (ls ! j) + rank_of ls j) = Some (int j)"
      proof (cases "j = i")
        case True
        then show ?thesis using k Suc.prems(1) by simp
      next
        case False
        then have "offset_of ls (ls ! j) + rank_of ls j \<noteq> ?k"
          using place_inj [of i ls j] i j lsi l0 by auto
        then show ?thesis using Suc.prems(5) j False by simp
      qed
    qed
    have "n = length L - Suc i" "length L \<le> length ?sy" "length ?os = 17" using Suc.hyps(2) Suc.prems(1,2) by simp_all
    from Suc.hyps(1) [OF this _ l s] i show ?thesis
      using False osl k Suc.prems(1,2) l16 by (simp add: d add.commute nat_int_add)
  qed
qed

lemma huffman_build_correct:
  assumes "n \<le> length L" and "n \<le> 288" and "\<forall>l \<in> set (take n L). unat l < 16"
  shows "\<exists>h. huffman_build L n = Some h \<and> table_for (map unat (take n L)) h"
proof -
  let ?L = "take n L" and ?ls = "map unat (take n L)"
  from count_loop_eq [of ?L "replicate 16 0"] assms(3) obtain c
    where c: "count_loop ?L (replicate 16 0) = Some c" "length c = 16" "\<forall>k < 16. c ! k = int (count_list ?ls k)" by auto
  let ?c = "c[0 := 0]"
  have cl: "?c ! l = int (count_list ?ls l)" if "1 \<le> l" "l < 16" for l using c(3) that by simp
  have off: "\<forall>l. 1 \<le> l \<and> l < 16 \<longrightarrow> offset_loop ?c ! l = int (offset_of ?ls l + count_list (take 0 ?ls) l)"
  proof (intro allI impI)
    fix l :: nat assume l: "1 \<le> l \<and> l < 16"
    then have "offset_loop ?c ! l = (\<Sum>k = 1..<l. ?c ! k)" using offset_loop_eq(2) [of ?c l] c(2) by simp
    also have "\<dots> = (\<Sum>k = 1..<l. int (count_list ?ls k))" by (rule sum.cong) (use l cl in auto)
    finally show "offset_loop ?c ! l = int (offset_of ?ls l + count_list (take 0 ?ls) l)" by (simp add: offset_of_def)
  qed
  from symbol_loop_eq [of ?L "replicate 288 None" "offset_loop ?c" 0, OF _ assms(3) _ _ off] obtain sy
    where sy: "symbol_loop ?L 0 (offset_loop ?c) (replicate 288 None) = Some sy" "length sy = 288"
      "\<forall>j < length ?L. ?ls ! j \<noteq> 0 \<longrightarrow> sy ! (offset_of ?ls (?ls ! j) + rank_of ?ls j) = Some (int j)"
    using assms(1,2) offset_loop_eq(1) [of ?c] c(2) by auto
  have "table_for ?ls \<lparr>ht_count = ?c, ht_symbol = sy\<rparr>"
    unfolding table_for_def using c(2) cl sy by simp
  then show ?thesis using assms(1) c(1) sy(1) by (simp add: huffman_build_def Let_def)
qed

section \<open>Decoding\<close>

lemma or_bit: "even (c :: int) \<Longrightarrow> b = 0 \<or> b = 1 \<Longrightarrow> c OR uint (b :: u32) = c + uint b"
  by (auto simp: or_one_eq)

lemma symbol_entry:
  assumes "table_for ls h" and "length ls \<le> 288" and "1 \<le> l" and "r < count_list ls l"
  shows "\<exists>j < length ls. offset_of ls l + r < length (ht_symbol h) \<and> ht_symbol h ! (offset_of ls l + r) = Some (int j)"
proof -
  from rank_exists [OF assms(4)] obtain j where j: "j < length ls" "ls ! j = l" "rank_of ls j = r" by blast
  then have "offset_of ls l + r < length ls" using place_less [of j ls] assms(3) by simp
  then show ?thesis using assms j by (auto simp: table_for_def)
qed

lemma decode_loop_total:
  assumes "table_for ls h" and "length ls \<le> 288"
  shows "br_ok br \<Longrightarrow> 1 \<le> l \<Longrightarrow> l \<le> 16 \<Longrightarrow> even code \<Longrightarrow> start \<le> code \<Longrightarrow>
    \<exists>s br'. decode_loop h br code start (int (offset_of ls l)) [l..<16] = Some (s, br') \<and> reads br br' \<and>
      (s = -1 \<or> 0 \<le> s \<and> s < int (length ls) \<and> \<not> br_error br' \<and> length (rest br') < length (rest br))"
proof (induction "16 - l" arbitrary: l br code start)
  case 0
  then show ?case by (simp add: reads_refl)
next
  case (Suc n)
  then have l: "l < 16" and up: "[l..<16] = l # [Suc l..<16]" by (simp_all add: upt_conv_Cons)
  from getbit_total [OF Suc.prems(1)] obtain b br1 where b: "br_getbit br = Some (b, br1)" "b = 0 \<or> b = 1"
    "reads br br1" "\<not> br_error br1 \<longrightarrow> length (rest br1) < length (rest br)" by blast
  let ?code = "code + uint b" and ?c = "count_list ls l"
  have code: "code OR uint b = ?code" using or_bit Suc.prems(4) b(2) by simp
  have cnt: "ht_count h ! l = int ?c" "length (ht_count h) = 16" using assms(1) Suc.prems(2) l by (simp_all add: table_for_def)
  have ge: "start \<le> ?code" using Suc.prems(5) b(2) by auto
  show ?case
  proof (cases "br_error br1")
    case True
    then show ?thesis using b by (simp add: up)
  next
    case False
    show ?thesis
    proof (cases "?code - start < int ?c")
      case True
      then obtain r where r: "?code - start = int r" "r < ?c" using ge by (metis diff_ge_0_iff_ge nonneg_int_cases of_nat_less_iff)
      from symbol_entry [OF assms Suc.prems(2) r(2)] obtain j where j: "j < length ls"
        "offset_of ls l + r < length (ht_symbol h)" "ht_symbol h ! (offset_of ls l + r) = Some (int j)" by blast
      then show ?thesis using b False True r cnt l by (simp add: up code nat_int_add)
    next
      case no: False
      have ok: "br_ok br1" using b(3) by (simp add: reads_def)
      have ind: "int (offset_of ls l) + int ?c = int (offset_of ls (Suc l))" using Suc.prems(2) by (simp add: offset_Suc)
      have "n = 16 - Suc l" "1 \<le> Suc l" "Suc l \<le> 16" "even (push_bit 1 ?code)" "push_bit 1 (start + int ?c) \<le> push_bit 1 ?code"
        using Suc.hyps(2) l no by simp_all
      from Suc.hyps(1) [OF this(1) ok this(2-)] obtain s br' where
        "decode_loop h br1 (push_bit 1 ?code) (push_bit 1 (start + int ?c)) (int (offset_of ls (Suc l))) [Suc l..<16] = Some (s, br')"
        "reads br1 br'" "s = -1 \<or> 0 \<le> s \<and> s < int (length ls) \<and> \<not> br_error br' \<and> length (rest br') < length (rest br1)" by blast
      then show ?thesis using b False no cnt l ind reads_le [OF b(3)]
        by (auto simp: up code intro: reads_trans)
    qed
  qed
qed

lemma huffman_decode_total:
  assumes "table_for ls h" and "length ls \<le> 288" and "br_ok br"
  shows "\<exists>s br'. huffman_decode h br = Some (s, br') \<and> reads br br' \<and>
    (s = -1 \<or> 0 \<le> s \<and> s < int (length ls) \<and> \<not> br_error br' \<and> length (rest br') < length (rest br))"
  using decode_loop_total [OF assms(1,2,3), of 1 0 0] by (simp add: huffman_decode_def offset_of_def)

section \<open>Safety and termination\<close>

lemma lengths_loop_total:
  assumes "table_for ls h" and "length ls \<le> 19"
  shows "br_ok br \<Longrightarrow> \<forall>x \<in> set xs. unat x < 16 \<Longrightarrow> length xs \<le> n_total \<Longrightarrow>
    \<exists>r br'. lengths_loop h n_total br xs = Some (r, br') \<and> reads br br' \<and>
      (\<forall>ys. r = Some ys \<longrightarrow> length ys = n_total \<and> (\<forall>x \<in> set ys. unat x < 16))"
proof (induction "n_total - length xs" arbitrary: br xs rule: less_induct)
  case less
  note ok = less.prems(1)
  show ?case
  proof (cases "length xs = n_total")
    case True
    then show ?thesis using less.prems by (simp add: lengths_loop.simps [of h] reads_refl)
  next
    case False
    then have lt: "length xs < n_total" using less.prems(3) by simp
    from huffman_decode_total [OF assms(1) _ ok] assms(2) obtain s br1 where
      s: "huffman_decode h br = Some (s, br1)" "reads br br1" "s = -1 \<or> 0 \<le> s \<and> s < int (length ls)" by auto
    have ok1: "br_ok br1" using s(2) by (simp add: reads_def)
    have go: "\<exists>r br'. lengths_loop h n_total br2 ys = Some (r, br') \<and> reads br br' \<and>
        (\<forall>ys. r = Some ys \<longrightarrow> length ys = n_total \<and> (\<forall>x \<in> set ys. unat x < 16))"
      if "reads br1 br2" "\<forall>x \<in> set ys. unat x < 16" "length xs < length ys" "length ys \<le> n_total" for br2 ys
    proof -
      have "n_total - length ys < n_total - length xs" "br_ok br2" using that lt by (auto simp: reads_def)
      from less.hyps [OF this that(2,4)] show ?thesis using s(2) that(1) by (blast intro: reads_trans)
    qed
    have rep: "\<exists>r br'. Option.bind (br_getbits br1 n) (\<lambda>(v, br).
          if br_error br then Some (None, br) else lengths_loop h n_total br (repeat_length n_total (v + k) b xs)) = Some (r, br') \<and>
        reads br br' \<and> (\<forall>ys. r = Some ys \<longrightarrow> length ys = n_total \<and> (\<forall>x \<in> set ys. unat x < 16))"
      if n: "n \<le> 7" "0 < unat k" "unat k \<le> 11" "unat b < 16" for n k b
    proof -
      from getbits_total [OF ok1, of n] n obtain v br2 where v: "br_getbits br1 n = Some (v, br2)" "unat v < 2 ^ n" "reads br1 br2" by auto
      have "(2 :: nat) ^ n \<le> 2 ^ 7" using n(1) by (intro power_increasing) simp_all
      then have "unat (v + k) = unat v + unat k" using v(2) n by (intro unat_plus_simple [THEN iffD1] word_le_nat_alt [THEN iffD2]) (simp add: unat_word_ariths)
      then have "0 < unat (v + k)" using n by simp
      then have "length xs < length (repeat_length n_total (v + k) b xs)" "length (repeat_length n_total (v + k) b xs) \<le> n_total"
        "\<forall>x \<in> set (repeat_length n_total (v + k) b xs). unat x < 16"
        using lt less.prems(2) n(4) by (auto simp: repeat_length_def)
      from go [OF v(3) this(3,1,2)] v reads_trans [OF s(2) v(3)] show ?thesis by (cases "br_error br2") auto
    qed
    show ?thesis
    proof (cases "s < 0")
      case True
      then show ?thesis using s lt by (simp add: lengths_loop.simps [of h])
    next
      case pos: False
      consider "s < 16" | "s = 16" "xs = []" | "s = 16" "xs \<noteq> []" | "s = 17" | "s > 17" using pos by linarith
      then show ?thesis
      proof cases
        case 1
        have "unat (word_of_int s :: u8) < 16" using 1 pos by (simp add: unsigned_of_int take_bit_int_eq_self nat_less_iff)
        then show ?thesis using go [of br1 "xs @ [word_of_int s]"] reads_refl [OF ok1] less.prems(2) lt s pos 1
          by (auto simp: lengths_loop.simps [of h _ br])
      next
        case 2
        then show ?thesis using s lt by (simp add: lengths_loop.simps [of h])
      next
        case 3
        then show ?thesis using rep [of 2 3 "last xs"] less.prems(2) s lt by (simp add: lengths_loop.simps [of h _ br])
      next
        case 4
        then show ?thesis using rep [of 3 3 0] s lt by (simp add: lengths_loop.simps [of h _ br])
      next
        case 5
        then show ?thesis using rep [of 7 11 0] s lt by (simp add: lengths_loop.simps [of h _ br])
      qed
    qed
  qed
qed

lemma cl_loop_total:
  "br_ok br \<Longrightarrow> \<forall>k \<in> set ks. k < length cl \<Longrightarrow> \<forall>x \<in> set cl. unat x < 16 \<Longrightarrow>
    \<exists>cl' br'. cl_loop br ks cl = Some (cl', br') \<and> reads br br' \<and> length cl' = length cl \<and> (\<forall>x \<in> set cl'. unat x < 16)"
proof (induction ks arbitrary: br cl)
  case (Cons k ks)
  from getbits_total [OF Cons.prems(1), of 3] obtain v br1
    where v: "br_getbits br 3 = Some (v, br1)" "unat v < 8" "reads br br1" by auto
  have "unat (ucast v :: u8) < 16" using v(2) by (simp add: unat_ucast_mod)
  then have "\<forall>x \<in> set (cl[k := ucast v]). unat x < 16" using Cons.prems(3) set_update_subset_insert [of cl k "ucast v"] by auto
  from Cons.IH [of br1 "cl[k := ucast v]", OF _ _ this] v(3) Cons.prems(2) v(1) show ?case
    by (auto simp: reads_def intro: suffix_order.trans)
qed (simp add: reads_refl)

definition tables_ok :: "huffman_table \<Rightarrow> huffman_table \<Rightarrow> bool" where
  "tables_ok lit dist \<longleftrightarrow> (\<exists>ll ld. table_for ll lit \<and> length ll \<le> 288 \<and> table_for ld dist \<and> length ld \<le> 288)"

lemma read_dynamic_tables_total:
  assumes "br_ok br"
  shows "\<exists>t br'. read_dynamic_tables br = Some (t, br') \<and> reads br br' \<and> (\<forall>lit dist. t = Some (lit, dist) \<longrightarrow> tables_ok lit dist)"
proof -
  from getbits_total [OF assms, of 5] obtain v1 br1 where 1: "br_getbits br 5 = Some (v1, br1)" "unat v1 < 32" "reads br br1" by auto
  from getbits_total [of br1 5] 1(3) obtain v2 br2 where 2: "br_getbits br1 5 = Some (v2, br2)" "unat v2 < 32" "reads br1 br2"
    by (auto simp: reads_def)
  from getbits_total [of br2 4] 2(3) obtain v3 br3 where 3: "br_getbits br2 4 = Some (v3, br3)" "unat v3 < 16" "reads br2 br3"
    by (auto simp: reads_def)
  have r3: "reads br br3" using 1 2 3 by (blast intro: reads_trans)
  have u: "unat (v1 + 257) = unat v1 + 257" "unat (v2 + 1) = unat v2 + 1" "unat (v3 + 4) = unat v3 + 4"
    using 1(2) 2(2) 3(2) by (simp_all add: unat_word_ariths)
  have hclen: "unat (v3 + 4) \<le> length CL_ORDER" using u(3) 3(2) by (simp add: CL_ORDER_def)
  have "\<forall>k \<in> set (take (unat (v3 + 4)) CL_ORDER). k < length (replicate 19 (0 :: u8))"
    by (auto simp: CL_ORDER_def dest!: in_set_takeD)
  from cl_loop_total [OF _ this, of br3] 3(3) obtain cl br4
    where 4: "cl_loop br3 (take (unat (v3 + 4)) CL_ORDER) (replicate 19 0) = Some (cl, br4)" "reads br3 br4" "length cl = 19"
      "\<forall>x \<in> set cl. unat x < 16" by (auto simp: reads_def)
  have r4: "reads br br4" using r3 4(2) by (blast intro: reads_trans)
  from huffman_build_correct [of 19 cl] 4(3,4) obtain h where h: "huffman_build cl 19 = Some h" "table_for (map unat cl) h" by auto
  let ?n = "unat (v1 + 257) + unat (v2 + 1)"
  from lengths_loop_total [OF h(2), of br4 "[]" ?n] 4(2,3) obtain r br5
    where 5: "lengths_loop h ?n br4 [] = Some (r, br5)" "reads br4 br5"
      "\<forall>ys. r = Some ys \<longrightarrow> length ys = ?n \<and> (\<forall>x \<in> set ys. unat x < 16)" by (auto simp: reads_def)
  have r5: "reads br br5" using r4 5(2) by (blast intro: reads_trans)
  note pre = 1(1) 2(1) 3(1) 4(1) h(1) hclen
  show ?thesis
  proof (cases "br_error br3 \<or> br_error br4 \<or> ?n > 318")
    case True
    then show ?thesis using pre r3 r4 by (auto simp: read_dynamic_tables_def Let_def not_less)
  next
    case False
    show ?thesis
    proof (cases r)
      case None
      then show ?thesis using False pre r5 5(1) by (simp add: read_dynamic_tables_def Let_def)
    next
      case (Some ys)
      then have ys: "length ys = ?n" "\<forall>x \<in> set ys. unat x < 16" using 5(3) by simp_all
      have "\<exists>lit. huffman_build ys (unat (v1 + 257)) = Some lit \<and> table_for (map unat (take (unat (v1 + 257)) ys)) lit"
        by (rule huffman_build_correct) (use ys u 1(2) in \<open>auto dest: in_set_takeD\<close>)
      moreover have "\<exists>dist. huffman_build (drop (unat (v1 + 257)) ys) (unat (v2 + 1)) = Some dist \<and>
          table_for (map unat (take (unat (v2 + 1)) (drop (unat (v1 + 257)) ys))) dist"
        by (rule huffman_build_correct) (use ys u 2(2) in \<open>auto dest!: in_set_takeD in_set_dropD\<close>)
      ultimately obtain lit dist where t: "huffman_build ys (unat (v1 + 257)) = Some lit"
        "huffman_build (drop (unat (v1 + 257)) ys) (unat (v2 + 1)) = Some dist"
        "table_for (map unat (take (unat (v1 + 257)) ys)) lit"
        "table_for (map unat (take (unat (v2 + 1)) (drop (unat (v1 + 257)) ys))) dist" by blast
      have "length (map unat (take (unat (v1 + 257)) ys)) \<le> 288"
        "length (map unat (take (unat (v2 + 1)) (drop (unat (v1 + 257)) ys))) \<le> 288" using u 1(2) 2(2) by simp_all
      then have "tables_ok lit dist" unfolding tables_ok_def using t(3,4) by blast
      then show ?thesis using False pre r5 5(1) Some t(1,2) by (simp add: read_dynamic_tables_def Let_def)
    qed
  qed
qed

text \<open>The buffer has its capacity, of less than 2 GiB, and the position is inside.\<close>

definition out_ok :: "u8 list \<Rightarrow> u32 \<Rightarrow> u32 \<Rightarrow> bool" where
  "out_ok dst cap pos \<longleftrightarrow> length dst = unat cap \<and> unat cap < 2 ^ 31 \<and> unat pos \<le> unat cap"

lemma unat_sum_fits: "unat (a :: u32) + n < 2 ^ 32 \<Longrightarrow> unat (a + word_of_nat n) = unat a + n"
  by (simp add: unat_word_ariths unsigned_of_nat take_bit_nat_eq_self)

lemma stored_loop_eq:
  "unat (br_byte br) + n \<le> length (br_data br) \<Longrightarrow> length (br_data br) < 2 ^ 32 \<Longrightarrow> unat pos + n \<le> length dst \<Longrightarrow>
    length dst < 2 ^ 32 \<Longrightarrow>
    stored_loop n br dst pos = Some (put_bytes (unat pos) (get_bytes (unat (br_byte br)) n (br_data br)) dst,
      pos + word_of_nat n, br\<lparr>br_byte := br_byte br + word_of_nat n\<rparr>)"
proof (induction n arbitrary: br dst pos)
  case 0
  then show ?case by (simp add: get_bytes_def)
next
  case (Suc n)
  let ?b = "br_data br ! unat (br_byte br)" and ?br = "br\<lparr>br_byte := br_byte br + 1\<rparr>"
  have u: "unat (br_byte br + 1) = Suc (unat (br_byte br))" "unat (pos + 1) = Suc (unat pos)"
    using unat_sum_fits [of _ 1] Suc.prems by simp_all
  have "get_bytes (unat (br_byte br)) (Suc n) (br_data br) = ?b # get_bytes (Suc (unat (br_byte br))) n (br_data br)"
    using Suc.prems(1) by (simp add: get_bytes_def Cons_nth_drop_Suc [symmetric])
  with Suc.IH [of ?br "pos + 1" "dst[unat pos := ?b]"] Suc.prems u
  show ?case by (simp add: out_put_def put_bytes_Cons add.assoc)
qed

text \<open>A copy of earlier output, byte by byte, so that it may repeat bytes it has just written.\<close>

fun lz_match :: "nat \<Rightarrow> nat \<Rightarrow> u8 list \<Rightarrow> u8 list" where
  "lz_match 0 d out = out"
| "lz_match (Suc n) d out = lz_match n d (out @ [out ! (length out - d)])"

lemma copy_loop_eq:
  "1 \<le> d \<Longrightarrow> d \<le> unat pos \<Longrightarrow> unat pos + n \<le> length dst \<Longrightarrow> length dst < 2 ^ 32 \<Longrightarrow> unat src = unat pos - d \<Longrightarrow>
    \<exists>dst'. copy_loop n dst pos src = Some (dst', pos + word_of_nat n) \<and> length dst' = length dst \<and>
      take (unat pos + n) dst' = lz_match n d (take (unat pos) dst)"
proof (induction n arbitrary: dst pos src)
  case (Suc n)
  let ?dst = "dst[unat pos := dst ! unat src]"
  have u: "unat (pos + 1) = Suc (unat pos)" "unat (src + 1) = Suc (unat src)"
    using unat_sum_fits [of _ 1] Suc.prems by simp_all
  have tk: "take (Suc (unat pos)) ?dst = take (unat pos) dst @ [take (unat pos) dst ! (length (take (unat pos) dst) - d)]"
    using Suc.prems by (simp add: take_Suc_conv_app_nth)
  from Suc.IH [of "pos + 1" ?dst "src + 1"] Suc.prems u obtain dst'
    where "copy_loop n ?dst (pos + 1) (src + 1) = Some (dst', pos + 1 + word_of_nat n)" "length dst' = length dst"
      "take (unat (pos + 1) + n) dst' = lz_match n d (take (unat (pos + 1)) ?dst)" by (auto simp: Suc_diff_le)
  then show ?case using Suc.prems u tk by (simp add: out_put_def add.assoc)
qed (simp)

lemma extra_bounds:
  "i < 29 \<Longrightarrow> LENGTH_EXTRA ! i \<le> 5" "i < 29 \<Longrightarrow> unat (LENGTH_BASE ! i) \<le> 258"
  "j < 30 \<Longrightarrow> DIST_EXTRA ! j \<le> 13" "j < 30 \<Longrightarrow> 1 \<le> unat (DIST_BASE ! j) \<and> unat (DIST_BASE ! j) \<le> 24577"
proof -
  have "list_all (\<lambda>n. n \<le> 5) LENGTH_EXTRA" "list_all (\<lambda>n. unat n \<le> 258) LENGTH_BASE"
    "list_all (\<lambda>n. n \<le> 13) DIST_EXTRA" "list_all (\<lambda>n. 1 \<le> unat n \<and> unat n \<le> 24577) DIST_BASE"
    "length LENGTH_EXTRA = 29" "length LENGTH_BASE = 29" "length DIST_EXTRA = 30" "length DIST_BASE = 30"
    by (simp_all add: LENGTH_EXTRA_def LENGTH_BASE_def DIST_EXTRA_def DIST_BASE_def)
  then show "i < 29 \<Longrightarrow> LENGTH_EXTRA ! i \<le> 5" "i < 29 \<Longrightarrow> unat (LENGTH_BASE ! i) \<le> 258"
    "j < 30 \<Longrightarrow> DIST_EXTRA ! j \<le> 13" "j < 30 \<Longrightarrow> 1 \<le> unat (DIST_BASE ! j) \<and> unat (DIST_BASE ! j) \<le> 24577"
    by (auto simp: list_all_length)
qed

lemma unat_base_extra:
  fixes b v :: u32
  assumes "unat b \<le> 24577" and "unat v < 2 ^ n" and "n \<le> 13"
  shows "unat (b + v) = unat b + unat v" and "unat b + unat v < 2 ^ 16"
proof -
  have "(2 :: nat) ^ n \<le> 2 ^ 13" using assms(3) by (intro power_increasing) simp_all
  then show "unat (b + v) = unat b + unat v" "unat b + unat v < 2 ^ 16" using assms(1,2) by (simp_all add: unat_word_ariths)
qed

lemma ex_bool [simp]: "\<exists>b. b" "\<exists>b. \<not> b"
  by auto

lemma inflate_match_total:
  assumes "table_for ld dist" and "length ld \<le> 288" and "br_ok br" and "out_ok dst cap pos" and "257 \<le> symb"
  shows "\<exists>ok dst' pos' br'. inflate_match dist br symb dst cap pos = Some (ok, dst', pos', br') \<and> reads br br' \<and> out_ok dst' cap pos'"
proof (cases "nat (symb - 257) < 29")
  case True
  note li = extra_bounds(1,2) [OF True]
  from getbits_total [OF assms(3), of "LENGTH_EXTRA ! nat (symb - 257)"] li obtain v1 br1
    where 1: "br_getbits br (LENGTH_EXTRA ! nat (symb - 257)) = Some (v1, br1)" "unat v1 < 2 ^ (LENGTH_EXTRA ! nat (symb - 257))"
      "reads br br1" by auto
  let ?len = "LENGTH_BASE ! nat (symb - 257) + v1"
  have len: "unat ?len < 2 ^ 16"
    using unat_base_extra [OF _ 1(2)] li by simp
  from huffman_decode_total [OF assms(1,2), of br1] 1(3) obtain ds br2 where 2: "huffman_decode dist br1 = Some (ds, br2)" "reads br1 br2"
    by (auto simp: reads_def)
  have r2: "reads br br2" using 1(3) 2(2) by (rule reads_trans)
  show ?thesis
  proof (cases "ds < 0 \<or> 30 \<le> ds")
    case bad: True
    then show ?thesis using 1(1) 2(1) r2 True assms(4) by (auto simp: inflate_match_def Let_def)
  next
    case False
    then have ds: "nat ds < 30" by auto
    note di = extra_bounds(3,4) [OF ds]
    from getbits_total [of br2 "DIST_EXTRA ! nat ds"] 2(2) di obtain v3 br3
      where 3: "br_getbits br2 (DIST_EXTRA ! nat ds) = Some (v3, br3)" "unat v3 < 2 ^ (DIST_EXTRA ! nat ds)" "reads br2 br3"
      by (auto simp: reads_def)
    have r3: "reads br br3" using r2 3(3) by (rule reads_trans)
    let ?d = "DIST_BASE ! nat ds + v3"
    have d: "1 \<le> unat ?d" using unat_base_extra(1) [OF _ 3(2)] di by simp
    show ?thesis
    proof (cases "br_error br3 \<or> ?d > pos \<or> pos + ?len > cap")
      case bad: True
      then show ?thesis using 1(1) 2(1) 3(1) r3 True False assms(4) by (simp add: inflate_match_def Let_def)
    next
      case go: False
      have p: "unat (pos + ?len) = unat pos + unat ?len"
        using assms(4) len by (simp add: out_ok_def unat_word_ariths)
      have le: "unat pos + unat ?len \<le> length dst" using go p assms(4) by (simp add: out_ok_def word_le_nat_alt not_less)
      have dle: "unat ?d \<le> unat pos" using go by (simp add: word_le_nat_alt not_less)
      have "unat (pos - ?d) = unat pos - unat ?d" using dle by (simp add: unat_sub word_le_nat_alt)
      from copy_loop_eq [OF d dle le _ this] assms(4) obtain dst'
        where c: "copy_loop (unat ?len) dst pos (pos - ?d) = Some (dst', pos + ?len)" "length dst' = length dst"
        by (auto simp: out_ok_def)
      have "out_ok dst' cap (pos + ?len)" using c(2) p le assms(4) by (simp add: out_ok_def)
      then show ?thesis using 1(1) 2(1) 3(1) r3 True False go c(1) by (simp add: inflate_match_def Let_def)
    qed
  qed
qed (use assms(3,4) in \<open>simp add: inflate_match_def reads_refl\<close>)

lemma inflate_block_huffman_total:
  assumes "table_for ll lit" and "length ll \<le> 288" and "table_for ld dist" and "length ld \<le> 288"
  shows "br_ok br \<Longrightarrow> out_ok dst cap pos \<Longrightarrow>
    \<exists>ok dst' pos' br'. inflate_block_huffman br lit dist dst cap pos = Some (ok, dst', pos', br') \<and> reads br br' \<and> out_ok dst' cap pos'"
proof (induction "length (rest br)" arbitrary: br dst pos rule: less_induct)
  case less
  from huffman_decode_total [OF assms(1,2) less.prems(1)] obtain s br1 where
    s: "huffman_decode lit br = Some (s, br1)" "reads br br1"
      "s = -1 \<or> 0 \<le> s \<and> s < int (length ll) \<and> \<not> br_error br1 \<and> length (rest br1) < length (rest br)" by blast
  have ok1: "br_ok br1" using s(2) by (simp add: reads_def)
  note unfold = inflate_block_huffman.simps [of br lit dist dst cap pos]
  consider "s < 0" | "0 \<le> s" "s < 256" "pos \<ge> cap" | "0 \<le> s" "s < 256" "pos < cap" | "s = 256" | "s > 256" by (meson not_le linorder_neqE)
  then show ?case
  proof cases
    case 3
    then have lt: "unat pos < length dst" using less.prems(2) by (simp add: out_ok_def word_less_nat_alt)
    have "out_ok (dst[unat pos := word_of_int s]) cap (pos + 1)"
      using less.prems(2) lt unat_plus_one [OF 3(3)] by (simp add: out_ok_def)
    from less.hyps [OF _ ok1 this] s 3 obtain ok dst' pos' br'
      where r: "inflate_block_huffman br1 lit dist (dst[unat pos := word_of_int s]) cap (pos + 1) = Some (ok, dst', pos', br')"
        "reads br1 br'" "out_ok dst' cap pos'" by auto
    have "\<not> cap \<le> pos" using 3(3) by (simp add: not_le)
    then show ?thesis using r s(1) 3 lt reads_trans [OF s(2) r(2)] by (subst unfold) (simp add: out_put_def)
  next
    case 5
    then have "257 \<le> s" by simp
    from inflate_match_total [OF assms(3,4) ok1 less.prems(2) this] obtain ok dst1 pos1 br2
      where m: "inflate_match dist br1 s dst cap pos = Some (ok, dst1, pos1, br2)" "reads br1 br2" "out_ok dst1 cap pos1" by blast
    have r2: "reads br br2" using s(2) m(2) by (rule reads_trans)
    show ?thesis
    proof (cases ok)
      case True
      have "length (rest br2) < length (rest br)" "br_ok br2" using s(3) 5 reads_le [OF m(2)] m(2) by (auto simp: reads_def)
      from less.hyps [OF this m(3)] obtain ok' dst' pos' br'
        where r: "inflate_block_huffman br2 lit dist dst1 cap pos1 = Some (ok', dst', pos', br')" "reads br2 br'" "out_ok dst' cap pos'" by blast
      show ?thesis using r s(1) m(1) 5 True reads_trans [OF r2 r(2)] by (subst unfold) simp
    next
      case False
      then show ?thesis using s(1) m(1,3) 5 r2 by (subst unfold) simp
    qed
  qed (subst unfold; use s(1,2) less.prems(2) in simp)+
qed

lemma skip_bytes:
  assumes "br_ok br" and "br_bit br = 0" and "unat (br_byte br) + n \<le> unat (br_len br)"
  shows "reads br (br\<lparr>br_byte := br_byte br + word_of_nat n\<rparr>)"
    and "unat (br_byte br + word_of_nat n) = unat (br_byte br) + n"
proof -
  have "unat (br_len br) < 2 ^ 32" using unsigned_less [of "br_len br"] by simp
  then show u: "unat (br_byte br + word_of_nat n) = unat (br_byte br) + n"
    by (intro unat_sum_fits le_less_trans [OF assms(3)])
  have d: "drop (unat (br_byte br)) (br_data br) =
      take n (drop (unat (br_byte br)) (br_data br)) @ drop (unat (br_byte br) + n) (br_data br)"
    by (metis append_take_drop_id drop_drop add.commute)
  have "rest br = concat (map byte_bits (take n (drop (unat (br_byte br)) (br_data br)))) @ rest (br\<lparr>br_byte := br_byte br + word_of_nat n\<rparr>)"
    unfolding rest_def using assms(2) u by (subst d) simp
  then have "suffix (rest (br\<lparr>br_byte := br_byte br + word_of_nat n\<rparr>)) (rest br)" by (auto simp: suffix_def)
  then show "reads br (br\<lparr>br_byte := br_byte br + word_of_nat n\<rparr>)"
    using assms u by (auto simp: reads_def br_ok_def)
qed

lemma align_reads:
  assumes "br_ok br"
  shows "reads br (br_align br)" and "br_bit (br_align br) = 0" and "br_data (br_align br) = br_data br"
    and "br_len (br_align br) = br_len br" and "br_error (br_align br) = br_error br"
proof -
  show "br_bit (br_align br) = 0" "br_data (br_align br) = br_data br" "br_len (br_align br) = br_len br"
    "br_error (br_align br) = br_error br" by (simp_all add: br_align_def)
  show "reads br (br_align br)"
  proof (cases "br_bit br = 0")
    case False
    then have "br_byte br \<noteq> br_len br" using assms by (auto simp: br_ok_def)
    then have "unat (br_byte br) \<noteq> unat (br_len br)" using word_unat_eq_iff by blast
    then have lt: "unat (br_byte br) < unat (br_len br)" using assms by (simp add: br_ok_def)
    then have u: "unat (br_byte br + 1) = Suc (unat (br_byte br))" by (intro unat_plus_one) (simp add: word_less_nat_alt)
    let ?p = "unat (br_byte br)"
    have "drop ?p (br_data br) = br_data br ! ?p # drop (Suc ?p) (br_data br)"
      using lt assms by (simp add: br_ok_def Cons_nth_drop_Suc)
    then have "rest br = drop (unat (br_bit br)) (byte_bits (br_data br ! ?p)) @ rest (br_align br)"
      using False u assms by (simp add: rest_def br_align_def br_ok_def)
    then have "suffix (rest (br_align br)) (rest br)" by (auto simp: suffix_def)
    then show ?thesis using assms False lt u by (auto simp: reads_def br_ok_def br_align_def)
  qed (simp add: br_align_def reads_refl assms)
qed

lemma unat_bytes16: "unat (ucast a OR push_bit 8 (ucast b) :: u32) < 2 ^ 16" for a b :: u8
proof -
  note uc = bit_u8_u32
  have "take_bit 16 (ucast a OR push_bit 8 (ucast b) :: u32) = ucast a OR push_bit 8 (ucast b)"
    by (rule bit_word_eqI) (auto simp: bit_take_bit_iff bit_or_iff bit_push_bit_iff uc)
  from arg_cong [OF this, of unat] show ?thesis unfolding unsigned_take_bit_eq by (metis take_bit_nat_less_exp)
qed

lemma inflate_block_stored_total:
  assumes "br_ok br" and "unat (br_len br) < 2 ^ 31" and "out_ok dst cap pos"
  shows "\<exists>ok dst' pos' br'. inflate_block_stored br dst cap pos = Some (ok, dst', pos', br') \<and> reads br br' \<and> out_ok dst' cap pos'"
proof -
  let ?br = "br_align br"
  note al = align_reads [OF assms(1)]
  have ok: "br_ok ?br" using al(1) by (simp add: reads_def)
  let ?p = "unat (br_byte ?br)"
  let ?lenv = "ucast (br_data ?br ! ?p) OR push_bit 8 (ucast (br_data ?br ! (?p + 1))) :: u32"
  let ?nlen = "ucast (br_data ?br ! (?p + 2)) OR push_bit 8 (ucast (br_data ?br ! (?p + 3))) :: u32"
  have p: "?p \<le> unat (br_len br)" "length (br_data br) = unat (br_len br)" using ok al by (simp_all add: br_ok_def)
  have u4: "unat (br_byte ?br + 4) = ?p + 4" using unat_sum_fits [of "br_byte ?br" 4] p assms(2) by simp
  show ?thesis
  proof (cases "br_byte ?br + 4 > br_len ?br \<or> NOT ?lenv AND 0xFFFF \<noteq> ?nlen")
    case True
    then show ?thesis using u4 al p assms(3)
      by (cases "br_byte ?br + 4 > br_len ?br") (simp_all add: inflate_block_stored_def Let_def word_less_nat_alt)
  next
    case False
    then have h4: "?p + 4 \<le> unat (br_len br)" using u4 al by (simp add: word_less_nat_alt)
    let ?br4 = "?br\<lparr>br_byte := br_byte ?br + 4\<rparr>"
    have r4: "reads ?br ?br4" using skip_bytes(1) [OF ok al(2), of 4] h4 al by simp
    have ok4: "br_ok ?br4" using r4 by (simp add: reads_def)
    have ul: "unat ?lenv < 2 ^ 16" by (rule unat_bytes16)
    have ub: "unat (br_byte ?br4 + ?lenv) = ?p + 4 + unat ?lenv" "unat (pos + ?lenv) = unat pos + unat ?lenv"
      using ul u4 h4 assms(2,3) unat_sum_fits [of "br_byte ?br + 4" "unat ?lenv"] unat_sum_fits [of pos "unat ?lenv"]
      by (simp_all add: out_ok_def)
    show ?thesis
    proof (cases "br_byte ?br4 + ?lenv > br_len ?br \<or> pos + ?lenv > cap")
      case True
      then show ?thesis using False h4 p al assms(3) reads_trans [OF al(1) r4]
        by (cases "br_byte ?br4 + ?lenv > br_len ?br") (simp_all add: inflate_block_stored_def Let_def)
    next
      case go: False
      have le: "?p + 4 + unat ?lenv \<le> unat (br_len br)" "unat pos + unat ?lenv \<le> unat cap"
        using go ub al by (simp_all add: word_less_nat_alt)
      let ?stop = "?br4\<lparr>br_byte := br_byte ?br4 + ?lenv\<rparr>"
      have st: "stored_loop (unat ?lenv) ?br4 dst pos = Some (put_bytes (unat pos)
          (get_bytes (?p + 4) (unat ?lenv) (br_data br)) dst, pos + ?lenv, ?stop)"
        using stored_loop_eq [of ?br4 "unat ?lenv" pos dst] le p u4 assms(2,3) al by (simp add: out_ok_def)
      have re: "reads br ?stop" using reads_trans [OF reads_trans [OF al(1) r4]] skip_bytes(1) [OF ok4, of "unat ?lenv"] le u4 al by simp
      have "out_ok (put_bytes (unat pos) (get_bytes (?p + 4) (unat ?lenv) (br_data br)) dst) cap (pos + ?lenv)"
        using assms(3) le ub p by (simp add: out_ok_def)
      then show ?thesis using st re False go h4 p al by (simp add: inflate_block_stored_def Let_def)
    qed
  qed
qed

lemma fixed_tables:
  "\<exists>lit dist. build_fixed_tables = Some (lit, dist) \<and> table_for (map unat fixed_lit_lengths) lit \<and> table_for (replicate 30 5) dist"
proof -
  have l: "length fixed_lit_lengths = 288" "\<forall>l \<in> set fixed_lit_lengths. unat l < 16" by (auto simp: fixed_lit_lengths_def)
  obtain lit where "huffman_build fixed_lit_lengths 288 = Some lit" "table_for (map unat fixed_lit_lengths) lit"
    using huffman_build_correct [of 288 fixed_lit_lengths] l by auto
  moreover obtain dist where "huffman_build (replicate 30 5) 30 = Some dist" "table_for (replicate 30 5) dist"
    using huffman_build_correct [of 30 "replicate 30 5"] by auto
  ultimately show ?thesis by (simp add: build_fixed_tables_def)
qed

lemma inflate_block_total:
  assumes "br_ok br" and "unat (br_len br) < 2 ^ 31" and "out_ok dst cap pos"
  shows "\<exists>ok dst' pos' br'. inflate_block btype br dst cap pos = Some (ok, dst', pos', br') \<and> reads br br' \<and> out_ok dst' cap pos'"
proof -
  consider "btype = 0" | "btype = 1" | "btype = 2" | "btype \<notin> {0, 1, 2}" by blast
  then show ?thesis
  proof cases
    case 1
    then show ?thesis using inflate_block_stored_total [OF assms] by (simp add: inflate_block_def)
  next
    case 2
    obtain lit dist where t: "build_fixed_tables = Some (lit, dist)" "table_for (map unat fixed_lit_lengths) lit" "table_for (replicate 30 5) dist"
      using fixed_tables by blast
    have "length (map unat fixed_lit_lengths) \<le> 288" by (simp add: fixed_lit_lengths_def)
    from inflate_block_huffman_total [OF t(2) this t(3) _ assms(1,3)] show ?thesis by (simp add: inflate_block_def 2 t(1))
  next
    case 3
    from read_dynamic_tables_total [OF assms(1)] obtain t br1 where
      t: "read_dynamic_tables br = Some (t, br1)" "reads br br1" "\<forall>lit dist. t = Some (lit, dist) \<longrightarrow> tables_ok lit dist" by blast
    show ?thesis
    proof (cases t)
      case None
      then show ?thesis using 3 t assms(3) by (simp add: inflate_block_def)
    next
      case (Some p)
      then obtain lit dist ll ld where p: "p = (lit, dist)" "table_for ll lit" "length ll \<le> 288" "table_for ld dist" "length ld \<le> 288"
        using t(3) by (cases p) (auto simp: tables_ok_def)
      have "br_ok br1" using t(2) by (simp add: reads_def)
      from inflate_block_huffman_total [OF p(2-5) this assms(3)] obtain ok dst' pos' br' where
        "inflate_block_huffman br1 lit dist dst cap pos = Some (ok, dst', pos', br')" "reads br1 br'" "out_ok dst' cap pos'" by blast
      then show ?thesis using 3 t(1) Some p(1) reads_trans [OF t(2)] by (simp add: inflate_block_def)
    qed
  next
    case 4
    then show ?thesis using assms by (simp add: inflate_block_def reads_refl)
  qed
qed

lemma inflate_loop_total:
  "br_ok br \<Longrightarrow> unat (br_len br) < 2 ^ 31 \<Longrightarrow> out_ok dst cap pos \<Longrightarrow>
    \<exists>ok dst' pos'. inflate_loop br dst cap pos = Some (ok, dst', pos') \<and> out_ok dst' cap pos'"
proof (induction "length (rest br)" arbitrary: br dst pos rule: less_induct)
  case less
  note unfold = inflate_loop.simps [of br dst cap pos]
  from getbit_total [OF less.prems(1)] obtain b br1 where 1: "br_getbit br = Some (b, br1)" "reads br br1"
    "\<not> br_error br1 \<longrightarrow> length (rest br1) < length (rest br)" by blast
  from getbits_total [of br1 2] 1(2) obtain t br2 where 2: "br_getbits br1 2 = Some (t, br2)" "reads br1 br2" by (auto simp: reads_def)
  have r2: "reads br br2" using 1(2) 2(2) by (rule reads_trans)
  have ok2: "br_ok br2" "unat (br_len br2) < 2 ^ 31" using r2 less.prems(2) by (simp_all add: reads_def)
  from inflate_block_total [OF ok2 less.prems(3), of t] obtain ok dst1 pos1 br3 where
    3: "inflate_block t br2 dst cap pos = Some (ok, dst1, pos1, br3)" "reads br2 br3" "out_ok dst1 cap pos1" by blast
  show ?case
  proof (cases "br_error br \<or> br_error br2 \<or> \<not> ok \<or> b \<noteq> 0")
    case True
    then show ?thesis using 1(1) 2(1) 3(1,3) less.prems(3)
      by (cases "br_error br"; cases "br_error br2"; cases ok) (simp_all add: unfold)
  next
    case False
    then have "\<not> br_error br1" using 2(2) by (auto simp: reads_def)
    then have "length (rest br3) < length (rest br)" using 1(3) reads_le [OF 2(2)] reads_le [OF 3(2)] by simp
    moreover have "br_ok br3" "unat (br_len br3) < 2 ^ 31" using 3(2) ok2 by (simp_all add: reads_def)
    ultimately obtain ok' dst' pos' where "inflate_loop br3 dst1 cap pos1 = Some (ok', dst', pos')" "out_ok dst' cap pos'"
      using less.hyps [of br3 dst1 pos1] 3(3) by blast
    then show ?thesis using False 1(1) 2(1) 3(1) by (simp add: unfold)
  qed
qed

text \<open>
  C7. For every input whatever, inflate returns: it never reads outside of the compressed data, never
  reads an uninitialised or missing table entry, never writes outside of the output buffer, and its
  loops end. On success the length it reports is at most the capacity of the buffer.
\<close>

theorem inflate_safe:
  assumes "length src = unat src_len" and "unat src_len < 2 ^ 31" and "length dst = unat dst_cap" and "unat dst_cap < 2 ^ 31"
  shows "\<exists>r dst'. inflate src src_len dst dst_cap = Some (r, dst') \<and> length dst' = length dst \<and>
    (\<forall>out_len. r = Some out_len \<longrightarrow> out_len \<le> dst_cap)"
proof -
  let ?br = "\<lparr>br_data = src, br_len = src_len, br_byte = 0, br_bit = 0, br_error = False\<rparr>"
  have "br_ok ?br" "unat (br_len ?br) < 2 ^ 31" "out_ok dst dst_cap 0" using assms by (simp_all add: br_ok_def out_ok_def)
  from inflate_loop_total [OF this] obtain ok dst' pos'
    where "inflate_loop ?br dst dst_cap 0 = Some (ok, dst', pos')" "out_ok dst' dst_cap pos'" by blast
  then show ?thesis using assms(3) by (auto simp: inflate_def out_ok_def word_le_nat_alt)
qed

theorem inflate_safe_witness:
  "\<exists>r dst'. inflate [0x05, 0xC0, 0x81] 3 [0, 0] 2 = Some (r, dst') \<and> length dst' = length [0, 0 :: u8] \<and>
    (\<forall>out_len. r = Some out_len \<longrightarrow> out_len \<le> 2)"
  using inflate_safe [of "[0x05, 0xC0, 0x81]" 3 "[0, 0]" 2] by simp

end
