(* ===== verification/Inflate_Correct.thy ===== *)
theory Inflate_Correct
  imports Inflate
begin

text \<open>
  What the decompressor computes: the decoder inverts the canonical codes of RFC 1951, and every
  stream of stored, fixed and dynamic blocks is expanded to the output the format defines.
\<close>

section \<open>Canonical codes\<close>

text \<open>
  The codes of RFC 1951, 3.2.2: the first code of each length, the code of a symbol as its place
  among the symbols of the same length, and its bits, the highest first.
\<close>

fun next_code :: "nat list \<Rightarrow> nat \<Rightarrow> nat" where
  "next_code ls 0 = 0"
| "next_code ls (Suc l) = 2 * (next_code ls l + (if l = 0 then 0 else count_list ls l))"

definition canonical :: "nat list \<Rightarrow> nat \<Rightarrow> nat" where
  "canonical ls j = next_code ls (ls ! j) + rank_of ls j"

definition code_bits :: "nat list \<Rightarrow> nat \<Rightarrow> bool list" where
  "code_bits ls j = map (\<lambda>i. bit (canonical ls j) (ls ! j - 1 - i)) [0..<ls ! j]"

text \<open>A symbol that has a code, which fits its length.\<close>

definition coded :: "nat list \<Rightarrow> nat \<Rightarrow> bool" where
  "coded ls j \<longleftrightarrow> j < length ls \<and> 1 \<le> ls ! j \<and> ls ! j < 16 \<and> canonical ls j < 2 ^ (ls ! j)"

lemma next_code_ge: "1 \<le> l \<Longrightarrow> l < m \<Longrightarrow> 2 ^ (m - l) * (next_code ls l + count_list ls l) \<le> next_code ls m"
proof (induction m)
  case (Suc m)
  show ?case
  proof (cases "l = m")
    case False
    then have "2 ^ (m - l) * (next_code ls l + count_list ls l) \<le> next_code ls m" using Suc by simp
    then have "2 * (2 ^ (m - l) * (next_code ls l + count_list ls l)) \<le> next_code ls (Suc m)" by simp
    moreover have "Suc m - l = Suc (m - l)" using Suc.prems by simp
    ultimately show ?thesis by (simp only: power_Suc mult.assoc)
  qed (use Suc.prems in simp)
qed simp

lemma div_bit_step: "2 * (C div 2 ^ Suc k) + of_bool (bit C k) = C div 2 ^ k" for C :: nat
proof -
  have "C div 2 ^ Suc k = C div 2 ^ k div 2" by (simp only: power_Suc2 div_mult2_eq)
  moreover have "bit C k \<longleftrightarrow> odd (C div 2 ^ k)" by (simp add: bit_iff_odd)
  moreover have "2 * (x div 2) + of_bool (odd x) = x" for x :: nat by (cases "odd x") (auto elim: oddE evenE)
  ultimately show ?thesis by simp
qed

lemma decode_loop_canonical:
  assumes "table_for ls h" and "length ls \<le> 288" and "coded ls j"
  shows "br_ok br \<Longrightarrow> \<not> br_error br \<Longrightarrow> 1 \<le> l \<Longrightarrow> l \<le> ls ! j \<Longrightarrow> rest br = drop (l - 1) (code_bits ls j) @ r \<Longrightarrow>
    \<exists>br'. decode_loop h br (2 * int (canonical ls j div 2 ^ Suc (ls ! j - l))) (int (next_code ls l)) (int (offset_of ls l)) [l..<16] =
      Some (int j, br') \<and> reads br br' \<and> rest br' = r \<and> \<not> br_error br'"
proof (induction "ls ! j - l" arbitrary: l br)
  case (0 l br)
  then have l: "l = ls ! j" by simp
  let ?C = "canonical ls j"
  have j: "j < length ls" "1 \<le> l" "l < 16" "?C < 2 ^ l" using assms(3) l by (simp_all add: coded_def)
  have up: "[l..<16] = l # [Suc l..<16]" using j(3) by (simp add: upt_conv_Cons)
  obtain m where "ls ! j = Suc m" using j(2) l by (cases "ls ! j") auto
  then have "drop (l - 1) (code_bits ls j) = [bit ?C 0]" using l by (simp add: code_bits_def drop_map)
  then obtain br' where b: "br_getbit br = Some (of_bool (bit ?C 0), br')" "reads br br'" "rest br' = r" "\<not> br_error br'"
    using getbit_Cons [OF 0(2), of "bit ?C 0" r] 0(3,6) by auto
  have code: "2 * int (?C div 2 ^ Suc 0) OR uint (of_bool (bit ?C 0) :: u32) = int ?C"
    using div_bit_step [of ?C 0] by (cases "bit ?C 0") (simp_all add: or_one_eq)
  have rk: "int ?C - int (next_code ls l) = int (rank_of ls j)" by (simp add: canonical_def l)
  have "ht_count h ! l = int (count_list ls l)" "length (ht_count h) = 16" "length (ht_symbol h) = 288"
    "ht_symbol h ! (offset_of ls l + rank_of ls j) = Some (int j)"
    using assms(1) j l by (simp_all add: table_for_def)
  moreover have "rank_of ls j < count_list ls l" "offset_of ls l + rank_of ls j < 288"
    using rank_less [OF j(1)] place_less [OF j(1)] j(2) l assms(2) by simp_all
  ultimately show ?case using b code rk j(3) by (simp add: up l [symmetric] nat_int_add)
next
  case (Suc n)
  let ?C = "canonical ls j" and ?k = "ls ! j - l" and ?c = "count_list ls l"
  have j: "l < ls ! j" "ls ! j < 16" using Suc.hyps(2) assms(3) by (simp_all add: coded_def)
  have up: "[l..<16] = l # [Suc l..<16]" using j by (simp add: upt_conv_Cons)
  have d: "drop (l - 1) (code_bits ls j) = bit ?C ?k # drop (Suc l - 1) (code_bits ls j)"
  proof -
    have "l - 1 < length (code_bits ls j)" using j by (simp add: code_bits_def)
    moreover from this have "code_bits ls j ! (l - 1) = bit ?C (ls ! j - 1 - (l - 1))"
      by (simp only: code_bits_def nth_map length_map nth_upt length_upt diff_zero add_0)
    moreover have "ls ! j - 1 - (l - 1) = ?k" using Suc.prems(3) by simp
    ultimately show ?thesis using Suc.prems(3) by (simp add: Cons_nth_drop_Suc [symmetric])
  qed
  then obtain br1 where b: "br_getbit br = Some (of_bool (bit ?C ?k), br1)" "reads br br1"
    "rest br1 = drop (Suc l - 1) (code_bits ls j) @ r" "\<not> br_error br1"
    using getbit_Cons [OF Suc.prems(1), of "bit ?C ?k" "drop (Suc l - 1) (code_bits ls j) @ r"] Suc.prems(2,5) by auto
  have code: "2 * int (?C div 2 ^ Suc ?k) OR uint (of_bool (bit ?C ?k) :: u32) = int (?C div 2 ^ ?k)"
    unfolding div_bit_step [of ?C ?k, symmetric] by (cases "bit ?C ?k") (simp_all add: or_one_eq)
  have "2 ^ ?k * (next_code ls l + ?c) \<le> ?C"
    using next_code_ge [of l "ls ! j" ls] j Suc.prems(3) by (simp add: canonical_def trans_le_add1)
  then have ge: "next_code ls l + ?c \<le> ?C div 2 ^ ?k" by (simp add: less_eq_div_iff_mult_less_eq mult.commute)
  have cnt: "ht_count h ! l = int ?c" "length (ht_count h) = 16" using assms(1) Suc.prems(3) j by (simp_all add: table_for_def)
  have k: "?k = Suc (ls ! j - Suc l)" "n = ls ! j - Suc l" using Suc.hyps(2) by simp_all
  have nx: "push_bit 1 (int (next_code ls l) + int ?c) = int (next_code ls (Suc l))"
    "int (offset_of ls l) + int ?c = int (offset_of ls (Suc l))"
    "push_bit 1 (int (?C div 2 ^ ?k)) = 2 * int (?C div 2 ^ ?k)"
    using Suc.prems(3) by (simp_all add: offset_Suc)
  have "br_ok br1" "1 \<le> Suc l" "Suc l \<le> ls ! j" using b(2) j by (simp_all add: reads_def)
  from Suc.hyps(1) [OF k(2) this(1) b(4) this(2,3) b(3)] obtain br' where
    "decode_loop h br1 (2 * int (?C div 2 ^ ?k)) (int (next_code ls (Suc l))) (int (offset_of ls (Suc l))) [Suc l..<16] = Some (int j, br')"
    "reads br1 br'" "rest br' = r" "\<not> br_error br'" unfolding k(1) by blast
  moreover have nc: "\<not> int (?C div 2 ^ ?k) - int (next_code ls l) < int ?c" using ge by linarith
  have nl: "\<not> length (ht_count h) \<le> l" using cnt(2) j by simp
  have "decode_loop h br (2 * int (?C div 2 ^ Suc ?k)) (int (next_code ls l)) (int (offset_of ls l)) [l..<16] =
      decode_loop h br1 (2 * int (?C div 2 ^ ?k)) (int (next_code ls (Suc l))) (int (offset_of ls (Suc l))) [Suc l..<16]"
    unfolding up decode_loop.simps b(1) bind.bind_lunit prod.case Let_def code cnt(1) nx
    by (simp only: b(4) nl nc if_False)
  ultimately show ?case using reads_trans [OF b(2)] by (simp only:) blast
qed

lemma huffman_decode_canonical:
  assumes "table_for ls h" and "length ls \<le> 288" and "coded ls j" and "br_ok br" and "\<not> br_error br" and "rest br = code_bits ls j @ r"
  shows "\<exists>br'. huffman_decode h br = Some (int j, br') \<and> reads br br' \<and> rest br' = r \<and> \<not> br_error br'"
proof -
  have j: "canonical ls j < 2 ^ (ls ! j)" "1 \<le> ls ! j" using assms(3) by (simp_all add: coded_def)
  then have "canonical ls j div 2 ^ Suc (ls ! j - 1) = 0" by simp
  then show ?thesis using decode_loop_canonical [OF assms(1-5), of 1 r] j(2) assms(6)
    by (simp add: huffman_decode_def offset_of_def)
qed

section \<open>Compressed blocks\<close>

text \<open>
  The elements of a compressed block: a byte, or a copy with the index and the extra bits of its
  length and of its distance. The output of a copy is that of \<^const>\<open>lz_match\<close>.
\<close>

datatype token = Literal u8 | Copy nat u32 nat u32

fun token_bits :: "nat list \<Rightarrow> nat list \<Rightarrow> token \<Rightarrow> bool list" where
  "token_bits ll ld (Literal b) = code_bits ll (unat b)"
| "token_bits ll ld (Copy li le di de) = code_bits ll (257 + li) @ map (bit le) [0..<LENGTH_EXTRA ! li] @
     code_bits ld di @ map (bit de) [0..<DIST_EXTRA ! di]"

fun token_ok :: "nat list \<Rightarrow> nat list \<Rightarrow> token \<Rightarrow> bool" where
  "token_ok ll ld (Literal b) \<longleftrightarrow> coded ll (unat b)"
| "token_ok ll ld (Copy li le di de) \<longleftrightarrow> li < 29 \<and> coded ll (257 + li) \<and> unat le < 2 ^ (LENGTH_EXTRA ! li) \<and>
     di < 30 \<and> coded ld di \<and> unat de < 2 ^ (DIST_EXTRA ! di)"

fun token_out :: "token \<Rightarrow> u8 list \<Rightarrow> u8 list option" where
  "token_out (Literal b) out = Some (out @ [b])"
| "token_out (Copy li le di de) out =
     (let d = unat (DIST_BASE ! di) + unat de
      in if d \<le> length out then Some (lz_match (unat (LENGTH_BASE ! li) + unat le) d out) else None)"

fun tokens_out :: "token list \<Rightarrow> u8 list \<Rightarrow> u8 list option" where
  "tokens_out [] out = Some out"
| "tokens_out (t # ts) out = do { out \<leftarrow> token_out t out; tokens_out ts out }"

lemma length_lz_match [simp]: "length (lz_match n d out) = length out + n"
  by (induction n arbitrary: out) simp_all

lemma tokens_out_length: "tokens_out ts out = Some out' \<Longrightarrow> length out \<le> length out'"
proof (induction ts arbitrary: out)
  case (Cons t ts)
  from Cons.prems obtain o1 where o1: "token_out t out = Some o1" "tokens_out ts o1 = Some out'" by (auto split: bind_splits)
  have "length out \<le> length o1" using o1(1) by (cases t) (auto simp: Let_def split: if_splits)
  then show ?case using Cons.IH [OF o1(2)] by simp
qed simp

lemma take_bit_small: "unat (a :: u32) < 2 ^ n \<Longrightarrow> take_bit n a = a"
  by (simp add: word_unat_eq_iff unsigned_take_bit_eq take_bit_nat_eq_self)

text \<open>The output so far is the part of the buffer before the position.\<close>

definition written :: "u8 list \<Rightarrow> u32 \<Rightarrow> u32 \<Rightarrow> u8 list \<Rightarrow> bool" where
  "written dst cap pos out \<longleftrightarrow> out_ok dst cap pos \<and> take (unat pos) dst = out"

lemma written_length: "written dst cap pos out \<Longrightarrow> length out = unat pos"
  by (auto simp: written_def out_ok_def)

lemma match_correct:
  assumes "table_for ld dist" and "length ld \<le> 288" and "br_ok br" and "\<not> br_error br" and "written dst cap pos out"
    and ok: "li < 29" "unat le < 2 ^ (LENGTH_EXTRA ! li)" "di < 30" "coded ld di" "unat de < 2 ^ (DIST_EXTRA ! di)"
    and out: "token_out (Copy li le di de) out = Some out'" and fits: "length out' \<le> unat cap"
    and bits: "rest br = map (bit le) [0..<LENGTH_EXTRA ! li] @ code_bits ld di @ map (bit de) [0..<DIST_EXTRA ! di] @ r"
  shows "\<exists>dst' pos' br'. inflate_match dist br (int (257 + li)) dst cap pos = Some (True, dst', pos', br') \<and>
    written dst' cap pos' out' \<and> reads br br' \<and> rest br' = r \<and> \<not> br_error br'"
proof -
  note li = extra_bounds(1,2) [OF ok(1)] and di = extra_bounds(3,4) [OF ok(3)]
  from getbits_value [OF assms(3) bits] assms(4) ok(2) obtain br1 where
    1: "br_getbits br (LENGTH_EXTRA ! li) = Some (le, br1)" "reads br br1" "\<not> br_error br1"
      "rest br1 = code_bits ld di @ map (bit de) [0..<DIST_EXTRA ! di] @ r" by (auto simp: take_bit_small)
  have "br_ok br1" using 1(2) by (simp add: reads_def)
  from huffman_decode_canonical [OF assms(1,2) ok(4) this 1(3,4)] obtain br2 where
    2: "huffman_decode dist br1 = Some (int di, br2)" "reads br1 br2" "rest br2 = map (bit de) [0..<DIST_EXTRA ! di] @ r"
      "\<not> br_error br2" by blast
  have "br_ok br2" using 2(2) by (simp add: reads_def)
  from getbits_value [OF this 2(3)] 2(4) ok(5) obtain br3 where
    3: "br_getbits br2 (DIST_EXTRA ! di) = Some (de, br3)" "reads br2 br3" "\<not> br_error br3" "rest br3 = r"
    by (auto simp: take_bit_small)
  let ?len = "LENGTH_BASE ! li + le" and ?d = "DIST_BASE ! di + de"
  have len: "unat ?len = unat (LENGTH_BASE ! li) + unat le" "unat ?len < 2 ^ 16"
    using unat_base_extra [OF _ ok(2)] li by simp_all
  have d: "unat ?d = unat (DIST_BASE ! di) + unat de" "1 \<le> unat ?d" using unat_base_extra [OF _ ok(5)] di by simp_all
  have op: "length out = unat pos" by (rule written_length [OF assms(5)])
  have dle: "unat ?d \<le> unat pos" and o': "out' = lz_match (unat ?len) (unat ?d) out"
    using out op len d by (auto simp: Let_def split: if_splits)
  have le: "unat pos + unat ?len \<le> unat cap" using fits o' op by simp
  have w: "out_ok dst cap pos" "take (unat pos) dst = out" using assms(5) by (simp_all add: written_def)
  have up: "unat (pos + ?len) = unat pos + unat ?len" using le w(1) by (simp add: out_ok_def unat_word_ariths)
  have "unat (pos - ?d) = unat pos - unat ?d" using dle by (simp add: unat_sub word_le_nat_alt)
  from copy_loop_eq [OF d(2) dle _ _ this, of "unat ?len" dst] le w obtain dst' where
    c: "copy_loop (unat ?len) dst pos (pos - ?d) = Some (dst', pos + ?len)" "length dst' = length dst"
      "take (unat pos + unat ?len) dst' = out'" by (auto simp: out_ok_def o')
  have "written dst' cap (pos + ?len) out'" using c(2,3) w(1) le up by (simp add: written_def out_ok_def)
  moreover have "\<not> pos < ?d" "\<not> cap < pos + ?len" using dle le up by (simp_all add: word_less_nat_alt)
  moreover have "reads br br3" using 1(2) 2(2) 3(2) by (blast intro: reads_trans)
  ultimately show ?thesis using 1(1) 2(1) 3 c(1) ok(1,3) by (simp add: inflate_match_def Let_def)
qed

lemma block_huffman_correct:
  assumes "table_for ll lit" and "length ll \<le> 288" and "table_for ld dist" and "length ld \<le> 288" and "coded ll 256"
  shows "br_ok br \<Longrightarrow> \<not> br_error br \<Longrightarrow> written dst cap pos out \<Longrightarrow> list_all (token_ok ll ld) ts \<Longrightarrow>
    tokens_out ts out = Some out' \<Longrightarrow> length out' \<le> unat cap \<Longrightarrow>
    rest br = concat (map (token_bits ll ld) ts) @ code_bits ll 256 @ r \<Longrightarrow>
    \<exists>dst' pos' br'. inflate_block_huffman br lit dist dst cap pos = Some (True, dst', pos', br') \<and>
      written dst' cap pos' out' \<and> reads br br' \<and> rest br' = r \<and> \<not> br_error br'"
proof (induction ts arbitrary: br dst pos out)
  case Nil
  from huffman_decode_canonical [OF assms(1,2,5) Nil.prems(1,2), of r] Nil.prems(7) obtain br'
    where "huffman_decode lit br = Some (256, br')" "reads br br'" "rest br' = r" "\<not> br_error br'" by auto
  then show ?case using Nil.prems(3,5) by (subst inflate_block_huffman.simps) simp
next
  case (Cons t ts)
  note unfold = inflate_block_huffman.simps [of br lit dist dst cap pos]
  let ?r = "concat (map (token_bits ll ld) ts) @ code_bits ll 256 @ r"
  from Cons.prems(5) obtain o1 where o1: "token_out t out = Some o1" "tokens_out ts o1 = Some out'" by (auto split: bind_splits)
  have fit: "length o1 \<le> unat cap" using tokens_out_length [OF o1(2)] Cons.prems(6) by simp
  have ts: "list_all (token_ok ll ld) ts" using Cons.prems(4) by simp
  have op: "length out = unat pos" by (rule written_length [OF Cons.prems(3)])
  show ?case
  proof (cases t)
    case (Literal b)
    from huffman_decode_canonical [OF assms(1,2) _ Cons.prems(1,2), of "unat b" ?r] Cons.prems(4,7) Literal obtain br1
      where 1: "huffman_decode lit br = Some (int (unat b), br1)" "reads br br1" "rest br1 = ?r" "\<not> br_error br1" by auto
    have lt: "unat pos < unat cap" using o1(1) fit op Literal by auto
    have len: "length dst = unat cap" "take (unat pos) dst = out" using Cons.prems(3) by (simp_all add: written_def out_ok_def)
    have up: "unat (pos + 1) = Suc (unat pos)" by (rule unat_plus_one [of pos cap]) (use lt in \<open>simp add: word_less_nat_alt\<close>)
    have "written (dst[unat pos := b]) cap (pos + 1) o1"
      using o1(1) Literal lt len up Cons.prems(3) by (auto simp: written_def out_ok_def take_Suc_conv_app_nth)
    moreover have "br_ok br1" using 1(2) by (simp add: reads_def)
    ultimately obtain dst' pos' br' where r: "inflate_block_huffman br1 lit dist (dst[unat pos := b]) cap (pos + 1) = Some (True, dst', pos', br')"
      "written dst' cap pos' out'" "reads br1 br'" "rest br' = r" "\<not> br_error br'"
      using Cons.IH [OF _ 1(4) _ ts o1(2) Cons.prems(6) 1(3)] by blast
    have "out_put dst pos (word_of_int (int (unat b))) = Some (dst[unat pos := b])" using lt len by (simp add: out_put_def)
    moreover have "\<not> cap \<le> pos" using lt by (simp add: word_le_nat_alt)
    moreover have "int (unat b) < 256" using unat_less_u8 [of b] by linarith
    ultimately show ?thesis using r 1(1) reads_trans [OF 1(2) r(3)] by (subst unfold) simp
  next
    case (Copy li le di de)
    let ?r1 = "map (bit le) [0..<LENGTH_EXTRA ! li] @ code_bits ld di @ map (bit de) [0..<DIST_EXTRA ! di] @ ?r"
    have ok: "li < 29" "coded ll (257 + li)" "unat le < 2 ^ (LENGTH_EXTRA ! li)" "di < 30" "coded ld di" "unat de < 2 ^ (DIST_EXTRA ! di)"
      using Cons.prems(4) Copy by simp_all
    from huffman_decode_canonical [OF assms(1,2) ok(2) Cons.prems(1,2), of ?r1] Cons.prems(7) Copy obtain br1
      where 1: "huffman_decode lit br = Some (int (257 + li), br1)" "reads br br1" "rest br1 = ?r1" "\<not> br_error br1" by auto
    have ok1: "br_ok br1" using 1(2) by (simp add: reads_def)
    from match_correct [OF assms(3,4) ok1 1(4) Cons.prems(3) ok(1,3,4,5,6) _ fit 1(3)] o1(1) Copy obtain dst1 pos1 br2
      where 2: "inflate_match dist br1 (int (257 + li)) dst cap pos = Some (True, dst1, pos1, br2)"
        "written dst1 cap pos1 o1" "reads br1 br2" "rest br2 = ?r" "\<not> br_error br2" by auto
    have "br_ok br2" using 2(3) by (simp add: reads_def)
    from Cons.IH [OF this 2(5,2) ts o1(2) Cons.prems(6) 2(4)] obtain dst' pos' br' where
      r: "inflate_block_huffman br2 lit dist dst1 cap pos1 = Some (True, dst', pos', br')"
      "written dst' cap pos' out'" "reads br2 br'" "rest br' = r" "\<not> br_error br'" by blast
    have "reads br br'" using 1(2) 2(3) r(3) by (blast intro: reads_trans)
    then show ?thesis using r 1(1) 2(1) by (subst unfold) simp
  qed
qed

section \<open>Dynamic tables\<close>

text \<open>
  The elements of the run-length coded list of code lengths: a length, the last length again 3 to 6
  times, 3 to 10 zeros, 11 to 138 zeros.
\<close>

datatype cl_op = Len u8 | Again u32 | Zeros u32 | Many_Zeros u32

fun op_symbol :: "cl_op \<Rightarrow> nat" where
  "op_symbol (Len l) = unat l"
| "op_symbol (Again v) = 16"
| "op_symbol (Zeros v) = 17"
| "op_symbol (Many_Zeros v) = 18"

fun op_extra :: "cl_op \<Rightarrow> bool list" where
  "op_extra (Len l) = []"
| "op_extra (Again v) = map (bit v) [0..<2]"
| "op_extra (Zeros v) = map (bit v) [0..<3]"
| "op_extra (Many_Zeros v) = map (bit v) [0..<7]"

fun op_ok :: "nat list \<Rightarrow> cl_op \<Rightarrow> bool" where
  "op_ok cl (Len l) \<longleftrightarrow> l < 16 \<and> coded cl (unat l)"
| "op_ok cl (Again v) \<longleftrightarrow> unat v < 2 ^ 2 \<and> coded cl 16"
| "op_ok cl (Zeros v) \<longleftrightarrow> unat v < 2 ^ 3 \<and> coded cl 17"
| "op_ok cl (Many_Zeros v) \<longleftrightarrow> unat v < 2 ^ 7 \<and> coded cl 18"

definition op_bits :: "nat list \<Rightarrow> cl_op \<Rightarrow> bool list" where
  "op_bits cl p = code_bits cl (op_symbol p) @ op_extra p"

fun op_out :: "cl_op \<Rightarrow> u8 list \<Rightarrow> u8 list option" where
  "op_out (Len l) ls = Some (ls @ [l])"
| "op_out (Again v) ls = (if ls = [] then None else Some (ls @ replicate (unat v + 3) (last ls)))"
| "op_out (Zeros v) ls = Some (ls @ replicate (unat v + 3) 0)"
| "op_out (Many_Zeros v) ls = Some (ls @ replicate (unat v + 11) 0)"

fun ops_out :: "cl_op list \<Rightarrow> u8 list \<Rightarrow> u8 list option" where
  "ops_out [] ls = Some ls"
| "ops_out (p # ps) ls = do { ls \<leftarrow> op_out p ls; ops_out ps ls }"

lemma ops_out_length: "ops_out ps ls = Some ls' \<Longrightarrow> length ls \<le> length ls'"
proof (induction ps arbitrary: ls)
  case (Cons p ps)
  from Cons.prems obtain o1 where o1: "op_out p ls = Some o1" "ops_out ps o1 = Some ls'" by (auto split: bind_splits)
  have "length ls \<le> length o1" using o1(1) by (cases p) (auto split: if_splits)
  then show ?case using Cons.IH [OF o1(2)] by simp
qed simp

lemma ops_out_small:
  "ops_out ps xs = Some ys \<Longrightarrow> list_all (op_ok cl) ps \<Longrightarrow> \<forall>x \<in> set xs. unat x < 16 \<Longrightarrow> \<forall>y \<in> set ys. unat y < 16"
proof (induction ps arbitrary: xs)
  case (Cons p ps)
  from Cons.prems(1) obtain o1 where o1: "op_out p xs = Some o1" "ops_out ps o1 = Some ys" by (auto split: bind_splits)
  have "\<forall>x \<in> set o1. unat x < 16" using o1(1) Cons.prems(2,3) by (cases p) (auto simp: word_less_nat_alt split: if_splits)
  then show ?case using Cons.IH [OF o1(2)] Cons.prems(2) by simp
qed simp

lemma lengths_loop_correct:
  assumes "table_for cl h" and "length cl = 19"
  shows "br_ok br \<Longrightarrow> \<not> br_error br \<Longrightarrow> list_all (op_ok cl) ps \<Longrightarrow> ops_out ps xs = Some ys \<Longrightarrow> length ys = n_total \<Longrightarrow>
    rest br = concat (map (op_bits cl) ps) @ r \<Longrightarrow>
    \<exists>br'. lengths_loop h n_total br xs = Some (Some ys, br') \<and> reads br br' \<and> rest br' = r \<and> \<not> br_error br'"
proof (induction ps arbitrary: br xs)
  case Nil
  then show ?case by (simp add: lengths_loop.simps [of h] reads_refl)
next
  case (Cons p ps)
  let ?r = "concat (map (op_bits cl) ps) @ r"
  from Cons.prems(4) obtain o1 where o1: "op_out p xs = Some o1" "ops_out ps o1 = Some ys" by (auto split: bind_splits)
  have o1n: "length o1 \<le> n_total" using ops_out_length [OF o1(2)] Cons.prems(5) by simp
  have lt: "length xs < length o1" using o1(1) by (cases p) (auto split: if_splits)
  have psok: "list_all (op_ok cl) ps" using Cons.prems(3) by simp
  have sy: "coded cl (op_symbol p)" using Cons.prems(3) by (cases p) auto
  from huffman_decode_canonical [OF assms(1) _ sy Cons.prems(1,2), of "op_extra p @ ?r"] assms(2) Cons.prems(6) obtain br1
    where 1: "huffman_decode h br = Some (int (op_symbol p), br1)" "reads br br1" "rest br1 = op_extra p @ ?r" "\<not> br_error br1"
    by (auto simp: op_bits_def [of cl p])
  have ok1: "br_ok br1" using 1(2) by (simp add: reads_def)
  note unfold = lengths_loop.simps [of h n_total br xs]
  have go: "\<exists>br'. lengths_loop h n_total br2 o1 = Some (Some ys, br') \<and> reads br br' \<and> rest br' = r \<and> \<not> br_error br'"
    if "reads br1 br2" "rest br2 = ?r" "\<not> br_error br2" for br2
  proof -
    have "br_ok br2" using that(1) by (simp add: reads_def)
    from Cons.IH [OF this that(3) psok o1(2) Cons.prems(5) that(2)] show ?thesis
      using reads_trans [OF 1(2)] reads_trans [OF that(1)] by blast
  qed
  have rep: "repeat_length n_total (v + k) b xs = xs @ replicate (unat v + unat k) b"
    if "length xs + (unat v + unat k) \<le> n_total" "unat v < 128" "unat k \<le> 11" for v k b
    using that by (simp add: repeat_length_def unat_word_ariths)
  show ?case
  proof (cases p)
    case (Len l)
    then have "unat l < 16" using Cons.prems(3) by (simp add: word_less_nat_alt)
    then have l: "int (unat l) < 16" "word_of_int (int (unat l)) = l" by linarith simp
    from go [of br1] 1 ok1 Len reads_refl show ?thesis
      using lt o1n o1(1) l 1(1) by (subst unfold) auto
  next
    case (Again v)
    from getbits_value [OF ok1, of v 2 ?r] 1(3,4) Again Cons.prems(3) obtain br2
      where 2: "br_getbits br1 2 = Some (v, br2)" "reads br1 br2" "rest br2 = ?r" "\<not> br_error br2" by (auto simp: take_bit_small)
    have "repeat_length n_total (v + 3) (last xs) xs = o1"
      using rep [of v 3 "last xs"] o1(1) o1n Again Cons.prems(3) by (auto split: if_splits)
    then show ?thesis using go [OF 2(2-4)] lt o1n o1(1) 1(1) 2(1,4) Again by (subst unfold) (auto split: if_splits)
  next
    case (Zeros v)
    from getbits_value [OF ok1, of v 3 ?r] 1(3,4) Zeros Cons.prems(3) obtain br2
      where 2: "br_getbits br1 3 = Some (v, br2)" "reads br1 br2" "rest br2 = ?r" "\<not> br_error br2" by (auto simp: take_bit_small)
    have "repeat_length n_total (v + 3) 0 xs = o1" using rep [of v 3 0] o1(1) o1n Zeros Cons.prems(3) by auto
    then show ?thesis using go [OF 2(2-4)] lt o1n 1(1) 2(1,4) Zeros by (subst unfold) auto
  next
    case (Many_Zeros v)
    from getbits_value [OF ok1, of v 7 ?r] 1(3,4) Many_Zeros Cons.prems(3) obtain br2
      where 2: "br_getbits br1 7 = Some (v, br2)" "reads br1 br2" "rest br2 = ?r" "\<not> br_error br2" by (auto simp: take_bit_small)
    have "repeat_length n_total (v + 11) 0 xs = o1" using rep [of v 11 0] o1(1) o1n Many_Zeros Cons.prems(3) by auto
    then show ?thesis using go [OF 2(2-4)] lt o1n 1(1) 2(1,4) Many_Zeros by (subst unfold) auto
  qed
qed

text \<open>
  The header of a dynamic block and the code lengths of the two alphabets it transmits: three
  counts, the lengths of the code for the lengths in the order of the format, the coded lengths.
\<close>

inductive dynamic_header :: "bool list \<Rightarrow> nat list \<Rightarrow> nat list \<Rightarrow> bool" where
  "unat hlit < 2 ^ 5 \<Longrightarrow> unat hdist < 2 ^ 5 \<Longrightarrow> unat hclen < 2 ^ 4 \<Longrightarrow> unat hlit + 257 + (unat hdist + 1) \<le> 318 \<Longrightarrow>
   length (cl :: u8 list) = 19 \<Longrightarrow> \<forall>x \<in> set cl. unat x < 8 \<Longrightarrow> \<forall>i < 19. unat hclen + 4 \<le> i \<longrightarrow> cl ! (CL_ORDER ! i) = 0 \<Longrightarrow>
   list_all (op_ok (map unat cl)) ps \<Longrightarrow> ops_out ps [] = Some ys \<Longrightarrow> length ys = unat hlit + 257 + (unat hdist + 1) \<Longrightarrow>
   dynamic_header
     (map (bit (hlit :: u32)) [0..<5] @ map (bit (hdist :: u32)) [0..<5] @ map (bit (hclen :: u32)) [0..<4] @
      concat (map (\<lambda>i. map (bit (cl ! (CL_ORDER ! i))) [0..<3]) [0..<unat hclen + 4]) @ concat (map (op_bits (map unat cl)) ps))
     (map unat (take (unat hlit + 257) ys)) (map unat (drop (unat hlit + 257) ys))"

lemma cl_loop_correct:
  "br_ok br \<Longrightarrow> \<not> br_error br \<Longrightarrow> \<forall>k \<in> set ks. k < length a \<and> unat (f k) < 8 \<Longrightarrow>
    rest br = concat (map (\<lambda>k. map (bit (f k)) [0..<3]) ks) @ r \<Longrightarrow>
    \<exists>br' a'. cl_loop br ks a = Some (a', br') \<and> length a' = length a \<and> (\<forall>k < length a. a' ! k = (if k \<in> set ks then f k else a ! k)) \<and>
      reads br br' \<and> rest br' = r \<and> \<not> br_error br'"
proof (induction ks arbitrary: br a)
  case Nil
  then show ?case by (simp add: reads_refl)
next
  case (Cons k ks)
  let ?r = "concat (map (\<lambda>k. map (bit (f k)) [0..<3]) ks) @ r" and ?v = "ucast (f k) :: u32"
  have bits: "map (bit ?v) [0..<3] = map (bit (f k)) [0..<3]" by (auto simp: bit_simps)
  have "unat ?v < 2 ^ 3" using Cons.prems(3) by (simp add: unsigned_ucast_eq take_bit_nat_eq_self)
  moreover have "ucast ?v = f k" by (rule bit_word_eqI) (auto simp: bit_simps)
  ultimately have v: "unat ?v < 2 ^ 3" "ucast ?v = f k" .
  from getbits_value [OF Cons.prems(1), of ?v 3 ?r] Cons.prems(2,4) obtain br1
    where 1: "br_getbits br 3 = Some (?v, br1)" "reads br br1" "rest br1 = ?r" "\<not> br_error br1"
    using take_bit_small [OF v(1)] by (auto simp: bits)
  have "br_ok br1" using 1(2) by (simp add: reads_def)
  from Cons.IH [OF this 1(4) _ 1(3), of "a[k := f k]"] Cons.prems(3) obtain br' a' where
    "cl_loop br1 ks (a[k := f k]) = Some (a', br')" "length a' = length a"
    "\<forall>i < length a. a' ! i = (if i \<in> set ks then f i else a[k := f k] ! i)" "reads br1 br'" "rest br' = r" "\<not> br_error br'" by auto
  then show ?case using 1 v(2) Cons.prems(3) reads_trans [OF 1(2)] by (auto simp: nth_list_update)
qed

lemma cl_order: "\<forall>k < 19. \<exists>i < 19. CL_ORDER ! i = k" "\<forall>k \<in> set CL_ORDER. k < 19"
proof -
  have "list_all (\<lambda>k. list_ex (\<lambda>i. CL_ORDER ! i = k) [0..<19]) [0..<19]" by code_simp
  then show "\<forall>k < 19. \<exists>i < 19. CL_ORDER ! i = k" by (force simp: list_all_iff list_ex_iff)
  show "\<forall>k \<in> set CL_ORDER. k < 19" by (simp add: CL_ORDER_def)
qed

lemma read_dynamic_tables_correct:
  assumes "dynamic_header bs ll ld" and "br_ok br" and "\<not> br_error br" and "rest br = bs @ r"
  shows "\<exists>lit dist br'. read_dynamic_tables br = Some (Some (lit, dist), br') \<and> table_for ll lit \<and> table_for ld dist \<and>
    length ll \<le> 288 \<and> length ld \<le> 288 \<and> reads br br' \<and> rest br' = r \<and> \<not> br_error br'"
  using assms(1)
proof cases
  case (1 hlit hdist hclen cl ps ys)
  let ?cb = "concat (map (\<lambda>i. map (bit (cl ! (CL_ORDER ! i))) [0..<3]) [0..<unat hclen + 4])"
  let ?ob = "concat (map (op_bits (map unat cl)) ps)"
  let ?ks = "take (unat hclen + 4) CL_ORDER"
  from getbits_value [OF assms(2), of hlit 5 "map (bit hdist) [0..<5] @ map (bit hclen) [0..<4] @ ?cb @ ?ob @ r"] assms(3,4) 1 obtain br1
    where a: "br_getbits br 5 = Some (hlit, br1)" "reads br br1" "\<not> br_error br1"
      "rest br1 = map (bit hdist) [0..<5] @ map (bit hclen) [0..<4] @ ?cb @ ?ob @ r" by (auto simp: take_bit_small)
  have oka: "br_ok br1" using a(2) by (simp add: reads_def)
  from getbits_value [OF oka a(4)] a(3) 1(5) obtain br2
    where b: "br_getbits br1 5 = Some (hdist, br2)" "reads br1 br2" "\<not> br_error br2" "rest br2 = map (bit hclen) [0..<4] @ ?cb @ ?ob @ r"
    by (auto simp: take_bit_small)
  have okb: "br_ok br2" using b(2) by (simp add: reads_def)
  from getbits_value [OF okb b(4)] b(3) 1(6) obtain br3
    where c: "br_getbits br2 4 = Some (hclen, br3)" "reads br2 br3" "\<not> br_error br3" "rest br3 = ?cb @ ?ob @ r"
    by (auto simp: take_bit_small)
  have okc: "br_ok br3" using c(2) by (simp add: reads_def)
  have len19: "length CL_ORDER = 19" by (simp add: CL_ORDER_def)
  have hc: "unat hclen + 4 \<le> 19" using 1(6) by simp
  have cb: "?cb = concat (map (\<lambda>k. map (bit (cl ! k)) [0..<3]) ?ks)"
  proof -
    have "?ks = map ((!) CL_ORDER) [0..<unat hclen + 4]" using hc len19 by (intro nth_equalityI) simp_all
    then show ?thesis by (simp add: comp_def)
  qed
  have ks: "\<forall>k \<in> set ?ks. k < length (replicate 19 (0 :: u8)) \<and> unat (cl ! k) < 8"
    using cl_order(2) 1(8,9) by (auto dest!: in_set_takeD)
  from cl_loop_correct [OF okc c(3) ks, of "?ob @ r"] c(4) cb obtain br4 cl' where
    d: "cl_loop br3 ?ks (replicate 19 0) = Some (cl', br4)" "length cl' = 19"
      "\<forall>k < 19. cl' ! k = (if k \<in> set ?ks then cl ! k else 0)" "reads br3 br4" "rest br4 = ?ob @ r" "\<not> br_error br4" by auto
  have cl': "cl' = cl"
  proof (rule nth_equalityI)
    fix k assume "k < length cl'"
    then have k: "k < 19" using d(2) by simp
    then obtain i where i: "i < 19" "CL_ORDER ! i = k" using cl_order(1) by blast
    show "cl' ! k = cl ! k"
    proof (cases "k \<in> set ?ks")
      case False
      then have "unat hclen + 4 \<le> i" using i len19 hc by (auto simp: in_set_conv_nth not_less [symmetric])
      then show ?thesis using False d(3) k i 1(10) by auto
    qed (use d(3) k in simp)
  qed (use d(2) 1(8) in simp)
  have okd: "br_ok br4" using d(4) by (simp add: reads_def)
  obtain h where h: "huffman_build cl 19 = Some h" "table_for (map unat cl) h"
    using huffman_build_correct [of 19 cl] 1(8,9) by fastforce
  let ?n = "unat hlit + 257 + (unat hdist + 1)"
  from lengths_loop_correct [OF h(2) _ okd d(6) 1(11,12,13) d(5)] 1(8) obtain br5
    where e: "lengths_loop h ?n br4 [] = Some (Some ys, br5)" "reads br4 br5" "rest br5 = r" "\<not> br_error br5" by auto
  have u: "unat (hlit + 257) = unat hlit + 257" "unat (hdist + 1) = unat hdist + 1" "unat (hclen + 4) = unat hclen + 4"
    using 1(4-6) by (simp_all add: unat_word_ariths)
  have small: "\<forall>y \<in> set ys. unat y < 16" using ops_out_small [OF 1(12,11)] by simp
  have "\<exists>lit. huffman_build ys (unat hlit + 257) = Some lit \<and> table_for (map unat (take (unat hlit + 257) ys)) lit"
    by (rule huffman_build_correct) (use 1(4,13) small in \<open>auto dest: in_set_takeD\<close>)
  moreover have "\<exists>dist. huffman_build (drop (unat hlit + 257) ys) (unat hdist + 1) = Some dist \<and>
      table_for (map unat (take (unat hdist + 1) (drop (unat hlit + 257) ys))) dist"
    by (rule huffman_build_correct) (use 1(5,13) small in \<open>auto dest!: in_set_takeD in_set_dropD\<close>)
  moreover have "take (unat hdist + 1) (drop (unat hlit + 257) ys) = drop (unat hlit + 257) ys" using 1(13) by simp
  ultimately obtain lit dist where t: "huffman_build ys (unat hlit + 257) = Some lit" "table_for ll lit"
    "huffman_build (drop (unat hlit + 257) ys) (unat hdist + 1) = Some dist" "table_for ld dist" using 1(2,3) by auto
  have "read_dynamic_tables br = Some (Some (lit, dist), br5)"
    using a(1) b(1) c(1,3) d(1,6) h(1) e(1) t(1,3) u hc len19 1(7) cl' by (simp add: read_dynamic_tables_def Let_def)
  moreover have "reads br br5" using a(2) b(2) c(2) d(4) e(2) by (blast intro: reads_trans)
  moreover have "length ll \<le> 288" "length ld \<le> 288" using 1(2-5,13) by auto
  ultimately show ?thesis using t(2,4) e(3,4) by blast
qed

section \<open>Stored blocks\<close>

text \<open>The bytes of a stored block: its length, the complement of the length, the data.\<close>

definition stored_bytes :: "u8 list \<Rightarrow> u8 list" where
  "stored_bytes data = (let n = word_of_nat (length data) :: 16 word
     in [ucast n, ucast (drop_bit 8 n), NOT (ucast n), NOT (ucast (drop_bit 8 n))] @ data)"

lemma bytes16:
  fixes n :: "16 word"
  shows "ucast (ucast n :: u8) OR push_bit 8 (ucast (ucast (drop_bit 8 n) :: u8)) = (ucast n :: u32)"
    and "ucast (NOT (ucast n) :: u8) OR push_bit 8 (ucast (NOT (ucast (drop_bit 8 n)) :: u8)) = NOT (ucast n :: u32) AND 0xFFFF"
proof -
  have m: "(0xFFFF :: u32) = mask 16" by (simp add: mask_eq_exp_minus_1)
  show "ucast (ucast n :: u8) OR push_bit 8 (ucast (ucast (drop_bit 8 n) :: u8)) = (ucast n :: u32)"
    "ucast (NOT (ucast n) :: u8) OR push_bit 8 (ucast (NOT (ucast (drop_bit 8 n)) :: u8)) = NOT (ucast n :: u32) AND 0xFFFF"
    unfolding m by (rule bit_word_eqI; auto simp: bit_simps dest: bit_imp_le_length)+
qed

lemma length_concat_bytes [simp]: "length (concat (map byte_bits xs)) = 8 * length xs"
  by (induction xs) simp_all

lemma byte_bits_inject: "byte_bits a = byte_bits b \<Longrightarrow> a = b"
  by (rule bit_word_eqI) (simp add: byte_bits_def)

lemma bytes_prefix:
  "concat (map byte_bits xs) = concat (map byte_bits ys) @ r \<Longrightarrow>
    take (length ys) xs = ys \<and> length ys \<le> length xs \<and> concat (map byte_bits (drop (length ys) xs)) = r"
proof (induction ys arbitrary: xs)
  case (Cons y ys)
  have "length (concat (map byte_bits xs)) = length (concat (map byte_bits (y # ys)) @ r)" using Cons.prems by simp
  then obtain x xs' where xs: "xs = x # xs'" by (cases xs) auto
  have "byte_bits x = byte_bits y \<and> concat (map byte_bits xs') = concat (map byte_bits ys) @ r"
    using Cons.prems xs by (simp add: append_eq_append_conv)
  then show ?case using Cons.IH [of xs'] xs byte_bits_inject by simp
qed simp

lemma rest_align:
  assumes "br_ok br" and "rest br = pad @ q" and "length pad < 8" and "8 dvd length q"
  shows "rest (br_align br) = q"
proof (cases "br_bit br = 0")
  case True
  then have "8 * (length (br_data br) - unat (br_byte br)) = length pad + length q"
    using arg_cong [OF assms(2), of length] by (simp add: rest_def)
  then have "8 dvd length pad + length q" by (metis dvd_triv_left)
  then have "8 dvd length pad" using assms(4) by (simp add: dvd_add_left_iff)
  then have "pad = []" using assms(3) by (auto dest: dvd_imp_le)
  then show ?thesis using assms(2) True by (simp add: br_align_def)
next
  case False
  let ?p = "unat (br_byte br)" and ?i = "unat (br_bit br)"
  have i: "0 < ?i" "?i < 8" using False assms(1) by (simp_all add: br_ok_def unat_gt_0)
  have "br_byte br \<noteq> br_len br" using False assms(1) by (auto simp: br_ok_def)
  then have "?p \<noteq> unat (br_len br)" using word_unat_eq_iff by blast
  then have lt: "?p < unat (br_len br)" "length (br_data br) = unat (br_len br)" using assms(1) by (simp_all add: br_ok_def)
  then have u: "unat (br_byte br + 1) = Suc ?p" by (intro unat_plus_one) (simp add: word_less_nat_alt)
  let ?tl = "rest (br_align br)"
  have "drop ?p (br_data br) = br_data br ! ?p # drop (Suc ?p) (br_data br)" using lt by (simp add: Cons_nth_drop_Suc)
  then have r: "rest br = drop ?i (byte_bits (br_data br ! ?p)) @ ?tl" "8 dvd length ?tl"
    using False u i by (simp_all add: rest_def br_align_def)
  have "length pad + length q = 8 - ?i + length ?tl" using arg_cong [OF r(1), of length] assms(2) by simp
  then have "int (length pad) - int (8 - ?i) = int (length ?tl) - int (length q)" by linarith
  moreover have "8 dvd int (length ?tl) - int (length q)" using r(2) assms(4) by (metis dvd_diff int_dvd_int_iff of_nat_numeral)
  ultimately have "8 dvd int (length pad) - int (8 - ?i)" by simp
  moreover have "x = y" if "8 dvd int x - int y" "x < 8" "y < 8" for x y using that by presburger
  ultimately have "length pad = 8 - ?i" using assms(3) i(1) by (metis diff_less zero_less_numeral)
  then show ?thesis using r(1) assms(2) i by (simp add: append_eq_append_conv)
qed

lemma length_stored: "length (stored_bytes data) = 4 + length data"
  by (simp add: stored_bytes_def Let_def)

lemma block_stored_correct:
  assumes "br_ok br" and "\<not> br_error br" and "unat (br_len br) < 2 ^ 31" and "written dst cap pos out"
    and "length data < 2 ^ 16" and "length out + length data \<le> unat cap"
    and "rest br = pad @ concat (map byte_bits (stored_bytes data)) @ r" and "length pad < 8" and "8 dvd length r"
  shows "\<exists>dst' pos' br'. inflate_block_stored br dst cap pos = Some (True, dst', pos', br') \<and>
    written dst' cap pos' (out @ data) \<and> reads br br' \<and> rest br' = r \<and> \<not> br_error br'"
proof -
  let ?br = "br_align br"
  note al = align_reads [OF assms(1)]
  have ok: "br_ok ?br" using al(1) by (simp add: reads_def)
  let ?p = "unat (br_byte ?br)" and ?n = "length data"
  have "rest ?br = concat (map byte_bits (stored_bytes data)) @ r"
    by (rule rest_align [OF assms(1,7,8)]) (use assms(9) in simp)
  then have "concat (map byte_bits (drop ?p (br_data br))) = concat (map byte_bits (stored_bytes data)) @ r"
    using al(2,3) by (simp add: rest_def)
  from bytes_prefix [OF this, unfolded length_stored] have
    hd: "take (4 + ?n) (drop ?p (br_data br)) = stored_bytes data" "4 + ?n \<le> length (br_data br) - ?p"
    "concat (map byte_bits (drop (?p + 4 + ?n) (br_data br))) = r" by (simp_all add: add_ac)
  have len: "length (br_data br) = unat (br_len br)" "?p + 4 + ?n \<le> unat (br_len br)" using assms(1) hd(2) by (simp_all add: br_ok_def)
  have nth: "br_data br ! (?p + k) = stored_bytes data ! k" if "k < 4 + ?n" for k
    using arg_cong [OF hd(1), of "\<lambda>xs. xs ! k"] that len by simp
  let ?w = "word_of_nat ?n :: 16 word" and ?l = "word_of_nat ?n :: u32"
  have wl: "ucast ?w = ?l" using assms(5) by (simp add: word_unat_eq_iff unsigned_ucast_eq unsigned_of_nat take_bit_nat_eq_self)
  have lenv: "ucast (br_data br ! ?p) OR push_bit 8 (ucast (br_data br ! (?p + 1))) = ?l"
    using nth [of 0] nth [of 1] bytes16(1) [of ?w] wl by (simp add: stored_bytes_def Let_def)
  have nlen: "ucast (br_data br ! (?p + 2)) OR push_bit 8 (ucast (br_data br ! (?p + 3))) = NOT ?l AND 0xFFFF"
    using nth [of 2] nth [of 3] bytes16(2) [of ?w] wl by (simp add: stored_bytes_def Let_def)
  have ul: "unat ?l = ?n" using assms(5) by (simp add: unsigned_of_nat take_bit_nat_eq_self)
  let ?br4 = "?br\<lparr>br_byte := br_byte ?br + 4\<rparr>"
  have u4: "unat (br_byte ?br + 4) = ?p + 4" and r4: "reads ?br ?br4"
    using skip_bytes [OF ok al(2), of 4] len al by simp_all
  have ok4: "br_ok ?br4" using r4 by (simp add: reads_def)
  let ?stop = "?br4\<lparr>br_byte := br_byte ?br4 + ?l\<rparr>"
  have ue: "unat (br_byte ?br + 4 + ?l) = ?p + 4 + ?n" and re: "reads ?br4 ?stop"
    using skip_bytes [OF ok4, of ?n] len u4 al by simp_all
  have w: "length dst = unat cap" "take (unat pos) dst = out" "length out = unat pos" "unat cap < 2 ^ 31"
    using assms(4) written_length [OF assms(4)] by (simp_all add: written_def out_ok_def)
  have up: "unat (pos + ?l) = unat pos + ?n" using assms(6) w(3,4) by (intro unat_sum_fits) simp
  let ?dst = "put_bytes (unat pos) (get_bytes (?p + 4) ?n (br_data br)) dst"
  have "stored_loop (unat ?l) ?br4 dst pos = Some (?dst, pos + ?l, ?stop)"
    using stored_loop_eq [of ?br4 ?n pos dst] len u4 al w assms(3,6) ul by simp
  moreover have "\<not> br_len ?br < br_byte ?br + 4" "\<not> br_len ?br < br_byte ?br + 4 + ?l" "\<not> cap < pos + ?l"
    using u4 ue up len al assms(6) w by (simp_all add: word_less_nat_alt)
  ultimately have "inflate_block_stored br dst cap pos = Some (True, ?dst, pos + ?l, ?stop)"
    unfolding inflate_block_stored_def Let_def al(3,4) lenv nlen using len al(3,4) by simp
  moreover have "get_bytes (?p + 4) ?n (br_data br) = data"
    using arg_cong [OF hd(1), of "drop 4"] by (simp add: get_bytes_def drop_take stored_bytes_def Let_def add.commute)
  then have "written ?dst cap (pos + ?l) (out @ data)"
    using assms(6) w up by (simp add: written_def out_ok_def put_bytes_def)
  moreover have "reads br ?stop" using al(1) r4 re by (blast intro: reads_trans)
  moreover have "rest ?stop = r" using hd(3) al ue by (simp add: rest_def)
  ultimately show ?thesis using assms(2) al(5) by simp
qed

section \<open>Streams\<close>

text \<open>
  A block, its two bits of type included, given the bits that follow it; a stored block is padded so
  that its bytes are aligned, that is, a multiple of eight bits follows.
\<close>

inductive deflate_block :: "bool list \<Rightarrow> bool list \<Rightarrow> u8 list \<Rightarrow> u8 list \<Rightarrow> bool" where
  stored: "length data < 2 ^ 16 \<Longrightarrow> length pad < 8 \<Longrightarrow> 8 dvd length later \<Longrightarrow>
    deflate_block ([False, False] @ pad @ concat (map byte_bits (stored_bytes data))) later out (out @ data)"
| fixed: "ll = map unat fixed_lit_lengths \<Longrightarrow> ld = replicate 30 5 \<Longrightarrow> coded ll 256 \<Longrightarrow>
    list_all (token_ok ll ld) ts \<Longrightarrow> tokens_out ts out = Some out' \<Longrightarrow>
    deflate_block ([True, False] @ concat (map (token_bits ll ld) ts) @ code_bits ll 256) later out out'"
| dynamic: "dynamic_header hs ll ld \<Longrightarrow> coded ll 256 \<Longrightarrow> list_all (token_ok ll ld) ts \<Longrightarrow> tokens_out ts out = Some out' \<Longrightarrow>
    deflate_block ([False, True] @ hs @ concat (map (token_bits ll ld) ts) @ code_bits ll 256) later out out'"

inductive deflate_stream :: "bool list \<Rightarrow> u8 list \<Rightarrow> u8 list \<Rightarrow> bool" where
  final: "deflate_block bs later out out' \<Longrightarrow> deflate_stream (True # bs @ later) out out'"
| more: "deflate_block bs later out out1 \<Longrightarrow> deflate_stream later out1 out' \<Longrightarrow> deflate_stream (False # bs @ later) out out'"

lemma deflate_block_length: "deflate_block bs later out out' \<Longrightarrow> length out \<le> length out'"
  by (induction rule: deflate_block.induct) (auto dest: tokens_out_length)

lemma deflate_stream_length: "deflate_stream bs out out' \<Longrightarrow> length out \<le> length out'"
  by (induction rule: deflate_stream.induct) (auto dest: deflate_block_length)

lemma type_bits:
  assumes "br_ok br" and "\<not> br_error br" and "rest br = [b0, b1] @ r"
  shows "\<exists>br'. br_getbits br 2 = Some (of_bool b0 + 2 * of_bool b1, br') \<and> reads br br' \<and> rest br' = r \<and> \<not> br_error br'"
  using getbits_loop_value [OF assms(1,3), of 0 0] assms(2) by (simp add: br_getbits_def numeral_2_eq_2)

lemma inflate_block_correct:
  assumes "deflate_block bs r out out'" and "br_ok br" and "\<not> br_error br" and "unat (br_len br) < 2 ^ 31"
    and "written dst cap pos out" and "length out' \<le> unat cap" and "rest br = bs @ r"
  shows "\<exists>t br1 dst' pos' br'. br_getbits br 2 = Some (t, br1) \<and> \<not> br_error br1 \<and>
    inflate_block t br1 dst cap pos = Some (True, dst', pos', br') \<and>
    written dst' cap pos' out' \<and> reads br br' \<and> rest br' = r \<and> \<not> br_error br'"
  using assms(1)
proof cases
  case (stored data pad)
  from type_bits [OF assms(2,3), of False False "pad @ concat (map byte_bits (stored_bytes data)) @ r"] assms(7) stored(1) obtain br1
    where 1: "br_getbits br 2 = Some (0, br1)" "reads br br1" "\<not> br_error br1"
      "rest br1 = pad @ concat (map byte_bits (stored_bytes data)) @ r" by auto
  have ok1: "br_ok br1" "unat (br_len br1) < 2 ^ 31" using 1(2) assms(4) by (simp_all add: reads_def)
  from block_stored_correct [OF ok1(1) 1(3) ok1(2) assms(5) stored(3) _ 1(4) stored(4,5)] assms(6) stored(2) obtain dst' pos' br'
    where "inflate_block_stored br1 dst cap pos = Some (True, dst', pos', br')" "written dst' cap pos' out'"
      "reads br1 br'" "rest br' = r" "\<not> br_error br'" by auto
  then show ?thesis using 1 reads_trans [OF 1(2)] by (fastforce simp: inflate_block_def)
next
  case (fixed ll ld ts)
  let ?q = "concat (map (token_bits ll ld) ts) @ code_bits ll 256 @ r"
  from type_bits [OF assms(2,3), of True False ?q] assms(7) fixed(1) obtain br1
    where 1: "br_getbits br 2 = Some (1, br1)" "reads br br1" "\<not> br_error br1" "rest br1 = ?q" by auto
  have ok1: "br_ok br1" using 1(2) by (simp add: reads_def)
  obtain lit dist where t: "build_fixed_tables = Some (lit, dist)" "table_for ll lit" "table_for ld dist"
    using fixed_tables fixed(2,3) by blast
  have len: "length ll \<le> 288" "length ld \<le> 288" using fixed(2,3) by (simp_all add: fixed_lit_lengths_def)
  from block_huffman_correct [OF t(2) len(1) t(3) len(2) fixed(4) ok1 1(3) assms(5) fixed(5,6) assms(6) 1(4)] obtain dst' pos' br'
    where "inflate_block_huffman br1 lit dist dst cap pos = Some (True, dst', pos', br')" "written dst' cap pos' out'"
      "reads br1 br'" "rest br' = r" "\<not> br_error br'" by blast
  then show ?thesis using 1 reads_trans [OF 1(2)] by (fastforce simp: inflate_block_def t(1))
next
  case (dynamic hs ll ld ts)
  let ?q = "concat (map (token_bits ll ld) ts) @ code_bits ll 256 @ r"
  from type_bits [OF assms(2,3), of False True "hs @ ?q"] assms(7) dynamic(1) obtain br1
    where 1: "br_getbits br 2 = Some (2, br1)" "reads br br1" "\<not> br_error br1" "rest br1 = hs @ ?q" by auto
  have ok1: "br_ok br1" using 1(2) by (simp add: reads_def)
  from read_dynamic_tables_correct [OF dynamic(2) ok1 1(3,4)] obtain lit dist br2
    where t: "read_dynamic_tables br1 = Some (Some (lit, dist), br2)" "table_for ll lit" "table_for ld dist"
      "length ll \<le> 288" "length ld \<le> 288" "reads br1 br2" "rest br2 = ?q" "\<not> br_error br2" by blast
  have ok2: "br_ok br2" using t(6) by (simp add: reads_def)
  from block_huffman_correct [OF t(2,4,3,5) dynamic(3) ok2 t(8) assms(5) dynamic(4,5) assms(6) t(7)] obtain dst' pos' br'
    where "inflate_block_huffman br2 lit dist dst cap pos = Some (True, dst', pos', br')" "written dst' cap pos' out'"
      "reads br2 br'" "rest br' = r" "\<not> br_error br'" by blast
  then show ?thesis using 1 t(1) reads_trans [OF reads_trans [OF 1(2) t(6)]] by (fastforce simp: inflate_block_def)
qed

lemma inflate_loop_correct:
  "deflate_stream bs out out' \<Longrightarrow> br_ok br \<Longrightarrow> \<not> br_error br \<Longrightarrow> unat (br_len br) < 2 ^ 31 \<Longrightarrow> written dst cap pos out \<Longrightarrow>
    length out' \<le> unat cap \<Longrightarrow> rest br = bs \<Longrightarrow>
    \<exists>dst' pos'. inflate_loop br dst cap pos = Some (True, dst', pos') \<and> written dst' cap pos' out'"
proof (induction arbitrary: br dst pos rule: deflate_stream.induct)
  case (final bs later out out')
  note unfold = inflate_loop.simps [of br dst cap pos]
  from getbit_Cons [OF final.prems(1), of True "bs @ later"] final.prems(2,6) obtain br1
    where 1: "br_getbit br = Some (1, br1)" "reads br br1" "rest br1 = bs @ later" "\<not> br_error br1" by auto
  have ok1: "br_ok br1" "unat (br_len br1) < 2 ^ 31" using 1(2) final.prems(3) by (simp_all add: reads_def)
  from inflate_block_correct [OF final.hyps ok1(1) 1(4) ok1(2) final.prems(4,5) 1(3)] show ?case
    using 1(1) final.prems(2) by (auto simp: unfold)
next
  case (more bs later out out1 out')
  note unfold = inflate_loop.simps [of br dst cap pos]
  from getbit_Cons [OF more.prems(1), of False "bs @ later"] more.prems(2,6) obtain br1
    where 1: "br_getbit br = Some (0, br1)" "reads br br1" "rest br1 = bs @ later" "\<not> br_error br1" by auto
  have ok1: "br_ok br1" "unat (br_len br1) < 2 ^ 31" using 1(2) more.prems(3) by (simp_all add: reads_def)
  have "length out1 \<le> unat cap" using deflate_stream_length [OF more.hyps(2)] more.prems(5) by simp
  from inflate_block_correct [OF more.hyps(1) ok1(1) 1(4) ok1(2) more.prems(4) this 1(3)] obtain t br2 dst1 pos1 br3 where
    2: "br_getbits br1 2 = Some (t, br2)" "\<not> br_error br2" "inflate_block t br2 dst cap pos = Some (True, dst1, pos1, br3)"
      "written dst1 cap pos1 out1" "reads br1 br3" "rest br3 = later" "\<not> br_error br3" by blast
  have "br_ok br3" "unat (br_len br3) < 2 ^ 31" using 2(5) ok1 by (simp_all add: reads_def)
  from more.IH [OF this(1) 2(7) this(2) 2(4) more.prems(5) 2(6)] show ?case
    using 1(1) 2(1-3) more.prems(2) by (auto simp: unfold)
qed

text \<open>
  C5. inflate expands every DEFLATE stream of RFC 1951, of any number of stored, fixed and dynamic blocks,
  to the bytes the stream stands for, provided they fit the output buffer: it returns success, the
  right length, and the bytes at the start of the buffer.
\<close>

theorem inflate_decodes_deflate:
  assumes "length src = unat src_len" and "unat src_len < 2 ^ 31" and "length dst = unat dst_cap" and "unat dst_cap < 2 ^ 31"
    and "deflate_stream (concat (map byte_bits src)) [] out" and "length out \<le> unat dst_cap"
  shows "\<exists>dst'. inflate src src_len dst dst_cap = Some (Some (word_of_nat (length out)), dst') \<and>
    take (length out) dst' = out \<and> length dst' = length dst"
proof -
  let ?br = "\<lparr>br_data = src, br_len = src_len, br_byte = 0, br_bit = 0, br_error = False\<rparr>"
  have "br_ok ?br" "\<not> br_error ?br" "unat (br_len ?br) < 2 ^ 31" "written dst dst_cap 0 []" "rest ?br = concat (map byte_bits src)"
    using assms(1-4) by (simp_all add: br_ok_def out_ok_def written_def rest_def)
  from inflate_loop_correct [OF assms(5) this(1-4) assms(6) this(5)] obtain dst' pos'
    where i: "inflate_loop ?br dst dst_cap 0 = Some (True, dst', pos')" and w: "written dst' dst_cap pos' out" by blast
  have "pos' = word_of_nat (length out)" using written_length [OF w] by simp
  then show ?thesis using i w written_length [OF w] assms(3) by (auto simp: inflate_def written_def out_ok_def)
qed

text \<open>The stream \<^verbatim>\<open>73 04 00\<close>: one final block with the fixed codes of the letter A and of the end.\<close>

lemma letter_A_codes:
  "coded (map unat fixed_lit_lengths) 256" "coded (map unat fixed_lit_lengths) 65"
  "code_bits (map unat fixed_lit_lengths) 65 = [False, True, True, True, False, False, False, True]"
  "code_bits (map unat fixed_lit_lengths) 256 = replicate 7 False"
  by code_simp+

lemma letter_A_stream: "deflate_stream (concat (map byte_bits [0x73, 0x04, 0x00])) [] [0x41]"
proof -
  let ?ll = "map unat fixed_lit_lengths" and ?ld = "replicate 30 (5 :: nat)"
  have "deflate_block ([True, False] @ concat (map (token_bits ?ll ?ld) [Literal 0x41]) @ code_bits ?ll 256) (replicate 6 False) [] [0x41]"
    by (rule deflate_block.fixed) (simp_all add: letter_A_codes)
  from deflate_stream.final [OF this]
  have "deflate_stream (True # ([True, False] @ code_bits ?ll 65 @ code_bits ?ll 256) @ replicate 6 False) [] [0x41]" by simp
  moreover have "concat (map byte_bits [0x73, 0x04, 0x00]) =
      True # ([True, False] @ code_bits ?ll 65 @ code_bits ?ll 256) @ replicate 6 False"
    unfolding letter_A_codes by code_simp
  ultimately show ?thesis by (simp only:)
qed

theorem inflate_decodes_deflate_witness:
  "\<exists>dst'. inflate [0x73, 0x04, 0x00] 3 [0, 0] 2 = Some (Some 1, dst') \<and> take 1 dst' = [0x41] \<and> length dst' = length [0, 0 :: u8]"
  using inflate_decodes_deflate [OF _ _ _ _ letter_A_stream, of 3 "[0, 0]" 2] by simp

end
