(* ===== verification/Bignum.thy ===== *)
theory Bignum
  imports Prelude "HOL-Library.Monad_Syntax"
begin

text \<open>
  Big integers for RSA (\<^verbatim>\<open>src/kernel/security/bignum/bignum.c\<close>): 128 limbs of 32 bits, the lowest
  first, schoolbook multiplication, bit-serial reduction and modular exponentiation. The helpers of
  the source take an array and its length; in the model a list has its length. The theory shows that
  the limb algorithms compute the arithmetic on the numbers they represent.
\<close>

definition BIGNUM_LIMBS :: nat where
  "BIGNUM_LIMBS = 128"

definition bignum_zero :: "u32 list" where
  "bignum_zero = replicate BIGNUM_LIMBS 0"

definition bignum_set_u32 :: "u32 \<Rightarrow> u32 list" where
  "bignum_set_u32 value = bignum_zero[0 := value]"

definition bignum_copy :: "u32 list \<Rightarrow> u32 list" where
  "bignum_copy src = take BIGNUM_LIMBS src"

text \<open>The loop of the import over the bytes from the last on; \<open>i\<close> counts them.\<close>

fun from_bytes_loop :: "u8 list \<Rightarrow> nat \<Rightarrow> u32 list \<Rightarrow> u32 list option" where
  "from_bytes_loop [] i limbs = Some limbs"
| "from_bytes_loop (b # bs) i limbs =
     (if i div 4 < length limbs
      then from_bytes_loop bs (Suc i) (limbs[i div 4 := limbs ! (i div 4) OR push_bit (i mod 4 * 8) (ucast b)])
      else None)"

definition bignum_from_bytes_be :: "u8 list \<Rightarrow> nat \<Rightarrow> u32 list option" where
  "bignum_from_bytes_be bytes len =
     (if len \<le> length bytes then from_bytes_loop (rev (take len bytes)) 0 bignum_zero else None)"

definition bignum_to_bytes_be :: "u32 list \<Rightarrow> nat \<Rightarrow> u8 list option" where
  "bignum_to_bytes_be n len =
     (if len \<le> 4 * length n
      then Some (rev (map (\<lambda>i. ucast (drop_bit (i mod 4 * 8) (n ! (i div 4)) AND 0xFF)) [0..<len])) else None)"

section \<open>Limb arrays\<close>

text \<open>The comparison from limb \<open>i - 1\<close> down.\<close>

fun cmp_limbs :: "u32 list \<Rightarrow> u32 list \<Rightarrow> nat \<Rightarrow> int" where
  "cmp_limbs a b 0 = 0"
| "cmp_limbs a b (Suc i) = (if a ! i \<noteq> b ! i then if a ! i > b ! i then 1 else -1 else cmp_limbs a b i)"

fun sub_loop :: "int \<Rightarrow> u32 list \<Rightarrow> u32 list \<Rightarrow> u32 list" where
  "sub_loop borrow (x # xs) (y # ys) =
     (let diff = uint x - uint y - borrow
      in if diff < 0 then word_of_int (diff + 2 ^ 32) # sub_loop 1 xs ys else word_of_int diff # sub_loop 0 xs ys)"
| "sub_loop borrow _ _ = []"

definition sub_limbs :: "u32 list \<Rightarrow> u32 list \<Rightarrow> u32 list" where
  "sub_limbs a b = sub_loop 0 a b"

text \<open>The shift to the right, from the highest limb down.\<close>

fun shr1_loop :: "u32 \<Rightarrow> u32 list \<Rightarrow> u32 list" where
  "shr1_loop carry [] = []"
| "shr1_loop carry (x # xs) = (drop_bit 1 x OR push_bit 31 carry) # shr1_loop (x AND 1) xs"

definition shr1_limbs :: "u32 list \<Rightarrow> u32 list" where
  "shr1_limbs a = rev (shr1_loop 0 (rev a))"

fun shl_loop :: "nat \<Rightarrow> u32 \<Rightarrow> u32 list \<Rightarrow> u32 list" where
  "shl_loop bit_shift carry [] = []"
| "shl_loop bit_shift carry (x # xs) =
     (push_bit bit_shift x OR carry) # shl_loop bit_shift (drop_bit (32 - bit_shift) x) xs"

definition shl_limbs :: "u32 list \<Rightarrow> nat \<Rightarrow> u32 list" where
  "shl_limbs a bits =
     (let limb_shift = bits div 32; bit_shift = bits mod 32;
          a = (if limb_shift > 0 then take (length a) (replicate limb_shift 0 @ a) else a)
      in if bit_shift > 0 then shl_loop bit_shift 0 a else a)"

text \<open>The search for the highest bit of a limb; a shift by a negative amount is undefined.\<close>

fun top_bit :: "u32 \<Rightarrow> nat \<Rightarrow> nat option" where
  "top_bit v 0 = (if drop_bit 0 v AND 1 = 0 then None else Some 0)"
| "top_bit v (Suc i) = (if drop_bit (Suc i) v AND 1 = 0 then top_bit v i else Some (Suc i))"

fun highest_loop :: "u32 list \<Rightarrow> nat \<Rightarrow> int option" where
  "highest_loop a 0 = Some (-1)"
| "highest_loop a (Suc i) =
     (if a ! i \<noteq> 0 then do { b \<leftarrow> top_bit (a ! i) 31; Some (int (i * 32 + b)) } else highest_loop a i)"

definition highest_bit_index :: "u32 list \<Rightarrow> int option" where
  "highest_bit_index a = highest_loop a (length a)"

text \<open>The inner loop of the multiplication for one limb \<open>x\<close> of the first factor.\<close>

fun mul_inner :: "u32 \<Rightarrow> u32 list \<Rightarrow> nat \<Rightarrow> u64 \<Rightarrow> u32 list \<Rightarrow> (u64 \<times> u32 list) option" where
  "mul_inner x [] k carry out = Some (carry, out)"
| "mul_inner x (y # ys) k carry out =
     (if k < length out
      then let prod = ucast x * ucast y + ucast (out ! k) + carry
           in mul_inner x ys (Suc k) (drop_bit 32 prod) (out[k := ucast (prod AND 0xFFFFFFFF)])
      else None)"

function carry_loop :: "nat \<Rightarrow> u64 \<Rightarrow> u32 list \<Rightarrow> u32 list option" where
  "carry_loop idx carry out =
     (if carry = 0 then Some out
      else if idx < length out
      then let sm = ucast (out ! idx) + carry
           in carry_loop (Suc idx) (drop_bit 32 sm) (out[idx := ucast (sm AND 0xFFFFFFFF)])
      else None)"
  by auto
termination
  by (relation "measure (\<lambda>(idx, _, out). length out - idx)") auto

declare carry_loop.simps [simp del]

fun mul_outer :: "u32 list \<Rightarrow> u32 list \<Rightarrow> nat \<Rightarrow> u32 list \<Rightarrow> u32 list option" where
  "mul_outer [] b i out = Some out"
| "mul_outer (x # xs) b i out = do {
     (carry, out) \<leftarrow> mul_inner x b i 0 out;
     out \<leftarrow> carry_loop (i + length b) carry out;
     mul_outer xs b (Suc i) out
   }"

definition mul_limbs :: "u32 list \<Rightarrow> u32 list \<Rightarrow> u32 list option" where
  "mul_limbs a b = mul_outer a b 0 (replicate (length a + length b) 0)"

text \<open>The loop of the long division; \<open>s\<close> counts down to zero.\<close>

fun reduce_loop :: "nat \<Rightarrow> u32 list \<Rightarrow> u32 list \<Rightarrow> u32 list" where
  "reduce_loop 0 wide shifted = (if cmp_limbs wide shifted (length wide) \<ge> 0 then sub_limbs wide shifted else wide)"
| "reduce_loop (Suc s) wide shifted =
     reduce_loop s (if cmp_limbs wide shifted (length wide) \<ge> 0 then sub_limbs wide shifted else wide) (shr1_limbs shifted)"

definition mod_reduce_wide :: "u32 list \<Rightarrow> u32 list \<Rightarrow> u32 list option" where
  "mod_reduce_wide wide md = do {
     top_rem \<leftarrow> highest_bit_index wide;
     top_mod \<leftarrow> highest_bit_index md;
     if top_rem < 0 \<or> top_rem < top_mod then Some (take (length md) wide)
     else let shift = nat (top_rem - top_mod);
              shifted = shl_limbs (md @ replicate (length wide - length md) 0) shift
          in Some (take (length md) (reduce_loop shift wide shifted))
   }"

section \<open>Big integers\<close>

definition bignum_compare :: "u32 list \<Rightarrow> u32 list \<Rightarrow> int" where
  "bignum_compare a b = cmp_limbs a b BIGNUM_LIMBS"

definition bignum_bit_length :: "u32 list \<Rightarrow> int option" where
  "bignum_bit_length n = do { top \<leftarrow> highest_bit_index n; Some (if top < 0 then 0 else top + 1) }"

definition bignum_sub :: "u32 list \<Rightarrow> u32 list \<Rightarrow> u32 list" where
  "bignum_sub a b = sub_limbs a b"

definition bignum_mulmod :: "u32 list \<Rightarrow> u32 list \<Rightarrow> u32 list \<Rightarrow> u32 list option" where
  "bignum_mulmod a b md = do { wide \<leftarrow> mul_limbs a b; mod_reduce_wide wide md }"

definition bignum_test_bit :: "u32 list \<Rightarrow> nat \<Rightarrow> bool" where
  "bignum_test_bit n bit_index = (drop_bit (bit_index mod 32) (n ! (bit_index div 32)) AND 1 \<noteq> 0)"

text \<open>The loop of the exponentiation over the bits \<open>i - 1, ..., 0\<close> of the exponent.\<close>

fun modexp_loop :: "nat \<Rightarrow> u32 list \<Rightarrow> u32 list \<Rightarrow> u32 list \<Rightarrow> u32 list \<Rightarrow> u32 list option" where
  "modexp_loop 0 acc b e md = Some acc"
| "modexp_loop (Suc i) acc b e md = do {
     acc \<leftarrow> bignum_mulmod acc acc md;
     acc \<leftarrow> (if bignum_test_bit e i then bignum_mulmod acc b md else Some acc);
     modexp_loop i acc b e md
   }"

definition bignum_modexp :: "u32 list \<Rightarrow> u32 list \<Rightarrow> u32 list \<Rightarrow> u32 list option" where
  "bignum_modexp bs e md = do {
     top \<leftarrow> highest_bit_index e;
     acc \<leftarrow> modexp_loop (nat (top + 1)) (bignum_set_u32 1) (bignum_copy bs) e md;
     Some (bignum_copy acc)
   }"

section \<open>The numbers\<close>

primrec val :: "u32 list \<Rightarrow> nat" where
  "val [] = 0"
| "val (x # xs) = unat x + 2 ^ 32 * val xs"

lemma val_less: "val xs < 2 ^ (32 * length xs)"
proof (induction xs)
  case (Cons x xs)
  have "unat x < 2 ^ 32" using unat_less_u32 [of x] by simp
  moreover have "Suc (val xs) \<le> 2 ^ (32 * length xs)" using Cons by simp
  then have "2 ^ 32 * Suc (val xs) \<le> 2 ^ 32 * 2 ^ (32 * length xs)" by (rule mult_le_mono2)
  ultimately have "unat x + 2 ^ 32 * val xs < 2 ^ 32 * 2 ^ (32 * length xs)" unfolding mult_Suc_right by linarith
  also have "\<dots> = 2 ^ (32 * length (x # xs))" by (simp add: power_add)
  finally show ?case by simp
qed simp

lemma val_append: "val (xs @ ys) = val xs + 2 ^ (32 * length xs) * val ys"
  by (induction xs) (simp_all add: power_add algebra_simps)

lemma val_replicate [simp]: "val (replicate n 0) = 0"
  by (induction n) simp_all

lemma val_update:
  "k < length xs \<Longrightarrow> val (xs[k := y]) + unat (xs ! k) * 2 ^ (32 * k) = val xs + unat y * 2 ^ (32 * k)"
proof (induction xs arbitrary: k)
  case (Cons x xs)
  then show ?case
  proof (cases k)
    case (Suc n)
    then have "val (xs[n := y]) + unat (xs ! n) * 2 ^ (32 * n) = val xs + unat y * 2 ^ (32 * n)" using Cons by simp
    then have "2 ^ 32 * (val (xs[n := y]) + unat (xs ! n) * 2 ^ (32 * n)) = 2 ^ 32 * (val xs + unat y * 2 ^ (32 * n))" by simp
    then show ?thesis using Suc by (simp add: power_add algebra_simps)
  qed simp
qed simp

lemma val_take_nth: "k < length xs \<Longrightarrow> val (take (Suc k) xs) = val (take k xs) + unat (xs ! k) * 2 ^ (32 * k)"
  by (simp add: take_Suc_conv_app_nth val_append)

section \<open>Comparison, subtraction, shifts\<close>

lemma cmp_limbs_sign:
  "n \<le> length a \<Longrightarrow> n \<le> length b \<Longrightarrow> cmp_limbs a b n = sgn (int (val (take n a)) - int (val (take n b)))"
proof (induction n)
  case (Suc n)
  let ?P = "2 ^ (32 * n) :: nat"
  have v: "val (take (Suc n) a) = val (take n a) + unat (a ! n) * ?P" "val (take (Suc n) b) = val (take n b) + unat (b ! n) * ?P"
    using Suc.prems by (simp_all add: val_take_nth)
  have lt: "val (take n a) < ?P" "val (take n b) < ?P" using val_less [of "take n a"] val_less [of "take n b"] Suc.prems by simp_all
  have less: "x + p * ?P < y + q * ?P" if "p < q" "x < ?P" for x y p q
  proof -
    have "Suc p * ?P \<le> q * ?P" using that(1) by (intro mult_le_mono1) simp
    then show ?thesis using that(2) by simp
  qed
  consider "a ! n = b ! n" | "unat (a ! n) < unat (b ! n)" | "unat (b ! n) < unat (a ! n)"
    by (metis linorder_neqE_nat word_unat_eq_iff)
  then show ?case
  proof cases
    case 1
    then show ?thesis using Suc v by simp
  next
    case 2
    then have "int (val (take (Suc n) a)) < int (val (take (Suc n) b))" unfolding v of_nat_less_iff using less lt by blast
    then show ?thesis using 2 by (auto simp: word_less_nat_alt)
  next
    case 3
    then have "int (val (take (Suc n) b)) < int (val (take (Suc n) a))" unfolding v of_nat_less_iff using less lt by blast
    then show ?thesis using 3 by (auto simp: word_less_nat_alt)
  qed
qed simp

lemma cmp_limbs_ge: "length a = length b \<Longrightarrow> cmp_limbs a b (length a) \<ge> 0 \<longleftrightarrow> val b \<le> val a"
  by (simp add: cmp_limbs_sign sgn_if)

lemma length_sub_loop [simp]: "length (sub_loop c xs ys) = min (length xs) (length ys)"
  by (induction c xs ys rule: sub_loop.induct) (simp_all add: Let_def)

lemma sub_loop_val:
  "length xs = length ys \<Longrightarrow> c \<le> 1 \<Longrightarrow> val ys + c \<le> val xs \<Longrightarrow> val (sub_loop (int c) xs ys) + val ys + c = val xs"
proof (induction xs arbitrary: ys c)
  case (Cons x xs)
  then obtain y ys' where ys: "ys = y # ys'" "length xs = length ys'" by (cases ys) auto
  have ux: "uint x = int (unat x)" "uint y = int (unat y)" by simp_all
  have bx: "unat x < 2 ^ 32" "unat y < 2 ^ 32" using unat_less_u32 [of x] unat_less_u32 [of y] by simp_all
  show ?case
  proof (cases "unat x < unat y + c")
    case True
    have "2 ^ 32 * val ys' < 2 ^ 32 * val xs" using Cons.prems(3) True ys by simp
    then have "val ys' + 1 \<le> val xs" by simp
    then have ih: "val (sub_loop (int 1) xs ys') + val ys' + 1 = val xs" using Cons.IH [of ys' 1] ys by simp
    have "unat (word_of_int (uint x - uint y - int c + 2 ^ 32) :: u32) = unat x + 2 ^ 32 - unat y - c"
    proof -
      have "uint x - uint y - int c + 2 ^ 32 = int (unat x + 2 ^ 32 - unat y - c)"
        unfolding ux diff_diff_left by (subst of_nat_diff, use bx Cons.prems(2) in linarith) simp
      moreover have "unat x + 2 ^ 32 - unat y - c < 2 ^ 32" using True by simp
      ultimately show ?thesis by (simp only: of_int_of_nat_eq unsigned_of_nat) (simp add: take_bit_nat_eq_self)
    qed
    moreover have "uint x - uint y - int c < 0" using True unfolding ux by linarith
    ultimately have "val (sub_loop (int c) (x # xs) ys) = unat x + 2 ^ 32 - unat y - c + 2 ^ 32 * val (sub_loop (int 1) xs ys')"
      unfolding ys by (simp add: Let_def)
    moreover have "2 ^ 32 * val xs = 2 ^ 32 * val (sub_loop (int 1) xs ys') + 2 ^ 32 * val ys' + 2 ^ 32" unfolding ih [symmetric] by simp
    ultimately show ?thesis unfolding ys(1) val.simps using bx Cons.prems(2) by linarith
  next
    case False
    have "2 ^ 32 * val ys' < 2 ^ 32 * val xs + 2 ^ 32" using Cons.prems(3) bx unfolding ys(1) val.simps by linarith
    also have "\<dots> = 2 ^ 32 * Suc (val xs)" by simp
    finally have "val ys' + 0 \<le> val xs" by simp
    then have ih: "val (sub_loop (int 0) xs ys') + val ys' = val xs" using Cons.IH [of ys' 0] ys by simp
    have "unat (word_of_int (uint x - uint y - int c) :: u32) = unat x - unat y - c"
    proof -
      have "uint x - uint y - int c = int (unat x - unat y - c)"
        unfolding ux diff_diff_left by (subst of_nat_diff, use False in linarith) simp
      moreover have "unat x - unat y - c < 2 ^ 32" using bx by linarith
      ultimately show ?thesis by (simp only: of_int_of_nat_eq unsigned_of_nat) (simp add: take_bit_nat_eq_self)
    qed
    moreover have "\<not> uint x - uint y - int c < 0" using False unfolding ux by linarith
    ultimately have "val (sub_loop (int c) (x # xs) ys) = unat x - unat y - c + 2 ^ 32 * val (sub_loop (int 0) xs ys')"
      unfolding ys by (simp add: Let_def)
    moreover have "2 ^ 32 * val xs = 2 ^ 32 * val (sub_loop (int 0) xs ys') + 2 ^ 32 * val ys'" unfolding ih [symmetric] by simp
    ultimately show ?thesis unfolding ys(1) val.simps using False by linarith
  qed
qed simp

lemma sub_limbs_val: "length a = length b \<Longrightarrow> val b \<le> val a \<Longrightarrow> val (sub_limbs a b) = val a - val b"
  using sub_loop_val [of a b 0] by (simp add: sub_limbs_def)

lemma length_shr1_loop [simp]: "length (shr1_loop c xs) = length xs"
  by (induction c xs rule: shr1_loop.induct) simp_all

lemma length_shl_loop [simp]: "length (shl_loop s c xs) = length xs"
  by (induction s c xs rule: shl_loop.induct) simp_all

lemma shift_sum: "v + r * P + 2 * (P * (q + c * 2 ^ 31)) = v + P * (2 * q + r) + c * (P * 2 ^ 32)" for v r P q c :: nat
  by (simp add: algebra_simps)

lemma shr1_loop_val:
  "c \<le> 1 \<Longrightarrow> val (rev (shr1_loop (word_of_nat c) (rev xs))) = (val xs + c * 2 ^ (32 * length xs)) div 2"
proof (induction xs arbitrary: c rule: rev_induct)
  case (snoc x xs)
  let ?P = "2 ^ (32 * length xs) :: nat"
  have "x AND 1 = word_of_nat (unat x mod 2)" by (simp add: and_one_eq word_arith_nat_mod)
  then have ih: "val (rev (shr1_loop (x AND 1) (rev xs))) = (val xs + unat x mod 2 * ?P) div 2" using snoc.IH [of "unat x mod 2"] by simp
  have d: "unat (drop_bit 1 x OR push_bit 31 (word_of_nat c)) = unat x div 2 + c * 2 ^ 31"
  proof -
    have "drop_bit 1 x AND push_bit 31 (word_of_nat c) = 0"
      by (rule bit_word_eqI) (auto simp: bit_simps dest: bit_imp_le_length)
    then have "drop_bit 1 x OR push_bit 31 (word_of_nat c) = drop_bit 1 x + push_bit 31 (word_of_nat c)"
      by (rule disjunctive_add_eq_or [symmetric])
    moreover have "unat (drop_bit 1 x) = unat x div 2" by (simp add: drop_bit_Suc unat_div)
    moreover have "unat (push_bit 31 (word_of_nat c) :: u32) = c * 2 ^ 31" using snoc.prems by (cases "c = 0") (auto simp: le_Suc_eq)
    moreover have "unat x div 2 < 2 ^ 31" by (rule less_mult_imp_div_less) simp
    ultimately show ?thesis using snoc.prems by (simp add: unat_word_ariths)
  qed
  have "val (rev (shr1_loop (word_of_nat c) (rev (xs @ [x])))) = (val xs + unat x mod 2 * ?P) div 2 + ?P * (unat x div 2 + c * 2 ^ 31)"
    using ih d by (simp add: val_append)
  also have "\<dots> = (val xs + unat x mod 2 * ?P + 2 * (?P * (unat x div 2 + c * 2 ^ 31))) div 2" by simp
  also have "val xs + unat x mod 2 * ?P + 2 * (?P * (unat x div 2 + c * 2 ^ 31)) =
      val xs + ?P * (2 * (unat x div 2) + unat x mod 2) + c * (?P * 2 ^ 32)" by (rule shift_sum)
  also have "\<dots> = val (xs @ [x]) + c * 2 ^ (32 * length (xs @ [x]))" by (simp add: val_append power_add)
  finally show ?case .
qed simp

lemma shr1_limbs_val: "val (shr1_limbs a) = val a div 2"
  using shr1_loop_val [of 0 a] by (simp add: shr1_limbs_def)

lemma length_shr1_limbs [simp]: "length (shr1_limbs a) = length a"
  by (simp add: shr1_limbs_def)

lemma div_mod_digit: "r < b \<Longrightarrow> (b * q + r) div b = q \<and> (b * q + r) mod b = r" for b q r :: nat
  by simp

lemma shl_loop_val:
  "0 < s \<Longrightarrow> s < 32 \<Longrightarrow> unat c < 2 ^ s \<Longrightarrow> val (shl_loop s c xs) = (val xs * 2 ^ s + unat c) mod 2 ^ (32 * length xs)"
proof (induction xs arbitrary: c)
  case (Cons x xs)
  let ?hi = "drop_bit (32 - s) x"
  have hi: "unat ?hi = unat x div 2 ^ (32 - s)" by (simp only: unsigned_drop_bit_eq) (simp add: drop_bit_eq_div take_bit_nat_eq_self)
  have p: "(2 :: nat) ^ 32 = 2 ^ (32 - s) * 2 ^ s" using Cons.prems by (simp flip: power_add)
  have hs: "unat ?hi < 2 ^ s" unfolding hi using unat_less_u32 [of x] p by (simp add: less_mult_imp_div_less mult.commute)
  have lo: "unat (push_bit s x OR c) = unat x * 2 ^ s mod 2 ^ 32 + unat c"
  proof -
    have "take_bit s c = c" using Cons.prems by (simp add: word_unat_eq_iff unsigned_take_bit_eq take_bit_nat_eq_self)
    then have "bit c i \<Longrightarrow> i < s" for i by (metis bit_take_bit_iff)
    then have "push_bit s x AND c = 0" by (auto intro!: bit_word_eqI simp: bit_simps simp flip: not_le)
    then have "push_bit s x OR c = push_bit s x + c" by (rule disjunctive_add_eq_or [symmetric])
    moreover have u: "unat (push_bit s x) = unat x * 2 ^ s mod 2 ^ 32"
      by (simp only: unsigned_push_bit_eq) (simp add: push_bit_eq_mult take_bit_eq_mod)
    moreover have "2 ^ s * (unat x mod 2 ^ (32 - s)) = unat x * 2 ^ s mod 2 ^ 32"
      unfolding mult_mod_right p by (simp only: mult.commute)
    moreover have "2 ^ s * (unat x mod 2 ^ (32 - s)) + unat c < 2 ^ 32"
    proof -
      have "Suc (unat x mod 2 ^ (32 - s)) \<le> 2 ^ (32 - s)" by (simp add: Suc_leI)
      then have "2 ^ s * Suc (unat x mod 2 ^ (32 - s)) \<le> 2 ^ s * 2 ^ (32 - s)" by (rule mult_le_mono2)
      then show ?thesis using Cons.prems(3) p by (simp only: mult_Suc_right mult.commute [of "2 ^ s"])
    qed
    ultimately show ?thesis by (simp add: unat_word_ariths)
  qed
  let ?lo = "unat (push_bit s x OR c)" and ?N = "2 ^ (32 * length xs) :: nat"
  have "unat x * 2 ^ s div 2 ^ 32 = unat ?hi" unfolding hi p by simp
  then have "unat x * 2 ^ s = 2 ^ 32 * unat ?hi + unat x * 2 ^ s mod 2 ^ 32" by (metis mult_div_mod_eq)
  then have eq: "val (x # xs) * 2 ^ s + unat c = 2 ^ 32 * (val xs * 2 ^ s + unat ?hi) + ?lo"
    unfolding lo val.simps by (simp only: distrib_left distrib_right mult.assoc)
  have "?lo < 2 ^ 32" by simp
  then have "(val (x # xs) * 2 ^ s + unat c) div 2 ^ 32 = val xs * 2 ^ s + unat ?hi"
    "(val (x # xs) * 2 ^ s + unat c) mod 2 ^ 32 = ?lo" unfolding eq using div_mod_digit by blast+
  then have "(val (x # xs) * 2 ^ s + unat c) mod (2 ^ 32 * ?N) = 2 ^ 32 * ((val xs * 2 ^ s + unat ?hi) mod ?N) + ?lo"
    by (simp only: mod_mult2_eq)
  also have "\<dots> = val (shl_loop s c (x # xs))" using Cons.IH [OF Cons.prems(1,2) hs] by simp
  finally show ?case by (simp add: power_add)
qed simp

lemma val_take: "val (take n xs) = val xs mod 2 ^ (32 * n)"
proof (cases "n \<le> length xs")
  case True
  have "val xs = 2 ^ (32 * n) * val (drop n xs) + val (take n xs)"
    using val_append [of "take n xs" "drop n xs"] True by simp
  moreover have "val (take n xs) < 2 ^ (32 * n)" using val_less [of "take n xs"] True by simp
  ultimately show ?thesis using div_mod_digit by metis
next
  case False
  then have "(2 :: nat) ^ (32 * length xs) \<le> 2 ^ (32 * n)" by (intro power_increasing) simp_all
  then have "val xs < 2 ^ (32 * n)" by (rule less_le_trans [OF val_less])
  then show ?thesis using False by simp
qed

lemma shl_limbs_val: "val a * 2 ^ bits < 2 ^ (32 * length a) \<Longrightarrow> val (shl_limbs a bits) = val a * 2 ^ bits"
proof -
  assume fit: "val a * 2 ^ bits < 2 ^ (32 * length a)"
  let ?l = "bits div 32" and ?s = "bits mod 32"
  let ?a = "if ?l > 0 then take (length a) (replicate ?l 0 @ a) else a"
  have b: "bits = 32 * ?l + ?s" by simp
  have va: "val ?a = val a * 2 ^ (32 * ?l) mod 2 ^ (32 * length a)"
  proof (cases "?l > 0")
    case True
    then show ?thesis by (simp only: if_True val_take val_append val_replicate length_replicate add_0 mult.commute)
  qed (use val_less [of a] in simp)
  have pw: "(2 :: nat) ^ bits = 2 ^ (32 * ?l) * 2 ^ ?s" by (subst (1) b) (simp only: power_add)
  have "val a * 2 ^ (32 * ?l) * 1 \<le> val a * 2 ^ (32 * ?l) * 2 ^ ?s" by (intro mult_le_mono2) simp
  then have "val a * 2 ^ (32 * ?l) < 2 ^ (32 * length a)" using fit unfolding pw mult.assoc by linarith
  then have v1: "val ?a = val a * 2 ^ (32 * ?l)" using va by simp
  show ?thesis
  proof (cases "?s = 0")
    case True
    then show ?thesis using v1 pw by (simp add: shl_limbs_def Let_def)
  next
    case False
    have "length ?a = length a" by (simp add: min_def)
    then have "val (shl_loop ?s 0 ?a) = val a * 2 ^ bits"
      using shl_loop_val [of ?s 0 ?a] False v1 fit unfolding pw by (simp add: mult.assoc)
    then show ?thesis using False by (simp add: shl_limbs_def Let_def)
  qed
qed

lemma length_shl_limbs [simp]: "length (shl_limbs a bits) = length a"
  by (simp add: shl_limbs_def Let_def min_def)

lemma top_bit_eq:
  "v \<noteq> 0 \<Longrightarrow> unat v < 2 ^ Suc n \<Longrightarrow> \<exists>k \<le> n. top_bit v n = Some k \<and> 2 ^ k \<le> unat v \<and> unat v < 2 ^ Suc k"
proof (induction n)
  case 0
  then have "unat v = 1" by (simp add: unat_eq_0 [symmetric] del: unat_eq_0)
  then have "v = 1" by (simp add: word_unat_eq_iff)
  then show ?case by simp
next
  case (Suc n)
  have b: "drop_bit (Suc n) v AND 1 = 0 \<longleftrightarrow> unat v < 2 ^ Suc n"
  proof -
    have "unat (drop_bit (Suc n) v) = unat v div 2 ^ Suc n"
      by (simp only: unsigned_drop_bit_eq) (simp add: drop_bit_eq_div take_bit_nat_eq_self del: power_Suc)
    then have u: "unat (drop_bit (Suc n) v AND 1) = unat v div 2 ^ Suc n mod 2" by (simp add: and_one_eq unat_mod del: power_Suc)
    have "unat v div 2 ^ Suc n < 2" using Suc.prems(2) by (intro less_mult_imp_div_less) simp
    then have "unat v div 2 ^ Suc n mod 2 = 0 \<longleftrightarrow> unat v div 2 ^ Suc n = 0" by simp
    also have "\<dots> \<longleftrightarrow> unat v < 2 ^ Suc n" by (simp add: div_eq_0_iff del: power_Suc)
    finally show ?thesis using u by (metis unat_eq_0)
  qed
  show ?case
  proof (cases "unat v < 2 ^ Suc n")
    case True
    then obtain k where "k \<le> n" "top_bit v n = Some k" "2 ^ k \<le> unat v" "unat v < 2 ^ Suc k" using Suc by blast
    then show ?thesis using b True by (intro exI [of _ k]) simp
  next
    case False
    then show ?thesis using b Suc.prems(2) by (intro exI [of _ "Suc n"]) simp
  qed
qed

lemma highest_loop_eq:
  "n \<le> length a \<Longrightarrow> (val (take n a) = 0 \<and> highest_loop a n = Some (-1)) \<or>
    (\<exists>k < 32 * n. highest_loop a n = Some (int k) \<and> 2 ^ k \<le> val (take n a) \<and> val (take n a) < 2 ^ Suc k)"
proof (induction n)
  case (Suc n)
  let ?x = "a ! n" and ?P = "2 ^ (32 * n) :: nat"
  have v: "val (take (Suc n) a) = val (take n a) + unat ?x * ?P" using Suc.prems by (simp add: val_take_nth)
  show ?case
  proof (cases "?x = 0")
    case True
    then have "val (take (Suc n) a) = val (take n a)" "highest_loop a (Suc n) = highest_loop a n" using v by simp_all
    moreover have "k < 32 * n \<Longrightarrow> k < 32 * Suc n" for k by simp
    ultimately show ?thesis using Suc by auto
  next
    case False
    have "unat ?x < 2 ^ Suc 31" by simp
    from top_bit_eq [OF False this] obtain k where k: "k \<le> 31" "top_bit ?x 31 = Some k" "2 ^ k \<le> unat ?x" "unat ?x < 2 ^ Suc k" by blast
    have h: "highest_loop a (Suc n) = Some (int (n * 32 + k))" using False k(2) by simp
    have "2 ^ k * ?P \<le> unat ?x * ?P" using k(3) by (rule mult_le_mono1)
    moreover have p: "2 ^ (n * 32 + k) = 2 ^ k * ?P" "2 ^ Suc (n * 32 + k) = 2 ^ Suc k * ?P" by (simp_all add: power_add mult.commute)
    ultimately have lo: "2 ^ (n * 32 + k) \<le> val (take (Suc n) a)" unfolding v by linarith
    have "Suc (unat ?x) * ?P \<le> 2 ^ Suc k * ?P" using k(4) by (intro mult_le_mono1) simp
    moreover have "val (take n a) < ?P" using val_less [of "take n a"] Suc.prems by simp
    ultimately have hi: "val (take (Suc n) a) < 2 ^ Suc (n * 32 + k)" unfolding v p mult_Suc by linarith
    show ?thesis using h lo hi k(1) by (intro disjI2 exI [of _ "n * 32 + k"]) simp
  qed
qed simp

lemma highest_bit_index_eq:
  "(val a = 0 \<and> highest_bit_index a = Some (-1)) \<or>
    (\<exists>k < 32 * length a. highest_bit_index a = Some (int k) \<and> 2 ^ k \<le> val a \<and> val a < 2 ^ Suc k)"
  using highest_loop_eq [of "length a" a] by (simp add: highest_bit_index_def)

section \<open>Multiplication\<close>

lemma low_limb: "unat (ucast ((p :: u64) AND 0xFFFFFFFF) :: u32) = unat p mod 2 ^ 32"
proof -
  have m: "p AND 0xFFFFFFFF = take_bit 32 p" by (simp add: take_bit_eq_mask mask_eq_exp_minus_1)
  show ?thesis unfolding m unat_ucast_mod unsigned_take_bit_eq by (simp add: take_bit_eq_mod [where ?'a = nat])
qed

lemma high_limb: "unat (drop_bit 32 (p :: u64)) = unat p div 2 ^ 32"
  by (simp only: unsigned_drop_bit_eq) (simp add: drop_bit_eq_div take_bit_nat_eq_self)

lemma product_fits:
  fixes x y z :: u32 and c :: u64
  assumes "unat c < 2 ^ 32"
  shows "unat (ucast x * ucast y + ucast z + c) = unat x * unat y + unat z + unat c"
    and "unat x * unat y + unat z + unat c < 2 ^ 64"
proof -
  have le: "unat x \<le> 0xFFFFFFFF" "unat y \<le> 0xFFFFFFFF" "unat z \<le> 0xFFFFFFFF"
    using unat_less_u32 [of x] unat_less_u32 [of y] unat_less_u32 [of z] by linarith+
  have b: "unat x * unat y + unat z + unat c < 2 ^ 64" using mult_le_mono [OF le(1,2)] le(3) assms by simp
  then show "unat x * unat y + unat z + unat c < 2 ^ 64" .
  have "unat (ucast x * ucast y :: u64) = unat x * unat y" using b by (simp add: unat_word_ariths unat_u32_u64)
  then show "unat (ucast x * ucast y + ucast z + c) = unat x * unat y + unat z + unat c"
    using b by (simp add: unat_word_ariths unat_u32_u64)
qed

lemma digit_step:
  fixes A V P B X Y W c d o' cr :: nat
  assumes u: "A + o' * P = V + d * P" and d: "d + B * c = X * Y + o' + cr"
  shows "A + (X * W + c) * (B * P) = V + (X * (Y + B * W) + cr) * P"
proof -
  have "A + (X * W + c) * (B * P) + o' * P = V + X * W * (B * P) + (d + B * c) * P"
    using u by (simp add: algebra_simps)
  also have "\<dots> = V + (X * (Y + B * W) + cr) * P + o' * P" unfolding d by (simp add: algebra_simps)
  finally show ?thesis by simp
qed

lemma mul_inner_val:
  "k + length ys \<le> length out \<Longrightarrow> unat carry < 2 ^ 32 \<Longrightarrow>
    \<exists>c out'. mul_inner x ys k carry out = Some (c, out') \<and> length out' = length out \<and> unat c < 2 ^ 32 \<and>
      val out' + unat c * 2 ^ (32 * (k + length ys)) = val out + (unat x * val ys + unat carry) * 2 ^ (32 * k)"
proof (induction ys arbitrary: k carry out)
  case (Cons y ys)
  let ?p = "ucast x * ucast y + ucast (out ! k) + carry" and ?P = "2 ^ (32 * k) :: nat"
  let ?d = "ucast (?p AND 0xFFFFFFFF) :: u32" and ?c = "drop_bit 32 ?p"
  have k: "k < length out" using Cons.prems(1) by simp
  note p = product_fits [OF Cons.prems(2), of x y "out ! k"]
  have d: "unat ?d + 2 ^ 32 * unat ?c = unat x * unat y + unat (out ! k) + unat carry"
    unfolding low_limb high_limb p(1) by simp
  have c: "unat ?c < 2 ^ 32" unfolding high_limb p(1) using p(2) by (intro less_mult_imp_div_less) simp
  from Cons.IH [of "Suc k" "out[k := ?d]" ?c] Cons.prems(1) c obtain c' out' where
    r: "mul_inner x ys (Suc k) ?c (out[k := ?d]) = Some (c', out')" "length out' = length out" "unat c' < 2 ^ 32"
      "val out' + unat c' * 2 ^ (32 * (Suc k + length ys)) = val (out[k := ?d]) + (unat x * val ys + unat ?c) * 2 ^ (32 * Suc k)" by auto
  have u: "val (out[k := ?d]) + unat (out ! k) * ?P = val out + unat ?d * ?P" by (rule val_update [OF k])
  have "val (out[k := ?d]) + (unat x * val ys + unat ?c) * (2 ^ 32 * ?P) =
      val out + (unat x * val (y # ys) + unat carry) * ?P"
    using digit_step [OF u d] by simp
  then show ?case using r k by (simp add: Let_def power_add mult.commute)
qed simp

lemma carry_loop_val:
  "unat carry < 2 ^ 32 \<Longrightarrow> val out + unat carry * 2 ^ (32 * idx) < 2 ^ (32 * length out) \<Longrightarrow>
    \<exists>out'. carry_loop idx carry out = Some out' \<and> length out' = length out \<and>
      val out' = val out + unat carry * 2 ^ (32 * idx)"
proof (induction idx carry out rule: carry_loop.induct)
  case (1 idx carry out)
  show ?case
  proof (cases "carry = 0")
    case True
    then show ?thesis by (simp add: carry_loop.simps)
  next
    case False
    let ?s = "ucast (out ! idx) + carry" and ?P = "2 ^ (32 * idx) :: nat"
    let ?d = "ucast (?s AND 0xFFFFFFFF) :: u32" and ?c = "drop_bit 32 ?s"
    have "0 < unat carry" using False by (simp add: unat_gt_0)
    then have "?P \<le> unat carry * ?P" by simp
    then have "?P < 2 ^ (32 * length out)" using "1.prems"(2) by linarith
    then have k: "idx < length out" by simp
    have s: "unat ?s = unat (out ! idx) + unat carry"
      using product_fits(1) [OF "1.prems"(1), of 0 0 "out ! idx"] by simp
    have d: "unat ?d + 2 ^ 32 * unat ?c = 0 * 0 + unat (out ! idx) + unat carry"
      unfolding low_limb high_limb s by simp
    have c: "unat ?c < 2 ^ 32" unfolding high_limb s
      using product_fits(2) [OF "1.prems"(1), of 0 0 "out ! idx"] by (intro less_mult_imp_div_less) simp
    have v: "val (out[idx := ?d]) + unat ?c * 2 ^ (32 * Suc idx) = val out + unat carry * ?P"
      using digit_step [OF val_update [OF k, of ?d] d, of 0] by (simp add: power_add)
    have "\<exists>out'. carry_loop (Suc idx) ?c (out[idx := ?d]) = Some out' \<and> length out' = length out \<and>
        val out' = val (out[idx := ?d]) + unat ?c * 2 ^ (32 * Suc idx)"
      using "1.IH" [OF False k refl c] "1.prems"(2) v by simp
    then show ?thesis unfolding v using False k
      by (simp add: carry_loop.simps [of idx] Let_def)
  qed
qed

lemma mul_outer_val:
  "i + length xs + length b = length out \<Longrightarrow> val out + val xs * val b * 2 ^ (32 * i) < 2 ^ (32 * length out) \<Longrightarrow>
    \<exists>out'. mul_outer xs b i out = Some out' \<and> length out' = length out \<and>
      val out' = val out + val xs * val b * 2 ^ (32 * i)"
proof (induction xs arbitrary: i out)
  case (Cons x xs)
  have "i + length b \<le> length out" using Cons.prems(1) by simp
  then obtain c o1 where m: "mul_inner x b i 0 out = Some (c, o1)" "length o1 = length out" "unat c < 2 ^ 32"
      "val o1 + unat c * 2 ^ (32 * (i + length b)) = val out + unat x * val b * 2 ^ (32 * i)"
    using mul_inner_val [of i b out 0 x] by auto
  have split: "val (x # xs) * val b * 2 ^ (32 * i) = unat x * val b * 2 ^ (32 * i) + val xs * val b * 2 ^ (32 * Suc i)"
    by (simp add: algebra_simps power_add)
  have "val o1 + unat c * 2 ^ (32 * (i + length b)) < 2 ^ (32 * length o1)"
    using Cons.prems(2) unfolding split m(2,4) by linarith
  from carry_loop_val [OF m(3) this] obtain o2 where
    l: "carry_loop (i + length b) c o1 = Some o2" "length o2 = length out"
      "val o2 = val out + unat x * val b * 2 ^ (32 * i)" unfolding m(2,4) by blast
  have "\<exists>out'. mul_outer xs b (Suc i) o2 = Some out' \<and> length out' = length o2 \<and>
      val out' = val o2 + val xs * val b * 2 ^ (32 * Suc i)"
    using Cons.prems l(2,3) unfolding split by (intro Cons.IH) simp_all
  then show ?case unfolding split using m(1) l by (simp add: add.assoc)
qed simp

lemma mul_limbs_val:
  "\<exists>w. mul_limbs a b = Some w \<and> length w = length a + length b \<and> val w = val a * val b"
proof -
  have "val a * val b < 2 ^ (32 * length a) * 2 ^ (32 * length b)" by (intro mult_strict_mono val_less) simp_all
  then show ?thesis using mul_outer_val [of 0 a b "replicate (length a + length b) 0"]
    by (simp add: mul_limbs_def distrib_left power_add)
qed

section \<open>Long division\<close>

lemma length_sub_limbs [simp]: "length (sub_limbs a b) = min (length a) (length b)"
  by (simp add: sub_limbs_def)

lemma reduce_loop_val:
  "length shifted = length wide \<Longrightarrow> val shifted = m * 2 ^ s \<Longrightarrow> 0 < m \<Longrightarrow> val wide < m * 2 ^ Suc s \<Longrightarrow>
    val (reduce_loop s wide shifted) = val wide mod m \<and> length (reduce_loop s wide shifted) = length wide"
proof (induction s arbitrary: wide shifted)
  case 0
  then show ?case
    by (cases "m \<le> val wide") (auto simp: cmp_limbs_ge sub_limbs_val le_mod_geq)
next
  case (Suc s)
  let ?w = "if cmp_limbs wide shifted (length wide) \<ge> 0 then sub_limbs wide shifted else wide"
  have l: "length ?w = length wide" using Suc.prems(1) by simp
  have w: "val ?w = (if m * 2 ^ Suc s \<le> val wide then val wide - m * 2 ^ Suc s else val wide)"
    using Suc.prems(1,2) by (simp add: cmp_limbs_ge sub_limbs_val)
  have md: "val ?w mod m = val wide mod m"
  proof (cases "m * 2 ^ Suc s \<le> val wide")
    case True
    then have "val wide = val ?w + m * 2 ^ Suc s" using w by simp
    then have "val wide mod m = (val ?w + m * 2 ^ Suc s) mod m" by (rule arg_cong)
    then show ?thesis by (simp only: mod_mult_self2)
  qed (use w in simp)
  have "val ?w < m * 2 ^ Suc s" unfolding w using Suc.prems(4) by auto
  then have "val (reduce_loop s ?w (shr1_limbs shifted)) = val ?w mod m \<and>
      length (reduce_loop s ?w (shr1_limbs shifted)) = length ?w"
    using Suc.prems by (intro Suc.IH) (simp_all add: l shr1_limbs_val)
  then show ?case unfolding md l by simp
qed

lemma val_take_small: "val a < 2 ^ (32 * n) \<Longrightarrow> val (take n a) = val a"
  by (simp add: val_take)

lemma mod_reduce_wide_val:
  assumes m: "0 < val md" and l: "length md \<le> length wide"
  shows "\<exists>r. mod_reduce_wide wide md = Some r \<and> length r = length md \<and> val r = val wide mod val md"
proof -
  obtain j where j: "highest_bit_index md = Some (int j)" "2 ^ j \<le> val md" "val md < 2 ^ Suc j"
    using highest_bit_index_eq [of md] m by auto
  have mlt: "val wide mod val md < 2 ^ (32 * length md)"
    using mod_less_divisor [OF m, of "val wide"] val_less [of md] by linarith
  from highest_bit_index_eq [of wide] consider
      "val wide = 0" "highest_bit_index wide = Some (-1)"
    | k where "k < 32 * length wide" "highest_bit_index wide = Some (int k)" "2 ^ k \<le> val wide" "val wide < 2 ^ Suc k"
    by (elim disjE exE conjE) simp_all
  then show ?thesis
  proof cases
    case 1
    then show ?thesis using j l by (simp add: mod_reduce_wide_def val_take)
  next
    case k: (2 k)
    show ?thesis
    proof (cases "k < j")
      case True
      then have "(2 :: nat) ^ Suc k \<le> 2 ^ j" by (intro power_increasing) simp_all
      then have "val wide mod val md = val wide" using k(4) j(2) by simp
      then show ?thesis using True k j l mlt by (simp add: mod_reduce_wide_def val_take_small)
    next
      case False
      let ?m = "md @ replicate (length wide - length md) 0" and ?s = "k - j"
      have v: "val ?m = val md" by (simp add: val_append)
      have "val md * 2 ^ ?s < 2 ^ Suc j * 2 ^ ?s" using j(3) by simp
      also have "\<dots> = 2 ^ Suc k" using False by (simp flip: power_add)
      also have "\<dots> \<le> 2 ^ (32 * length wide)" using k(1) by (intro power_increasing) simp_all
      finally have sh: "val (shl_limbs ?m ?s) = val md * 2 ^ ?s" using l by (subst shl_limbs_val) (simp_all add: v)
      have "(2 :: nat) ^ Suc k = 2 ^ j * 2 ^ Suc ?s" using False by (simp flip: power_add)
      also have "\<dots> \<le> val md * 2 ^ Suc ?s" using j(2) by (intro mult_le_mono1)
      finally have "val wide < val md * 2 ^ Suc ?s" using k(4) by linarith
      then have "val (reduce_loop ?s wide (shl_limbs ?m ?s)) = val wide mod val md \<and>
          length (reduce_loop ?s wide (shl_limbs ?m ?s)) = length wide"
        using l by (intro reduce_loop_val [OF _ sh m]) simp_all
      moreover have "nat (int k - int j) = ?s" by simp
      ultimately show ?thesis using False k j l mlt by (simp add: mod_reduce_wide_def val_take_small Let_def)
    qed
  qed
qed

section \<open>Modular arithmetic\<close>

lemma bignum_mulmod_val:
  assumes "0 < val md" and "length md \<le> length a"
  shows "\<exists>r. bignum_mulmod a b md = Some r \<and> length r = length md \<and> val r = val a * val b mod val md"
proof -
  obtain w where w: "mul_limbs a b = Some w" "length w = length a + length b" "val w = val a * val b"
    using mul_limbs_val by blast
  show ?thesis using mod_reduce_wide_val [OF assms(1), of w] assms(2) w by (simp add: bignum_mulmod_def)
qed

lemma test_bit_val: "i < 32 * length a \<Longrightarrow> bignum_test_bit a i \<longleftrightarrow> odd (val a div 2 ^ i)"
proof (induction a arbitrary: i)
  case (Cons x xs)
  show ?case
  proof (cases "i < 32")
    case True
    have "odd (val (x # xs) div 2 ^ i) \<longleftrightarrow> odd (unat x div 2 ^ i)"
    proof -
      have "(2 :: nat) ^ 32 = 2 ^ i * 2 ^ (32 - i)" using True by (simp flip: power_add)
      then have "val (x # xs) = unat x + 2 ^ i * (2 ^ (32 - i) * val xs)" by (simp only: val.simps mult.assoc)
      then have "val (x # xs) div 2 ^ i = (unat x + 2 ^ i * (2 ^ (32 - i) * val xs)) div 2 ^ i" by (rule arg_cong)
      also have "\<dots> = 2 ^ (32 - i) * val xs + unat x div 2 ^ i" by (rule div_mult_self2) simp
      finally have "val (x # xs) div 2 ^ i = 2 ^ (32 - i) * val xs + unat x div 2 ^ i" .
      then show ?thesis using True by simp
    qed
    moreover have "bignum_test_bit (x # xs) i \<longleftrightarrow> bit x i"
      using True by (simp add: bignum_test_bit_def and_one_eq bit_iff_odd_drop_bit odd_iff_mod_2_eq_one)
    moreover have "bit x i \<longleftrightarrow> odd (unat x div 2 ^ i)"
      using True by (simp add: bit_unsigned_iff flip: bit_iff_odd)
    ultimately show ?thesis by simp
  next
    case False
    then obtain j where j: "i = j + 32" by (metis add.commute le_Suc_ex not_less)
    have "val (x # xs) div 2 ^ i = val (x # xs) div 2 ^ 32 div 2 ^ j"
      unfolding j by (simp only: add.commute [of j] power_add div_mult2_eq)
    also have "val (x # xs) div 2 ^ 32 = val xs" using unat_less_u32 [of x] by (simp add: div_mult_self4)
    finally have v: "val (x # xs) div 2 ^ i = val xs div 2 ^ j" .
    have "(j + 32) div 32 = Suc (j div 32)" by (subst div_add_self2) simp_all
    then have "bignum_test_bit (x # xs) i = bignum_test_bit xs j" unfolding j bignum_test_bit_def by simp
    then show ?thesis unfolding v using Cons.IH [of j] Cons.prems j by simp
  qed
qed simp

lemma modexp_loop_val:
  "i \<le> 32 * length e \<Longrightarrow> 0 < val md \<Longrightarrow> length acc = length md \<Longrightarrow>
    \<exists>r. modexp_loop i acc b e md = Some r \<and> length r = length md \<and>
      val r mod val md = val acc ^ (2 ^ i) * val b ^ (val e mod 2 ^ i) mod val md \<and> (0 < i \<longrightarrow> val r < val md)"
proof (induction i arbitrary: acc)
  case (Suc i)
  let ?m = "val md"
  obtain s where s: "bignum_mulmod acc acc md = Some s" "length s = length md" "val s = val acc * val acc mod ?m"
    using bignum_mulmod_val [OF Suc.prems(2), of acc acc] Suc.prems(3) by auto
  obtain t where t: "(if bignum_test_bit e i then bignum_mulmod s b md else Some s) = Some t"
      "length t = length md" "val t < ?m"
      "val t mod ?m = val s * val b ^ (val e div 2 ^ i mod 2) mod ?m"
  proof (cases "bignum_test_bit e i")
    case True
    then have "val e div 2 ^ i mod 2 = 1" using test_bit_val [of i e] Suc.prems(1) by (simp add: odd_iff_mod_2_eq_one)
    then show thesis using that True bignum_mulmod_val [OF Suc.prems(2), of s b] s(2) Suc.prems(2) by auto
  next
    case False
    then have "val e div 2 ^ i mod 2 = 0" using test_bit_val [of i e] Suc.prems(1) by (simp add: even_iff_mod_2_eq_zero)
    then show thesis using that False s Suc.prems(2) by simp
  qed
  have "\<exists>r. modexp_loop i t b e md = Some r \<and> length r = length md \<and>
      val r mod ?m = val t ^ (2 ^ i) * val b ^ (val e mod 2 ^ i) mod ?m \<and> (0 < i \<longrightarrow> val r < ?m)"
    using Suc.prems t(2) by (intro Suc.IH) simp_all
  then obtain r where r: "modexp_loop i t b e md = Some r" "length r = length md"
      "val r mod ?m = val t ^ (2 ^ i) * val b ^ (val e mod 2 ^ i) mod ?m" "0 < i \<longrightarrow> val r < ?m" by blast
  let ?d = "val e div 2 ^ i mod 2"
  have "val t mod ?m = val acc ^ 2 * val b ^ ?d mod ?m"
    unfolding t(4) s(3) by (simp add: mod_mult_left_eq power2_eq_square)
  then have "val t ^ 2 ^ i mod ?m = (val acc ^ 2 * val b ^ ?d) ^ 2 ^ i mod ?m" by (metis power_mod)
  then have "val r mod ?m = (val acc ^ 2 * val b ^ ?d) ^ 2 ^ i * val b ^ (val e mod 2 ^ i) mod ?m"
    unfolding r(3) by (rule mod_mult_cong) simp
  also have "(val acc ^ 2 * val b ^ ?d) ^ 2 ^ i * val b ^ (val e mod 2 ^ i) =
      val acc ^ (2 ^ Suc i) * val b ^ (2 ^ i * ?d + val e mod 2 ^ i)"
    by (simp add: power_mult_distrib power_add mult.commute [of "?d"] flip: power_mult)
  also have "2 ^ i * ?d + val e mod 2 ^ i = val e mod 2 ^ Suc i"
    by (simp add: mod_mult2_eq mult.commute [of 2])
  finally have "val r mod ?m = val acc ^ 2 ^ Suc i * val b ^ (val e mod 2 ^ Suc i) mod ?m" .
  moreover have "val r < ?m" using r t(3) by (cases i) auto
  ultimately show ?case using s(1) t(1) r(1,2) by auto
qed simp

section \<open>Import and export\<close>

text \<open>The number that a byte string represents, the most significant byte first.\<close>

fun bytes_val :: "u8 list \<Rightarrow> nat" where
  "bytes_val [] = 0"
| "bytes_val (b # bs) = unat b + 256 * bytes_val bs"

definition os2ip :: "u8 list \<Rightarrow> nat" where
  "os2ip bs = bytes_val (rev bs)"

lemma val_nth: "k < length a \<Longrightarrow> val a div 2 ^ (32 * k) mod 2 ^ 32 = unat (a ! k)"
proof -
  assume k: "k < length a"
  have "val (take k a) < 2 ^ (32 * k)" using val_less [of "take k a"] k by simp
  then have "val (take (Suc k) a) div 2 ^ (32 * k) = unat (a ! k)"
    using val_take_nth [OF k] by simp
  moreover have "val (take (Suc k) a) div 2 ^ (32 * k) = val a div 2 ^ (32 * k) mod 2 ^ 32"
  proof -
    have "x mod (P * Q) div P = x div P mod Q" if "0 < P" for x P Q :: nat
      using that by (simp add: mod_mult2_eq)
    then show ?thesis by (simp add: val_take power_add mult.commute)
  qed
  ultimately show ?thesis by simp
qed

lemma or_byte:
  fixes l :: u32 and b :: u8
  assumes l: "unat l < 2 ^ s" and s: "s \<le> 24"
  shows "unat (l OR push_bit s (ucast b)) = unat l + unat b * 2 ^ s"
proof -
  have t: "l = take_bit s l"
    by (rule unsigned_word_eqI [where ?'a = nat]) (simp only: unsigned_take_bit_eq take_bit_nat_eq_self [OF l])
  have "l OR push_bit s (ucast b) = l + push_bit s (ucast b)"
    by (subst (1 2) t, rule disjunctive_add_eq_or [symmetric]) (auto intro!: bit_word_eqI simp: bit_simps)
  moreover have fit: "unat l + unat b * 2 ^ s < 2 ^ 32"
  proof -
    have "unat b \<le> 255" using unat_less_u8 [of b] by linarith
    then have "unat b * 2 ^ s \<le> 255 * 2 ^ s" by (rule mult_le_mono1)
    then have "unat l + unat b * 2 ^ s < 256 * 2 ^ s" using l by linarith
    also have "256 * 2 ^ s = (2 :: nat) ^ (8 + s)" by (simp add: power_add)
    also have "\<dots> \<le> (2 :: nat) ^ 32" using s by (intro power_increasing) simp_all
    finally show ?thesis .
  qed
  moreover have "unat (push_bit s (ucast b :: u32)) = unat b * 2 ^ s"
    using fit by (simp only: unsigned_push_bit_eq) (simp add: push_bit_eq_mult take_bit_eq_mod)
  ultimately show ?thesis by (simp add: unat_word_ariths)
qed

lemma from_bytes_loop_val:
  "i + length bs \<le> 4 * length limbs \<Longrightarrow> val limbs < 2 ^ (8 * i) \<Longrightarrow>
    \<exists>r. from_bytes_loop bs i limbs = Some r \<and> length r = length limbs \<and> val r = val limbs + bytes_val bs * 2 ^ (8 * i)"
proof (induction bs arbitrary: i limbs)
  case (Cons b bs)
  let ?k = "i div 4" and ?s = "i mod 4 * 8"
  let ?l = "limbs ! ?k OR push_bit ?s (ucast b)"
  have k: "?k < length limbs" using Cons.prems(1) by simp
  have e: "8 * i = ?s + 32 * ?k" by presburger
  then have p: "(2 :: nat) ^ (8 * i) = 2 ^ ?s * 2 ^ (32 * ?k)" by (simp only: power_add)
  have "val limbs div 2 ^ (32 * ?k) < 2 ^ ?s"
    using Cons.prems(2) unfolding p by (intro less_mult_imp_div_less)
  then have "unat (limbs ! ?k) < 2 ^ ?s"
    unfolding val_nth [OF k, symmetric] by (rule le_less_trans [OF mod_less_eq_dividend])
  then have u: "unat ?l = unat (limbs ! ?k) + unat b * 2 ^ ?s" by (rule or_byte) (simp add: mod_less_divisor)
  have v: "val (limbs[?k := ?l]) = val limbs + unat b * 2 ^ (8 * i)"
    using val_update [OF k, of ?l] unfolding u p by (simp add: distrib_right)
  have "val (limbs[?k := ?l]) < 2 ^ (8 * Suc i)"
  proof -
    have "unat b \<le> 255" using unat_less_u8 [of b] by linarith
    then have "unat b * 2 ^ (8 * i) \<le> 255 * 2 ^ (8 * i)" by (rule mult_le_mono1)
    then have "val limbs + unat b * 2 ^ (8 * i) < 256 * 2 ^ (8 * i)" using Cons.prems(2) by linarith
    then show ?thesis unfolding v by (simp add: power_add)
  qed
  then have "\<exists>r. from_bytes_loop bs (Suc i) (limbs[?k := ?l]) = Some r \<and> length r = length limbs \<and>
      val r = val (limbs[?k := ?l]) + bytes_val bs * 2 ^ (8 * Suc i)"
    using Cons.IH [of "Suc i" "limbs[?k := ?l]"] Cons.prems(1) by simp
  then show ?case unfolding v using k by (simp add: algebra_simps power_add)
qed simp

lemma bignum_from_bytes_be_val:
  assumes "len \<le> length bytes" and "len \<le> 4 * BIGNUM_LIMBS"
  shows "\<exists>r. bignum_from_bytes_be bytes len = Some r \<and> length r = BIGNUM_LIMBS \<and> val r = os2ip (take len bytes)"
  using from_bytes_loop_val [of 0 "rev (take len bytes)" bignum_zero] assms
  by (simp add: bignum_from_bytes_be_def bignum_zero_def os2ip_def)

lemma bytes_val_digits: "bytes_val (map (\<lambda>i. of_nat (v div 256 ^ i mod 256)) [0..<len]) = v mod 256 ^ len"
proof (induction len arbitrary: v)
  case (Suc len)
  have "map (\<lambda>i. of_nat (v div 256 ^ i mod 256) :: u8) [0..<Suc len] =
      of_nat (v mod 256) # map (\<lambda>i. of_nat (v div 256 div 256 ^ i mod 256)) [0..<len]"
    by (simp add: upt_rec [of 0] map_Suc_upt [symmetric] div_mult2_eq del: upt_Suc)
  then show ?case using Suc.IH [of "v div 256"] by (simp add: mod_mult2_eq unat_of_nat del: upt_Suc)
qed simp

lemma limb_byte:
  assumes "s \<le> 24" and "unat (x :: u32) = v mod 2 ^ 32"
  shows "ucast (drop_bit s x AND 0xFF) = (of_nat (v div 2 ^ s mod 256) :: u8)"
proof -
  have m: "drop_bit s x AND 0xFF = take_bit 8 (drop_bit s x)" by (simp add: take_bit_eq_mask mask_eq_exp_minus_1)
  have "unat (take_bit 8 (drop_bit s x)) = take_bit 8 (drop_bit s (take_bit 32 v))"
    by (simp only: unsigned_take_bit_eq unsigned_drop_bit_eq)
      (simp add: assms(2) take_bit_eq_mod [of 32])
  also have "\<dots> = take_bit 8 (drop_bit s v)" using assms(1) by (auto intro!: bit_eqI simp: bit_simps)
  finally have u: "unat (take_bit 8 (drop_bit s x)) = v div 2 ^ s mod 256"
    by (simp add: take_bit_eq_mod drop_bit_eq_div)
  show ?thesis unfolding m
    by (rule unsigned_word_eqI [where ?'a = nat]) (simp only: unat_ucast_mod u, simp add: unat_of_nat)
qed

lemma bignum_to_bytes_be_val:
  assumes "len \<le> 4 * length n"
  shows "\<exists>bs. bignum_to_bytes_be n len = Some bs \<and> length bs = len \<and> os2ip bs = val n mod 256 ^ len"
proof -
  have "ucast (drop_bit (i mod 4 * 8) (n ! (i div 4)) AND 0xFF) = (of_nat (val n div 256 ^ i mod 256) :: u8)"
    if "i < len" for i
  proof -
    have k: "i div 4 < length n" using that assms by simp
    have "(256 :: nat) ^ i = 2 ^ (8 * i)" by (simp add: power_mult)
    also have "8 * i = 32 * (i div 4) + i mod 4 * 8" by presburger
    finally have "val n div 256 ^ i = val n div 2 ^ (32 * (i div 4)) div 2 ^ (i mod 4 * 8)"
      by (simp only: power_add div_mult2_eq)
    then show ?thesis using limb_byte [OF _ val_nth [OF k, symmetric], of "i mod 4 * 8"] by simp
  qed
  then have "bignum_to_bytes_be n len = Some (rev (map (\<lambda>i. of_nat (val n div 256 ^ i mod 256)) [0..<len]))"
    using assms by (simp add: bignum_to_bytes_be_def)
  then show ?thesis by (simp add: os2ip_def bytes_val_digits)
qed

section \<open>Modular exponentiation\<close>

lemma val_set_u32: "val (bignum_set_u32 v) = unat v" and length_set_u32 [simp]: "length (bignum_set_u32 v) = BIGNUM_LIMBS"
proof -
  have "bignum_set_u32 v = v # replicate 127 0"
    by (simp add: bignum_set_u32_def bignum_zero_def BIGNUM_LIMBS_def numeral_eq_Suc)
  then show "val (bignum_set_u32 v) = unat v" "length (bignum_set_u32 v) = BIGNUM_LIMBS"
    by (simp_all add: BIGNUM_LIMBS_def)
qed

lemma bignum_modexp_val:
  assumes l: "length b = BIGNUM_LIMBS" "length e = BIGNUM_LIMBS" "length md = BIGNUM_LIMBS"
    and m: "0 < val md" "0 < val e \<or> 1 < val md"
  shows "\<exists>r. bignum_modexp b e md = Some r \<and> length r = BIGNUM_LIMBS \<and> val r = val b ^ val e mod val md"
proof -
  have c: "bignum_copy b = b" using l by (simp add: bignum_copy_def)
  obtain i where i: "highest_bit_index e = Some (int i - 1)" "i \<le> 32 * length e" "val e < 2 ^ i" "0 < val e \<longrightarrow> 0 < i"
  proof (cases "val e = 0")
    case True
    then show thesis using that [of 0] highest_bit_index_eq [of e] by auto
  next
    case False
    then obtain k where "k < 32 * length e" "highest_bit_index e = Some (int k)" "val e < 2 ^ Suc k"
      using highest_bit_index_eq [of e] by auto
    then show thesis using that [of "Suc k"] by simp
  qed
  obtain r where r: "modexp_loop i (bignum_set_u32 1) b e md = Some r" "length r = length md"
      "val r mod val md = 1 ^ 2 ^ i * val b ^ (val e mod 2 ^ i) mod val md" "0 < i \<longrightarrow> val r < val md"
    using modexp_loop_val [OF i(2) m(1), of "bignum_set_u32 1" b] l(3) by (auto simp: val_set_u32)
  have "val r < val md"
  proof (cases "i = 0")
    case True
    then show ?thesis using r(1) m(2) i(3) by (auto simp: val_set_u32)
  qed (use r(4) in simp)
  then have "val r = val b ^ val e mod val md" using r(3) i(3) by simp
  moreover have "nat (int i - 1 + 1) = i" by simp
  ultimately show ?thesis using i(1) r(1,2) l(3) by (simp add: bignum_modexp_def c) (simp add: bignum_copy_def)
qed

lemma bytes_val_less: "bytes_val bs < 256 ^ length bs"
proof (induction bs)
  case (Cons b bs)
  have "unat b \<le> 255" using unat_less_u8 [of b] by linarith
  then show ?case using Cons.IH by simp
qed simp

text \<open>
  C16. The RSA primitive on byte strings is the arithmetic one: for any message, exponent and modulus of at
  most 512 bytes with a positive modulus, importing them big-endian, exponentiating limb by limb and
  exporting the result over the length of the modulus returns (no limb access is out of range and
  every loop ends) a string of that length that represents the message to the power of the exponent
  modulo the modulus.
\<close>

theorem rsa_primitive_correct:
  assumes "length m \<le> 512" and "length e \<le> 512" and "length n \<le> 512"
    and "0 < os2ip n" and "0 < os2ip e"
  shows "\<exists>b x md r c. bignum_from_bytes_be m (length m) = Some b \<and> bignum_from_bytes_be e (length e) = Some x \<and>
    bignum_from_bytes_be n (length n) = Some md \<and> bignum_modexp b x md = Some r \<and>
    bignum_to_bytes_be r (length n) = Some c \<and> length c = length n \<and> os2ip c = os2ip m ^ os2ip e mod os2ip n"
proof -
  obtain b where b: "bignum_from_bytes_be m (length m) = Some b" "length b = BIGNUM_LIMBS" "val b = os2ip m"
    using bignum_from_bytes_be_val [of "length m" m] assms(1) by (auto simp: BIGNUM_LIMBS_def)
  obtain x where x: "bignum_from_bytes_be e (length e) = Some x" "length x = BIGNUM_LIMBS" "val x = os2ip e"
    using bignum_from_bytes_be_val [of "length e" e] assms(2) by (auto simp: BIGNUM_LIMBS_def)
  obtain md where md: "bignum_from_bytes_be n (length n) = Some md" "length md = BIGNUM_LIMBS" "val md = os2ip n"
    using bignum_from_bytes_be_val [of "length n" n] assms(3) by (auto simp: BIGNUM_LIMBS_def)
  obtain r where r: "bignum_modexp b x md = Some r" "length r = BIGNUM_LIMBS" "val r = val b ^ val x mod val md"
    using bignum_modexp_val [OF b(2) x(2) md(2)] x(3) md(3) assms by auto
  obtain c where c: "bignum_to_bytes_be r (length n) = Some c" "length c = length n" "os2ip c = val r mod 256 ^ length n"
    using bignum_to_bytes_be_val [of "length n" r] r(2) assms(3) by (auto simp: BIGNUM_LIMBS_def)
  have "val r < os2ip n" using r(3) md(3) assms(4) by simp
  also have "\<dots> < 256 ^ length n" using bytes_val_less [of "rev n"] by (simp add: os2ip_def)
  finally have "os2ip c = os2ip m ^ os2ip e mod os2ip n" using c(3) r(3) b(3) x(3) md(3) by simp
  then show ?thesis using b(1) x(1) md(1) r(1) c(1,2) by blast
qed

theorem rsa_primitive_correct_witness:
  "\<exists>b x md r c. bignum_from_bytes_be [65] (length [65 :: u8]) = Some b \<and> bignum_from_bytes_be [17] (length [17 :: u8]) = Some x \<and>
    bignum_from_bytes_be [0x0C, 0xA1] (length [0x0C, 0xA1 :: u8]) = Some md \<and> bignum_modexp b x md = Some r \<and>
    bignum_to_bytes_be r (length [0x0C, 0xA1 :: u8]) = Some c \<and> length c = length [0x0C, 0xA1 :: u8] \<and> os2ip c = 2790"
proof -
  have v: "os2ip [65] = 65" "os2ip [17] = 17" "os2ip [0x0C, 0xA1] = 3233" by (simp_all add: os2ip_def)
  have "(65 :: nat) ^ 17 mod 3233 = 2790" by simp
  then show ?thesis using rsa_primitive_correct [of "[65]" "[17]" "[0x0C, 0xA1]"] unfolding v by simp
qed

end
