(* ===== verification/X509.thy ===== *)
theory X509
  imports Bignum
begin

text \<open>
  The DER reader that takes the RSA key out of a certificate
  (\<^verbatim>\<open>src/kernel/security/x509/x509.c\<close>). An offset and a length are of type \<^verbatim>\<open>int\<close> in the source and
  integers here; the length of a field is assembled by shifts in 32 bits and read with its sign. A
  result \<open>Some None\<close> is the value \<^verbatim>\<open>false\<close>; \<open>None\<close> is an access outside the bytes or a sum that
  overflows. The theory shows what the reader returns on an encoded field, that a successful read
  stays inside the given range, and that the key is found in every certificate.
\<close>

definition ASN1_TAG_INTEGER :: u8 where
  "ASN1_TAG_INTEGER = 0x02"

definition ASN1_TAG_BIT_STRING :: u8 where
  "ASN1_TAG_BIT_STRING = 0x03"

definition ASN1_TAG_SEQUENCE :: u8 where
  "ASN1_TAG_SEQUENCE = 0x30"

definition ASN1_TAG_CONTEXT0_CONSTRUCTED :: u8 where
  "ASN1_TAG_CONTEXT0_CONSTRUCTED = 0xA0"

definition der_byte :: "u8 list \<Rightarrow> int \<Rightarrow> u8 option" where
  "der_byte data pos = (if 0 \<le> pos \<and> nat pos < length data then Some (data ! nat pos) else None)"

text \<open>\<^verbatim>\<open>if (!f(...)) { return false; }\<close>, then the rest.\<close>

definition or_fail :: "'a option option \<Rightarrow> ('a \<Rightarrow> 'b option option) \<Rightarrow> 'b option option" where
  "or_fail m f = do { r \<leftarrow> m; case r of None \<Rightarrow> Some None | Some x \<Rightarrow> f x }"

definition int_add :: "int \<Rightarrow> int \<Rightarrow> int option" where
  "int_add a b = (if a + b < 2 ^ 31 then Some (a + b) else None)"

fun asn1_length_loop :: "nat \<Rightarrow> u8 list \<Rightarrow> int \<Rightarrow> int \<Rightarrow> u32 \<Rightarrow> (u32 \<times> int) option option" where
  "asn1_length_loop 0 data pos total_len len = Some (Some (len, pos))"
| "asn1_length_loop (Suc n) data pos total_len len =
     (if pos \<ge> total_len then Some None
      else do {
        b \<leftarrow> der_byte data pos;
        asn1_length_loop n data (pos + 1) total_len (push_bit 8 len OR ucast b)
      })"

type_synonym tlv = "u8 \<times> int \<times> int" \<comment> \<open>tag, length and offset of the value\<close>

definition asn1_read_tlv :: "u8 list \<Rightarrow> int \<Rightarrow> int \<Rightarrow> tlv option option" where
  "asn1_read_tlv data offset total_len =
     (if offset < 0 \<or> offset \<ge> total_len then Some None
      else do {
        tag \<leftarrow> der_byte data offset;
        let pos = offset + 1;
        if pos \<ge> total_len then Some None
        else do {
          first_len \<leftarrow> der_byte data pos;
          let pos = pos + 1;
          let num_len_bytes = unat (first_len AND 0x7F);
          or_fail
            (if first_len AND 0x80 = 0 then Some (Some (ucast first_len, pos))
             else if num_len_bytes = 0 \<or> num_len_bytes > 4 then Some None
             else asn1_length_loop num_len_bytes data pos total_len 0)
            (\<lambda>(len, pos).
              if sint len < 0 then Some None
              else do {
                stop \<leftarrow> int_add pos (sint len);
                if stop > total_len then Some None else Some (Some (tag, sint len, pos))
              })
        }
      })"

text \<open>The value of an INTEGER without its sign byte: the offset and the length.\<close>

definition integer_value :: "u8 list \<Rightarrow> int \<Rightarrow> int \<Rightarrow> (int \<times> int) option option" where
  "integer_value data offset total_len =
     or_fail (asn1_read_tlv data offset total_len) (\<lambda>(tag, len, value_offset).
       if tag \<noteq> ASN1_TAG_INTEGER then Some None
       else if len > 1
       then do { b \<leftarrow> der_byte data value_offset; Some (Some (if b = 0 then (value_offset + 1, len - 1) else (value_offset, len))) }
       else Some (Some (value_offset, len)))"

definition read_integer_bignum :: "u8 list \<Rightarrow> int \<Rightarrow> int \<Rightarrow> u32 list option option" where
  "read_integer_bignum data offset total_len =
     or_fail (integer_value data offset total_len) (\<lambda>(off, len).
       if len > int (BIGNUM_LIMBS * 4) then Some None
       else map_option Some (bignum_from_bytes_be (drop (nat off) data) (nat len)))"

fun integer_loop :: "nat \<Rightarrow> u8 list \<Rightarrow> int \<Rightarrow> u32 \<Rightarrow> u32 option" where
  "integer_loop 0 data pos value = Some value"
| "integer_loop (Suc n) data pos value = do {
     b \<leftarrow> der_byte data pos;
     integer_loop n data (pos + 1) (push_bit 8 value OR ucast b)
   }"

definition read_integer_u32 :: "u8 list \<Rightarrow> int \<Rightarrow> int \<Rightarrow> u32 option option" where
  "read_integer_u32 data offset total_len =
     or_fail (integer_value data offset total_len) (\<lambda>(off, len).
       if len \<le> 0 \<or> len > 4 then Some None else map_option Some (integer_loop (nat len) data off 0))"

text \<open>Skip fields one after the other and return the offset behind the last.\<close>

fun skip_fields :: "nat \<Rightarrow> u8 list \<Rightarrow> int \<Rightarrow> int \<Rightarrow> int option option" where
  "skip_fields 0 data cursor total_len = Some (Some cursor)"
| "skip_fields (Suc n) data cursor total_len =
     or_fail (asn1_read_tlv data cursor total_len) (\<lambda>(tag, len, value_offset). skip_fields n data (value_offset + len) total_len)"

text \<open>A field that must have a given tag: the offsets of its value and of its end.\<close>

definition enter :: "u8 \<Rightarrow> u8 list \<Rightarrow> int \<Rightarrow> int \<Rightarrow> (int \<times> int) option option" where
  "enter want data offset total_len =
     or_fail (asn1_read_tlv data offset total_len) (\<lambda>(tag, len, value_offset).
       if tag \<noteq> want then Some None else Some (Some (value_offset, value_offset + len)))"

definition x509_extract_rsa_pubkey :: "u8 list \<Rightarrow> int \<Rightarrow> (u32 list \<times> u32) option option" where
  "x509_extract_rsa_pubkey cert_der cert_len =
     or_fail (enter ASN1_TAG_SEQUENCE cert_der 0 cert_len) (\<lambda>(cert_value_offset, _).
     or_fail (enter ASN1_TAG_SEQUENCE cert_der cert_value_offset cert_len) (\<lambda>(tbs_offset, tbs_end).
     or_fail (asn1_read_tlv cert_der tbs_offset tbs_end) (\<lambda>(tag, len, value_offset).
     or_fail (if tag = ASN1_TAG_CONTEXT0_CONSTRUCTED then asn1_read_tlv cert_der (value_offset + len) tbs_end
              else Some (Some (tag, len, value_offset))) (\<lambda>(tag, len, value_offset).
     or_fail (skip_fields 4 cert_der (value_offset + len) tbs_end) (\<lambda>cursor.
     or_fail (enter ASN1_TAG_SEQUENCE cert_der cursor tbs_end) (\<lambda>(spki_offset, spki_end).
     or_fail (skip_fields 1 cert_der spki_offset spki_end) (\<lambda>after_algorithm.
     or_fail (enter ASN1_TAG_BIT_STRING cert_der after_algorithm spki_end) (\<lambda>(bits_offset, bits_end).
     if bits_end - bits_offset < 1 then Some None
     else
     or_fail (enter ASN1_TAG_SEQUENCE cert_der (bits_offset + 1) bits_end) (\<lambda>(rsa_seq_offset, rsa_seq_end).
     or_fail (read_integer_bignum cert_der rsa_seq_offset rsa_seq_end) (\<lambda>modulus.
     or_fail (skip_fields 1 cert_der rsa_seq_offset rsa_seq_end) (\<lambda>exponent_field_offset.
     or_fail (read_integer_u32 cert_der exponent_field_offset rsa_seq_end) (\<lambda>exponent.
     Some (Some (modulus, exponent))))))))))))))"

section \<open>Encoded fields\<close>

text \<open>The length octets of a definite form, also with leading zeros.\<close>

inductive der_len :: "nat \<Rightarrow> u8 list \<Rightarrow> bool" where
  short: "n < 128 \<Longrightarrow> der_len n [word_of_nat n]"
| long: "1 \<le> length bs \<Longrightarrow> length bs \<le> 4 \<Longrightarrow> os2ip bs = n \<Longrightarrow> n < 2 ^ 31 \<Longrightarrow> der_len n (word_of_nat (128 + length bs) # bs)"

definition der_field :: "u8 \<Rightarrow> u8 list \<Rightarrow> u8 list \<Rightarrow> bool" where
  "der_field tag body enc \<longleftrightarrow> (\<exists>l. der_len (length body) l \<and> enc = tag # l @ body)"

definition placed :: "u8 list \<Rightarrow> nat \<Rightarrow> u8 list \<Rightarrow> bool" where
  "placed data off enc \<longleftrightarrow> (\<exists>pre post. data = pre @ enc @ post \<and> length pre = off)"

lemma placed_append: "placed data off (a @ b) \<Longrightarrow> placed data off a \<and> placed data (off + length a) b"
  unfolding placed_def by (metis append.assoc length_append)

lemma placed_Cons: "placed data off (b # bs) \<Longrightarrow> der_byte data (int off) = Some b \<and> placed data (Suc off) bs"
proof -
  assume p: "placed data off (b # bs)"
  then obtain pre post where d: "data = pre @ (b # bs) @ post" "length pre = off" unfolding placed_def by blast
  then have "der_byte data (int off) = Some b" by (auto simp: der_byte_def)
  moreover have "placed data (Suc off) bs" using placed_append [of data off "[b]" bs] p by simp
  ultimately show ?thesis ..
qed

lemma bytes_val_append: "bytes_val (a @ b) = bytes_val a + 256 ^ length a * bytes_val b"
  by (induction a) (simp_all add: algebra_simps)

lemma os2ip_Cons: "os2ip (b # bs) = unat b * 256 ^ length bs + os2ip bs"
  by (simp add: os2ip_def bytes_val_append)

lemma shift_in: "unat (push_bit 8 acc OR ucast (b :: u8) :: u32) = (unat acc * 256 + unat b) mod 2 ^ 32"
proof -
  have "push_bit 8 acc OR ucast b = (push_bit 8 acc + ucast b :: u32)"
    by (rule disjunctive_add_eq_or [symmetric]) (auto intro!: bit_word_eqI simp: bit_and_iff bit_push_bit_iff bit_u8_u32)
  moreover have "unat (push_bit 8 acc) = unat acc * 256 mod 2 ^ 32"
    by (simp only: unsigned_push_bit_eq) (simp add: push_bit_eq_mult take_bit_eq_mod)
  ultimately show ?thesis by (simp add: unat_word_ariths mod_add_left_eq)
qed

lemma shift_in_step:
  "(unat (push_bit 8 acc OR ucast (b :: u8) :: u32) * 256 ^ length bs + os2ip bs) mod 2 ^ 32 =
    (unat acc * 256 ^ length (b # bs) + os2ip (b # bs)) mod 2 ^ 32"
proof -
  have "(((A * 256 + B) mod M) * P + Q) mod M = (A * (256 * P) + (B * P + Q)) mod M" for A B M P Q :: nat
    by (metis (no_types, lifting) add.assoc add_mult_distrib mod_add_left_eq mod_mult_left_eq mult.assoc)
  then show ?thesis unfolding shift_in os2ip_Cons by simp
qed

lemma asn1_length_loop_eq:
  "placed data p bs \<Longrightarrow> p + length bs \<le> t \<Longrightarrow>
    \<exists>l. asn1_length_loop (length bs) data (int p) (int t) acc = Some (Some (l, int (p + length bs))) \<and>
      unat l = (unat acc * 256 ^ length bs + os2ip bs) mod 2 ^ 32"
proof (induction bs arbitrary: p acc)
  case Nil
  have "unat acc mod 4294967296 = unat acc" by (rule mod_less) (rule unat_less_u32)
  then show ?case by (simp add: os2ip_def)
next
  case (Cons b bs)
  note b = placed_Cons [OF Cons.prems(1)]
  let ?a = "push_bit 8 acc OR ucast b :: u32"
  from Cons.IH [of "Suc p" ?a] b Cons.prems(2) obtain l where
    l: "asn1_length_loop (length bs) data (int (Suc p)) (int t) ?a = Some (Some (l, int (Suc p + length bs)))"
      "unat l = (unat ?a * 256 ^ length bs + os2ip bs) mod 2 ^ 32" by auto
  have "unat l = (unat acc * 256 ^ length (b # bs) + os2ip (b # bs)) mod 2 ^ 32"
    unfolding l(2) by (rule shift_in_step)
  then show ?case using l(1) b Cons.prems(2) by (simp add: add.commute)
qed

lemma sint_small: "unat (x :: u32) < 2 ^ 31 \<Longrightarrow> sint x = int (unat x)"
proof -
  assume "unat x < 2 ^ 31"
  then have "int (unat x) < int (2 ^ 31)" by (simp only: of_nat_less_iff)
  then have "uint x < 2 ^ 31" by simp
  moreover have "- (2 ^ 31) \<le> uint x" by (rule order_trans [OF _ uint_ge_0]) simp
  ultimately show ?thesis by (simp add: sint_uint signed_take_bit_int_eq_self)
qed

lemma short_form: "n < 128 \<Longrightarrow> (word_of_nat n :: u8) AND 0x80 = 0"
proof -
  assume "n < 128"
  then have "unat (word_of_nat n :: u8) div 2 ^ 7 = 0" by (simp add: unat_of_nat)
  then have "\<not> bit (unat (word_of_nat n :: u8)) 7" by (simp only: bit_iff_odd) simp
  then have "\<not> bit (word_of_nat n :: u8) 7" by (simp add: bit_unsigned_iff)
  then show ?thesis using and_exp_eq_0_iff_not_bit [of "word_of_nat n :: u8" 7] by simp
qed

lemma long_form:
  assumes "1 \<le> k" and "k \<le> 4"
  shows "(word_of_nat (128 + k) :: u8) AND 0x80 \<noteq> 0" and "unat ((word_of_nat (128 + k) :: u8) AND 0x7F) = k"
proof -
  have "k \<in> {1, 2, 3, 4}" using assms by auto
  then show "(word_of_nat (128 + k) :: u8) AND 0x80 \<noteq> 0" "unat ((word_of_nat (128 + k) :: u8) AND 0x7F) = k" by auto
qed

lemma asn1_read_tlv_field:
  assumes f: "der_field tag body enc" and p: "placed data off enc" and t: "off + length enc \<le> t" "t < 2 ^ 31"
  shows "asn1_read_tlv data (int off) (int t) = Some (Some (tag, int (length body), int (off + length enc - length body)))"
proof -
  obtain l where l: "der_len (length body) l" "enc = tag # l @ body" using f unfolding der_field_def by blast
  note c = placed_Cons [OF p [unfolded l(2)]]
  have rest: "placed data (Suc off) l" using placed_append [OF conjunct2 [OF c]] by blast
  from l(1) show ?thesis
  proof cases
    case short
    then have w: "unat (word_of_nat (length body) :: u8) = length body" by (simp add: unat_of_nat)
    let ?b = "word_of_nat (length body) :: u8"
    have bit7: "?b AND 0x80 = 0" by (rule short_form) (rule short(2))
    have u: "unat (ucast ?b :: u32) = length body" using w by simp
    then have s: "sint (ucast ?b :: u32) = int (length body)" using short by (subst sint_small) simp_all
    have "der_byte data (int off + 1) = Some ?b"
      using placed_Cons [OF rest [unfolded short(1)]] by (simp add: add.commute)
    then show ?thesis using c t bit7 s
      by (simp add: asn1_read_tlv_def l(2) short(1) or_fail_def int_add_def Let_def)
  next
    case (long bs)
    let ?w = "word_of_nat (128 + length bs) :: u8"
    note w = long_form [OF long(2,3)]
    note q = placed_Cons [OF rest [unfolded long(1)]]
    obtain v where v: "asn1_length_loop (length bs) data (int (Suc (Suc off))) (int t) 0 = Some (Some (v, int (Suc (Suc off) + length bs)))"
        "unat v = length body"
      using asn1_length_loop_eq [of data "Suc (Suc off)" bs t 0] q long t(1) by (auto simp: l(2))
    then have s: "sint v = int (length body)" using long(5) by (subst sint_small) simp_all
    have "int off + 1 + 1 = int (Suc (Suc off))" "der_byte data (int off + 1) = Some ?w"
      using q by (simp_all add: add.commute)
    moreover have "bs \<noteq> []" using long(2) by auto
    ultimately show ?thesis using c t w v(1) s long(2,3)
      by (simp add: asn1_read_tlv_def l(2) long(1) or_fail_def int_add_def Let_def)
  qed
qed

section \<open>Walking a certificate\<close>

definition is_field :: "u8 list \<Rightarrow> bool" where
  "is_field enc \<longleftrightarrow> (\<exists>tag body. der_field tag body enc)"

lemma der_field_inside:
  assumes "der_field tag body enc" and "placed data off enc"
  shows "placed data (off + length enc - length body) body" and "off + length enc - length body + length body = off + length enc"
proof -
  obtain l where l: "enc = tag # l @ body" using assms(1) unfolding der_field_def by blast
  then show "placed data (off + length enc - length body) body"
    using placed_append [of data off "tag # l" body] assms(2) by simp
  show "off + length enc - length body + length body = off + length enc" using l by simp
qed

lemma enter_field:
  assumes f: "der_field tag body enc" and p: "placed data off enc" and t: "off + length enc \<le> t" "t < 2 ^ 31"
  shows "\<exists>v. enter tag data (int off) (int t) = Some (Some (int v, int (v + length body))) \<and>
    placed data v body \<and> v + length body = off + length enc"
  using asn1_read_tlv_field [OF f p t] der_field_inside [OF f p]
  by (intro exI [of _ "off + length enc - length body"]) (simp add: enter_def or_fail_def)

lemma skip_fields_eq:
  "\<forall>f \<in> set fs. is_field f \<Longrightarrow> placed data off (concat fs) \<Longrightarrow> off + length (concat fs) \<le> t \<Longrightarrow> t < 2 ^ 31 \<Longrightarrow>
    skip_fields (length fs) data (int off) (int t) = Some (Some (int (off + length (concat fs))))"
proof (induction fs arbitrary: off)
  case (Cons f fs)
  obtain tag body where f: "der_field tag body f" using Cons.prems(1) by (auto simp: is_field_def)
  note p = placed_append [OF Cons.prems(2) [unfolded concat.simps]]
  have "off + length f \<le> t" using Cons.prems(3) by simp
  note r = asn1_read_tlv_field [OF f conjunct1 [OF p] this Cons.prems(4)] der_field_inside(2) [OF f conjunct1 [OF p]]
  have "int (off + length f - length body) + int (length body) = int (off + length f)" using r(2) by (simp flip: of_nat_add)
  then show ?case using Cons.IH [of "off + length f"] Cons.prems r(1) p by (simp add: or_fail_def add.assoc)
qed simp

lemma skip_one: "is_field f \<Longrightarrow> placed data off f \<Longrightarrow> off + length f \<le> t \<Longrightarrow> t < 2 ^ 31 \<Longrightarrow>
    skip_fields (Suc 0) data (int off) (int t) = Some (Some (int (off + length f)))"
  using skip_fields_eq [of "[f]" data off t] by simp

text \<open>The bytes of an INTEGER without the sign byte.\<close>

definition magnitude :: "u8 list \<Rightarrow> u8 list" where
  "magnitude n = (if 1 < length n \<and> hd n = 0 then tl n else n)"

lemma os2ip_magnitude: "os2ip (magnitude n) = os2ip n"
  by (cases n) (auto simp: magnitude_def os2ip_Cons)

lemma integer_value_field:
  assumes f: "der_field ASN1_TAG_INTEGER n enc" and p: "placed data off enc" and t: "off + length enc \<le> t" "t < 2 ^ 31"
  shows "\<exists>v. integer_value data (int off) (int t) = Some (Some (int v, int (length (magnitude n)))) \<and> placed data v (magnitude n)"
proof -
  let ?v = "off + length enc - length n"
  note r = asn1_read_tlv_field [OF f p t] and q = der_field_inside(1) [OF f p]
  show ?thesis
  proof (cases "1 < length n")
    case True
    then obtain b bs where n: "n = b # bs" by (cases n) auto
    note c = placed_Cons [OF q [unfolded n]]
    show ?thesis
    proof (cases "b = 0")
      case True
      then have "magnitude n = bs" using \<open>1 < length n\<close> by (simp add: magnitude_def n)
      then show ?thesis using r c True \<open>1 < length n\<close>
        by (intro exI [of _ "Suc ?v"]) (simp add: integer_value_def or_fail_def n add.commute)
    next
      case False
      then have "magnitude n = n" by (simp add: magnitude_def n)
      then show ?thesis using r c q False \<open>1 < length n\<close>
        by (intro exI [of _ ?v]) (simp add: integer_value_def or_fail_def n)
    qed
  next
    case False
    then have "magnitude n = n" by (simp add: magnitude_def)
    then show ?thesis using r q False by (intro exI [of _ ?v]) (simp add: integer_value_def or_fail_def)
  qed
qed

lemma read_integer_bignum_field:
  assumes f: "der_field ASN1_TAG_INTEGER n enc" and p: "placed data off enc" and t: "off + length enc \<le> t" "t < 2 ^ 31"
    and n: "length (magnitude n) \<le> 512"
  shows "\<exists>md. read_integer_bignum data (int off) (int t) = Some (Some md) \<and> length md = BIGNUM_LIMBS \<and> val md = os2ip n"
proof -
  obtain v where v: "integer_value data (int off) (int t) = Some (Some (int v, int (length (magnitude n))))" "placed data v (magnitude n)"
    using integer_value_field [OF f p t] by blast
  then have d: "take (length (magnitude n)) (drop v data) = magnitude n" "length (magnitude n) \<le> length (drop v data)"
    by (auto simp: placed_def)
  then obtain md where "bignum_from_bytes_be (drop v data) (length (magnitude n)) = Some md" "length md = BIGNUM_LIMBS"
      "val md = os2ip (magnitude n)"
    using bignum_from_bytes_be_val [OF d(2)] n by (auto simp: BIGNUM_LIMBS_def)
  then show ?thesis using v(1) n by (simp add: read_integer_bignum_def or_fail_def BIGNUM_LIMBS_def os2ip_magnitude)
qed

lemma integer_loop_eq:
  "placed data off bs \<Longrightarrow> \<exists>x. integer_loop (length bs) data (int off) acc = Some x \<and>
    unat x = (unat acc * 256 ^ length bs + os2ip bs) mod 2 ^ 32"
proof (induction bs arbitrary: off acc)
  case Nil
  have "unat acc mod 4294967296 = unat acc" by (rule mod_less) (rule unat_less_u32)
  then show ?case by (simp add: os2ip_def)
next
  case (Cons b bs)
  note b = placed_Cons [OF Cons.prems]
  let ?a = "push_bit 8 acc OR ucast b :: u32"
  from Cons.IH [of "Suc off" ?a] b obtain x where
    x: "integer_loop (length bs) data (int (Suc off)) ?a = Some x"
      "unat x = (unat ?a * 256 ^ length bs + os2ip bs) mod 2 ^ 32" by auto
  have "unat x = (unat acc * 256 ^ length (b # bs) + os2ip (b # bs)) mod 2 ^ 32"
    unfolding x(2) by (rule shift_in_step)
  then show ?case using b x(1) by (simp add: add.commute)
qed

lemma read_integer_u32_field:
  assumes f: "der_field ASN1_TAG_INTEGER n enc" and p: "placed data off enc" and t: "off + length enc \<le> t" "t < 2 ^ 31"
    and n: "n \<noteq> []" "length (magnitude n) \<le> 4"
  shows "\<exists>x. read_integer_u32 data (int off) (int t) = Some (Some x) \<and> unat x = os2ip n"
proof -
  obtain v where v: "integer_value data (int off) (int t) = Some (Some (int v, int (length (magnitude n))))" "placed data v (magnitude n)"
    using integer_value_field [OF f p t] by blast
  obtain x where x: "integer_loop (length (magnitude n)) data (int v) 0 = Some x" "unat x = os2ip (magnitude n) mod 2 ^ 32"
    using integer_loop_eq [OF v(2), of 0] by auto
  have "os2ip (magnitude n) < 256 ^ length (magnitude n)" using bytes_val_less [of "rev (magnitude n)"] by (simp add: os2ip_def)
  also have "\<dots> \<le> 256 ^ 4" using n(2) by (intro power_increasing) simp_all
  finally have "unat x = os2ip n" using x(2) by (simp add: os2ip_magnitude)
  moreover have "magnitude n \<noteq> []" using n(1) by (cases n) (auto simp: magnitude_def)
  ultimately show ?thesis using v(1) x(1) n(2) by (auto simp: read_integer_u32_def or_fail_def)
qed

text \<open>
  The certificates of RFC 5280 with an RSA key, with any contents of the other fields: an outer
  SEQUENCE of the part to be signed and the signature; an optional version, a serial number and four
  fields; the key information with its algorithm; a BIT STRING that holds a SEQUENCE of the modulus and
  the exponent.
\<close>

definition key_info :: "u8 list \<Rightarrow> u8 list \<Rightarrow> u8 list \<Rightarrow> bool" where
  "key_info n e spki \<longleftrightarrow> (\<exists>alg ni ei more unused key pad bits.
     is_field alg \<and> der_field 0x02 n ni \<and> der_field 0x02 e ei \<and> der_field 0x30 (ni @ ei @ more) key \<and>
     der_field 0x03 (unused # key @ pad) bits \<and> der_field 0x30 (alg @ bits) spki)"

definition certificate :: "u8 list \<Rightarrow> u8 list \<Rightarrow> u8 list \<Rightarrow> bool" where
  "certificate n e cert \<longleftrightarrow> (\<exists>version stag sbody serial fields spki extensions tbs signature.
     (version = [] \<or> (\<exists>v. der_field 0xA0 v version)) \<and> der_field stag sbody serial \<and> stag \<noteq> 0xA0 \<and>
     length fields = 4 \<and> (\<forall>f \<in> set fields. is_field f) \<and> key_info n e spki \<and>
     der_field 0x30 (version @ serial @ concat fields @ spki @ extensions) tbs \<and> der_field 0x30 (tbs @ signature) cert)"

lemma tags: "ASN1_TAG_INTEGER = 0x02" "ASN1_TAG_BIT_STRING = 0x03" "ASN1_TAG_SEQUENCE = 0x30" "ASN1_TAG_CONTEXT0_CONSTRUCTED = 0xA0"
  by (simp_all add: ASN1_TAG_INTEGER_def ASN1_TAG_BIT_STRING_def ASN1_TAG_SEQUENCE_def ASN1_TAG_CONTEXT0_CONSTRUCTED_def)

lemma or_fail_Some [simp]: "or_fail (Some (Some x)) f = f x"
  by (simp add: or_fail_def)

text \<open>The optional version and the serial number.\<close>

lemma serial_read:
  assumes v: "version = [] \<or> (\<exists>b. der_field 0xA0 b version)" and s: "der_field stag sbody serial" "stag \<noteq> 0xA0"
    and p: "placed data off (version @ serial)" and t: "off + length (version @ serial) \<le> t" "t < 2 ^ 31"
  shows "\<exists>vo. or_fail (asn1_read_tlv data (int off) (int t)) (\<lambda>(tag, len, value_offset).
      or_fail (if tag = ASN1_TAG_CONTEXT0_CONSTRUCTED then asn1_read_tlv data (value_offset + len) (int t)
        else Some (Some (tag, len, value_offset))) f) = f (stag, int (length sbody), int vo) \<and>
    vo + length sbody = off + length (version @ serial)"
proof -
  note q = placed_append [OF p]
  have r: "asn1_read_tlv data (int (off + length version)) (int t) =
      Some (Some (stag, int (length sbody), int (off + length version + length serial - length sbody)))"
    using asn1_read_tlv_field [OF s(1) conjunct2 [OF q]] t by simp
  note e = der_field_inside(2) [OF s(1) conjunct2 [OF q]]
  from v show ?thesis
  proof
    assume "version = []"
    then show ?thesis using r e s(2) by (intro exI [of _ "off + length version + length serial - length sbody"]) (simp add: tags)
  next
    assume "\<exists>b. der_field 0xA0 b version"
    then obtain b where b: "der_field 0xA0 b version" by blast
    have "int (off + length version - length b) + int (length b) = int (off + length version)"
      using der_field_inside(2) [OF b conjunct1 [OF q]] by (simp flip: of_nat_add)
    then show ?thesis using r e asn1_read_tlv_field [OF b conjunct1 [OF q]] t
      by (intro exI [of _ "off + length version + length serial - length sbody"]) (simp add: tags)
  qed
qed

lemma key_read:
  assumes k: "key_info n e spki" and p: "placed data off spki" and t: "off + length spki \<le> t" "t < 2 ^ 31"
    and n: "length (magnitude n) \<le> 512" and e: "e \<noteq> []" "length (magnitude e) \<le> 4"
  shows "\<exists>md x. or_fail (enter ASN1_TAG_SEQUENCE data (int off) (int t)) (\<lambda>(spki_offset, spki_end).
     or_fail (skip_fields 1 data spki_offset spki_end) (\<lambda>after_algorithm.
     or_fail (enter ASN1_TAG_BIT_STRING data after_algorithm spki_end) (\<lambda>(bits_offset, bits_end).
     if bits_end - bits_offset < 1 then Some None
     else
     or_fail (enter ASN1_TAG_SEQUENCE data (bits_offset + 1) bits_end) (\<lambda>(rsa_seq_offset, rsa_seq_end).
     or_fail (read_integer_bignum data rsa_seq_offset rsa_seq_end) (\<lambda>modulus.
     or_fail (skip_fields 1 data rsa_seq_offset rsa_seq_end) (\<lambda>exponent_field_offset.
     or_fail (read_integer_u32 data exponent_field_offset rsa_seq_end) (\<lambda>exponent.
     Some (Some (modulus, exponent))))))))) = Some (Some (md, x)) \<and>
    length md = BIGNUM_LIMBS \<and> val md = os2ip n \<and> unat x = os2ip e"
proof -
  obtain alg ni ei more unused key pad bits where
    f: "is_field alg" "der_field 0x02 n ni" "der_field 0x02 e ei" "der_field 0x30 (ni @ ei @ more) key"
      "der_field 0x03 (unused # key @ pad) bits" "der_field 0x30 (alg @ bits) spki"
    using k unfolding key_info_def by blast
  obtain s where s: "enter 0x30 data (int off) (int t) = Some (Some (int s, int (s + length (alg @ bits))))"
      "placed data s (alg @ bits)" "s + length (alg @ bits) = off + length spki"
    using enter_field [OF f(6) p t] by blast
  let ?se = "s + length (alg @ bits)"
  have se: "?se < 2 ^ 31" using s(3) t by linarith
  note a = placed_append [OF s(2)]
  have sk: "skip_fields (Suc 0) data (int s) (int ?se) = Some (Some (int (s + length alg)))"
    using skip_one [OF f(1) conjunct1 [OF a] _ se] by simp
  obtain b where b: "enter 0x03 data (int (s + length alg)) (int ?se) = Some (Some (int b, int (b + length (unused # key @ pad))))"
      "placed data b (unused # key @ pad)" "b + length (unused # key @ pad) = s + length alg + length bits"
    using enter_field [OF f(5) conjunct2 [OF a] _ se] by auto
  let ?be = "b + length (unused # key @ pad)"
  have be: "?be < 2 ^ 31" using b(3) se by simp
  have pk: "placed data (Suc b) key" using placed_append [of data "Suc b" key pad] placed_Cons [OF b(2)] by blast
  obtain r where r: "enter 0x30 data (int (Suc b)) (int ?be) = Some (Some (int r, int (r + length (ni @ ei @ more))))"
      "placed data r (ni @ ei @ more)" "r + length (ni @ ei @ more) = Suc b + length key"
    using enter_field [OF f(4) pk _ be] by auto
  let ?re = "r + length (ni @ ei @ more)"
  have re: "?re < 2 ^ 31" using r(3) be by simp
  have pn: "placed data r ni" and pe: "placed data (r + length ni) ei"
    using placed_append [OF r(2)] placed_append [of data "r + length ni" ei more] by blast+
  obtain md where md: "read_integer_bignum data (int r) (int ?re) = Some (Some md)" "length md = BIGNUM_LIMBS" "val md = os2ip n"
    using read_integer_bignum_field [OF f(2) [folded tags] pn _ re n] by auto
  have "is_field ni" using f(2) by (auto simp: is_field_def)
  then have sn: "skip_fields (Suc 0) data (int r) (int ?re) = Some (Some (int (r + length ni)))"
    using skip_one [OF _ pn _ re] by simp
  obtain x where x: "read_integer_u32 data (int (r + length ni)) (int ?re) = Some (Some x)" "unat x = os2ip e"
    using read_integer_u32_field [OF f(3) [folded tags] pe _ re e] by auto
  have "int b + 1 = int (Suc b)" and ne: "\<not> int ?be - int b < 1" by simp_all
  then have "enter 0x30 data (int b + 1) (int ?be) = Some (Some (int r, int ?re))" using r(1) by (simp only:)
  then show ?thesis using s(1) sk b(1) md x sn ne
    by (simp only: tags or_fail_Some prod.case One_nat_def if_False) blast
qed

text \<open>
  C18. The reader finds the key in every certificate with an RSA key, whatever the other fields are and
  however their lengths are encoded: it stays inside the bytes, no sum overflows, and the modulus and
  the exponent it returns are the numbers the certificate encodes, for a modulus of at most 512 bytes
  and an exponent of at most 4 (sign bytes apart).
\<close>

theorem x509_finds_key:
  assumes "certificate n e cert" and "length cert < 2 ^ 31"
    and "length (magnitude n) \<le> 512" and "e \<noteq> []" and "length (magnitude e) \<le> 4"
  shows "\<exists>md x. x509_extract_rsa_pubkey (cert @ trailing) (int (length cert)) = Some (Some (md, x)) \<and>
    length md = BIGNUM_LIMBS \<and> val md = os2ip n \<and> unat x = os2ip e"
proof -
  let ?d = "cert @ trailing" and ?t = "length cert"
  obtain version stag sbody serial fields spki extensions tbs signature where
    c: "version = [] \<or> (\<exists>v. der_field 0xA0 v version)" "der_field stag sbody serial" "stag \<noteq> 0xA0"
      "length fields = 4" "\<forall>f \<in> set fields. is_field f" "key_info n e spki"
      "der_field 0x30 (version @ serial @ concat fields @ spki @ extensions) tbs" "der_field 0x30 (tbs @ signature) cert"
    using assms(1) unfolding certificate_def by blast
  have "placed ?d 0 cert" by (auto simp: placed_def)
  then obtain o1 where o1: "enter 0x30 ?d 0 (int ?t) = Some (Some (int o1, int (o1 + length (tbs @ signature))))"
      "placed ?d o1 (tbs @ signature)" "o1 + length (tbs @ signature) = ?t"
    using enter_field [OF c(8) _ _ assms(2), of ?d 0] by auto
  note p1 = placed_append [OF o1(2)]
  let ?body = "version @ serial @ concat fields @ spki @ extensions"
  obtain o2 where o2: "enter 0x30 ?d (int o1) (int ?t) = Some (Some (int o2, int (o2 + length ?body)))"
      "placed ?d o2 ?body" "o2 + length ?body = o1 + length tbs"
    using enter_field [OF c(7) conjunct1 [OF p1] _ assms(2)] o1(3) by auto
  let ?e = "o2 + length ?body"
  have e: "?e < 2 ^ 31" using o2(3) o1(3) assms(2) by simp
  have p2: "placed ?d o2 (version @ serial)" "placed ?d (o2 + length (version @ serial)) (concat fields @ spki @ extensions)"
    using placed_append [of ?d o2 "version @ serial" "concat fields @ spki @ extensions"] o2(2) by simp_all
  note p3 = placed_append [OF p2(2)]
  let ?c = "o2 + length (version @ serial) + length (concat fields)"
  have p4: "placed ?d ?c spki" using placed_append [OF conjunct2 [OF p3]] by blast
  have sf: "skip_fields 4 ?d (int (o2 + length (version @ serial))) (int ?e) = Some (Some (int ?c))"
    using skip_fields_eq [OF c(5) conjunct1 [OF p3] _ e] c(4) by simp
  let ?K = "\<lambda>cursor. or_fail (enter ASN1_TAG_SEQUENCE ?d cursor (int ?e)) (\<lambda>(spki_offset, spki_end).
     or_fail (skip_fields 1 ?d spki_offset spki_end) (\<lambda>after_algorithm.
     or_fail (enter ASN1_TAG_BIT_STRING ?d after_algorithm spki_end) (\<lambda>(bits_offset, bits_end).
     if bits_end - bits_offset < 1 then Some None
     else
     or_fail (enter ASN1_TAG_SEQUENCE ?d (bits_offset + 1) bits_end) (\<lambda>(rsa_seq_offset, rsa_seq_end).
     or_fail (read_integer_bignum ?d rsa_seq_offset rsa_seq_end) (\<lambda>modulus.
     or_fail (skip_fields 1 ?d rsa_seq_offset rsa_seq_end) (\<lambda>exponent_field_offset.
     or_fail (read_integer_u32 ?d exponent_field_offset rsa_seq_end) (\<lambda>exponent.
     Some (Some (modulus, exponent)))))))))"
  from key_read [OF c(6) p4 _ e assms(3-5)] obtain md x where
    k: "?K (int ?c) = Some (Some (md, x))" "length md = BIGNUM_LIMBS" "val md = os2ip n" "unat x = os2ip e"
    by auto
  let ?F = "\<lambda>(tag :: u8, len, value_offset). or_fail (skip_fields 4 ?d (value_offset + len) (int ?e)) ?K"
  obtain vo where vo: "or_fail (asn1_read_tlv ?d (int o2) (int ?e)) (\<lambda>(tag, len, value_offset).
      or_fail (if tag = ASN1_TAG_CONTEXT0_CONSTRUCTED then asn1_read_tlv ?d (value_offset + len) (int ?e)
        else Some (Some (tag, len, value_offset))) ?F) = ?F (stag, int (length sbody), int vo)"
      "vo + length sbody = o2 + length (version @ serial)"
    using serial_read [OF c(1-3) p2(1) _ e, of ?F] by auto
  have "int vo + int (length sbody) = int (o2 + length (version @ serial))" using vo(2) by (simp flip: of_nat_add)
  then have "?F (stag, int (length sbody), int vo) = Some (Some (md, x))" using sf k(1) by (simp only: prod.case or_fail_Some)
  then have "x509_extract_rsa_pubkey ?d (int ?t) = Some (Some (md, x))"
    unfolding x509_extract_rsa_pubkey_def using o1(1) o2(1) vo(1) by (simp only: tags(3) or_fail_Some prod.case)
  then show ?thesis using k(2-4) by blast
qed

lemma short_field: "length body < 128 \<Longrightarrow> enc = tag # word_of_nat (length body) # body \<Longrightarrow> der_field tag body enc"
  by (auto simp: der_field_def intro: der_len.short)

definition sample_spki :: "u8 list" where
  "sample_spki = [0x30, 15, 0x30, 0, 3, 11, 0, 0x30, 8, 2, 3, 0, 0xA1, 0x0C, 2, 1, 17]"

definition sample_cert :: "u8 list" where
  "sample_cert = [0x30, 30, 0x30, 28, 2, 1, 1, 0x30, 0, 0x30, 0, 0x30, 0, 0x30, 0] @ sample_spki"

lemma sample_spki: "key_info [0, 0xA1, 0x0C] [17] sample_spki"
  unfolding key_info_def
proof (intro exI conjI)
  show "is_field [0x30, 0]" unfolding is_field_def by (intro exI, rule short_field [of "[]"]) simp_all
  show "der_field 0x02 [0, 0xA1, 0x0C] [2, 3, 0, 0xA1, 0x0C]" "der_field 0x02 [17] [2, 1, 17]" by (rule short_field; simp)+
  show "der_field 0x30 ([2, 3, 0, 0xA1, 0x0C] @ [2, 1, 17] @ []) [0x30, 8, 2, 3, 0, 0xA1, 0x0C, 2, 1, 17]"
    "der_field 0x03 (0 # [0x30, 8, 2, 3, 0, 0xA1, 0x0C, 2, 1, 17] @ []) [3, 11, 0, 0x30, 8, 2, 3, 0, 0xA1, 0x0C, 2, 1, 17]"
    "der_field 0x30 ([0x30, 0] @ [3, 11, 0, 0x30, 8, 2, 3, 0, 0xA1, 0x0C, 2, 1, 17]) sample_spki"
    by (rule short_field; simp add: sample_spki_def)+
qed

lemma sample_cert: "certificate [0, 0xA1, 0x0C] [17] sample_cert"
  unfolding certificate_def
proof (intro exI conjI)
  show "([] :: u8 list) = [] \<or> (\<exists>v. der_field 0xA0 v [])" by simp
  show "der_field 2 [1] [2, 1, 1]" by (rule short_field) simp_all
  show "(2 :: u8) \<noteq> 0xA0" "length (replicate 4 [0x30, 0 :: u8]) = 4" by simp_all
  show "\<forall>f \<in> set (replicate 4 [0x30, 0]). is_field f"
    by (simp add: is_field_def, intro exI, rule short_field [of "[]"]) simp_all
  show "key_info [0, 0xA1, 0x0C] [17] sample_spki" by (rule sample_spki)
  show "der_field 0x30 ([] @ [2, 1, 1] @ concat (replicate 4 [0x30, 0]) @ sample_spki @ [])
      ([0x30, 28, 2, 1, 1, 0x30, 0, 0x30, 0, 0x30, 0, 0x30, 0] @ sample_spki)"
    "der_field 0x30 (([0x30, 28, 2, 1, 1, 0x30, 0, 0x30, 0, 0x30, 0, 0x30, 0] @ sample_spki) @ []) sample_cert"
    by (rule short_field; simp add: sample_spki_def sample_cert_def numeral_eq_Suc)+
qed

theorem x509_finds_key_witness:
  "\<exists>md x. x509_extract_rsa_pubkey (sample_cert @ [1, 2, 3]) (int (length sample_cert)) = Some (Some (md, x)) \<and>
    length md = BIGNUM_LIMBS \<and> val md = os2ip [0, 0xA1, 0x0C] \<and> unat x = os2ip [17]"
  by (rule x509_finds_key [OF sample_cert]) (simp_all add: sample_cert_def sample_spki_def magnitude_def)

section \<open>The range of a read\<close>

lemma asn1_length_loop_pos: "asn1_length_loop n data pos t acc = Some (Some (l, p)) \<Longrightarrow> p = pos + int n"
  by (induction n arbitrary: pos acc) (fastforce split: if_splits bind_splits)+

text \<open>A field that is read lies inside the range that the caller gave.\<close>

lemma asn1_read_tlv_range:
  assumes "asn1_read_tlv data offset total_len = Some (Some (tag, len, v))"
  shows "0 \<le> offset" and "offset + 2 \<le> v" and "0 \<le> len" and "v + len \<le> total_len"
proof -
  have "0 \<le> offset \<and> offset + 2 \<le> v \<and> 0 \<le> len \<and> v + len \<le> total_len"
    using assms
    by (auto simp: asn1_read_tlv_def or_fail_def int_add_def Let_def split: if_splits option.splits bind_splits
        dest!: asn1_length_loop_pos)
  then show "0 \<le> offset" "offset + 2 \<le> v" "0 \<le> len" "v + len \<le> total_len" by simp_all
qed

text \<open>The sum of position and length overflows for a length close to the largest \<^verbatim>\<open>int\<close>.\<close>

lemma asn1_read_tlv_overflow: "asn1_read_tlv [0x30, 0x84, 0x7F, 0xFF, 0xFF, 0xFF] 0 6 = None"
  by code_simp

end
