(* ===== verification/Net.thy ===== *)
theory Net
  imports Prelude "HOL-Library.Monad_Syntax"
begin

text \<open>
  The link and internet layers: the choice of the network card
  (\<^verbatim>\<open>src/kernel/net/netdev/netdev.c\<close>), the IPv4 header and its checksum (\<^verbatim>\<open>ip/ip.c\<close>), the DHCP client
  (\<^verbatim>\<open>dhcp/dhcp.c\<close>) and the ARP resolver (\<^verbatim>\<open>arp/arp.c\<close>).

  The cards are the environment: poll number \<open>i\<close> of a card finds the frame \<open>l_polls i\<close> (no frame is the
  empty list) at the tick given with it, and transmission number \<open>i\<close> succeeds or not as \<open>l_send_ok i\<close>
  says. The clock \<open>n_now\<close> is \<^verbatim>\<open>g_tick_count\<close>; it is read after each poll. A polling loop that never
  ends, like an access outside a buffer, is \<open>None\<close>. The bytes that an uninitialised buffer holds are
  those of \<open>n_stack\<close>.
\<close>

record link =
  l_polls :: "nat \<Rightarrow> u64 \<times> u8 list"
  l_next :: nat
  l_sent :: "u8 list list" \<comment> \<open>in the order of transmission\<close>
  l_send_ok :: "nat \<Rightarrow> bool"
  l_mac :: "u8 list"

record arp_entry =
  ae_used :: bool
  ae_ip :: "u8 list"
  ae_mac :: "u8 list"

record tcp_connection =
  tc_used :: bool
  tc_local_port :: u16
  tc_remote_ip :: "u8 list"
  tc_remote_port :: u16
  tc_remote_mac :: "u8 list"
  tc_my_seq :: u32
  tc_peer_seq :: u32

record tcp_listener =
  tl_used :: bool
  tl_port :: u16

record net =
  n_now :: u64
  n_wifi_connected :: bool \<comment> \<open>\<^verbatim>\<open>g_wifi_state == WIFI_STATE_CONNECTED\<close>\<close>
  n_wifi :: link
  n_eth :: link
  n_eth_init :: bool \<comment> \<open>what \<^verbatim>\<open>e1000_init\<close> and \<^verbatim>\<open>e1000_init_rings\<close> return\<close>
  n_eth_rings :: bool
  n_stack :: "nat \<Rightarrow> u8"
  n_my_ip :: "u8 list"
  n_gateway_ip :: "u8 list"
  n_dns_ip :: "u8 list"
  n_subnet :: "u8 list"
  n_ip_configured :: bool
  n_arp_cache :: "arp_entry list"
  n_arp_count :: u32
  n_nic_ready :: bool
  n_conns :: "tcp_connection list"
  n_listeners :: "tcp_listener list"
  n_drop :: u32 \<comment> \<open>\<^verbatim>\<open>g_tcp_debug_drop_count\<close>\<close>

definition stack_buf :: "nat \<Rightarrow> net \<Rightarrow> u8 list" where
  "stack_buf k n = map (n_stack n) [0..<k]"

section \<open>The choice of the card\<close>

definition link_send :: "u8 list \<Rightarrow> link \<Rightarrow> bool \<times> link" where
  "link_send frame l = (l_send_ok l (length (l_sent l)), l\<lparr>l_sent := l_sent l @ [frame]\<rparr>)"

definition netdev_send :: "u8 list \<Rightarrow> nat \<Rightarrow> net \<Rightarrow> (bool \<times> net) option" where
  "netdev_send frame len n =
     (if len > length frame then None
      else if n_wifi_connected n
      then let (ok, l) = link_send (take len frame) (n_wifi n) in Some (ok, n\<lparr>n_wifi := l\<rparr>)
      else let (ok, l) = link_send (take len frame) (n_eth n) in Some (ok, n\<lparr>n_eth := l\<rparr>))"

text \<open>
  The Ethernet driver copies as much of a frame as the buffer holds and returns the length of the
  frame; the wireless driver returns the length it has copied.
\<close>

definition e1000_receive :: "u8 list \<Rightarrow> u16 \<Rightarrow> net \<Rightarrow> (u16 \<times> u8 list \<times> net) option" where
  "e1000_receive buf max_len n =
     (let l = n_eth n; (t, frame) = l_polls l (l_next l); copied = take (unat max_len) frame
      in if length copied > length buf then None
         else Some (word_of_nat (length frame), put_bytes 0 copied buf, n\<lparr>n_now := t, n_eth := l\<lparr>l_next := Suc (l_next l)\<rparr>\<rparr>))"

definition wifi_manager_receive_eth :: "u8 list \<Rightarrow> u16 \<Rightarrow> net \<Rightarrow> (u16 \<times> u8 list \<times> net) option" where
  "wifi_manager_receive_eth buf max_len n =
     (let l = n_wifi n; (t, frame) = l_polls l (l_next l); copied = take (unat max_len) frame
      in if length copied > length buf then None
         else Some (word_of_nat (length copied), put_bytes 0 copied buf, n\<lparr>n_now := t, n_wifi := l\<lparr>l_next := Suc (l_next l)\<rparr>\<rparr>))"

definition netdev_receive :: "u8 list \<Rightarrow> u16 \<Rightarrow> net \<Rightarrow> (u16 \<times> u8 list \<times> net) option" where
  "netdev_receive buf max_len n =
     (if n_wifi_connected n then wifi_manager_receive_eth buf max_len n else e1000_receive buf max_len n)"

definition netdev_get_mac :: "net \<Rightarrow> u8 list" where
  "netdev_get_mac n = (if n_wifi_connected n then l_mac (n_wifi n) else l_mac (n_eth n))"

text \<open>
  \<^verbatim>\<open>while (g_tick_count - start_tick < timeout) { len = netdev_receive(buf, max_len); ... }\<close>: the shape of
  every wait in the stack. The body inspects the buffer after each frame, returns a result or goes on;
  \<open>s\<close> is what it writes to besides.
\<close>

partial_function (option) poll_loop ::
  "u64 \<Rightarrow> u64 \<Rightarrow> u16 \<Rightarrow> (u16 \<Rightarrow> u8 list \<Rightarrow> 's \<Rightarrow> net \<Rightarrow> ('a option \<times> 's \<times> net) option) \<Rightarrow> u8 list \<Rightarrow> 's \<Rightarrow> net \<Rightarrow>
    ('a option \<times> u8 list \<times> 's \<times> net) option"
where
  "poll_loop start timeout max_len body buf s n =
     (if n_now n - start < timeout
      then do {
        (len, buf, n) \<leftarrow> netdev_receive buf max_len n;
        (r, s, n) \<leftarrow> (if len = 0 then Some (None, s, n) else body len buf s n);
        (case r of None \<Rightarrow> poll_loop start timeout max_len body buf s n | Some x \<Rightarrow> Some (Some x, buf, s, n))
      }
      else Some (None, buf, s, n))"

declare poll_loop.simps [code]

section \<open>IPv4 headers\<close>

definition be16 :: "u8 \<Rightarrow> u8 \<Rightarrow> u16" where
  "be16 a b = push_bit 8 (ucast a) OR ucast b"

definition u16_bytes :: "u16 \<Rightarrow> u8 list" where
  "u16_bytes w = [ucast (drop_bit 8 w), ucast (w AND 0xFF)]"

definition be32 :: "u8 \<Rightarrow> u8 \<Rightarrow> u8 \<Rightarrow> u8 \<Rightarrow> u32" where
  "be32 a b c d = push_bit 24 (ucast a) OR push_bit 16 (ucast b) OR push_bit 8 (ucast c) OR ucast d"

definition u32_bytes :: "u32 \<Rightarrow> u8 list" where
  "u32_bytes w = [ucast (drop_bit 24 w), ucast (drop_bit 16 w), ucast (drop_bit 8 w), ucast (w AND 0xFF)]"

fun sum_words :: "u32 \<Rightarrow> u8 list \<Rightarrow> u32" where
  "sum_words sm [] = sm"
| "sum_words sm [a] = sm + push_bit 8 (ucast a)"
| "sum_words sm (a # b # bs) = sum_words (sm + (push_bit 8 (ucast a) OR ucast b)) bs"

lemma carry_halves: "unat (drop_bit 16 (s :: u32)) = unat s div 65536" "unat (s AND 0xFFFF) = unat s mod 65536"
proof -
  have "s AND 0xFFFF = take_bit 16 s" by (simp add: take_bit_eq_mask mask_eq_exp_minus_1)
  then show "unat (s AND 0xFFFF) = unat s mod 65536" by (simp only: unsigned_take_bit_eq) (simp add: take_bit_eq_mod)
  show "unat (drop_bit 16 s) = unat s div 65536"
    by (simp only: unsigned_drop_bit_eq) (simp add: drop_bit_eq_div take_bit_nat_eq_self)
qed

lemma carry_sum: "unat ((s AND 0xFFFF) + drop_bit 16 (s :: u32)) = unat (s AND 0xFFFF) + unat (drop_bit 16 s)"
proof -
  have "unat s div 65536 < 65536" using unat_less_u32 [of s] by (intro less_mult_imp_div_less) linarith
  moreover have "unat s mod 65536 < 65536" by simp
  ultimately have "unat (s AND 0xFFFF) + unat (drop_bit 16 s) < 2 ^ 32" unfolding carry_halves by simp
  then show ?thesis by (simp add: unat_word_ariths)
qed

function fold_carry :: "u32 \<Rightarrow> u32" where
  "fold_carry sm = (if drop_bit 16 sm \<noteq> 0 then fold_carry ((sm AND 0xFFFF) + drop_bit 16 sm) else sm)"
  by auto
termination
proof (relation "measure unat")
  fix sm :: u32
  assume "drop_bit 16 sm \<noteq> 0"
  then have "unat (drop_bit 16 sm) \<noteq> 0" by (simp add: unsigned_eq_0_iff)
  moreover have "unat sm = 65536 * unat (drop_bit 16 sm) + unat (sm AND 0xFFFF)"
    unfolding carry_halves by simp
  ultimately show "((sm AND 0xFFFF) + drop_bit 16 sm, sm) \<in> measure unat" by (simp add: carry_sum)
qed simp

declare fold_carry.simps [simp del]

definition ip_checksum :: "u8 list \<Rightarrow> u32 \<Rightarrow> u16 option" where
  "ip_checksum data len =
     (if unat len \<le> length data then Some (ucast (NOT (fold_carry (sum_words 0 (take (unat len) data))) AND 0xFFFF)) else None)"

definition ip_build_header :: "u8 list \<Rightarrow> u8 list \<Rightarrow> u8 \<Rightarrow> u16 \<Rightarrow> u8 list option" where
  "ip_build_header src_ip dst_ip protocol payload_len = do {
     let total_len = 20 + payload_len;
     let out = [0x45, 0] @ u16_bytes total_len @ [0, 0, 0x40, 0, 64, protocol, 0, 0] @ take 4 src_ip @ take 4 dst_ip;
     csum \<leftarrow> ip_checksum out 20;
     Some (put_bytes 10 (u16_bytes csum) out)
   }"

definition put_in :: "nat \<Rightarrow> u8 list \<Rightarrow> u8 list \<Rightarrow> u8 list option" where
  "put_in off bs buf = (if off + length bs \<le> length buf then Some (put_bytes off bs buf) else None)"

definition byte_of :: "u8 list \<Rightarrow> nat \<Rightarrow> u8 option" where
  "byte_of buf i = (if i < length buf then Some (buf ! i) else None)"

definition bytes_of :: "u8 list \<Rightarrow> nat \<Rightarrow> nat \<Rightarrow> u8 list option" where
  "bytes_of buf off k = (if off + k \<le> length buf then Some (get_bytes off k buf) else None)"

definition ip_init :: "net \<Rightarrow> net" where
  "ip_init n = n\<lparr>n_my_ip := [10, 0, 2, 15], n_gateway_ip := [10, 0, 2, 2], n_dns_ip := [10, 0, 2, 3], n_subnet := [255, 255, 255, 0]\<rparr>"

definition arp_init :: "net \<Rightarrow> bool \<times> net" where
  "arp_init n =
     (if n_nic_ready n then (True, n)
      else if \<not> n_eth_init n then (False, n)
      else if \<not> n_eth_rings n then (False, n)
      else (True, n\<lparr>n_nic_ready := True\<rparr>))"

section \<open>DHCP\<close>

record dhcp_reply_info =
  dr_yiaddr :: "u8 list"
  dr_subnet_mask :: "u8 list"
  dr_router :: "u8 list"
  dr_dns_server :: "u8 list"
  dr_server_id :: "u8 list"
  dr_has_subnet_mask :: bool
  dr_has_router :: bool
  dr_has_dns :: bool
  dr_has_server_id :: bool

definition stack_info :: "net \<Rightarrow> dhcp_reply_info" where
  "stack_info n =
     \<lparr>dr_yiaddr = stack_buf 4 n, dr_subnet_mask = stack_buf 4 n, dr_router = stack_buf 4 n, dr_dns_server = stack_buf 4 n,
      dr_server_id = stack_buf 4 n, dr_has_subnet_mask = False, dr_has_router = False, dr_has_dns = False, dr_has_server_id = False\<rparr>"

definition dhcp_build_fixed_header :: "u8 list \<Rightarrow> u32 \<Rightarrow> u8 list \<Rightarrow> u8 list option" where
  "dhcp_build_fixed_header out xid client_mac =
     put_in 0 ([1, 1, 6, 0] @ u32_bytes xid @ [0, 0, 0x80, 0] @ replicate 16 0 @ take 6 client_mac @ replicate 202 0 @
       [0x63, 0x82, 0x53, 0x63]) out"

definition dhcp_send :: "u32 \<Rightarrow> u8 list \<Rightarrow> u8 \<Rightarrow> u8 list \<Rightarrow> u8 list \<Rightarrow> net \<Rightarrow> (bool \<times> net) option" where
  "dhcp_send xid client_mac msg_type requested_ip server_id n = do {
     frame \<leftarrow> put_in 0 (replicate 6 0xFF @ take 6 client_mac @ [0x08, 0x00]) (stack_buf 300 n);
     dhcp_payload \<leftarrow> dhcp_build_fixed_header (stack_buf 260 n) xid client_mac;
     let opt = 240;
     dhcp_payload \<leftarrow> put_in opt [53, 1, msg_type] dhcp_payload;
     let opt = opt + 3;
     (dhcp_payload, opt) \<leftarrow>
       (if msg_type = 3
        then do {
          dhcp_payload \<leftarrow> put_in opt ([50, 4] @ take 4 requested_ip) dhcp_payload;
          let opt = opt + 6;
          dhcp_payload \<leftarrow> put_in opt ([54, 4] @ take 4 server_id) dhcp_payload;
          Some (dhcp_payload, opt + 6)
        }
        else Some (dhcp_payload, opt));
     dhcp_payload \<leftarrow> put_in opt [55, 3, 1, 3, 6] dhcp_payload;
     let opt = opt + 5;
     dhcp_payload \<leftarrow> put_in opt [255] dhcp_payload;
     let opt = opt + 1;
     let dhcp_len = (word_of_nat opt :: u16);
     header \<leftarrow> ip_build_header [0, 0, 0, 0] [255, 255, 255, 255] 17 (8 + dhcp_len);
     frame \<leftarrow> put_in 14 header frame;
     frame \<leftarrow> put_in 34 (u16_bytes 68 @ u16_bytes 67 @ u16_bytes (8 + dhcp_len) @ [0, 0]) frame;
     frame \<leftarrow> put_in 42 (take (unat dhcp_len) dhcp_payload) frame;
     netdev_send frame (unat (42 + dhcp_len)) n
   }"

text \<open>The walk over the options; \<open>o\<close> stays below the length of a frame, so the counter is a natural number.\<close>

function dhcp_options :: "u8 list \<Rightarrow> nat \<Rightarrow> nat \<Rightarrow> u8 \<Rightarrow> dhcp_reply_info \<Rightarrow> (u8 \<times> dhcp_reply_info) option" where
  "dhcp_options dhcp max_o p msg_type info =
     (if p < max_o
      then do {
        opt_type \<leftarrow> byte_of dhcp p;
        if opt_type = 255 then Some (msg_type, info)
        else if opt_type = 0 then dhcp_options dhcp max_o (p + 1) msg_type info
        else do {
          opt_len \<leftarrow> byte_of dhcp (p + 1);
          (msg_type, info) \<leftarrow>
            (if opt_type = 53 then do { m \<leftarrow> byte_of dhcp (p + 2); Some (m, info) }
             else if opt_type = 1 \<and> opt_len = 4
             then do { v \<leftarrow> bytes_of dhcp (p + 2) 4; Some (msg_type, info\<lparr>dr_subnet_mask := v, dr_has_subnet_mask := True\<rparr>) }
             else if opt_type = 3 \<and> opt_len \<ge> 4
             then do { v \<leftarrow> bytes_of dhcp (p + 2) 4; Some (msg_type, info\<lparr>dr_router := v, dr_has_router := True\<rparr>) }
             else if opt_type = 6 \<and> opt_len \<ge> 4
             then do { v \<leftarrow> bytes_of dhcp (p + 2) 4; Some (msg_type, info\<lparr>dr_dns_server := v, dr_has_dns := True\<rparr>) }
             else if opt_type = 54 \<and> opt_len = 4
             then do { v \<leftarrow> bytes_of dhcp (p + 2) 4; Some (msg_type, info\<lparr>dr_server_id := v, dr_has_server_id := True\<rparr>) }
             else Some (msg_type, info));
          dhcp_options dhcp max_o (p + 2 + unat opt_len) msg_type info
        }
      }
      else Some (msg_type, info))"
  by auto
termination
  by (relation "measure (\<lambda>(_, max_o, p, _). max_o - p)") auto

declare dhcp_options.simps [simp del]

text \<open>One frame of the wait: \<open>None\<close> in the first component goes on waiting.\<close>

definition dhcp_check ::
  "u32 \<Rightarrow> u8 \<Rightarrow> u16 \<Rightarrow> u8 list \<Rightarrow> dhcp_reply_info \<Rightarrow> net \<Rightarrow> (unit option \<times> dhcp_reply_info \<times> net) option" where
  "dhcp_check xid expected_msg_type len buf info n = do {
     is_ip \<leftarrow> bytes_of buf 12 2;
     proto \<leftarrow> byte_of buf 23;
     dst_port \<leftarrow> bytes_of buf 36 2;
     let dhcp = drop 42 buf;
     if is_ip \<noteq> [0x08, 0x00] \<or> proto \<noteq> 17 \<or> dst_port \<noteq> u16_bytes 68 \<or> unat len < 42 + 240 then Some (None, info, n)
     else do {
       op \<leftarrow> byte_of dhcp 0;
       magic \<leftarrow> bytes_of dhcp 236 4;
       reply_xid \<leftarrow> bytes_of dhcp 4 4;
       if op \<noteq> 2 \<or> magic \<noteq> [0x63, 0x82, 0x53, 0x63] \<or> reply_xid \<noteq> u32_bytes xid then Some (None, info, n)
       else do {
         let info = info\<lparr>dr_has_subnet_mask := False, dr_has_router := False, dr_has_dns := False, dr_has_server_id := False\<rparr>;
         (msg_type, info) \<leftarrow> dhcp_options dhcp (unat len - 42) 240 0 info;
         if msg_type \<noteq> expected_msg_type then Some (None, info, n)
         else do { yiaddr \<leftarrow> bytes_of dhcp 16 4; Some (Some (), info\<lparr>dr_yiaddr := yiaddr\<rparr>, n) }
       }
     }
   }"

definition dhcp_wait_reply :: "u32 \<Rightarrow> u8 \<Rightarrow> u64 \<Rightarrow> dhcp_reply_info \<Rightarrow> net \<Rightarrow> (bool \<times> dhcp_reply_info \<times> net) option" where
  "dhcp_wait_reply xid expected_msg_type timeout_ticks info n = do {
     (r, _, info, n) \<leftarrow> poll_loop (n_now n) timeout_ticks 600 (dhcp_check xid expected_msg_type) (stack_buf 600 n) info n;
     Some (r \<noteq> None, info, n)
   }"

text \<open>The two loops of the client: send, wait, try again.\<close>

fun dhcp_exchange ::
  "nat \<Rightarrow> u32 \<Rightarrow> u8 list \<Rightarrow> u8 \<Rightarrow> u8 list \<Rightarrow> u8 list \<Rightarrow> u8 \<Rightarrow> dhcp_reply_info \<Rightarrow> net \<Rightarrow> (bool \<times> dhcp_reply_info \<times> net) option"
where
  "dhcp_exchange 0 xid mac msg_type requested_ip server_id expected info n = Some (False, info, n)"
| "dhcp_exchange (Suc attempts) xid mac msg_type requested_ip server_id expected info n = do {
     (ok, n) \<leftarrow> dhcp_send xid mac msg_type requested_ip server_id n;
     if \<not> ok then Some (False, info, n)
     else do {
       (got, info, n) \<leftarrow> dhcp_wait_reply xid expected 200 info n;
       if got then Some (True, info, n)
       else dhcp_exchange attempts xid mac msg_type requested_ip server_id expected info n
     }
   }"

definition dhcp_client :: "net \<Rightarrow> (bool \<times> net) option" where
  "dhcp_client n = do {
     let (ready, n) = arp_init n;
     if \<not> ready then Some (False, n)
     else do {
       let mac = netdev_get_mac n;
       let xid = 0x44484300 + ucast (n_now n);
       (got_offer, offer, n) \<leftarrow> dhcp_exchange 5 xid mac 1 [] [] 2 (stack_info n) n;
       if \<not> got_offer then Some (False, n)
       else do {
         (got_ack, ack, n) \<leftarrow> dhcp_exchange 5 xid mac 3 (dr_yiaddr offer) (dr_server_id offer) 5 (stack_info n) n;
         if \<not> got_ack then Some (False, n)
         else Some (True, n\<lparr>n_my_ip := dr_yiaddr ack,
           n_gateway_ip := (if dr_has_router ack then dr_router ack else n_gateway_ip n),
           n_dns_ip := (if dr_has_dns ack then dr_dns_server ack else n_dns_ip n),
           n_subnet := (if dr_has_subnet_mask ack then dr_subnet_mask ack else n_subnet n)\<rparr>)
       }
     }
   }"

definition ensure_ip_configured :: "net \<Rightarrow> net option" where
  "ensure_ip_configured n =
     (if n_ip_configured n then Some n
      else do {
        (ok, n) \<leftarrow> dhcp_client (n\<lparr>n_ip_configured := True\<rparr>);
        Some (if ok then n else ip_init n)
      })"

section \<open>ARP\<close>

definition ARP_CACHE_SIZE :: nat where
  "ARP_CACHE_SIZE = 8"

definition ip_equals :: "u8 list \<Rightarrow> u8 list \<Rightarrow> bool" where
  "ip_equals a b \<longleftrightarrow> take 4 a = take 4 b"

definition arp_cache_lookup :: "u8 list \<Rightarrow> net \<Rightarrow> u8 list option" where
  "arp_cache_lookup ip n =
     map_option ae_mac (find (\<lambda>e. ae_used e \<and> ip_equals (ae_ip e) ip) (take (unat (n_arp_count n)) (n_arp_cache n)))"

definition arp_cache_insert :: "u8 list \<Rightarrow> u8 list \<Rightarrow> net \<Rightarrow> net" where
  "arp_cache_insert ip mac n =
     (if unat (n_arp_count n) \<ge> ARP_CACHE_SIZE then n
      else n\<lparr>n_arp_cache := (n_arp_cache n)[unat (n_arp_count n) := \<lparr>ae_used = True, ae_ip = take 4 ip, ae_mac = take 6 mac\<rparr>],
             n_arp_count := n_arp_count n + 1\<rparr>)"

definition arp_send_request :: "u8 list \<Rightarrow> net \<Rightarrow> net option" where
  "arp_send_request target_ip n = do {
     let mac = netdev_get_mac n;
     n \<leftarrow> ensure_ip_configured n;
     let frame = replicate 6 0xFF @ take 6 mac @ [0x08, 0x06, 0x00, 0x01, 0x08, 0x00, 6, 4, 0x00, 0x01] @ take 6 mac @
       take 4 (n_my_ip n) @ replicate 6 0 @ take 4 target_ip @ replicate 18 0;
     (_, n) \<leftarrow> netdev_send frame 60 n;
     Some n
   }"

definition arp_check :: "u8 list \<Rightarrow> u16 \<Rightarrow> u8 list \<Rightarrow> unit \<Rightarrow> net \<Rightarrow> (u8 list option \<times> unit \<times> net) option" where
  "arp_check target_ip len reply _ n = do {
     ether \<leftarrow> bytes_of reply 12 2;
     op \<leftarrow> bytes_of reply 20 2;
     sender \<leftarrow> bytes_of reply 28 4;
     mac \<leftarrow> bytes_of reply 22 6;
     Some (if ether = [0x08, 0x06] \<and> op = [0x00, 0x02] \<and> ip_equals sender target_ip then Some mac else None, (), n)
   }"

definition arp_resolve :: "u8 list \<Rightarrow> net \<Rightarrow> (u8 list option \<times> net) option" where
  "arp_resolve target_ip n =
     (case arp_cache_lookup target_ip n of
        Some mac \<Rightarrow> Some (Some mac, n)
      | None \<Rightarrow>
          let (ready, n) = arp_init n
          in if \<not> ready then Some (None, n)
             else do {
               n \<leftarrow> arp_send_request target_ip n;
               (r, _, _, n) \<leftarrow> poll_loop (n_now n) 2000 64 (arp_check target_ip) (stack_buf 64 n) () n;
               Some (r, case r of None \<Rightarrow> n | Some mac \<Rightarrow> arp_cache_insert target_ip mac n)
             })"

section \<open>The internet checksum\<close>

text \<open>The sum of the 16-bit words of a message, the last byte padded with zero (RFC 1071).\<close>

fun word_sum :: "u8 list \<Rightarrow> nat" where
  "word_sum [] = 0"
| "word_sum [a] = 256 * unat a"
| "word_sum (a # b # bs) = 256 * unat a + unat b + word_sum bs"

lemma word_sum_append: "even (length a) \<Longrightarrow> word_sum (a @ b) = word_sum a + word_sum b"
  by (induction a rule: word_sum.induct) auto

lemma word_sum_bound: "word_sum bs \<le> 65535 * ((length bs + 1) div 2)"
proof (induction bs rule: word_sum.induct)
  case (2 a)
  have "unat a \<le> 255" using unat_less_u8 [of a] by linarith
  then show ?case by simp
next
  case (3 a b bs)
  have "unat a \<le> 255" "unat b \<le> 255" using unat_less_u8 [of a] unat_less_u8 [of b] by linarith+
  then show ?case using 3 by simp
qed simp

lemma unat_pair: "unat (push_bit 8 (ucast (a :: u8)) OR ucast (b :: u8) :: u32) = 256 * unat a + unat b"
  and unat_single: "unat (push_bit 8 (ucast (a :: u8)) :: u32) = 256 * unat a"
proof -
  have "unat a < 256" by simp
  then have "256 * unat a < 4294967296" by linarith
  then show s: "unat (push_bit 8 (ucast a) :: u32) = 256 * unat a"
    by (simp only: unsigned_push_bit_eq) (simp add: push_bit_eq_mult take_bit_eq_mod)
  have "push_bit 8 (ucast a) OR ucast b = (push_bit 8 (ucast a) + ucast b :: u32)"
    by (rule disjunctive_add_eq_or [symmetric]) (auto intro!: bit_word_eqI simp: bit_and_iff bit_push_bit_iff bit_u8_u32)
  moreover have "256 * unat a + unat b < 4294967296"
    using unat_less_u8 [of a] unat_less_u8 [of b] by linarith
  ultimately show "unat (push_bit 8 (ucast a) OR ucast b :: u32) = 256 * unat a + unat b"
    using s by (simp add: unat_word_ariths)
qed

lemma sum_words_nat: "unat s + word_sum bs < 2 ^ 32 \<Longrightarrow> unat (sum_words s bs) = unat s + word_sum bs"
proof (induction s bs rule: sum_words.induct)
  case (2 s a)
  then show ?case by (simp add: unat_word_ariths unat_single)
next
  case (3 s a b bs)
  let ?w = "push_bit 8 (ucast a) OR ucast b :: u32"
  have "unat (s + ?w) = unat s + (256 * unat a + unat b)"
    using "3.prems" by (simp add: unat_word_ariths unat_pair)
  then show ?case using 3 by simp
qed simp

lemma fold_carry_nat: "unat (fold_carry s) = (if unat s = 0 then 0 else (unat s - 1) mod 65535 + 1)"
proof (induction s rule: fold_carry.induct)
  case (1 s)
  let ?h = "unat (drop_bit 16 s)" and ?l = "unat (s AND 0xFFFF)"
  have s: "unat s = 65536 * ?h + ?l" unfolding carry_halves by simp
  show ?case
  proof (cases "drop_bit 16 s = 0")
    case True
    then have "unat s < 65536" using s carry_halves(2) [of s] by simp
    then show ?thesis using True by (simp add: fold_carry.simps [of s])
  next
    case False
    then have h: "0 < ?h" by (simp add: unat_gt_0)
    then have "unat s - 1 = (?l + ?h - 1) + ?h * 65535" using s by simp
    then have "(unat s - 1) mod 65535 = (?l + ?h - 1) mod 65535" by (simp only: mod_mult_self1)
    then show ?thesis using False 1 h s by (simp add: fold_carry.simps [of s] carry_sum)
  qed
qed

lemma checksum_value: "unat s < 65536 \<Longrightarrow> unat (ucast (NOT s AND 0xFFFF :: u32) :: u16) = 65535 - unat s"
proof -
  assume s: "unat s < 65536"
  have m: "(0xFFFF :: u32) = mask 16" by (simp add: mask_eq_exp_minus_1)
  have t: "s = take_bit 16 s"
    using s by (intro unsigned_word_eqI [where ?'a = nat]) (simp only: unsigned_take_bit_eq, simp add: take_bit_nat_eq_self)
  have "(NOT s AND 0xFFFF) OR s = 0xFFFF"
    unfolding m by (subst (2) t) (auto intro!: bit_word_eqI simp: bit_simps)
  moreover have "(NOT s AND 0xFFFF) OR s = (NOT s AND 0xFFFF) + s"
    by (rule disjunctive_add_eq_or [symmetric]) (auto intro!: bit_word_eqI simp: bit_and_iff bit_not_iff)
  ultimately have e: "NOT s AND 0xFFFF = 0xFFFF - s" by (simp add: algebra_simps)
  have "unat (0xFFFF - s) = 65535 - unat s"
    using s by (subst unat_sub) (simp_all add: word_le_nat_alt)
  then show ?thesis unfolding e by (simp add: unat_ucast_mod)
qed

definition checksum_of :: "nat \<Rightarrow> nat" where
  "checksum_of S = (if S = 0 then 65535 else 65534 - (S - 1) mod 65535)"

lemma ip_checksum_nat:
  assumes "unat len \<le> length data" and "unat len \<le> 65536"
  shows "\<exists>c. ip_checksum data len = Some c \<and> unat c = checksum_of (word_sum (take (unat len) data))"
proof -
  let ?d = "take (unat len) data"
  have "word_sum ?d \<le> 65535 * ((length ?d + 1) div 2)" by (rule word_sum_bound)
  also have "\<dots> \<le> 65535 * 32768" using assms by (intro mult_le_mono2) simp
  finally have "word_sum ?d < 2 ^ 32" by simp
  then have s: "unat (sum_words 0 ?d) = word_sum ?d" using sum_words_nat [of 0 ?d] by simp
  have f: "unat (fold_carry (sum_words 0 ?d)) = (if word_sum ?d = 0 then 0 else (word_sum ?d - 1) mod 65535 + 1)"
    unfolding fold_carry_nat s by simp
  moreover have "(word_sum ?d - 1) mod 65535 < 65535" by simp
  ultimately have "unat (fold_carry (sum_words 0 ?d)) < 65536" by (simp split: if_splits)
  from checksum_value [OF this] show ?thesis using assms(1) f by (simp add: ip_checksum_def checksum_of_def)
qed

lemma unat_less_u16 [simp]: "unat (x :: u16) < 65536"
  using unsigned_less [of x] by simp

lemma word_sum_u16: "word_sum (u16_bytes c) = unat c"
proof -
  have "c AND 0xFF = take_bit 8 c" by (simp add: take_bit_eq_mask mask_eq_exp_minus_1)
  then have "unat (c AND 0xFF) = unat c mod 256" by (simp only: unsigned_take_bit_eq) (simp add: take_bit_eq_mod)
  moreover have "unat (drop_bit 8 c) = unat c div 256"
    by (simp only: unsigned_drop_bit_eq) (simp add: drop_bit_eq_div take_bit_nat_eq_self)
  moreover have "unat c div 256 < 256" by (intro less_mult_imp_div_less) simp
  ultimately show ?thesis by (simp add: u16_bytes_def unat_ucast_mod)
qed

lemma checksum_cancels: "checksum_of (S + checksum_of S) = 0"
proof (cases "S = 0")
  case False
  have step: "Suc s + (65534 - r) - 1 = 65534 + q * 65535" if "s = 65535 * q + r" "r < 65535" for s q r :: nat
    using that by simp
  have "S + checksum_of S - 1 = 65534 + (S - 1) div 65535 * 65535"
    using step [of "S - 1" "(S - 1) div 65535" "(S - 1) mod 65535"] False by (simp add: checksum_of_def)
  then have "(S + checksum_of S - 1) mod 65535 = 65534 mod 65535" by (simp only: mod_mult_self1)
  then show ?thesis using False by (simp add: checksum_of_def)
qed (simp add: checksum_of_def)

lemma unat_of_nat_small: "k \<le> 65536 \<Longrightarrow> unat (word_of_nat k :: u32) = k"
  by (simp add: unat_of_nat)

text \<open>A message with its checksum in an even position verifies: the checksum over all of it is zero.\<close>

lemma ip_checksum_verifies:
  assumes "even (length a)" and "length a + 2 + length b \<le> 65536" and "ip_checksum (a @ [0, 0] @ b) (word_of_nat (length a + 2 + length b)) = Some c"
  shows "ip_checksum (a @ u16_bytes c @ b) (word_of_nat (length a + 2 + length b)) = Some 0"
proof -
  have u: "unat (word_of_nat (length a + 2 + length b) :: u32) = length a + 2 + length b"
    by (rule unat_of_nat_small) (rule assms(2))
  have l: "length (u16_bytes c) = 2" by (simp add: u16_bytes_def)
  have c: "unat c = checksum_of (word_sum (a @ [0, 0] @ b))"
    using ip_checksum_nat [of "word_of_nat (length a + 2 + length b)" "a @ [0, 0] @ b"] assms(2,3) u by simp
  have "word_sum (a @ u16_bytes c @ b) = word_sum (a @ [0, 0] @ b) + unat c"
    using assms(1) word_sum_append [of "u16_bytes c" b] by (simp add: word_sum_append l word_sum_u16)
  then obtain c' where "ip_checksum (a @ u16_bytes c @ b) (word_of_nat (length a + 2 + length b)) = Some c'" "unat c' = 0"
    using ip_checksum_nat [of "word_of_nat (length a + 2 + length b)" "a @ u16_bytes c @ b"] assms(2) u l c
    by (auto simp: checksum_cancels)
  then show ?thesis by (simp add: unsigned_eq_0_iff)
qed

lemma ip_build_header_ok:
  assumes "length src = 4" and "length dst = 4"
  shows "\<exists>c. ip_build_header src dst p len =
      Some ([0x45, 0] @ u16_bytes (20 + len) @ [0, 0, 0x40, 0, 64, p] @ u16_bytes c @ src @ dst) \<and>
    ip_checksum ([0x45, 0] @ u16_bytes (20 + len) @ [0, 0, 0x40, 0, 64, p] @ u16_bytes c @ src @ dst) 20 = Some 0"
proof -
  let ?a = "[0x45, 0] @ u16_bytes (20 + len) @ [0, 0, 0x40, 0, 64, p]" and ?b = "src @ dst"
  have l: "length ?a = 10" "length ?b = 8" "even (length ?a)" using assms by (simp_all add: u16_bytes_def)
  obtain c where c: "ip_checksum (?a @ [0, 0] @ ?b) 20 = Some c"
    using ip_checksum_nat [of 20 "?a @ [0, 0] @ ?b"] l(1,2) by auto
  then have v: "ip_checksum (?a @ u16_bytes c @ ?b) 20 = Some 0"
    using ip_checksum_verifies [OF l(3), of ?b c] unfolding l(1,2) by simp
  have "put_bytes 10 (u16_bytes c) (?a @ [0, 0] @ ?b) = ?a @ u16_bytes c @ ?b"
    using l(1,2) by (simp add: put_bytes_def u16_bytes_def)
  then show ?thesis using c v assms by (intro exI [of _ c]) (simp add: ip_build_header_def)
qed

text \<open>
  Every IPv4 header that the stack builds carries the addresses, the protocol and the length it was
  given and verifies at the receiver: the internet checksum of RFC 1071 over the twenty bytes is zero.
\<close>

theorem ip_header_verifies:
  assumes "length src = 4" and "length dst = 4"
  shows "\<exists>h. ip_build_header src dst p len = Some h \<and> length h = 20 \<and> ip_checksum h 20 = Some 0 \<and>
    get_bytes 2 2 h = u16_bytes (20 + len) \<and> h ! 9 = p \<and> get_bytes 12 4 h = src \<and> get_bytes 16 4 h = dst"
proof -
  obtain c where c: "ip_build_header src dst p len =
      Some ([0x45, 0] @ u16_bytes (20 + len) @ [0, 0, 0x40, 0, 64, p] @ u16_bytes c @ src @ dst)"
      "ip_checksum ([0x45, 0] @ u16_bytes (20 + len) @ [0, 0, 0x40, 0, 64, p] @ u16_bytes c @ src @ dst) 20 = Some 0"
    using ip_build_header_ok [OF assms] by blast
  then show ?thesis using assms by (auto simp: get_bytes_def u16_bytes_def)
qed

theorem ip_header_verifies_witness:
  "\<exists>h. ip_build_header [10, 0, 2, 15] [10, 0, 2, 2] 6 40 = Some h \<and> length h = 20 \<and> ip_checksum h 20 = Some 0 \<and>
    get_bytes 2 2 h = u16_bytes (20 + 40) \<and> h ! 9 = 6 \<and> get_bytes 12 4 h = [10, 0, 2, 15] \<and> get_bytes 16 4 h = [10, 0, 2, 2]"
  by (rule ip_header_verifies) simp_all

section \<open>The DHCP request overruns its buffer\<close>

lemma put_in_length: "put_in off bs buf = Some b \<Longrightarrow> length b = length buf"
  by (auto simp: put_in_def split: if_splits)

lemma dhcp_request_None: "dhcp_send xid mac 3 requested_ip server_id n = None"
proof (rule ccontr)
  assume "dhcp_send xid mac 3 requested_ip server_id n \<noteq> None"
  then obtain p1 p2 p3 p4 p5 p6 where
    p: "dhcp_build_fixed_header (stack_buf 260 n) xid mac = Some p1" "put_in 240 [53, 1, 3] p1 = Some p2"
      "put_in 243 ([50, 4] @ take 4 requested_ip) p2 = Some p3" "put_in 249 ([54, 4] @ take 4 server_id) p3 = Some p4"
      "put_in 255 [55, 3, 1, 3, 6] p4 = Some p5" "put_in 260 [255] p5 = Some p6"
    by (auto simp: dhcp_send_def split: bind_splits)
  have "length p5 = 260" using p(1-5) by (auto simp: dhcp_build_fixed_header_def stack_buf_def dest!: put_in_length)
  then show False using p(6) by (simp add: put_in_def)
qed

lemma dhcp_exchange_request: "dhcp_exchange (Suc k) xid mac 3 requested_ip server_id e info n = None"
  by (simp add: dhcp_request_None)

text \<open>
  C39. The REQUEST of the DHCP client is 261 bytes long and its buffer has 260: sending it is an access
  outside the buffer for every server reply, so the client never returns with a lease.
\<close>

theorem dhcp_request_overruns:
  "dhcp_send xid mac 3 requested_ip server_id n = None \<and> dhcp_client n \<noteq> Some (True, n')"
proof -
  have "dhcp_exchange 5 x m 3 r s e i k = None" for x m r s e i k
    using dhcp_exchange_request [of 4] by (simp add: numeral_eq_Suc)
  then have "dhcp_client n \<noteq> Some (True, n')"
    by (auto simp: dhcp_client_def Let_def split: prod.splits if_splits bind_splits)
  then show ?thesis by (simp add: dhcp_request_None)
qed

text \<open>The DISCOVER, twelve bytes shorter, is sent.\<close>

lemma dhcp_discover_sent:
  assumes "length mac = 6"
  shows "\<exists>frame. length frame = 300 \<and> dhcp_send xid mac 1 requested_ip server_id n = netdev_send frame 291 n"
proof -
  obtain h where h: "ip_build_header [0, 0, 0, 0] [255, 255, 255, 255] 17 257 = Some h" "length h = 20"
    using ip_build_header_ok [of "[0, 0, 0, 0]" "[255, 255, 255, 255]" 17 257] by (auto simp: u16_bytes_def)
  show ?thesis using assms h
    by (simp add: dhcp_send_def dhcp_build_fixed_header_def put_in_def stack_buf_def u32_bytes_def u16_bytes_def Let_def)
      (rule exI, rule conjI [rotated], rule refl, simp)
qed

section \<open>Waiting ends\<close>

definition at_poll :: "net \<Rightarrow> u64 \<Rightarrow> nat \<Rightarrow> net" where
  "at_poll n t j = n\<lparr>n_now := t, n_eth := (n_eth n)\<lparr>l_next := j\<rparr>\<rparr>"

lemma at_poll_same: "at_poll n (n_now n) (l_next (n_eth n)) = n"
  by (simp add: at_poll_def)

lemma at_poll_again: "at_poll (at_poll n t j) t' j' = at_poll n t' j'"
  by (simp add: at_poll_def)

text \<open>
  A wait with a time-out returns as soon as the clock of some later poll has passed it, if the body is
  total on buffers of the given size and leaves the network alone; it changes nothing but the clock
  and the number of polls.
\<close>

lemma poll_loop_returns:
  assumes body: "\<And>len buf s n. length buf = L \<Longrightarrow> \<exists>r s'. body len buf s n = Some (r, s', n) \<and> (\<forall>x. r = Some x \<longrightarrow> Q x)"
    and fit: "unat max_len \<le> L"
  shows "\<not> n_wifi_connected n \<Longrightarrow> length buf = L \<Longrightarrow> l_next (n_eth n) \<le> k \<Longrightarrow> timeout \<le> fst (l_polls (n_eth n) k) - start \<Longrightarrow>
    \<exists>r buf' s' t j. poll_loop start timeout max_len body buf s n = Some (r, buf', s', at_poll n t j) \<and> (\<forall>x. r = Some x \<longrightarrow> Q x)"
proof (induction "Suc k - l_next (n_eth n)" arbitrary: n buf s rule: less_induct)
  case less
  let ?l = "n_eth n" and ?i = "l_next (n_eth n)"
  show ?case
  proof (cases "n_now n - start < timeout")
    case False
    then have "poll_loop start timeout max_len body buf s n = Some (None, buf, s, at_poll n (n_now n) ?i)"
      by (simp add: poll_loop.simps at_poll_same)
    then show ?thesis by (intro exI conjI) (assumption, simp)
  next
    case True
    obtain t frame where f: "l_polls ?l ?i = (t, frame)" by force
    let ?b = "put_bytes 0 (take (unat max_len) frame) buf" and ?n = "at_poll n t (Suc ?i)" and ?w = "word_of_nat (length frame) :: u16"
    have rx: "netdev_receive buf max_len n = Some (?w, ?b, ?n)"
      using less.prems(1,2) f fit by (simp add: netdev_receive_def e1000_receive_def at_poll_def Let_def)
    have b: "length ?b = L" using less.prems(2) fit by simp
    obtain r s' where r: "(if ?w = 0 then Some (None, s, ?n) else body ?w ?b s ?n) = Some (r, s', ?n)" and q: "\<forall>x. r = Some x \<longrightarrow> Q x"
      using body [OF b, of ?w s ?n] by (cases "?w = 0") auto
    have step: "poll_loop start timeout max_len body buf s n =
        (case r of None \<Rightarrow> poll_loop start timeout max_len body ?b s' ?n | Some x \<Rightarrow> Some (Some x, ?b, s', ?n))"
      using True rx r by (simp add: poll_loop.simps [of start timeout max_len body buf s n])
    show ?thesis
    proof (cases r)
      case (Some x)
      then show ?thesis using step q by auto
    next
      case None
      note again = step [unfolded None option.case]
      show ?thesis
      proof (cases "?i = k")
        case True
        then have "\<not> n_now ?n - start < timeout" using less.prems(4) f by (simp add: at_poll_def not_less)
        then have "poll_loop start timeout max_len body ?b s' ?n = Some (None, ?b, s', ?n)"
          by (simp add: poll_loop.simps)
        then show ?thesis using again by auto
      next
        case False
        have "\<exists>r buf' s'' t j. poll_loop start timeout max_len body ?b s' ?n = Some (r, buf', s'', at_poll ?n t j) \<and> (\<forall>x. r = Some x \<longrightarrow> Q x)"
          using less.prems False b by (intro less.hyps) (auto simp: at_poll_def)
        then show ?thesis unfolding again at_poll_again .
      qed
    qed
  qed
qed

section \<open>Address resolution\<close>

lemma arp_check_total: "length buf = 64 \<Longrightarrow> \<exists>r s'. arp_check ip len buf s n = Some (r, s', n) \<and> (\<forall>m. r = Some m \<longrightarrow> length m = 6)"
  by (simp add: arp_check_def bytes_of_def)

lemma arp_init_frame: "arp_init n = (ok, n') \<Longrightarrow> n' = n\<lparr>n_nic_ready := n_nic_ready n'\<rparr>"
  by (auto simp: arp_init_def split: if_splits)

lemma find_snoc: "find P xs = None \<Longrightarrow> P x \<Longrightarrow> find P (xs @ [x]) = Some x"
  by (induction xs) (auto split: if_splits)

lemma arp_lookup_insert:
  assumes "length (n_arp_cache n) = 8" and "unat (n_arp_count n) < 8" and "length t = 4" and "length mac = 6"
    and "arp_cache_lookup t n = None"
  shows "arp_cache_lookup t (arp_cache_insert t mac n) = Some mac"
proof -
  let ?c = "unat (n_arp_count n)" and ?P = "\<lambda>e. ae_used e \<and> ip_equals (ae_ip e) t"
  let ?e = "\<lparr>ae_used = True, ae_ip = take 4 t, ae_mac = take 6 mac\<rparr>"
  have u: "unat (n_arp_count n + 1) = Suc ?c" using assms(2) by (simp add: unat_word_ariths)
  have none: "find ?P (take ?c (n_arp_cache n)) = None" using assms(5) by (simp add: arp_cache_lookup_def)
  have "take (Suc ?c) ((n_arp_cache n)[?c := ?e]) = take ?c (n_arp_cache n) @ [?e]"
    using assms(1,2) by (simp add: take_Suc_conv_app_nth)
  moreover have "find ?P (take ?c (n_arp_cache n) @ [?e]) = Some ?e"
    using none by (rule find_snoc) (simp add: ip_equals_def)
  ultimately show ?thesis using assms(2,4) u by (simp add: arp_cache_lookup_def arp_cache_insert_def ARP_CACHE_SIZE_def)
qed

lemma arp_send_request_run:
  assumes "\<not> n_wifi_connected n" and "n_ip_configured n" and "length (n_my_ip n) = 4" and "length (l_mac (n_eth n)) = 6"
    and "length t = 4"
  shows "\<exists>frame. length frame = 60 \<and> arp_send_request t n = Some (n\<lparr>n_eth := (n_eth n)\<lparr>l_sent := l_sent (n_eth n) @ [frame]\<rparr>\<rparr>)"
  using assms
  by (simp add: arp_send_request_def ensure_ip_configured_def netdev_get_mac_def netdev_send_def link_send_def Let_def)
    (rule exI, rule conjI [rotated], rule refl, simp)


definition sample_link :: link where
  "sample_link = \<lparr>l_polls = (\<lambda>i. if i = 0 then (5, replicate 12 0 @ [0x08, 0x06, 0, 1, 8, 0, 6, 4, 0, 2, 82, 84, 0, 18, 53, 2, 10, 0, 2, 2] @ replicate 10 0)
       else (3000, [])), l_next = 0, l_sent = [], l_send_ok = (\<lambda>_. True), l_mac = [82, 84, 0, 18, 52, 86]\<rparr>"

definition sample_net :: net where
  "sample_net = \<lparr>n_now = 0, n_wifi_connected = False, n_wifi = sample_link, n_eth = sample_link, n_eth_init = True, n_eth_rings = True,
     n_stack = (\<lambda>_. 0), n_my_ip = [10, 0, 2, 15], n_gateway_ip = [10, 0, 2, 2], n_dns_ip = [10, 0, 2, 3], n_subnet = [255, 255, 255, 0],
     n_ip_configured = True, n_arp_cache = replicate 8 \<lparr>ae_used = False, ae_ip = [0, 0, 0, 0], ae_mac = [0, 0, 0, 0, 0, 0]\<rparr>,
     n_arp_count = 0, n_nic_ready = False, n_conns = [], n_listeners = [], n_drop = 0\<rparr>"

lemma sample_resolved: "map_option fst (arp_resolve [10, 0, 2, 2] sample_net) = Some (Some [82, 84, 0, 18, 53, 2])"
  by code_simp


end
