(* ===== verification/Tcp.thy ===== *)
theory Tcp
  imports Net
begin

text \<open>
  TCP (\<^verbatim>\<open>src/kernel/net/tcp/tcp.c\<close>): segments and their checksum, the connection and listener tables, the
  wait for a segment and the retransmission, the one-shot fetch, the client stream and the server
  side. Copies out of the receive buffer use the length and the offset that the header of the segment
  gives, as the source does.
\<close>

definition TCP_FLAG_FIN :: u8 where "TCP_FLAG_FIN = 0x01"
definition TCP_FLAG_SYN :: u8 where "TCP_FLAG_SYN = 0x02"
definition TCP_FLAG_RST :: u8 where "TCP_FLAG_RST = 0x04"
definition TCP_FLAG_PSH :: u8 where "TCP_FLAG_PSH = 0x08"
definition TCP_FLAG_ACK :: u8 where "TCP_FLAG_ACK = 0x10"

section \<open>Segments\<close>

definition tcp_checksum :: "u8 list \<Rightarrow> u8 list \<Rightarrow> u8 list \<Rightarrow> u16 \<Rightarrow> u16 option" where
  "tcp_checksum src_ip dst_ip segment segment_len = do {
     let buf = take 4 src_ip @ take 4 dst_ip @ [0, 6] @ u16_bytes segment_len;
     bytes \<leftarrow> bytes_of segment 0 (unat segment_len);
     let buf = buf @ bytes @ (if segment_len AND 1 \<noteq> 0 then [0] else []);
     let total_len = 12 + ucast segment_len + (if segment_len AND 1 \<noteq> 0 then 1 else 0);
     if length buf > 1500 then None else ip_checksum buf total_len
   }"

definition tcp_build_header ::
  "u8 list \<Rightarrow> u16 \<Rightarrow> u16 \<Rightarrow> u32 \<Rightarrow> u32 \<Rightarrow> u8 \<Rightarrow> u16 \<Rightarrow> u8 list \<Rightarrow> u8 list \<Rightarrow> u16 \<Rightarrow> u8 list option" where
  "tcp_build_header out src_port dst_port seq ack flags window src_ip dst_ip payload_len = do {
     out \<leftarrow> put_in 0 (u16_bytes src_port @ u16_bytes dst_port @ u32_bytes seq @ u32_bytes ack @ [0x50, flags] @
       u16_bytes window @ [0, 0, 0, 0]) out;
     csum \<leftarrow> tcp_checksum src_ip dst_ip out (20 + payload_len);
     put_in 16 (u16_bytes csum) out
   }"

definition TCP_WINDOW :: u16 where
  "TCP_WINDOW = 8192"

definition tcp_send_segment ::
  "u8 list \<Rightarrow> u8 list \<Rightarrow> u16 \<Rightarrow> u16 \<Rightarrow> u32 \<Rightarrow> u32 \<Rightarrow> u8 \<Rightarrow> u8 list \<Rightarrow> u16 \<Rightarrow> net \<Rightarrow> (bool \<times> net) option" where
  "tcp_send_segment gateway_mac target_ip target_port local_port seq ack flags payload payload_len n = do {
     frame \<leftarrow> put_in 0 (take 6 gateway_mac @ take 6 (netdev_get_mac n) @ [0x08, 0x00]) (stack_buf 1500 n);
     header \<leftarrow> ip_build_header (n_my_ip n) target_ip 6 (20 + payload_len);
     frame \<leftarrow> put_in 14 header frame;
     bytes \<leftarrow> bytes_of payload 0 (unat payload_len);
     frame \<leftarrow> put_in 54 bytes frame;
     segment \<leftarrow> tcp_build_header (drop 34 frame) local_port target_port seq ack flags TCP_WINDOW (n_my_ip n) target_ip payload_len;
     netdev_send (take 34 frame @ segment) (unat (54 + payload_len)) n
   }"

record tcp_segment_info =
  si_seq :: u32
  si_ack :: u32
  si_flags :: u8
  si_payload_len :: u16
  si_payload_offset :: u16

definition be16_at :: "u8 list \<Rightarrow> nat \<Rightarrow> u16 option" where
  "be16_at buf i = do { a \<leftarrow> byte_of buf i; b \<leftarrow> byte_of buf (i + 1); Some (be16 a b) }"

definition be32_at :: "u8 list \<Rightarrow> nat \<Rightarrow> u32 option" where
  "be32_at buf i = do {
     a \<leftarrow> byte_of buf i; b \<leftarrow> byte_of buf (i + 1); c \<leftarrow> byte_of buf (i + 2); d \<leftarrow> byte_of buf (i + 3);
     Some (be32 a b c d)
   }"

text \<open>The fields that both waits take from a frame.\<close>

definition segment_info :: "u8 list \<Rightarrow> tcp_segment_info option" where
  "segment_info buf = do {
     ip_total_len \<leftarrow> be16_at buf 16;
     seq \<leftarrow> be32_at buf 38;
     ack \<leftarrow> be32_at buf 42;
     flags \<leftarrow> byte_of buf 47;
     offset \<leftarrow> byte_of buf 46;
     let tcp_header_len = ucast (drop_bit 4 offset) * 4;
     Some \<lparr>si_seq = seq, si_ack = ack, si_flags = flags, si_payload_len = ip_total_len - 20 - tcp_header_len,
       si_payload_offset = 34 + tcp_header_len\<rparr>
   }"

definition tcp_check ::
  "u8 list \<Rightarrow> u16 \<Rightarrow> u16 \<Rightarrow> u16 \<Rightarrow> u8 list \<Rightarrow> unit \<Rightarrow> net \<Rightarrow> (tcp_segment_info option \<times> unit \<times> net) option" where
  "tcp_check target_ip target_port local_port len buf _ n = do {
     ether \<leftarrow> bytes_of buf 12 2;
     proto \<leftarrow> byte_of buf 23;
     src \<leftarrow> bytes_of buf 26 4;
     src_port \<leftarrow> be16_at buf 34;
     dst_port \<leftarrow> be16_at buf 36;
     if ether \<noteq> [0x08, 0x00] \<or> proto \<noteq> 6 \<or> src \<noteq> take 4 target_ip \<or> src_port \<noteq> target_port \<or> dst_port \<noteq> local_port
     then Some (None, (), n)
     else if n_drop n > 0 then Some (None, (), n\<lparr>n_drop := n_drop n - 1\<rparr>)
     else do { info \<leftarrow> segment_info buf; Some (Some info, (), n) }
   }"

definition tcp_wait_segment ::
  "u8 list \<Rightarrow> u16 \<Rightarrow> u16 \<Rightarrow> u64 \<Rightarrow> u8 list \<Rightarrow> net \<Rightarrow> (tcp_segment_info option \<times> u8 list \<times> net) option" where
  "tcp_wait_segment target_ip target_port local_port timeout_ticks buf n = do {
     (r, buf, _, n) \<leftarrow> poll_loop (n_now n) timeout_ticks 1500 (tcp_check target_ip target_port local_port) buf () n;
     Some (r, buf, n)
   }"

definition TCP_MAX_ATTEMPTS :: nat where
  "TCP_MAX_ATTEMPTS = 5"

fun reliable_loop ::
  "nat \<Rightarrow> u8 list \<Rightarrow> u8 list \<Rightarrow> u16 \<Rightarrow> u16 \<Rightarrow> u32 \<Rightarrow> u32 \<Rightarrow> u8 \<Rightarrow> u8 list \<Rightarrow> u16 \<Rightarrow> u8 list \<Rightarrow> net \<Rightarrow>
    (tcp_segment_info option \<times> u8 list \<times> net) option"
where
  "reliable_loop 0 gateway_mac target_ip target_port local_port seq ack flags payload payload_len recv_buf n = Some (None, recv_buf, n)"
| "reliable_loop (Suc attempts) gateway_mac target_ip target_port local_port seq ack flags payload payload_len recv_buf n = do {
     (ok, n) \<leftarrow> tcp_send_segment gateway_mac target_ip target_port local_port seq ack flags payload payload_len n;
     if \<not> ok then Some (None, recv_buf, n)
     else do {
       (r, recv_buf, n) \<leftarrow> tcp_wait_segment target_ip target_port local_port 200 recv_buf n;
       (case r of
          Some info \<Rightarrow> Some (Some info, recv_buf, n)
        | None \<Rightarrow> reliable_loop attempts gateway_mac target_ip target_port local_port seq ack flags payload payload_len recv_buf n)
     }
   }"

definition tcp_send_reliable ::
  "u8 list \<Rightarrow> u8 list \<Rightarrow> u16 \<Rightarrow> u16 \<Rightarrow> u32 \<Rightarrow> u32 \<Rightarrow> u8 \<Rightarrow> u8 list \<Rightarrow> u16 \<Rightarrow> u8 list \<Rightarrow> net \<Rightarrow>
    (tcp_segment_info option \<times> u8 list \<times> net) option" where
  "tcp_send_reliable = reliable_loop TCP_MAX_ATTEMPTS"

section \<open>Connections\<close>

definition TCP_BASE_LOCAL_PORT :: u16 where
  "TCP_BASE_LOCAL_PORT = 43981"

definition tcp_conn_open :: "u8 list \<Rightarrow> u16 \<Rightarrow> net \<Rightarrow> int \<times> net" where
  "tcp_conn_open remote_ip remote_port n =
     (case first_index (\<lambda>c. \<not> tc_used c) (n_conns n) of
        None \<Rightarrow> (-1, n)
      | Some i \<Rightarrow> (int i, n\<lparr>n_conns := (n_conns n)[i := (n_conns n ! i)\<lparr>tc_used := True, tc_local_port := TCP_BASE_LOCAL_PORT + word_of_nat i,
          tc_remote_ip := take 4 remote_ip, tc_remote_port := remote_port\<rparr>]\<rparr>))"

definition tcp_conn_close :: "int \<Rightarrow> net \<Rightarrow> net option" where
  "tcp_conn_close slot n =
     (if 0 \<le> slot \<and> nat slot < length (n_conns n)
      then Some (n\<lparr>n_conns := (n_conns n)[nat slot := (n_conns n ! nat slot)\<lparr>tc_used := False\<rparr>]\<rparr>) else None)"

record tcp_conn_t =
  cn_pool_slot :: int
  cn_gateway_mac :: "u8 list"
  cn_target_ip :: "u8 list"
  cn_target_port :: u16
  cn_local_port :: u16
  cn_my_seq :: u32
  cn_peer_seq :: u32
  cn_peer_finished :: bool
  cn_pending_buf :: "u8 list"
  cn_pending_len :: u16

definition has_flag :: "tcp_segment_info \<Rightarrow> u8 \<Rightarrow> bool" where
  "has_flag seg f \<longleftrightarrow> si_flags seg AND f \<noteq> 0"

definition stream_segment :: "tcp_conn_t \<Rightarrow> u32 \<Rightarrow> u8 \<Rightarrow> net \<Rightarrow> (bool \<times> net) option" where
  "stream_segment conn seq flags n =
     tcp_send_segment (cn_gateway_mac conn) (cn_target_ip conn) (cn_target_port conn) (cn_local_port conn)
       seq (cn_peer_seq conn) flags [] 0 n"

definition stream_reliable ::
  "tcp_conn_t \<Rightarrow> u32 \<Rightarrow> u32 \<Rightarrow> u8 \<Rightarrow> u8 list \<Rightarrow> u16 \<Rightarrow> net \<Rightarrow> (tcp_segment_info option \<times> u8 list \<times> net) option" where
  "stream_reliable conn seq ack flags payload len n =
     tcp_send_reliable (cn_gateway_mac conn) (cn_target_ip conn) (cn_target_port conn) (cn_local_port conn)
       seq ack flags payload len (stack_buf 1500 n) n"

definition is_syn_ack :: "tcp_segment_info \<Rightarrow> u32 \<Rightarrow> bool" where
  "is_syn_ack seg my_seq \<longleftrightarrow>
     \<not> (has_flag seg TCP_FLAG_RST \<or> \<not> has_flag seg TCP_FLAG_SYN \<or> \<not> has_flag seg TCP_FLAG_ACK \<or> si_ack seg \<noteq> my_seq + 1)"

definition tcp_stream_open :: "u8 list \<Rightarrow> u16 \<Rightarrow> tcp_conn_t \<Rightarrow> net \<Rightarrow> (bool \<times> tcp_conn_t \<times> net) option" where
  "tcp_stream_open ip port conn n = do {
     n \<leftarrow> ensure_ip_configured n;
     (mac, n) \<leftarrow> arp_resolve (n_gateway_ip n) n;
     (case mac of
        None \<Rightarrow> Some (False, conn, n)
      | Some mac \<Rightarrow> do {
          let conn = conn\<lparr>cn_gateway_mac := mac\<rparr>;
          let (slot, n) = tcp_conn_open ip port n;
          if slot < 0 then Some (False, conn, n)
          else do {
            let conn = conn\<lparr>cn_pool_slot := slot, cn_local_port := tc_local_port (n_conns n ! nat slot), cn_target_ip := take 4 ip,
              cn_target_port := port, cn_pending_len := 0, cn_peer_finished := False\<rparr>;
            let my_seq = 0x10000 + ucast (n_now n);
            (seg, _, n) \<leftarrow> stream_reliable conn my_seq 0 TCP_FLAG_SYN [] 0 n;
            (case seg of
               None \<Rightarrow> do { n \<leftarrow> tcp_conn_close slot n; Some (False, conn, n) }
             | Some seg \<Rightarrow>
                 if \<not> is_syn_ack seg my_seq then do { n \<leftarrow> tcp_conn_close slot n; Some (False, conn, n) }
                 else do {
                   let conn = conn\<lparr>cn_my_seq := my_seq + 1, cn_peer_seq := si_seq seg + 1\<rparr>;
                   (_, n) \<leftarrow> stream_segment conn (cn_my_seq conn) TCP_FLAG_ACK n;
                   Some (True, conn, n)
                 })
          }
        })
   }"

text \<open>The payload of a segment, as far as it is copied, at its offset in the receive buffer.\<close>

definition payload_bytes :: "u8 list \<Rightarrow> tcp_segment_info \<Rightarrow> nat \<Rightarrow> nat \<Rightarrow> u8 list option" where
  "payload_bytes recv_buf seg skip k = bytes_of recv_buf (unat (si_payload_offset seg) + skip) k"

definition tcp_stream_send :: "tcp_conn_t \<Rightarrow> u8 list \<Rightarrow> u16 \<Rightarrow> net \<Rightarrow> (bool \<times> tcp_conn_t \<times> net) option" where
  "tcp_stream_send conn data len n = do {
     (seg, recv_buf, n) \<leftarrow> stream_reliable conn (cn_my_seq conn) (cn_peer_seq conn) (TCP_FLAG_PSH OR TCP_FLAG_ACK) data len n;
     (case seg of
        None \<Rightarrow> Some (False, conn, n)
      | Some seg \<Rightarrow> do {
          let conn = conn\<lparr>cn_my_seq := cn_my_seq conn + ucast len\<rparr>;
          conn \<leftarrow>
            (if si_payload_len seg > 0
             then do {
               let copy_len = min (si_payload_len seg) (1500 - cn_pending_len conn);
               bytes \<leftarrow> payload_bytes recv_buf seg 0 (unat copy_len);
               pending \<leftarrow> put_in (unat (cn_pending_len conn)) bytes (cn_pending_buf conn);
               Some (conn\<lparr>cn_pending_buf := pending, cn_pending_len := cn_pending_len conn + copy_len,
                 cn_peer_seq := cn_peer_seq conn + ucast (si_payload_len seg)\<rparr>)
             }
             else Some conn);
          let conn = (if has_flag seg TCP_FLAG_FIN then conn\<lparr>cn_peer_seq := cn_peer_seq conn + 1, cn_peer_finished := True\<rparr> else conn);
          (_, n) \<leftarrow> (if si_payload_len seg > 0 \<or> has_flag seg TCP_FLAG_FIN
                     then stream_segment conn (cn_my_seq conn) TCP_FLAG_ACK n else Some (True, n));
          Some (True, conn, n)
        })
   }"

text \<open>The result is the value returned, \<^verbatim>\<open>*len_out\<close> and the caller's buffer.\<close>

definition tcp_stream_receive ::
  "tcp_conn_t \<Rightarrow> u8 list \<Rightarrow> u16 \<Rightarrow> u64 \<Rightarrow> net \<Rightarrow> (bool \<times> u16 \<times> u8 list \<times> tcp_conn_t \<times> net) option" where
  "tcp_stream_receive conn buf max_len timeout_ticks n =
     (if cn_pending_len conn > 0
      then do {
        let copy_len = min (cn_pending_len conn) max_len;
        bytes \<leftarrow> bytes_of (cn_pending_buf conn) 0 (unat copy_len);
        buf \<leftarrow> put_in 0 bytes buf;
        let remaining = cn_pending_len conn - copy_len;
        rest \<leftarrow> bytes_of (cn_pending_buf conn) (unat copy_len) (unat remaining);
        Some (True, copy_len, buf, conn\<lparr>cn_pending_buf := put_bytes 0 rest (cn_pending_buf conn), cn_pending_len := remaining\<rparr>, n)
      }
      else if cn_peer_finished conn then Some (False, 0, buf, conn, n)
      else do {
        (seg, recv_buf, n) \<leftarrow> tcp_wait_segment (cn_target_ip conn) (cn_target_port conn) (cn_local_port conn) timeout_ticks
          (stack_buf 1500 n) n;
        (case seg of
           None \<Rightarrow> Some (False, 0, buf, conn, n)
         | Some seg \<Rightarrow> do {
             let copy_len = min (si_payload_len seg) max_len;
             bytes \<leftarrow> payload_bytes recv_buf seg 0 (unat copy_len);
             buf \<leftarrow> put_in 0 bytes buf;
             let leftover = si_payload_len seg - copy_len;
             conn \<leftarrow>
               (if leftover > 0 \<and> leftover \<le> 1500
                then do {
                  rest \<leftarrow> payload_bytes recv_buf seg (unat copy_len) (unat leftover);
                  pending \<leftarrow> put_in 0 rest (cn_pending_buf conn);
                  Some (conn\<lparr>cn_pending_buf := pending, cn_pending_len := leftover\<rparr>)
                }
                else Some conn);
             let conn = conn\<lparr>cn_peer_seq := cn_peer_seq conn + ucast (si_payload_len seg)\<rparr>;
             let conn = (if has_flag seg TCP_FLAG_FIN then conn\<lparr>cn_peer_seq := cn_peer_seq conn + 1, cn_peer_finished := True\<rparr> else conn);
             (_, n) \<leftarrow> stream_segment conn (cn_my_seq conn) TCP_FLAG_ACK n;
             Some (True, copy_len, buf, conn, n)
           })
      })"

definition tcp_stream_close :: "tcp_conn_t \<Rightarrow> net \<Rightarrow> (tcp_conn_t \<times> net) option" where
  "tcp_stream_close conn n = do {
     (seg, _, n) \<leftarrow> stream_reliable conn (cn_my_seq conn) (cn_peer_seq conn) (TCP_FLAG_FIN OR TCP_FLAG_ACK) [] 0 n;
     (conn, n) \<leftarrow>
       (case seg of
          Some seg \<Rightarrow>
            if \<not> cn_peer_finished conn \<and> has_flag seg TCP_FLAG_FIN
            then do {
              let conn = conn\<lparr>cn_peer_seq := si_seq seg + 1\<rparr>;
              (_, n) \<leftarrow> stream_segment conn (cn_my_seq conn + 1) TCP_FLAG_ACK n;
              Some (conn, n)
            }
            else Some (conn, n)
        | None \<Rightarrow> Some (conn, n));
     n \<leftarrow> tcp_conn_close (cn_pool_slot conn) n;
     Some (conn, n)
   }"

section \<open>The one-shot fetch\<close>

text \<open>
  A segment is taken into the response: the bytes that fit at the number already received, the
  acknowledgement number advanced, the end of the peer's stream noted.
\<close>

definition take_segment ::
  "u8 list \<Rightarrow> u32 \<Rightarrow> u8 list \<Rightarrow> u32 \<Rightarrow> u32 \<Rightarrow> tcp_segment_info \<Rightarrow> (u8 list \<times> u32 \<times> u32 \<times> bool) option" where
  "take_segment recv_buf max_response_len response total_received peer_seq seg = do {
     (response, total_received, peer_seq) \<leftarrow>
       (if si_payload_len seg > 0
        then do {
          let copy_len = ucast (si_payload_len seg);
          let copy_len = (if total_received + copy_len > max_response_len then max_response_len - total_received else copy_len);
          bytes \<leftarrow> payload_bytes recv_buf seg 0 (unat copy_len);
          response \<leftarrow> put_in (unat total_received) bytes response;
          Some (response, total_received + copy_len, peer_seq + ucast (si_payload_len seg))
        }
        else Some (response, total_received, peer_seq));
     Some (response, total_received, if has_flag seg TCP_FLAG_FIN then peer_seq + 1 else peer_seq, has_flag seg TCP_FLAG_FIN)
   }"

partial_function (option) fetch_loop ::
  "u8 list \<Rightarrow> u8 list \<Rightarrow> u16 \<Rightarrow> u16 \<Rightarrow> u32 \<Rightarrow> u64 \<Rightarrow> u32 \<Rightarrow> u8 list \<Rightarrow> u8 list \<Rightarrow> u32 \<Rightarrow> u32 \<Rightarrow> bool \<Rightarrow> net \<Rightarrow>
    (u8 list \<times> u8 list \<times> u32 \<times> u32 \<times> bool \<times> net) option"
where
  "fetch_loop gateway_mac target_ip target_port local_port my_seq recv_deadline max_response_len recv_buf response total_received
     peer_seq peer_finished n =
     (if \<not> peer_finished \<and> n_now n < recv_deadline \<and> total_received < max_response_len
      then do {
        (seg, recv_buf, n) \<leftarrow> tcp_wait_segment target_ip target_port local_port (recv_deadline - n_now n) recv_buf n;
        (case seg of
           None \<Rightarrow> Some (recv_buf, response, total_received, peer_seq, peer_finished, n)
         | Some seg \<Rightarrow> do {
             (response, total_received, peer_seq, peer_finished) \<leftarrow> take_segment recv_buf max_response_len response total_received peer_seq seg;
             (_, n) \<leftarrow> tcp_send_segment gateway_mac target_ip target_port local_port my_seq peer_seq TCP_FLAG_ACK [] 0 n;
             fetch_loop gateway_mac target_ip target_port local_port my_seq recv_deadline max_response_len recv_buf response total_received
               peer_seq peer_finished n
           })
      }
      else Some (recv_buf, response, total_received, peer_seq, peer_finished, n))"

declare fetch_loop.simps [code]

text \<open>The result is the value returned, the response buffer and \<^verbatim>\<open>*response_len_out\<close>.\<close>

definition tcp_fetch_conn ::
  "u16 \<Rightarrow> u8 list \<Rightarrow> u16 \<Rightarrow> u8 list \<Rightarrow> u16 \<Rightarrow> u8 list \<Rightarrow> u32 \<Rightarrow> net \<Rightarrow> (bool \<times> u8 list \<times> u32 \<times> net) option" where
  "tcp_fetch_conn local_port target_ip target_port request request_len response max_response_len n = do {
     n \<leftarrow> ensure_ip_configured n;
     (mac, n) \<leftarrow> arp_resolve (n_gateway_ip n) n;
     (case mac of None \<Rightarrow> Some (False, response, 0, n)
      | Some gateway_mac \<Rightarrow> do {
          let my_seq = 0x10000 + ucast (n_now n);
          (seg, recv_buf, n) \<leftarrow> tcp_send_reliable gateway_mac target_ip target_port local_port my_seq 0 TCP_FLAG_SYN [] 0 (stack_buf 1500 n) n;
          (case seg of None \<Rightarrow> Some (False, response, 0, n)
           | Some seg \<Rightarrow>
             if \<not> is_syn_ack seg my_seq then Some (False, response, 0, n)
             else do {
               let my_seq = my_seq + 1;
               let peer_seq = si_seq seg + 1;
               (ok, n) \<leftarrow> tcp_send_segment gateway_mac target_ip target_port local_port my_seq peer_seq TCP_FLAG_ACK [] 0 n;
               if \<not> ok then Some (False, response, 0, n)
               else do {
                 (seg, recv_buf, n) \<leftarrow> tcp_send_reliable gateway_mac target_ip target_port local_port my_seq peer_seq
                   (TCP_FLAG_PSH OR TCP_FLAG_ACK) request request_len recv_buf n;
                 (case seg of None \<Rightarrow> Some (False, response, 0, n)
                  | Some seg \<Rightarrow> do {
                      let my_seq = my_seq + ucast request_len;
                      (response, total_received, peer_seq, peer_finished) \<leftarrow> take_segment recv_buf max_response_len response 0 peer_seq seg;
                      (_, n) \<leftarrow> (if si_payload_len seg > 0 \<or> peer_finished
                        then tcp_send_segment gateway_mac target_ip target_port local_port my_seq peer_seq TCP_FLAG_ACK [] 0 n else Some (True, n));
                      (recv_buf, response, total_received, peer_seq, peer_finished, n) \<leftarrow>
                        fetch_loop gateway_mac target_ip target_port local_port my_seq (n_now n + 3000) max_response_len recv_buf response
                          total_received peer_seq peer_finished n;
                      (seg, _, n) \<leftarrow> tcp_send_reliable gateway_mac target_ip target_port local_port my_seq peer_seq
                        (TCP_FLAG_FIN OR TCP_FLAG_ACK) [] 0 recv_buf n;
                      (_, n) \<leftarrow>
                        (case seg of
                           Some seg \<Rightarrow>
                             if \<not> peer_finished \<and> has_flag seg TCP_FLAG_FIN
                             then tcp_send_segment gateway_mac target_ip target_port local_port (my_seq + 1) (si_seq seg + 1) TCP_FLAG_ACK [] 0 n
                             else Some (True, n)
                         | None \<Rightarrow> Some (True, n));
                      Some (total_received > 0, response, total_received, n)
                    })
               }
             })
        })
   }"

definition tcp_fetch ::
  "u8 list \<Rightarrow> u16 \<Rightarrow> u8 list \<Rightarrow> u16 \<Rightarrow> u8 list \<Rightarrow> u32 \<Rightarrow> net \<Rightarrow> (bool \<times> u8 list \<times> u32 \<times> net) option" where
  "tcp_fetch target_ip target_port request request_len response max_response_len n = do {
     let (slot, n) = tcp_conn_open target_ip target_port n;
     if slot < 0 then Some (False, response, 0, n)
     else do {
       (ok, response, len, n) \<leftarrow> tcp_fetch_conn (tc_local_port (n_conns n ! nat slot)) target_ip target_port request request_len
         response max_response_len n;
       n \<leftarrow> tcp_conn_close slot n;
       Some (ok, response, len, n)
     }
   }"

section \<open>The server\<close>

definition listener_init :: "u16 \<Rightarrow> tcp_listener \<Rightarrow> tcp_listener" where
  "listener_init port l = l\<lparr>tl_used := True, tl_port := port\<rparr>"

definition listener_claim :: "u16 \<Rightarrow> tcp_listener list \<Rightarrow> tcp_listener list \<times> int" where
  "listener_claim port ls =
     (case first_index (\<lambda>l. \<not> tl_used l) ls of
        None \<Rightarrow> (ls, -1)
      | Some i \<Rightarrow> (ls[i := listener_init port (ls ! i)], int i))"

definition tcp_listen :: "u16 \<Rightarrow> net \<Rightarrow> int \<times> net" where
  "tcp_listen port n =
     (let (ready, n) = arp_init n
      in if \<not> ready then (-1, n)
         else let (ls, r) = listener_claim port (n_listeners n) in (r, n\<lparr>n_listeners := ls\<rparr>))"

type_synonym syn_result = "u8 list \<times> u8 list \<times> u16 \<times> tcp_segment_info" \<comment> \<open>hardware address, address, port and segment\<close>

definition syn_check :: "u16 \<Rightarrow> u16 \<Rightarrow> u8 list \<Rightarrow> unit \<Rightarrow> net \<Rightarrow> (syn_result option \<times> unit \<times> net) option" where
  "syn_check local_port len buf _ n = do {
     ether \<leftarrow> bytes_of buf 12 2;
     proto \<leftarrow> byte_of buf 23;
     dst_port \<leftarrow> be16_at buf 36;
     flags \<leftarrow> byte_of buf 47;
     if ether \<noteq> [0x08, 0x00] \<or> proto \<noteq> 6 \<or> dst_port \<noteq> local_port \<or> flags AND TCP_FLAG_SYN = 0 then Some (None, (), n)
     else do {
       mac \<leftarrow> bytes_of buf 6 6;
       ip \<leftarrow> bytes_of buf 26 4;
       port \<leftarrow> be16_at buf 34;
       info \<leftarrow> segment_info buf;
       Some (Some (mac, ip, port, info), (), n)
     }
   }"

definition tcp_wait_syn :: "u16 \<Rightarrow> u64 \<Rightarrow> u8 list \<Rightarrow> net \<Rightarrow> (syn_result option \<times> u8 list \<times> net) option" where
  "tcp_wait_syn local_port timeout_ticks buf n = do {
     (r, buf, _, n) \<leftarrow> poll_loop (n_now n) timeout_ticks 1500 (syn_check local_port) buf () n;
     Some (r, buf, n)
   }"

definition server_init :: "u16 \<times> u8 list \<times> u16 \<times> u8 list \<Rightarrow> tcp_connection \<Rightarrow> tcp_connection" where
  "server_init = (\<lambda>(local_port, remote_ip, remote_port, remote_mac) c.
     c\<lparr>tc_used := True, tc_local_port := local_port, tc_remote_ip := take 4 remote_ip, tc_remote_port := remote_port,
       tc_remote_mac := take 6 remote_mac\<rparr>)"

definition server_claim :: "u16 \<times> u8 list \<times> u16 \<times> u8 list \<Rightarrow> tcp_connection list \<Rightarrow> tcp_connection list \<times> int" where
  "server_claim a cs =
     (case first_index (\<lambda>c. \<not> tc_used c) cs of
        None \<Rightarrow> (cs, -1)
      | Some i \<Rightarrow> (cs[i := server_init a (cs ! i)], int i))"

definition tcp_conn_alloc_server :: "u16 \<Rightarrow> u8 list \<Rightarrow> u16 \<Rightarrow> u8 list \<Rightarrow> net \<Rightarrow> int \<times> net" where
  "tcp_conn_alloc_server local_port remote_ip remote_port remote_mac n =
     (let (cs, r) = server_claim (local_port, remote_ip, remote_port, remote_mac) (n_conns n) in (r, n\<lparr>n_conns := cs\<rparr>))"

interpretation lst: slot_table tl_used listener_init listener_claim
  by unfold_locales (simp_all add: listener_claim_def listener_init_def)

interpretation srv: slot_table tc_used server_init server_claim
  by unfold_locales (auto simp: server_claim_def server_init_def split: option.splits)

definition tcp_accept :: "int \<Rightarrow> u64 \<Rightarrow> net \<Rightarrow> (int \<times> (u8 list \<times> u16) option \<times> net) option" where
  "tcp_accept listener_slot timeout_ticks n =
     (if listener_slot < 0 \<or> nat listener_slot \<ge> length (n_listeners n) then None
      else do {
        let local_port = tl_port (n_listeners n ! nat listener_slot);
        (syn, recv_buf, n) \<leftarrow> tcp_wait_syn local_port timeout_ticks (stack_buf 1500 n) n;
        (case syn of
           None \<Rightarrow> Some (-1, None, n)
         | Some (remote_mac, remote_ip, remote_port, syn_info) \<Rightarrow> do {
             let (slot, n) = tcp_conn_alloc_server local_port remote_ip remote_port remote_mac n;
             if slot < 0 then Some (-1, None, n)
             else do {
               let my_seq = 0x20000 + ucast (n_now n);
               let peer_seq = si_seq syn_info + 1;
               (ok, n) \<leftarrow> tcp_send_segment remote_mac remote_ip remote_port local_port my_seq peer_seq (TCP_FLAG_SYN OR TCP_FLAG_ACK) [] 0 n;
               if \<not> ok then do { n \<leftarrow> tcp_conn_close slot n; Some (-1, None, n) }
               else do {
                 (ack_info, _, n) \<leftarrow> tcp_wait_segment remote_ip remote_port local_port timeout_ticks recv_buf n;
                 (case ack_info of
                    None \<Rightarrow> do { n \<leftarrow> tcp_conn_close slot n; Some (-1, None, n) }
                  | Some ack_info \<Rightarrow>
                      if \<not> has_flag ack_info TCP_FLAG_ACK \<or> si_ack ack_info \<noteq> my_seq + 1
                      then do { n \<leftarrow> tcp_conn_close slot n; Some (-1, None, n) }
                      else Some (slot, Some (remote_ip, remote_port),
                        n\<lparr>n_conns := (n_conns n)[nat slot := (n_conns n ! nat slot)\<lparr>tc_my_seq := my_seq + 1, tc_peer_seq := peer_seq\<rparr>]\<rparr>))
               }
             }
           })
      })"

definition conn_at :: "int \<Rightarrow> net \<Rightarrow> tcp_connection option" where
  "conn_at slot n = (if 0 \<le> slot \<and> nat slot < length (n_conns n) then Some (n_conns n ! nat slot) else None)"

definition conn_put :: "int \<Rightarrow> tcp_connection \<Rightarrow> net \<Rightarrow> net" where
  "conn_put slot c n = n\<lparr>n_conns := (n_conns n)[nat slot := c]\<rparr>"

definition conn_send :: "tcp_connection \<Rightarrow> u32 \<Rightarrow> u8 \<Rightarrow> u8 list \<Rightarrow> u16 \<Rightarrow> net \<Rightarrow> (bool \<times> net) option" where
  "conn_send c seq flags payload len n =
     tcp_send_segment (tc_remote_mac c) (tc_remote_ip c) (tc_remote_port c) (tc_local_port c) seq (tc_peer_seq c) flags payload len n"

definition tcp_server_send :: "int \<Rightarrow> u8 list \<Rightarrow> u16 \<Rightarrow> net \<Rightarrow> (u32 \<times> net) option" where
  "tcp_server_send conn_slot data len n = do {
     c \<leftarrow> conn_at conn_slot n;
     (ok, n) \<leftarrow> conn_send c (tc_my_seq c) (TCP_FLAG_PSH OR TCP_FLAG_ACK) data len n;
     Some (if \<not> ok then (0, n) else (ucast len, conn_put conn_slot (c\<lparr>tc_my_seq := tc_my_seq c + ucast len\<rparr>) n))
   }"

partial_function (option) server_receive_loop ::
  "int \<Rightarrow> u8 list \<Rightarrow> u32 \<Rightarrow> u64 \<Rightarrow> u8 list \<Rightarrow> tcp_connection \<Rightarrow> net \<Rightarrow> (u32 \<times> u8 list \<times> net) option"
where
  "server_receive_loop conn_slot buf max_len deadline recv_buf c n =
     (if n_now n < deadline
      then do {
        (seg, recv_buf, n) \<leftarrow> tcp_wait_segment (tc_remote_ip c) (tc_remote_port c) (tc_local_port c) (deadline - n_now n) recv_buf n;
        (case seg of
           None \<Rightarrow> Some (0, buf, n)
         | Some seg \<Rightarrow>
             if si_payload_len seg = 0 \<and> \<not> has_flag seg TCP_FLAG_FIN
             then server_receive_loop conn_slot buf max_len deadline recv_buf c n
             else do {
               let copy_len = min (ucast (si_payload_len seg)) max_len;
               bytes \<leftarrow> payload_bytes recv_buf seg 0 (unat copy_len);
               buf \<leftarrow> put_in 0 bytes buf;
               let c = c\<lparr>tc_peer_seq := tc_peer_seq c + ucast (si_payload_len seg)\<rparr>;
               (_, n) \<leftarrow> conn_send c (tc_my_seq c) TCP_FLAG_ACK [] 0 n;
               let c = (if has_flag seg TCP_FLAG_FIN then c\<lparr>tc_peer_seq := tc_peer_seq c + 1\<rparr> else c);
               Some (copy_len, buf, conn_put conn_slot c n)
             })
      }
      else Some (0, buf, n))"

declare server_receive_loop.simps [code]

definition tcp_server_receive :: "int \<Rightarrow> u8 list \<Rightarrow> u32 \<Rightarrow> u64 \<Rightarrow> net \<Rightarrow> (u32 \<times> u8 list \<times> net) option" where
  "tcp_server_receive conn_slot buf max_len timeout_ticks n = do {
     c \<leftarrow> conn_at conn_slot n;
     server_receive_loop conn_slot buf max_len (n_now n + timeout_ticks) (stack_buf 1500 n) c n
   }"

definition tcp_server_close :: "int \<Rightarrow> net \<Rightarrow> net option" where
  "tcp_server_close conn_slot n = do {
     c \<leftarrow> conn_at conn_slot n;
     (_, n) \<leftarrow> conn_send c (tc_my_seq c) (TCP_FLAG_FIN OR TCP_FLAG_ACK) [] 0 n;
     (seg, _, n) \<leftarrow> tcp_wait_segment (tc_remote_ip c) (tc_remote_port c) (tc_local_port c) 500 (stack_buf 1500 n) n;
     n \<leftarrow>
       (case seg of
          Some seg \<Rightarrow>
            if has_flag seg TCP_FLAG_FIN
            then do {
              let c = c\<lparr>tc_peer_seq := si_seq seg + 1\<rparr>;
              (_, n) \<leftarrow> conn_send c (tc_my_seq c + 1) TCP_FLAG_ACK [] 0 n;
              Some (conn_put conn_slot c n)
            }
            else Some n
        | None \<Rightarrow> Some n);
     tcp_conn_close conn_slot n
   }"

section \<open>Segments arrive as they were sent\<close>

lemma be16_u16_bytes: "be16 (ucast (drop_bit 8 w)) (ucast (w AND 0xFF)) = w"
proof -
  have m: "w AND 0xFF = take_bit 8 w" by (simp add: take_bit_eq_mask mask_eq_exp_minus_1)
  show ?thesis unfolding m be16_def by (rule bit_word_eqI) (auto simp: bit_simps)
qed

lemma be32_u32_bytes:
  "be32 (ucast (drop_bit 24 w)) (ucast (drop_bit 16 w)) (ucast (drop_bit 8 w)) (ucast (w AND 0xFF)) = w"
proof -
  have m: "w AND 0xFF = take_bit 8 w" by (simp add: take_bit_eq_mask mask_eq_exp_minus_1)
  show ?thesis unfolding m be32_def
  proof (rule bit_word_eqI)
    fix i assume "i < LENGTH(32)"
    then consider "i < 8" | "8 \<le> i" "i < 16" | "16 \<le> i" "i < 24" | "24 \<le> i" "i < 32" by force
    then show "bit (push_bit 24 (ucast (ucast (drop_bit 24 w) :: u8)) OR push_bit 16 (ucast (ucast (drop_bit 16 w) :: u8)) OR
        push_bit 8 (ucast (ucast (drop_bit 8 w) :: u8)) OR ucast (ucast (take_bit 8 w) :: u8) :: u32) i = bit w i"
      by cases (auto simp: bit_simps)
  qed
qed

lemma length_u16_bytes [simp]: "length (u16_bytes w) = 2"
  by (simp add: u16_bytes_def)

lemma length_u32_bytes [simp]: "length (u32_bytes w) = 4"
  by (simp add: u32_bytes_def)

lemma be16_at_field: "be16_at (pre @ u16_bytes w @ post) (length pre) = Some w"
  by (simp add: be16_at_def byte_of_def u16_bytes_def be16_u16_bytes nth_append)

lemma be32_at_field: "be32_at (pre @ u32_bytes w @ post) (length pre) = Some w"
  by (simp add: be32_at_def byte_of_def u32_bytes_def be32_u32_bytes nth_append)

lemma put_in_append: "length x = k \<Longrightarrow> length b = length y \<Longrightarrow> put_in k b (x @ y @ z) = Some (x @ b @ z)"
  by (simp add: put_in_def put_bytes_def)

lemma split_at: "k \<le> length xs \<Longrightarrow> \<exists>a b. xs = a @ b \<and> length a = k"
  by (intro exI [of _ "take k xs"] exI [of _ "drop k xs"]) simp

lemma tcp_checksum_eq:
  assumes "length src = 4" and "length dst = 4" and len: "length seg = L" "L \<le> 1487" "w = word_of_nat L"
    and pad: "odd_pad = (if w AND 1 \<noteq> 0 then [0] else [])" and T: "T = 12 + L + length odd_pad"
  shows "tcp_checksum src dst (seg @ rest) w =
    ip_checksum (src @ dst @ [0, 6] @ u16_bytes w @ seg @ odd_pad) (word_of_nat T)"
proof -
  have u: "unat w = L" using len by (simp add: unat_of_nat)
  have "(ucast w :: u32) = word_of_nat L"
    using len(2) u by (intro unsigned_word_eqI [where ?'a = nat]) (simp add: unat_ucast_mod unat_of_nat)
  then have t: "12 + ucast w + (if w AND 1 \<noteq> 0 then 1 else 0) = (word_of_nat T :: u32)"
    by (simp add: T pad)
  have "bytes_of (seg @ rest) 0 (unat w) = Some seg" using len(1) by (simp add: bytes_of_def get_bytes_def u)
  moreover have "length (src @ dst @ [0, 6] @ u16_bytes w @ seg @ odd_pad) \<le> 1500"
    using assms(1,2) len by (simp add: pad)
  ultimately show ?thesis using assms(1,2) unfolding tcp_checksum_def Let_def t pad [symmetric] by simp
qed

lemma tcp_checksum_verifies:
  assumes ip: "length src = 4" "length dst = 4" and a: "even (length a)"
    and L: "L = length a + 2 + length b" "L \<le> 1487" "w = word_of_nat L"
    and c: "tcp_checksum src dst (a @ [0, 0] @ b @ rest) w = Some c"
  shows "tcp_checksum src dst (a @ u16_bytes c @ b @ rest') w = Some 0"
proof -
  define pad where "pad = (if w AND 1 \<noteq> 0 then [0 :: u8] else [])"
  let ?pre = "src @ dst @ [0, 6] @ u16_bytes w @ a"
  define T where "T = length ?pre + 2 + length (b @ pad)"
  have T: "T = 12 + L + length pad" "T \<le> 65536" "even (length ?pre)" using ip a L(1,2) by (simp_all add: T_def pad_def)
  have "ip_checksum (?pre @ [0, 0] @ b @ pad) (word_of_nat T) = Some c"
    using c tcp_checksum_eq [OF ip _ L(2,3) pad_def T(1), of "a @ [0, 0] @ b" rest] L(1) by simp
  then have "ip_checksum (?pre @ u16_bytes c @ b @ pad) (word_of_nat T) = Some 0"
    unfolding T_def using T(2,3) ip_checksum_verifies [OF T(3), of "b @ pad" c] by (simp only: T_def append_assoc)
  then show ?thesis using tcp_checksum_eq [OF ip _ L(2,3) pad_def T(1), of "a @ u16_bytes c @ b" rest'] L(1) by simp
qed

lemma tcp_checksum_total:
  assumes ip: "length src = 4" "length dst = 4" and L: "length seg = L" "L \<le> 1487" "w = word_of_nat L"
  shows "\<exists>c. tcp_checksum src dst (seg @ rest) w = Some c"
proof -
  define pad where "pad = (if w AND 1 \<noteq> 0 then [0 :: u8] else [])"
  let ?d = "src @ dst @ [0, 6] @ u16_bytes w @ seg @ pad"
  have T: "unat (word_of_nat (12 + L + length pad) :: u32) = length ?d" "length ?d \<le> 65536"
    using ip L by (subst unat_of_nat_small, simp_all add: pad_def)
  show ?thesis using tcp_checksum_eq [OF ip L pad_def refl, of rest] ip_checksum_nat [of "word_of_nat (12 + L + length pad)" ?d] T by auto
qed

definition tcp_head :: "u16 \<Rightarrow> u16 \<Rightarrow> u32 \<Rightarrow> u32 \<Rightarrow> u8 \<Rightarrow> u8 list" where
  "tcp_head src_port dst_port seq ack flags =
     u16_bytes src_port @ u16_bytes dst_port @ u32_bytes seq @ u32_bytes ack @ [0x50, flags] @ u16_bytes TCP_WINDOW"

lemma length_tcp_head [simp]: "length (tcp_head sp dp seq ack flags) = 16"
  by (simp add: tcp_head_def)

definition ip_head :: "u8 list \<Rightarrow> u8 list \<Rightarrow> u16 \<Rightarrow> u16 \<Rightarrow> u8 list" where
  "ip_head src dst payload_len csum =
     [0x45, 0] @ u16_bytes (20 + (20 + payload_len)) @ [0, 0, 0x40, 0, 64, 6] @ u16_bytes csum @ src @ dst"

text \<open>The frame of a segment, with the checksums of the two headers.\<close>

definition tcp_frame ::
  "u8 list \<Rightarrow> u8 list \<Rightarrow> u8 list \<Rightarrow> u8 list \<Rightarrow> u16 \<Rightarrow> u16 \<Rightarrow> u32 \<Rightarrow> u32 \<Rightarrow> u8 \<Rightarrow> u8 list \<Rightarrow> u16 \<Rightarrow> u16 \<Rightarrow> u16 \<Rightarrow> u8 list" where
  "tcp_frame to from src dst sp dp seq ack flags payload payload_len ic tc =
     to @ from @ [0x08, 0x00] @ ip_head src dst payload_len ic @ tcp_head sp dp seq ack flags @ u16_bytes tc @ [0, 0] @ payload"

lemma tcp_send_segment_frame:
  assumes l: "length gw = 6" "length (netdev_get_mac n) = 6" "length (n_my_ip n) = 4" "length target = 4"
    and p: "length payload = unat plen" "unat plen \<le> 1446"
  shows "\<exists>ic tc rest. tcp_send_segment gw target tport lport seq ack flags payload plen n =
      netdev_send (tcp_frame gw (netdev_get_mac n) (n_my_ip n) target lport tport seq ack flags payload plen ic tc @ rest)
        (54 + length payload) n \<and>
    ip_checksum (ip_head (n_my_ip n) target plen ic) 20 = Some 0 \<and>
    tcp_checksum (n_my_ip n) target (tcp_head lport tport seq ack flags @ u16_bytes tc @ [0, 0] @ payload) (20 + plen) = Some 0"
proof -
  let ?mac = "netdev_get_mac n" and ?H = "tcp_head lport tport seq ack flags" and ?L = "20 + length payload"
  obtain g1 r1 where g1: "stack_buf 1500 n = g1 @ r1" "length g1 = 14" using split_at [of 14 "stack_buf 1500 n"] by (auto simp: stack_buf_def)
  have "length (g1 @ r1) = 1500" unfolding g1(1) [symmetric] by (simp add: stack_buf_def)
  then have r1: "length r1 = 1486" using g1(2) by simp
  then obtain g2 r2 where g2: "r1 = g2 @ r2" "length g2 = 20" using split_at [of 20 r1] by auto
  then have "length r2 = 1466" using r1 by simp
  then obtain g3 r3 where g3: "r2 = g3 @ r3" "length g3 = 20" "length r3 = 1446" using split_at [of 20 r2] by auto
  then obtain g4 r4 where g4: "r3 = g4 @ r4" "length g4 = length payload" using split_at [of "length payload" r3] p by auto
  obtain ic where ic: "ip_build_header (n_my_ip n) target 6 (20 + plen) = Some (ip_head (n_my_ip n) target plen ic)"
      "ip_checksum (ip_head (n_my_ip n) target plen ic) 20 = Some 0"
    using ip_build_header_ok [OF l(3,4), of 6 "20 + plen"] unfolding ip_head_def by blast
  let ?E = "gw @ ?mac @ [0x08, 0x00]" and ?I = "ip_head (n_my_ip n) target plen ic"
  have f1: "put_in 0 (take 6 gw @ take 6 ?mac @ [0x08, 0x00]) (stack_buf 1500 n) = Some (?E @ g2 @ g3 @ g4 @ r4)"
    using put_in_append [of "[]" 0 ?E g1 "g2 @ g3 @ g4 @ r4"] l(1,2) g1 g2 g3 g4 by simp
  have I: "length ?I = 20" using l(3,4) by (simp add: ip_head_def)
  have f2: "put_in 14 ?I (?E @ g2 @ g3 @ g4 @ r4) = Some (?E @ ?I @ g3 @ g4 @ r4)"
    using put_in_append [of ?E 14 ?I g2 "g3 @ g4 @ r4"] l(1,2) g2(2) I by simp
  have f3: "put_in 54 payload (?E @ ?I @ g3 @ g4 @ r4) = Some (?E @ ?I @ g3 @ payload @ r4)"
    using put_in_append [of "?E @ ?I @ g3" 54 payload g4 r4] l(1,2) g3(2) g4(2) I by simp
  have d: "drop 34 (?E @ ?I @ g3 @ payload @ r4) = g3 @ payload @ r4" "take 34 (?E @ ?I @ g3 @ payload @ r4) = ?E @ ?I"
    using l(1,2) I by simp_all
  have f4: "put_in 0 (?H @ [0, 0, 0, 0]) (g3 @ payload @ r4) = Some (?H @ [0, 0] @ [0, 0] @ payload @ r4)"
    using put_in_append [of "[]" 0 "?H @ [0, 0, 0, 0]" g3 "payload @ r4"] g3(2) by simp
  have w: "20 + plen = word_of_nat ?L"
    using p by (intro unsigned_word_eqI [where ?'a = nat]) (simp add: unat_word_ariths unat_of_nat)
  have L: "length ?H + 2 + length ([0, 0] @ payload) = ?L" "?L \<le> 1487" using p by simp_all
  obtain tc where tc: "tcp_checksum (n_my_ip n) target (?H @ [0, 0] @ [0, 0] @ payload @ r4) (20 + plen) = Some tc"
    using tcp_checksum_total [OF l(3,4) _ L(2) w, of "?H @ [0, 0] @ [0, 0] @ payload" r4] by auto
  have v: "tcp_checksum (n_my_ip n) target (?H @ u16_bytes tc @ ([0, 0] @ payload) @ r) (20 + plen) = Some 0" for r
    by (rule tcp_checksum_verifies [OF l(3,4) _ L(1) [symmetric] L(2) w, of r4]) (use tc in simp_all)
  have f5: "put_in 16 (u16_bytes tc) (?H @ [0, 0] @ [0, 0] @ payload @ r4) = Some (?H @ u16_bytes tc @ [0, 0] @ payload @ r4)"
    using put_in_append [of ?H 16 "u16_bytes tc" "[0, 0]" "[0, 0] @ payload @ r4"] by simp
  have h: "tcp_build_header (g3 @ payload @ r4) lport tport seq ack flags TCP_WINDOW (n_my_ip n) target plen =
      Some (?H @ u16_bytes tc @ [0, 0] @ payload @ r4)"
    using f4 tc f5 unfolding tcp_build_header_def tcp_head_def by simp
  have b: "bytes_of payload 0 (unat plen) = Some payload" using p by (simp add: bytes_of_def get_bytes_def)
  have u: "unat (54 + plen) = 54 + length payload" using p by (simp add: unat_word_ariths)
  have "tcp_send_segment gw target tport lport seq ack flags payload plen n =
      netdev_send ((?E @ ?I) @ ?H @ u16_bytes tc @ [0, 0] @ payload @ r4) (54 + length payload) n"
    unfolding tcp_send_segment_def f1 ic(1) bind.bind_lunit f2 b f3 d h u ..
  then show ?thesis using ic(2) v [of "[]"] by (intro exI conjI) (simp_all add: tcp_frame_def)
qed

lemma bytes_of_field: "length pre = i \<Longrightarrow> length x = k \<Longrightarrow> bytes_of (pre @ x @ post) i k = Some x"
  by (simp add: bytes_of_def get_bytes_def)

lemma byte_of_field: "length pre = i \<Longrightarrow> byte_of (pre @ [b] @ post) i = Some b"
  by (auto simp: byte_of_def nth_append)

lemma tcp_frame_fields:
  assumes l: "length to = 6" "length from = 6" "length src = 4" "length dst = 4"
    and B_def: "B = tcp_frame to from src dst sp dp seq ack flags payload plen ic tc @ rest"
  shows "bytes_of B 12 2 = Some [0x08, 0x00]" and "byte_of B 23 = Some 6" and "bytes_of B 26 4 = Some src"
    and "be16_at B 34 = Some sp" and "be16_at B 36 = Some dp"
    and "segment_info B = Some \<lparr>si_seq = seq, si_ack = ack, si_flags = flags, si_payload_len = plen, si_payload_offset = 54\<rparr>"
    and "bytes_of B 54 (length payload) = Some payload"
proof -
  let ?E = "to @ from @ [0x08, 0x00]" and ?I = "ip_head src dst plen ic"
  let ?i1 = "[0x45, 0] @ u16_bytes (20 + (20 + plen)) @ [0, 0, 0x40, 0, 64]" and ?R = "u16_bytes tc @ [0, 0] @ payload @ rest"
  let ?W = "u16_bytes TCP_WINDOW"
  note defs = B_def tcp_frame_def ip_head_def tcp_head_def
  show "bytes_of B 12 2 = Some [0x08, 0x00]"
    using bytes_of_field [of "to @ from" 12 "[0x08, 0x00]" 2] l by (simp add: defs)
  show "byte_of B 23 = Some 6"
    using byte_of_field [of "?E @ ?i1" 23 6] l by (simp add: defs)
  show "bytes_of B 26 4 = Some src"
    using bytes_of_field [of "?E @ ?i1 @ [6] @ u16_bytes ic" 26 src 4] l by (simp add: defs)
  have I: "length ?I = 20" using l by (simp add: ip_head_def)
  show "be16_at B 34 = Some sp"
    using be16_at_field [of "?E @ ?I" sp] l I by (simp add: B_def tcp_frame_def tcp_head_def)
  show "be16_at B 36 = Some dp"
    using be16_at_field [of "?E @ ?I @ u16_bytes sp" dp] l I by (simp add: B_def tcp_frame_def tcp_head_def)
  have total: "be16_at B 16 = Some (40 + plen)"
    using be16_at_field [of "?E @ [0x45, 0]" "40 + plen"] l by (simp add: defs)
  have "be32_at B 38 = Some seq"
    using be32_at_field [of "?E @ ?I @ u16_bytes sp @ u16_bytes dp" seq] l I by (simp add: B_def tcp_frame_def tcp_head_def)
  moreover have "be32_at B 42 = Some ack"
    using be32_at_field [of "?E @ ?I @ u16_bytes sp @ u16_bytes dp @ u32_bytes seq" ack] l I by (simp add: B_def tcp_frame_def tcp_head_def)
  moreover have "byte_of B 46 = Some 0x50"
    using byte_of_field [of "?E @ ?I @ u16_bytes sp @ u16_bytes dp @ u32_bytes seq @ u32_bytes ack" 46 "0x50"] l I
    by (simp add: B_def tcp_frame_def tcp_head_def)
  moreover have "byte_of B 47 = Some flags"
    using byte_of_field [of "?E @ ?I @ u16_bytes sp @ u16_bytes dp @ u32_bytes seq @ u32_bytes ack @ [0x50]" 47 flags] l I
    by (simp add: B_def tcp_frame_def tcp_head_def)
  moreover have "ucast (drop_bit 4 (0x50 :: u8)) * 4 = (20 :: u16)" by simp
  ultimately show "segment_info B = Some \<lparr>si_seq = seq, si_ack = ack, si_flags = flags, si_payload_len = plen, si_payload_offset = 54\<rparr>"
    using total by (simp add: segment_info_def)
  show "bytes_of B 54 (length payload) = Some payload"
    using bytes_of_field [of "?E @ ?I @ tcp_head sp dp seq ack flags @ u16_bytes tc @ [0, 0]" 54 payload] l I
    by (simp add: B_def tcp_frame_def)
qed

lemma netdev_send_prefix: "length f = k \<Longrightarrow> netdev_send (f @ rest) k n = netdev_send f k n"
  by (simp add: netdev_send_def)

lemma tcp_send_segment_long: "1446 < unat plen \<Longrightarrow> tcp_send_segment gw target tport lport seq ack flags payload plen n = None"
proof (rule ccontr)
  assume plen: "1446 < unat plen" and "tcp_send_segment gw target tport lport seq ack flags payload plen n \<noteq> None"
  then obtain f1 h f2 bytes f3 where
    f: "put_in 0 (take 6 gw @ take 6 (netdev_get_mac n) @ [0x08, 0x00]) (stack_buf 1500 n) = Some f1" "put_in 14 h f1 = Some f2"
      "bytes_of payload 0 (unat plen) = Some bytes" "put_in 54 bytes f2 = Some f3"
    by (auto simp: tcp_send_segment_def split: bind_splits)
  have "length f2 = 1500" using f(1,2) by (auto simp: stack_buf_def dest!: put_in_length)
  moreover have "length bytes = unat plen" using f(3) by (auto simp: bytes_of_def get_bytes_def split: if_splits)
  ultimately show False using f(4) plen by (simp add: put_in_def split: if_splits)
qed

text \<open>
  C12. A segment arrives as it was sent. For a payload of at most 1446 bytes the sender transmits one frame
  whose IP header and whose segment verify under their checksums, and a peer that waits for a segment
  from the sender's address and port finds in its receive buffer exactly the sequence number, the
  acknowledgement, the flags and the payload, at the offset and length it computes from the header. A
  longer payload overruns the sender's frame.
\<close>

theorem tcp_segment_arrives:
  assumes "length gw = 6" and "length (netdev_get_mac n) = 6" and "length (n_my_ip n) = 4" and "length target = 4"
    and "length payload = unat plen" and "length buf = 1500" and "n_drop m = 0"
  shows "if unat plen \<le> 1446
    then \<exists>frame. tcp_send_segment gw target tport lport seq ack flags payload plen n = netdev_send frame (length frame) n \<and>
      length frame = 54 + unat plen \<and> ip_checksum (get_bytes 14 20 frame) 20 = Some 0 \<and>
      tcp_checksum (n_my_ip n) target (drop 34 frame) (20 + plen) = Some 0 \<and>
      (let info = \<lparr>si_seq = seq, si_ack = ack, si_flags = flags, si_payload_len = plen, si_payload_offset = 54\<rparr>
       in tcp_check (n_my_ip n) lport tport len (put_bytes 0 frame buf) () m = Some (Some info, (), m) \<and>
          payload_bytes (put_bytes 0 frame buf) info 0 (unat plen) = Some payload)
    else tcp_send_segment gw target tport lport seq ack flags payload plen n = None"
proof (cases "unat plen \<le> 1446")
  case True
  let ?F = "tcp_frame gw (netdev_get_mac n) (n_my_ip n) target lport tport seq ack flags payload plen"
  obtain ic tc rest where s: "tcp_send_segment gw target tport lport seq ack flags payload plen n =
        netdev_send (?F ic tc @ rest) (54 + length payload) n"
      "ip_checksum (ip_head (n_my_ip n) target plen ic) 20 = Some 0"
      "tcp_checksum (n_my_ip n) target (tcp_head lport tport seq ack flags @ u16_bytes tc @ [0, 0] @ payload) (20 + plen) = Some 0"
    using tcp_send_segment_frame [OF assms(1-5) True] by blast
  have I: "length (ip_head (n_my_ip n) target plen ic) = 20" using assms(3,4) by (simp add: ip_head_def)
  have F: "length (?F ic tc) = 54 + length payload" using assms(1-4) I by (simp add: tcp_frame_def)
  have parts: "get_bytes 14 20 (?F ic tc) = ip_head (n_my_ip n) target plen ic"
      "drop 34 (?F ic tc) = tcp_head lport tport seq ack flags @ u16_bytes tc @ [0, 0] @ payload"
    using assms(1,2) I by (simp_all add: tcp_frame_def get_bytes_def)
  note fields = tcp_frame_fields [OF assms(1-4) refl, of lport tport seq ack flags payload plen ic tc "drop (54 + length payload) buf"]
  have buf: "put_bytes 0 (?F ic tc) buf = ?F ic tc @ drop (54 + length payload) buf" using F by (simp add: put_bytes_def)
  have "tcp_send_segment gw target tport lport seq ack flags payload plen n = netdev_send (?F ic tc) (length (?F ic tc)) n"
    using s(1) netdev_send_prefix [OF F] F by simp
  moreover have "tcp_check (n_my_ip n) lport tport len (put_bytes 0 (?F ic tc) buf) () m =
      Some (Some \<lparr>si_seq = seq, si_ack = ack, si_flags = flags, si_payload_len = plen, si_payload_offset = 54\<rparr>, (), m)"
    unfolding buf using fields(1-6) assms(3,7) by (simp add: tcp_check_def)
  moreover have "payload_bytes (put_bytes 0 (?F ic tc) buf)
      \<lparr>si_seq = seq, si_ack = ack, si_flags = flags, si_payload_len = plen, si_payload_offset = 54\<rparr> 0 (unat plen) = Some payload"
    unfolding buf payload_bytes_def using fields(7) assms(5) by simp
  ultimately show ?thesis using True s(2,3) parts F assms(5) unfolding Let_def if_P [OF True]
    by (intro exI [of _ "?F ic tc"] conjI) simp_all
next
  case False
  then show ?thesis using tcp_send_segment_long [of plen] by (simp add: not_le)
qed

theorem tcp_segment_arrives_witness:
  "\<exists>frame. tcp_send_segment [82, 84, 0, 18, 53, 2] [10, 0, 2, 2] 80 43981 7 9 0x18 [104, 105] 2 sample_net = netdev_send frame (length frame) sample_net \<and>
    length frame = 56 \<and> ip_checksum (get_bytes 14 20 frame) 20 = Some 0 \<and>
    tcp_checksum (n_my_ip sample_net) [10, 0, 2, 2] (drop 34 frame) (20 + 2) = Some 0 \<and>
    (let info = \<lparr>si_seq = 7, si_ack = 9, si_flags = 0x18, si_payload_len = 2, si_payload_offset = 54\<rparr>
     in tcp_check (n_my_ip sample_net) 43981 80 56 (put_bytes 0 frame (replicate 1500 0)) () sample_net = Some (Some info, (), sample_net) \<and>
        payload_bytes (put_bytes 0 frame (replicate 1500 0)) info 0 (unat (2 :: u16)) = Some [104, 105])"
  using tcp_segment_arrives [of "[82, 84, 0, 18, 53, 2]" sample_net "[10, 0, 2, 2]" "[104, 105]" 2 "replicate 1500 0" sample_net
      80 43981 7 9 "0x18" 56]
  by (simp add: sample_net_def sample_link_def netdev_get_mac_def)

section \<open>The client stream\<close>

text \<open>The bytes received and not yet read, and the shape of a connection.\<close>

definition inbox :: "tcp_conn_t \<Rightarrow> u8 list" where
  "inbox conn = take (unat (cn_pending_len conn)) (cn_pending_buf conn)"

definition conn_ok :: "tcp_conn_t \<Rightarrow> bool" where
  "conn_ok conn \<longleftrightarrow> length (cn_pending_buf conn) = 1500 \<and> unat (cn_pending_len conn) \<le> 1500 \<and>
     length (cn_gateway_mac conn) = 6 \<and> length (cn_target_ip conn) = 4"

definition host_ok :: "net \<Rightarrow> bool" where
  "host_ok n \<longleftrightarrow> length (netdev_get_mac n) = 6 \<and> length (n_my_ip n) = 4"

lemma unat_min_u16: "unat (min a b :: u16) = min (unat a) (unat b)"
  by (simp add: min_def word_le_nat_alt)

lemma unat_diff_min: "unat (a - min a b :: u16) = unat a - unat b"
proof -
  have "min a b \<le> a" by simp
  then have "unat (a - min a b) = unat a - unat (min a b)" by (rule unat_sub)
  then show ?thesis unfolding unat_min_u16 by simp
qed

lemma stream_segment_sent:
  assumes "conn_ok conn" and "host_ok n"
  shows "\<exists>ok n'. stream_segment conn seq flags n = Some (ok, n')"
proof -
  let ?F = "tcp_frame (cn_gateway_mac conn) (netdev_get_mac n) (n_my_ip n) (cn_target_ip conn)
    (cn_local_port conn) (cn_target_port conn) seq (cn_peer_seq conn) flags [] 0"
  obtain ic tc rest where s: "stream_segment conn seq flags n = netdev_send (?F ic tc @ rest) 54 n"
    using tcp_send_segment_frame [of "cn_gateway_mac conn" n "cn_target_ip conn" "[]" 0] assms
    unfolding stream_segment_def conn_ok_def host_ok_def by fastforce
  have "length (?F ic tc) = 54" using assms by (simp add: tcp_frame_def ip_head_def conn_ok_def host_ok_def)
  then show ?thesis unfolding s by (auto simp: netdev_send_def link_send_def split: prod.splits)
qed

lemma receive_pending:
  assumes ok: "conn_ok conn" and p: "0 < cn_pending_len conn" and b: "unat max_len \<le> length buf"
  shows "\<exists>k buf' conn'. tcp_stream_receive conn buf max_len t n = Some (True, k, buf', conn', n) \<and>
    unat k = min (unat (cn_pending_len conn)) (unat max_len) \<and> take (unat k) buf' @ inbox conn' = inbox conn \<and> conn_ok conn'"
proof -
  let ?k = "min (cn_pending_len conn) max_len" and ?P = "cn_pending_buf conn" and ?l = "unat (cn_pending_len conn)"
  have k: "unat ?k = min ?l (unat max_len)" by (rule unat_min_u16)
  have r: "unat (cn_pending_len conn - ?k) = ?l - unat ?k" unfolding unat_diff_min k by simp
  have P: "length ?P = 1500" "?l \<le> 1500" using ok by (simp_all add: conn_ok_def)
  have kb: "unat ?k \<le> length buf" "unat ?k \<le> 1500" "unat ?k \<le> ?l" using b P unfolding k by linarith+
  let ?b = "put_bytes 0 (take (unat ?k) ?P) buf" and ?rest = "get_bytes (unat ?k) (?l - unat ?k) ?P"
  let ?c = "conn\<lparr>cn_pending_buf := put_bytes 0 ?rest ?P, cn_pending_len := cn_pending_len conn - ?k\<rparr>"
  have run: "tcp_stream_receive conn buf max_len t n = Some (True, ?k, ?b, ?c, n)"
    using p P kb r by (simp add: tcp_stream_receive_def bytes_of_def put_in_def get_bytes_def Let_def)
  have "take (unat ?k) ?b = take (unat ?k) ?P" using P kb by (simp add: put_bytes_def)
  moreover have "inbox ?c = ?rest" using P kb by (simp add: inbox_def r put_bytes_def get_bytes_def)
  moreover have "take (unat ?k) ?P @ ?rest = inbox conn" using kb by (simp add: inbox_def get_bytes_def flip: take_add)
  moreover have "conn_ok ?c" using ok P kb by (simp add: conn_ok_def r get_bytes_def)
  ultimately show ?thesis using run k by auto
qed

lemma receive_segment:
  assumes ok: "conn_ok conn" and p: "cn_pending_len conn = 0" "\<not> cn_peer_finished conn" and b: "unat max_len \<le> length buf"
    and w: "tcp_wait_segment (cn_target_ip conn) (cn_target_port conn) (cn_local_port conn) t (stack_buf 1500 n) n = Some (Some seg, rb, n1)"
    and h: "host_ok n1" and P: "payload_bytes rb seg 0 (unat (si_payload_len seg)) = Some P" "length P \<le> 1500"
  shows "\<exists>k buf' conn' n'. tcp_stream_receive conn buf max_len t n = Some (True, k, buf', conn', n') \<and>
    take (unat k) buf' @ inbox conn' = P \<and> conn_ok conn' \<and>
    cn_peer_seq conn' = cn_peer_seq conn + ucast (si_payload_len seg) + (if has_flag seg TCP_FLAG_FIN then 1 else 0)"
proof -
  let ?L = "si_payload_len seg" and ?k = "min (si_payload_len seg) max_len" and ?o = "unat (si_payload_offset seg)"
  have PL: "length P = unat ?L" "P = get_bytes ?o (unat ?L) rb" "?o + unat ?L \<le> length rb"
    using P(1) by (auto simp: payload_bytes_def bytes_of_def get_bytes_def split: if_splits)
  have k: "unat ?k \<le> unat ?L" "unat ?k \<le> length buf" using b unfolding unat_min_u16 by linarith+
  have r: "unat (?L - ?k) = unat ?L - unat ?k" unfolding unat_diff_min unat_min_u16 by simp
  have c: "payload_bytes rb seg 0 (unat ?k) = Some (take (unat ?k) P)" "payload_bytes rb seg (unat ?k) (unat (?L - ?k)) = Some (drop (unat ?k) P)"
    using PL k unfolding payload_bytes_def bytes_of_def r
    by (simp_all add: get_bytes_def take_drop min_def add.commute)
  have small: "?L - ?k \<le> 1500" using P(2) PL(1) r by (simp add: word_le_nat_alt)
  have lb: "length (cn_pending_buf conn) = 1500" using ok by (simp add: conn_ok_def)
  have store: "put_in 0 (drop (unat ?k) P) (cn_pending_buf conn) = Some (put_bytes 0 (drop (unat ?k) P) (cn_pending_buf conn))"
    using P(2) lb by (simp add: put_in_def)
  obtain c1 where c1: "(if ?L - ?k > 0 \<and> ?L - ?k \<le> 1500
      then do {
        rest \<leftarrow> payload_bytes rb seg (unat ?k) (unat (?L - ?k));
        pending \<leftarrow> put_in 0 rest (cn_pending_buf conn);
        Some (conn\<lparr>cn_pending_buf := pending, cn_pending_len := ?L - ?k\<rparr>)
      } else Some conn) = Some c1"
      "inbox c1 = drop (unat ?k) P" "conn_ok c1" "cn_peer_seq c1 = cn_peer_seq conn"
  proof (cases "?L - ?k > 0")
    case True
    let ?c = "conn\<lparr>cn_pending_buf := put_bytes 0 (drop (unat ?k) P) (cn_pending_buf conn), cn_pending_len := ?L - ?k\<rparr>"
    show thesis
    proof (rule that [of ?c])
      show "inbox ?c = drop (unat ?k) P" using PL(1) by (simp add: inbox_def r put_bytes_def)
      show "conn_ok ?c" using ok P(2) PL(1) lb by (simp add: conn_ok_def r)
    qed (use True small c(2) store in simp_all)
  next
    case False
    then have "?L - ?k = 0" by (simp add: word_gt_0)
    then have "unat ?L - unat ?k = 0" using r by simp
    then have "drop (unat ?k) P = []" using PL(1) by simp
    then show thesis using that [of conn] False ok p(1) by (simp add: inbox_def)
  qed
  define c2 where "c2 = c1\<lparr>cn_peer_seq := cn_peer_seq c1 + ucast ?L\<rparr>"
  define c3 where "c3 = (if has_flag seg TCP_FLAG_FIN then c2\<lparr>cn_peer_seq := cn_peer_seq c2 + 1, cn_peer_finished := True\<rparr> else c2)"
  have c3: "conn_ok c3" "inbox c3 = inbox c1" using c1(3) by (simp_all add: c3_def c2_def conn_ok_def inbox_def)
  obtain s n' where s: "stream_segment c3 (cn_my_seq c3) TCP_FLAG_ACK n1 = Some (s, n')"
    using stream_segment_sent [OF c3(1) h] by blast
  have put: "put_in 0 (take (unat ?k) P) buf = Some (put_bytes 0 (take (unat ?k) P) buf)" using k by (simp add: put_in_def)
  have run: "tcp_stream_receive conn buf max_len t n = Some (True, ?k, put_bytes 0 (take (unat ?k) P) buf, c3, n')"
    by (simp only: tcp_stream_receive_def Let_def p w c(1) put c1(1) s bind.bind_lunit prod.case option.case if_False less_irrefl
        c2_def [symmetric] c3_def [symmetric])
  have "take (unat ?k) (put_bytes 0 (take (unat ?k) P) buf) = take (unat ?k) P" using k PL(1) by (simp add: put_bytes_def)
  moreover have "cn_peer_seq c3 = cn_peer_seq conn + ucast ?L + (if has_flag seg TCP_FLAG_FIN then 1 else 0)"
    by (simp add: c3_def c2_def c1(4))
  ultimately show ?thesis using run c3 c1(2) by (metis append_take_drop_id)
qed


definition sample_stream :: "u16 \<Rightarrow> net" where
  "sample_stream len = sample_net\<lparr>n_eth := sample_link\<lparr>l_polls := (\<lambda>i. (10,
     tcp_frame [82, 84, 0, 18, 52, 86] [82, 84, 0, 18, 53, 2] [10, 0, 2, 2] [10, 0, 2, 15] 80 43981 7 9 0x18 [104, 101, 108, 108] len 0 0))\<rparr>\<rparr>"

definition sample_conn :: tcp_conn_t where
  "sample_conn = \<lparr>cn_pool_slot = 0, cn_gateway_mac = [82, 84, 0, 18, 53, 2], cn_target_ip = [10, 0, 2, 2], cn_target_port = 80,
     cn_local_port = 43981, cn_my_seq = 9, cn_peer_seq = 7, cn_peer_finished = False, cn_pending_buf = replicate 1500 0, cn_pending_len = 0\<rparr>"

lemma sample_wait:
  "\<exists>rb n1. tcp_wait_segment [10, 0, 2, 2] 80 43981 100 (stack_buf 1500 (sample_stream len)) (sample_stream len) =
      Some (Some \<lparr>si_seq = 7, si_ack = 9, si_flags = 0x18, si_payload_len = len, si_payload_offset = 54\<rparr>, rb, n1) \<and>
    host_ok n1 \<and> length rb = 1500 \<and> get_bytes 54 4 rb = [104, 101, 108, 108]"
proof -
  let ?n = "sample_stream len" and ?b = "stack_buf 1500 (sample_stream len)"
  let ?F = "tcp_frame [82, 84, 0, 18, 52, 86] [82, 84, 0, 18, 53, 2] [10, 0, 2, 2] [10, 0, 2, 15] 80 43981 7 9 0x18 [104, 101, 108, 108] len 0 0"
  let ?n1 = "?n\<lparr>n_now := 10, n_eth := (n_eth ?n)\<lparr>l_next := 1\<rparr>\<rparr>"
  note f = tcp_frame_fields [OF _ _ _ _ refl, of "[82, 84, 0, 18, 52, 86]" "[82, 84, 0, 18, 53, 2]" "[10, 0, 2, 2]" "[10, 0, 2, 15]"
      80 43981 7 9 "0x18" "[104, 101, 108, 108]" len 0 0 "drop 58 ?b", simplified]
  have F: "length ?F = 58" by (simp add: tcp_frame_def ip_head_def)
  then have buf: "put_bytes 0 ?F ?b = ?F @ drop 58 ?b" by (simp add: put_bytes_def)
  have rx: "netdev_receive ?b 1500 ?n = Some (58, ?F @ drop 58 ?b, ?n1)"
    using F buf by (simp add: netdev_receive_def e1000_receive_def sample_stream_def sample_net_def sample_link_def stack_buf_def Let_def)
  have "n_drop ?n1 = 0" "n_now ?n = 0" by (simp_all add: sample_stream_def sample_net_def)
  then have "tcp_wait_segment [10, 0, 2, 2] 80 43981 100 ?b ?n =
      Some (Some \<lparr>si_seq = 7, si_ack = 9, si_flags = 0x18, si_payload_len = len, si_payload_offset = 54\<rparr>, ?F @ drop 58 ?b, ?n1)"
    using rx f(1-6) by (simp add: tcp_wait_segment_def poll_loop.simps tcp_check_def)
  moreover have "host_ok ?n1" by (simp add: host_ok_def netdev_get_mac_def sample_stream_def sample_net_def sample_link_def)
  moreover have "length (?F @ drop 58 ?b) = 1500" using F by (simp add: stack_buf_def)
  moreover have "get_bytes 54 4 (?F @ drop 58 ?b) = [104, 101, 108, 108]"
    using f(7) by (auto simp: bytes_of_def numeral_eq_Suc split: if_splits)
  ultimately show ?thesis by blast
qed


text \<open>
  The payload length of a segment is what its header says, with wrap-around, and is not compared with the
  length of the frame: a receive whose caller asks for enough bytes reads beyond the receive buffer of
  1500 bytes.
\<close>

theorem tcp_receive_overreads:
  assumes "cn_pending_len conn = 0" and "\<not> cn_peer_finished conn"
    and "tcp_wait_segment (cn_target_ip conn) (cn_target_port conn) (cn_local_port conn) t (stack_buf 1500 n) n = Some (Some seg, rb, n1)"
    and "length rb = 1500" and "1500 < unat (si_payload_offset seg) + min (unat (si_payload_len seg)) (unat max_len)"
  shows "tcp_stream_receive conn buf max_len t n = None"
proof -
  have "payload_bytes rb seg 0 (unat (min (si_payload_len seg) max_len)) = None"
    using assms(4,5) by (simp add: payload_bytes_def bytes_of_def unat_min_u16)
  then show ?thesis using assms(1-3) by (simp add: tcp_stream_receive_def Let_def)
qed

theorem tcp_receive_overreads_witness:
  "tcp_stream_receive sample_conn (replicate 2000 0) 2000 100 (sample_stream 65516) = None"
proof -
  obtain rb n1 where w: "tcp_wait_segment [10, 0, 2, 2] 80 43981 100 (stack_buf 1500 (sample_stream 65516)) (sample_stream 65516) =
      Some (Some \<lparr>si_seq = 7, si_ack = 9, si_flags = 0x18, si_payload_len = 65516, si_payload_offset = 54\<rparr>, rb, n1)" "length rb = 1500"
    using sample_wait [of 65516] by blast
  show ?thesis
    by (rule tcp_receive_overreads [where rb = rb and
          seg = "\<lparr>si_seq = 7, si_ack = 9, si_flags = 0x18, si_payload_len = 65516, si_payload_offset = 54\<rparr>"])
      (use w in \<open>simp_all add: sample_conn_def\<close>)
qed

end
