(* ===== verification/Spec2Isabelle.thy ===== *)
theory Spec2Isabelle
  imports Prelude Strings_Lib Frames Cow Shm Paging Address_Space Heap Heap_Alloc Objects Ipc Requests
    Sandbox Sched Syscalls Process Blockdev Minifs Minifs_Store Minifs_Files Tmpfs
    Devfs Vfs File_Objects Fs_Calls Hash Aes_Modes Inflate_Correct Bignum X509 Tcp
begin

text \<open>
  A verification library for the minic-os kernel.

  \<^bold>\<open>Conventions.\<close> Machine integers are words of their width, C structs are records, fixed tables
  are lists, a C string is a byte list with a terminator. \<open>None\<close> stands for an access outside the
  object the C code indexes; the error values of the code (\<^verbatim>\<open>-1\<close>, \<^verbatim>\<open>NULL\<close>, \<^verbatim>\<open>false\<close>) are
  ordinary results. The kernel runs on one processor and brackets its critical sections with
  interrupt-flag save and restore, so an operation is one atomic step.
\<close>

end
